(* ===== verification/Prelude.thy ===== *)
theory Prelude
  imports Main "HOL-Library.Multiset" "HOL-Library.Monad_Syntax" "HOL-Library.Sublist"
begin

text \<open>
  Shared vocabulary of the development: the names of the C types, C's 32 and 64 bit signed
  integers, and generic facts on lists, options and folds that several components use.
\<close>

section \<open>Types\<close>

text \<open>
  An \<open>sds\<close> is Redis' length-counted byte string. A run-time fault of the C program
  (a failed \<open>serverAssert\<close>, a \<open>serverPanic\<close>, an access outside an array, a read of an
  uninitialised field, a pointer used at the wrong type) is the value \<open>None\<close> of an
  \<open>option\<close>; every function that can fault returns an \<open>option\<close>.
\<close>

type_synonym sds = string

named_theorems crdt_defs \<open>definitions of the command framework unfolded together\<close>
named_theorems text_eval
named_theorems inv_defs \<open>definitions of invariants\<close>

section \<open>C integers\<close>

text \<open>
  A C \<open>int\<close> is a HOL \<open>int\<close>; where the code can leave the 32 bit range the result is
  wrapped with \<open>int32\<close> (two's complement), a \<open>long long\<close> with \<open>int64\<close>.
\<close>

definition int32 :: "int \<Rightarrow> int" where
  "int32 x = (x + 2 ^ 31) mod 2 ^ 32 - 2 ^ 31"

definition int64 :: "int \<Rightarrow> int" where
  "int64 x = (x + 2 ^ 63) mod 2 ^ 64 - 2 ^ 63"

definition is_int32 :: "int \<Rightarrow> bool" where
  "is_int32 x \<longleftrightarrow> - (2 ^ 31) \<le> x \<and> x < 2 ^ 31"

definition is_int64 :: "int \<Rightarrow> bool" where
  "is_int64 x \<longleftrightarrow> - (2 ^ 63) \<le> x \<and> x < 2 ^ 63"

lemma int32_id [simp]: "is_int32 x \<Longrightarrow> int32 x = x"
  by (simp add: int32_def is_int32_def)

lemma is_int32_int32 [simp]: "is_int32 (int32 x)"
  unfolding is_int32_def int32_def
  using pos_mod_bound[of "2 ^ 32" "x + 2 ^ 31"] pos_mod_sign[of "2 ^ 32" "x + 2 ^ 31"]
  by simp

lemma int64_id [simp]: "is_int64 x \<Longrightarrow> int64 x = x"
  by (simp add: int64_def is_int64_def)

lemma int32_0 [simp]: "int32 0 = 0"
  by (simp add: int32_def)

lemma int32_nonneg:
  assumes "0 \<le> x" "x < 2 ^ 31"
  shows "int32 x = x"
  using assms by (simp add: is_int32_def)

lemma is_int32_small [simp]: "0 \<le> x \<Longrightarrow> x < 2147483648 \<Longrightarrow> is_int32 x"
  by (simp add: is_int32_def)

lemma int32_diff:
  assumes "is_int32 x" "0 \<le> x" "is_int32 y" "0 \<le> y"
  shows "int32 (x - y) = x - y"
  using assms by (intro int32_id) (auto simp: is_int32_def)

section \<open>Lists\<close>

lemma fold_invariant:
  assumes "P s" and "\<And>x s. x \<in> set xs \<Longrightarrow> P s \<Longrightarrow> P (f x s)"
  shows "P (fold f xs s)"
  using assms by (induction xs arbitrary: s) auto

lemma distinct_map_filter_fst [simp]:
  "distinct (map f xs) \<Longrightarrow> distinct (map f (filter P xs))"
  by (induction xs) auto

lemma last_takeWhile_dropWhile:
  "xs = takeWhile P xs @ dropWhile P xs"
  by simp

lemma find_Some_iff_first:
  "find P xs = Some x \<Longrightarrow> P x \<and> x \<in> set xs"
  by (auto simp: find_Some_iff)

lemma find_unique:
  "distinct (map f xs) \<Longrightarrow> a \<in> set xs \<Longrightarrow> find (\<lambda>x. f x = f a) xs = Some a"
  by (induction xs) (auto simp: image_iff)

lemma find_cong_set: "\<forall>x \<in> set xs. P x = Q x \<Longrightarrow> find P xs = find Q xs"
  by (induction xs) auto

lemma distinct_map_remove1: "distinct (map f xs) \<Longrightarrow> distinct (map f (remove1 a xs))"
  by (induction xs) (auto dest: set_remove1_subset[THEN subsetD])

lemma find_None_conv: "find P xs = None \<longleftrightarrow> (\<forall>x \<in> set xs. \<not> P x)"
  by (auto simp: find_None_iff)

lemma mset_snoc_split:
  "mset xs = mset (ys @ [y]) \<Longrightarrow> \<exists>us vs. xs = us @ y # vs"
  by (metis in_set_conv_decomp mset_eq_setD list.set_intros(1) set_append Un_iff)

lemma bex_filter_set: "(\<exists>x \<in> set (filter P xs). Q x) \<longleftrightarrow> (\<exists>x \<in> set xs. P x \<and> Q x)"
  by auto

lemma list4E:
  assumes "length m = 4"
  obtains a b c d where "m = [a, b, c, d]"
  using assms by (auto simp: numeral_eq_Suc length_Suc_conv)

lemma list5E:
  assumes "length m = 5"
  obtains a b c d e where "m = [a, b, c, d, e]"
  using assms by (auto simp: numeral_eq_Suc length_Suc_conv)

end
