(* ===== verification/DoubleArith.thy ===== *)
theory DoubleArith
  imports Prelude Complex_Main
begin

text \<open>
  The C type \<open>double\<close> (IEEE 754 binary64) of the scores: a finite value is a rational, and
  every operation rounds its exact result to the nearest representable value, ties to
  even, with gradual underflow and overflow to infinity. The sign of zero is not
  represented, since no code modelled here distinguishes the two zeros.
\<close>

section \<open>Definitions\<close>

datatype double = NInf | Fin rat | PInf | NaN

definition pow2 :: "int \<Rightarrow> rat" where
  "pow2 k = (if 0 \<le> k then 2 ^ nat k else 1 / 2 ^ nat (- k))"

fun ilog2 :: "nat \<Rightarrow> nat" where
  "ilog2 n = (if n \<le> 1 then 0 else Suc (ilog2 (n div 2)))"

declare ilog2.simps [simp del]

text \<open>The exponent of a positive rational: \<open>2 ^ e \<le> x < 2 ^ (e + 1)\<close>.\<close>

definition rat_exponent :: "rat \<Rightarrow> int" where
  "rat_exponent x =
     (let (n, d) = quotient_of x; e = int (ilog2 (nat n)) - int (ilog2 (nat d))
      in if pow2 e \<le> x then (if pow2 (e + 1) \<le> x then e + 1 else e) else e - 1)"

text \<open>The weight of the last place of the 53 bit significand, not below \<open>2 ^ -1074\<close>.\<close>

definition quantum :: "rat \<Rightarrow> int" where
  "quantum x = (if x = 0 then - 1074 else max (rat_exponent \<bar>x\<bar> - 52) (- 1074))"

definition round_even :: "rat \<Rightarrow> int" where
  "round_even x =
     (let f = \<lfloor>x\<rfloor>; r = x - of_int f
      in if r < 1 / 2 then f else if r > 1 / 2 then f + 1
         else if even f then f else f + 1)"

definition round_double :: "rat \<Rightarrow> double" where
  "round_double x =
     (let q = quantum x; v = of_int (round_even (x / pow2 q)) * pow2 q
      in if v \<ge> 2 ^ 1024 then PInf else if v \<le> - (2 ^ 1024) then NInf else Fin v)"

text \<open>The conversion from an integer type, and the operations the sorted sets use.\<close>

definition double_of_int :: "int \<Rightarrow> double" where
  "double_of_int n = round_double (of_int n)"

fun dadd :: "double \<Rightarrow> double \<Rightarrow> double" where
  "dadd (Fin a) (Fin b) = round_double (a + b)"
| "dadd NaN b = NaN"
| "dadd a NaN = NaN"
| "dadd PInf NInf = NaN"
| "dadd NInf PInf = NaN"
| "dadd PInf b = PInf"
| "dadd NInf b = NInf"
| "dadd a PInf = PInf"
| "dadd a NInf = NInf"

fun dneg :: "double \<Rightarrow> double" where
  "dneg (Fin a) = Fin (- a)"
| "dneg PInf = NInf"
| "dneg NInf = PInf"
| "dneg NaN = NaN"

abbreviation (input) dzero :: double where
  "dzero \<equiv> Fin 0"

text \<open>
  A linear order on the type, with \<open>NaN\<close> on top; the C operators \<open><\<close>, \<open>==\<close> are false on
  \<open>NaN\<close>.
\<close>

fun double_le :: "double \<Rightarrow> double \<Rightarrow> bool" where
  "double_le NInf b = True"
| "double_le (Fin a) (Fin b) = (a \<le> b)"
| "double_le (Fin a) NInf = False"
| "double_le (Fin a) b = True"
| "double_le PInf b = (b = PInf \<or> b = NaN)"
| "double_le NaN b = (b = NaN)"

instantiation double :: linorder
begin

definition less_eq_double :: "double \<Rightarrow> double \<Rightarrow> bool" where
  "less_eq_double = double_le"

definition less_double :: "double \<Rightarrow> double \<Rightarrow> bool" where
  "less_double a b \<longleftrightarrow> double_le a b \<and> \<not> double_le b a"

instance
proof
  fix a b c :: double
  show "a < b \<longleftrightarrow> a \<le> b \<and> \<not> b \<le> a"
    by (simp add: less_double_def less_eq_double_def)
  show "a \<le> a"
    by (cases a) (simp_all add: less_eq_double_def)
  show "a \<le> b \<Longrightarrow> b \<le> c \<Longrightarrow> a \<le> c"
    by (cases a; cases b; cases c) (simp_all add: less_eq_double_def)
  show "a \<le> b \<Longrightarrow> b \<le> a \<Longrightarrow> a = b"
    by (cases a; cases b) (simp_all add: less_eq_double_def)
  show "a \<le> b \<or> b \<le> a"
    by (cases a; cases b) (auto simp: less_eq_double_def)
qed

end

definition dlt :: "double \<Rightarrow> double \<Rightarrow> bool" where
  "dlt a b \<longleftrightarrow> a \<noteq> NaN \<and> b \<noteq> NaN \<and> a < b"

definition deq :: "double \<Rightarrow> double \<Rightarrow> bool" where
  "deq a b \<longleftrightarrow> a \<noteq> NaN \<and> b \<noteq> NaN \<and> a = b"

definition dabs :: "double \<Rightarrow> double" where
  "dabs v = (if dlt dzero v then v else dneg v)"

section \<open>Facts\<close>

lemma dlt_not_nan: "a \<noteq> NaN \<Longrightarrow> b \<noteq> NaN \<Longrightarrow> dlt a b \<longleftrightarrow> a < b"
  by (simp add: dlt_def)

lemma deq_not_nan: "a \<noteq> NaN \<Longrightarrow> b \<noteq> NaN \<Longrightarrow> deq a b \<longleftrightarrow> a = b"
  by (simp add: deq_def)

lemma Fin_less [simp]: "Fin a < Fin b \<longleftrightarrow> a < b" "Fin a \<le> Fin b \<longleftrightarrow> a \<le> b"
  by (auto simp: less_double_def less_eq_double_def)

lemma dadd_commute: "dadd a b = dadd b a"
  by (cases a; cases b) (simp_all add: add.commute)

lemma round_even_int [simp]: "round_even (of_int n) = n"
  by (simp add: round_even_def)

lemma pow2_pos [simp]: "0 < pow2 k"
  by (simp add: pow2_def)

text \<open>A value that is a multiple of its own quantum is represented exactly.\<close>

lemma round_double_exact:
  assumes "x = of_int m * pow2 (quantum x)" and "\<bar>x\<bar> < 2 ^ 1024"
  shows "round_double x = Fin x"
proof -
  have "x / pow2 (quantum x) = of_int m"
    using assms(1) pow2_pos[of "quantum x"] by (metis less_irrefl nonzero_mult_div_cancel_right)
  then have "of_int (round_even (x / pow2 (quantum x))) * pow2 (quantum x) = x"
    using assms(1) by simp
  with assms(2) show ?thesis
    by (simp add: round_double_def abs_less_iff)
qed

lemma round_double_0: "round_double 0 = Fin 0"
proof (rule round_double_exact[of 0 0])
  show "(0 :: rat) = of_int 0 * pow2 (quantum 0)"
    unfolding of_int_0 mult_zero_left by (rule refl)
  show "\<bar>0 :: rat\<bar> < 2 ^ 1024"
    unfolding abs_zero by (rule zero_less_power, rule zero_less_numeral)
qed

lemma quotient_of_of_int: "quotient_of (of_int m) = (m, 1)"
  by (simp add: of_int_rat quotient_of_Fract normalize_def)

lemma pow2_neg: "0 \<le> k \<Longrightarrow> pow2 (- k) * 2 ^ nat k = 1"
  by (simp add: pow2_def)

lemma ilog2_bounds: "0 < n \<Longrightarrow> 2 ^ ilog2 n \<le> n \<and> n < 2 ^ Suc (ilog2 n)"
proof (induction n rule: ilog2.induct)
  case (1 n)
  show ?case
  proof (cases "n \<le> 1")
    case True
    with 1(2) show ?thesis by (simp add: ilog2.simps[of n])
  next
    case False
    with 1(1) have "2 ^ ilog2 (n div 2) \<le> n div 2 \<and> n div 2 < 2 ^ Suc (ilog2 (n div 2))"
      by simp
    with False show ?thesis by (subst (1 2) ilog2.simps) auto
  qed
qed

text \<open>Integers of at most 53 bits are exact, so 32 bit scores are.\<close>

lemma round_double_int:
  assumes "\<bar>n\<bar> < 2 ^ 53"
  shows "round_double (of_int n) = Fin (of_int n)"
proof (cases "n = 0")
  case True
  then show ?thesis by (simp only: of_int_0 round_double_0)
next
  case False
  let ?x = "of_int n :: rat"
  have q: "quotient_of \<bar>?x\<bar> = (\<bar>n\<bar>, 1)"
    using quotient_of_of_int[of "\<bar>n\<bar>"] by (simp only: of_int_abs)
  define l where "l = ilog2 (nat \<bar>n\<bar>)"
  have l: "2 ^ l \<le> nat \<bar>n\<bar>" "nat \<bar>n\<bar> < 2 ^ Suc l"
    using ilog2_bounds[of "nat \<bar>n\<bar>"] False by (auto simp: l_def)
  have li: "(2::int) ^ l \<le> \<bar>n\<bar>" "\<bar>n\<bar> < 2 ^ Suc l"
    using l by (simp_all add: nat_less_iff)
  have "(2::int) ^ l < 2 ^ 53" using li(1) assms by (rule order_le_less_trans)
  then have l53: "l < 53" by (rule power_less_imp_less_exp[rotated]) simp
  have "of_int (2 ^ l) \<le> (of_int \<bar>n\<bar> :: rat)" "(of_int \<bar>n\<bar> :: rat) < of_int (2 ^ Suc l)"
    using li by (simp_all only: of_int_le_iff of_int_less_iff)
  then have low: "pow2 (int l) \<le> \<bar>?x\<bar>" and up: "\<not> pow2 (int l + 1) \<le> \<bar>?x\<bar>"
    by (simp_all add: pow2_def nat_add_distrib not_le)
  have "rat_exponent \<bar>?x\<bar> = int l"
    using q low up by (simp add: rat_exponent_def l_def[symmetric] ilog2.simps[of "Suc 0"])
  then have qu: "quantum ?x = int l - 52" using False l53 by (simp add: quantum_def)
  have "?x = of_int (n * 2 ^ nat (52 - int l)) * pow2 (int l - 52)"
    using pow2_neg[of "52 - int l"] l53 by (simp add: mult.assoc mult.commute[of "2 ^ _"])
  moreover have "\<bar>?x\<bar> < 2 ^ 1024"
  proof -
    have "\<bar>?x\<bar> < 2 ^ 53" using assms by (metis of_int_abs of_int_less_iff of_int_numeral of_int_power)
    also have "(2::rat) ^ 53 \<le> 2 ^ 1024" by (rule power_increasing) simp_all
    finally show ?thesis .
  qed
  ultimately show ?thesis using round_double_exact[of ?x] qu by metis
qed

lemma double_of_int_not_NaN [simp]: "double_of_int n \<noteq> NaN"
  by (simp add: double_of_int_def round_double_def Let_def)

lemma double_of_int_exact: "\<bar>n\<bar> < 2 ^ 53 \<Longrightarrow> double_of_int n = Fin (of_int n)"
  by (simp add: double_of_int_def round_double_int)

lemma is_int32_53: "is_int32 n \<Longrightarrow> \<bar>n\<bar> < 2 ^ 53"
  by (auto simp: is_int32_def)

text \<open>On integers of moderate size the additions of the score arithmetic are exact.\<close>

lemma dadd_int_exact:
  "\<bar>m + n\<bar> < 2 ^ 53 \<Longrightarrow> dadd (Fin (of_int m)) (Fin (of_int n)) = Fin (of_int (m + n))"
  using round_double_int[of "m + n"] by simp

end
