(* ===== verification/SkipList.thy ===== *)
theory SkipList
  imports DoubleArith "HOL-Library.Char_ord" "HOL-Library.List_Lexorder"
    "HOL-Library.Product_Lexorder"
begin

text \<open>
  The skip list of t_zset.c, ordered by score and then by element. A skip list is its
  nodes in order, each with the number of its levels: position 0 is the header, position
  \<open>p\<close> the \<open>p\<close>-th node, the forward pointer of level \<open>i\<close> leads to the next node with more
  than \<open>i\<close> levels, the span of that pointer is the difference of the two positions, the
  backward pointer of a node is the position before it and the tail is the last node.
  The level drawn for a new node is an argument.
\<close>

section \<open>Definitions\<close>

text \<open>\<open>sdscmp\<close> of sds.c: \<open>memcmp\<close> on the common prefix, then the lengths.\<close>

fun sdscmp :: "sds \<Rightarrow> sds \<Rightarrow> int" where
  "sdscmp [] [] = 0"
| "sdscmp [] (d # t) = - 1"
| "sdscmp (c # s) [] = 1"
| "sdscmp (c # s) (d # t) =
     (if (of_char c :: nat) < of_char d then - 1
      else if (of_char c :: nat) > of_char d then 1
      else sdscmp s t)"

record zslnode =
  zn_score :: double
  zn_ele :: sds
  zn_level :: nat

record zskiplist =
  zsl_nodes :: "zslnode list"
  zsl_level :: nat

abbreviation (input) ZSKIPLIST_MAXLEVEL :: nat where
  "ZSKIPLIST_MAXLEVEL \<equiv> 32"

text \<open>
  \<open>zslRandomLevel\<close>: the argument is the number of consecutive draws of \<open>random()\<close> that fall
  below \<open>ZSKIPLIST_P\<close>.
\<close>

definition zslRandomLevel :: "nat \<Rightarrow> nat" where
  "zslRandomLevel k = (let level = 1 + k in if level < ZSKIPLIST_MAXLEVEL then level else ZSKIPLIST_MAXLEVEL)"

definition zslCreate :: zskiplist where
  "zslCreate = \<lparr>zsl_nodes = [], zsl_level = 1\<rparr>"

text \<open>\<open>level[i].forward\<close> of the node at position \<open>p\<close>.\<close>

definition zsl_forward :: "zslnode list \<Rightarrow> nat \<Rightarrow> nat \<Rightarrow> nat option" where
  "zsl_forward nodes i p =
     find (\<lambda>q. i < zn_level (nodes ! (q - 1))) [Suc p..<Suc (length nodes)]"

definition zsl_before :: "double \<Rightarrow> sds \<Rightarrow> zslnode \<Rightarrow> bool" where
  "zsl_before s e x \<longleftrightarrow> dlt (zn_score x) s \<or> (deq (zn_score x) s \<and> sdscmp (zn_ele x) e < 0)"

text \<open>The inner \<open>while\<close> of a search: follow level \<open>i\<close> as long as the next node is smaller.\<close>

function zsl_walk :: "zslnode list \<Rightarrow> (zslnode \<Rightarrow> bool) \<Rightarrow> nat \<Rightarrow> nat \<Rightarrow> nat" where
  "zsl_walk nodes bef i p =
     (case zsl_forward nodes i p of
        None \<Rightarrow> p
      | Some q \<Rightarrow> if bef (nodes ! (q - 1)) then zsl_walk nodes bef i q else p)"
  by pat_completeness auto
termination
proof (relation "measure (\<lambda>(nodes, bef, i, p). length nodes - p)", goal_cases)
  case (2 nodes bef i p q)
  then have "q \<in> set [Suc p..<Suc (length nodes)]"
    unfolding zsl_forward_def using find_Some_iff_first by metis
  then show ?case by auto
qed simp

declare zsl_walk.simps [simp del]

text \<open>The outer loop, from the top level down: the positions \<open>update[i]\<close>.\<close>

fun zsl_seek :: "zslnode list \<Rightarrow> (zslnode \<Rightarrow> bool) \<Rightarrow> nat \<Rightarrow> nat \<Rightarrow> nat list" where
  "zsl_seek nodes bef 0 p = []"
| "zsl_seek nodes bef (Suc i) p =
     (let p' = zsl_walk nodes bef i p in p' # zsl_seek nodes bef i p')"

definition zsl_update0 :: "zskiplist \<Rightarrow> double \<Rightarrow> sds \<Rightarrow> nat" where
  "zsl_update0 zsl s e = last (0 # zsl_seek (zsl_nodes zsl) (zsl_before s e) (zsl_level zsl) 0)"

definition zslInsert :: "nat \<Rightarrow> zskiplist \<Rightarrow> double \<Rightarrow> sds \<Rightarrow> zskiplist option" where
  "zslInsert lev zsl s e =
     (if s = NaN then None
      else let p = zsl_update0 zsl s e
           in Some (zsl\<lparr>zsl_level := (if lev > zsl_level zsl then lev else zsl_level zsl),
                       zsl_nodes := take p (zsl_nodes zsl) @
                         \<lparr>zn_score = s, zn_ele = e, zn_level = lev\<rparr> # drop p (zsl_nodes zsl)\<rparr>))"

text \<open>The loop of \<open>zslDeleteNode\<close> that drops levels the header no longer uses.\<close>

fun zsl_shrink :: "zslnode list \<Rightarrow> nat \<Rightarrow> nat" where
  "zsl_shrink nodes l =
     (if l > 1 \<and> zsl_forward nodes (l - 1) 0 = None then zsl_shrink nodes (l - 1) else l)"

declare zsl_shrink.simps [simp del]

definition zslDeleteNode :: "zskiplist \<Rightarrow> nat \<Rightarrow> zskiplist" where
  "zslDeleteNode zsl p =
     (let nodes = take p (zsl_nodes zsl) @ drop (Suc p) (zsl_nodes zsl)
      in \<lparr>zsl_nodes = nodes, zsl_level = zsl_shrink nodes (zsl_level zsl)\<rparr>)"

definition zslDelete :: "zskiplist \<Rightarrow> double \<Rightarrow> sds \<Rightarrow> bool \<times> zskiplist" where
  "zslDelete zsl s e =
     (let p = zsl_update0 zsl s e
      in if p < length (zsl_nodes zsl) \<and> deq s (zn_score (zsl_nodes zsl ! p)) \<and>
            sdscmp (zn_ele (zsl_nodes zsl ! p)) e = 0
         then (True, zslDeleteNode zsl p) else (False, zsl))"

definition zslUpdateScore ::
    "nat \<Rightarrow> zskiplist \<Rightarrow> double \<Rightarrow> sds \<Rightarrow> double \<Rightarrow> zskiplist option" where
  "zslUpdateScore lev zsl curscore e newscore =
     (let p = zsl_update0 zsl curscore e; nodes = zsl_nodes zsl
      in if \<not> (p < length nodes \<and> deq curscore (zn_score (nodes ! p)) \<and>
                sdscmp (zn_ele (nodes ! p)) e = 0) then None
         else if (p = 0 \<or> dlt (zn_score (nodes ! (p - 1))) newscore) \<and>
                 (Suc p = length nodes \<or> dlt newscore (zn_score (nodes ! Suc p)))
         then Some (zsl\<lparr>zsl_nodes := nodes[p := (nodes ! p)\<lparr>zn_score := newscore\<rparr>]\<rparr>)
         else zslInsert lev (zslDeleteNode zsl p) newscore (zn_ele (nodes ! p)))"

section \<open>Invariant\<close>

definition zn_key :: "zslnode \<Rightarrow> double \<times> sds" where
  "zn_key x = (zn_score x, zn_ele x)"

definition zsl_inv :: "zskiplist \<Rightarrow> bool" where
  "zsl_inv zsl \<longleftrightarrow> sorted_wrt (\<lambda>x y. zn_key x < zn_key y) (zsl_nodes zsl) \<and>
     (\<forall>x \<in> set (zsl_nodes zsl). zn_score x \<noteq> NaN \<and> 0 < zn_level x \<and> zn_level x \<le> zsl_level zsl) \<and>
     0 < zsl_level zsl"

lemma sdscmp_spec:
  "sdscmp s t < 0 \<longleftrightarrow> s < t" "sdscmp s t = 0 \<longleftrightarrow> s = t"
  by (induction s t rule: sdscmp.induct)
    (auto simp: less_char_def of_char_eq_iff not_less order_le_less)

lemma zsl_before_key:
  "s \<noteq> NaN \<Longrightarrow> zn_score x \<noteq> NaN \<Longrightarrow> zsl_before s e x \<longleftrightarrow> zn_key x < (s, e)"
  by (auto simp: zsl_before_def dlt_def deq_def sdscmp_spec zn_key_def)

section \<open>The multi-level search finds the position of a linear scan\<close>

lemma zsl_forward_Some:
  "zsl_forward nodes i p = Some q \<Longrightarrow> p < q \<and> q \<le> length nodes \<and> i < zn_level (nodes ! (q - 1))"
  by (auto simp: zsl_forward_def dest!: find_Some_iff_first)

lemma zsl_forward_0:
  assumes "\<forall>x \<in> set nodes. 0 < zn_level x"
  shows "zsl_forward nodes 0 p = (if p < length nodes then Some (Suc p) else None)"
proof (cases "p < length nodes")
  case True
  then have "[Suc p..<Suc (length nodes)] = Suc p # [Suc (Suc p)..<Suc (length nodes)]"
    by (simp add: upt_conv_Cons)
  with True assms show ?thesis by (simp add: zsl_forward_def)
qed (simp add: zsl_forward_def)

lemma zsl_walk_bounds:
  assumes "\<forall>j < length nodes. bef (nodes ! j) \<longleftrightarrow> j < k" "p \<le> k"
  shows "p \<le> zsl_walk nodes bef i p \<and> zsl_walk nodes bef i p \<le> k"
  using assms
proof (induction nodes bef i p rule: zsl_walk.induct)
  case (1 nodes bef i p)
  show ?case
  proof (cases "zsl_forward nodes i p")
    case None
    with 1(3) show ?thesis by (simp add: zsl_walk.simps[of nodes bef i p])
  next
    case (Some q)
    note q = zsl_forward_Some[OF Some]
    show ?thesis
    proof (cases "bef (nodes ! (q - 1))")
      case True
      with q 1(2) have "q - 1 < k" by auto
      with q have "q \<le> k" by linarith
      with 1(1)[OF Some True 1(2)] q Some True show ?thesis
        by (simp add: zsl_walk.simps[of nodes bef i p])
    next
      case False
      with Some 1(3) show ?thesis by (simp add: zsl_walk.simps[of nodes bef i p])
    qed
  qed
qed

lemma zsl_walk_0:
  assumes "\<forall>x \<in> set nodes. 0 < zn_level x" "\<forall>j < length nodes. bef (nodes ! j) \<longleftrightarrow> j < k"
    "p \<le> k" "k \<le> length nodes"
  shows "zsl_walk nodes bef 0 p = k"
  using assms(3)
proof (induction "k - p" arbitrary: p)
  case 0
  with assms show ?case by (subst zsl_walk.simps) (simp add: zsl_forward_0)
next
  case (Suc d)
  then have "p < k" "p < length nodes" using assms(4) by auto
  moreover have "zsl_walk nodes bef 0 (Suc p) = k" using Suc by simp
  ultimately show ?case
    using assms(1,2) by (subst zsl_walk.simps) (simp add: zsl_forward_0)
qed

lemma zsl_seek_last:
  assumes "\<forall>x \<in> set nodes. 0 < zn_level x" "\<forall>j < length nodes. bef (nodes ! j) \<longleftrightarrow> j < k"
    "p \<le> k" "k \<le> length nodes" "0 < l"
  shows "last (zsl_seek nodes bef l p) = k"
  using assms(3,5)
proof (induction l arbitrary: p)
  case (Suc i)
  let ?p' = "zsl_walk nodes bef i p"
  have b: "?p' \<le> k" using zsl_walk_bounds[OF assms(2) Suc.prems(1)] by simp
  show ?case
  proof (cases i)
    case 0
    with zsl_walk_0[OF assms(1,2) Suc.prems(1) assms(4)] show ?thesis by simp
  next
    case (Suc j)
    then have "zsl_seek nodes bef i ?p' \<noteq> []" by (simp add: Let_def)
    with Suc.IH[OF b] Suc show ?thesis by (simp add: Let_def)
  qed
qed simp

lemma zsl_inv_before:
  assumes "zsl_inv zsl" "s \<noteq> NaN" "j < length (zsl_nodes zsl)"
  shows "zsl_before s e (zsl_nodes zsl ! j) \<longleftrightarrow>
     j < length (takeWhile (zsl_before s e) (zsl_nodes zsl))" (is "_ \<longleftrightarrow> j < ?k")
proof
  assume "j < ?k"
  then show "zsl_before s e (zsl_nodes zsl ! j)"
    by (metis nth_mem set_takeWhileD takeWhile_nth)
next
  let ?ns = "zsl_nodes zsl"
  assume bj: "zsl_before s e (?ns ! j)"
  show "j < ?k"
  proof (rule ccontr)
    assume "\<not> j < ?k"
    then have k: "?k \<le> j" "?k < length ?ns" using assms(3) by auto
    then have nb: "\<not> zsl_before s e (?ns ! ?k)" by (rule_tac nth_length_takeWhile)
    with bj k have "?k < j" using order_le_less by blast
    then have "zn_key (?ns ! ?k) < zn_key (?ns ! j)"
      using assms(1,3) by (auto simp: zsl_inv_def sorted_wrt_iff_nth_less)
    moreover have "zn_score (?ns ! ?k) \<noteq> NaN" "zn_score (?ns ! j) \<noteq> NaN"
      using assms(1,3) k(2) by (auto simp: zsl_inv_def)
    ultimately show False
      using nb bj assms(2) by (auto simp: zsl_before_key)
  qed
qed

text \<open>The optimised search equals the linear scan.\<close>

lemma zsl_update0_eq:
  assumes "zsl_inv zsl" "s \<noteq> NaN"
  shows "zsl_update0 zsl s e = length (takeWhile (zsl_before s e) (zsl_nodes zsl))"
proof -
  have "last (zsl_seek (zsl_nodes zsl) (zsl_before s e) (zsl_level zsl) 0) =
      length (takeWhile (zsl_before s e) (zsl_nodes zsl))"
    using assms zsl_inv_before[OF assms] length_takeWhile_le
    by (intro zsl_seek_last) (auto simp: zsl_inv_def)
  moreover have "zsl_seek (zsl_nodes zsl) (zsl_before s e) (zsl_level zsl) 0 \<noteq> []"
    using assms by (cases "zsl_level zsl") (auto simp: zsl_inv_def Let_def)
  ultimately show ?thesis by (simp add: zsl_update0_def)
qed

section \<open>Operations as operations on an ordered set of keys\<close>

definition zsl_keys :: "zskiplist \<Rightarrow> (double \<times> sds) set" where
  "zsl_keys zsl = zn_key ` set (zsl_nodes zsl)"

lemma zslCreate_inv [simp]: "zsl_inv zslCreate" "zsl_keys zslCreate = {}"
  by (simp_all add: zslCreate_def zsl_inv_def zsl_keys_def)

lemma zsl_inv_length: "zsl_inv zsl \<Longrightarrow> length (zsl_nodes zsl) = card (zsl_keys zsl)"
proof -
  assume "zsl_inv zsl"
  then have "sorted_wrt (<) (map zn_key (zsl_nodes zsl))"
    by (simp add: zsl_inv_def sorted_wrt_map)
  then have "distinct (map zn_key (zsl_nodes zsl))"
    by (simp add: strict_sorted_iff)
  then show ?thesis by (metis zsl_keys_def distinct_card length_map list.set_map)
qed

lemma zsl_split:
  fixes zsl s e
  defines "l \<equiv> takeWhile (zsl_before s e) (zsl_nodes zsl)"
    and "r \<equiv> dropWhile (zsl_before s e) (zsl_nodes zsl)"
  assumes inv: "zsl_inv zsl" and s: "s \<noteq> NaN"
  shows "zsl_nodes zsl = l @ r" "\<forall>x \<in> set l. zn_key x < (s, e)" "\<forall>x \<in> set r. (s, e) \<le> zn_key x"
    "take (zsl_update0 zsl s e) (zsl_nodes zsl) = l" "drop (zsl_update0 zsl s e) (zsl_nodes zsl) = r"
    "zsl_update0 zsl s e = length l"
proof -
  show lr: "zsl_nodes zsl = l @ r" by (simp add: l_def r_def)
  have nn: "\<forall>x \<in> set (zsl_nodes zsl). zn_score x \<noteq> NaN" using inv by (simp add: zsl_inv_def)
  show "\<forall>x \<in> set l. zn_key x < (s, e)"
    using nn s zsl_before_key by (metis l_def set_takeWhileD)
  show "\<forall>x \<in> set r. (s, e) \<le> zn_key x"
  proof (cases r)
    case (Cons y ys)
    then have "\<not> zsl_before s e y" using hd_dropWhile by (metis list.discI list.sel(1) r_def)
    then have "(s, e) \<le> zn_key y"
      using nn s lr Cons by (simp add: zsl_before_key not_less)
    moreover have "\<forall>x \<in> set ys. zn_key y < zn_key x"
      using inv lr Cons by (simp add: zsl_inv_def sorted_wrt_append)
    ultimately show ?thesis using Cons by fastforce
  qed simp
  show u: "zsl_update0 zsl s e = length l"
    using zsl_update0_eq[OF inv s] by (simp add: l_def)
  show "take (zsl_update0 zsl s e) (zsl_nodes zsl) = l" "drop (zsl_update0 zsl s e) (zsl_nodes zsl) = r"
    using u lr by simp_all
qed

lemma zslRandomLevel_pos: "0 < zslRandomLevel k" "zslRandomLevel k \<le> ZSKIPLIST_MAXLEVEL"
  by (simp_all add: zslRandomLevel_def Let_def)

lemma zsl_splitE:
  assumes "zsl_inv zsl" "s \<noteq> NaN"
  obtains l r where "zsl_nodes zsl = l @ r" "\<forall>x \<in> set l. zn_key x < (s, e)"
    "\<forall>x \<in> set r. (s, e) \<le> zn_key x" "zsl_update0 zsl s e = length l"
    "sorted_wrt (\<lambda>x y. zn_key x < zn_key y) (l @ r)"
    "\<forall>x \<in> set (l @ r). zn_score x \<noteq> NaN \<and> 0 < zn_level x \<and> zn_level x \<le> zsl_level zsl"
  using zsl_split[OF assms, of e] assms(1) unfolding zsl_inv_def by metis

lemma zslInsert_spec:
  assumes "zsl_inv zsl" "s \<noteq> NaN" "0 < lev" "(s, e) \<notin> zsl_keys zsl"
  shows "\<exists>zsl'. zslInsert lev zsl s e = Some zsl' \<and> zsl_inv zsl' \<and>
     zsl_keys zsl' = insert (s, e) (zsl_keys zsl)"
proof -
  obtain l r where sp: "zsl_nodes zsl = l @ r" "\<forall>x \<in> set l. zn_key x < (s, e)"
    "\<forall>x \<in> set r. (s, e) \<le> zn_key x" "zsl_update0 zsl s e = length l"
    "sorted_wrt (\<lambda>x y. zn_key x < zn_key y) (l @ r)"
    "\<forall>x \<in> set (l @ r). zn_score x \<noteq> NaN \<and> 0 < zn_level x \<and> zn_level x \<le> zsl_level zsl"
    using zsl_splitE[OF assms(1,2)] .
  define x where "x = \<lparr>zn_score = s, zn_ele = e, zn_level = lev\<rparr>"
  let ?z = "zsl\<lparr>zsl_level := max lev (zsl_level zsl), zsl_nodes := l @ x # r\<rparr>"
  have z: "zslInsert lev zsl s e = Some ?z"
    using assms(2) sp(1,4) by (simp add: zslInsert_def Let_def max_def x_def)
  have k: "zn_key x = (s, e)" by (simp add: zn_key_def x_def)
  have "zn_key y \<noteq> (s, e)" if "y \<in> set r" for y
    using assms(4) that sp(1) unfolding zsl_keys_def by (metis UnCI image_eqI set_append)
  then have "\<forall>y \<in> set r. (s, e) < zn_key y"
    using sp(3) by (metis order_le_less)
  then have "sorted_wrt (\<lambda>x y. zn_key x < zn_key y) (l @ x # r)"
    using sp(2,5) k by (simp add: sorted_wrt_append)
  then have "zsl_inv ?z"
    using assms(1,2,3) sp(6) by (auto simp: zsl_inv_def x_def le_max_iff_disj)
  moreover have "zsl_keys ?z = insert (s, e) (zsl_keys zsl)"
    using sp(1) k by (simp add: zsl_keys_def)
  ultimately show ?thesis using z by blast
qed

lemma zsl_forward_None:
  "zsl_forward nodes i 0 = None \<longleftrightarrow> (\<forall>x \<in> set nodes. zn_level x \<le> i)"
proof -
  have "zsl_forward nodes i 0 = None \<longleftrightarrow> (\<forall>q \<in> {1..length nodes}. zn_level (nodes ! (q - 1)) \<le> i)"
    by (auto simp: zsl_forward_def find_None_conv not_less simp del: upt_Suc)
  also have "\<dots> \<longleftrightarrow> (\<forall>j < length nodes. zn_level (nodes ! j) \<le> i)"
  proof
    assume a: "\<forall>q \<in> {1..length nodes}. zn_level (nodes ! (q - 1)) \<le> i"
    show "\<forall>j < length nodes. zn_level (nodes ! j) \<le> i"
      using a by (auto dest!: bspec[of _ _ "Suc _"])
  qed auto
  finally show ?thesis by (auto simp: all_set_conv_all_nth)
qed

lemma zsl_shrink_spec:
  assumes "\<forall>x \<in> set nodes. zn_level x \<le> l" "0 < l"
  shows "(\<forall>x \<in> set nodes. zn_level x \<le> zsl_shrink nodes l) \<and> 0 < zsl_shrink nodes l"
  using assms
proof (induction nodes l rule: zsl_shrink.induct)
  case (1 nodes l)
  then show ?case
    by (subst (1 2) zsl_shrink.simps) (auto simp: zsl_forward_None)
qed

lemma zslDeleteNode_spec:
  assumes "zsl_inv zsl" "p < length (zsl_nodes zsl)"
  shows "zsl_inv (zslDeleteNode zsl p) \<and>
     zsl_keys (zslDeleteNode zsl p) = zsl_keys zsl - {zn_key (zsl_nodes zsl ! p)}"
proof -
  obtain l x r where n: "zsl_nodes zsl = l @ x # r" "length l = p"
    using assms(2) by (metis id_take_nth_drop length_take min.absorb4)
  have so: "sorted_wrt (\<lambda>x y. zn_key x < zn_key y) (l @ x # r)"
    and al: "\<forall>y \<in> set (l @ x # r). zn_score y \<noteq> NaN \<and> 0 < zn_level y \<and> zn_level y \<le> zsl_level zsl"
    and lv: "0 < zsl_level zsl"
    using assms(1) n(1) by (simp_all add: zsl_inv_def)
  have d: "zslDeleteNode zsl p = \<lparr>zsl_nodes = l @ r, zsl_level = zsl_shrink (l @ r) (zsl_level zsl)\<rparr>"
    using n by (simp add: zslDeleteNode_def Let_def)
  have "zsl_inv (zslDeleteNode zsl p)"
    using so al zsl_shrink_spec[of "l @ r" "zsl_level zsl"] lv
    by (auto simp: d zsl_inv_def sorted_wrt_append)
  moreover have "zn_key x \<notin> zn_key ` set (l @ r)"
    using so by (auto simp: sorted_wrt_append)
  then have "zsl_keys (zslDeleteNode zsl p) = zsl_keys zsl - {zn_key x}"
    using n(1) by (auto simp: d zsl_keys_def)
  moreover have "zsl_nodes zsl ! p = x" using n by auto
  ultimately show ?thesis by simp
qed

text \<open>The node that a search for a present key stops before.\<close>

lemma zsl_update0_found:
  assumes "zsl_inv zsl" "(s, e) \<in> zsl_keys zsl"
  shows "zsl_update0 zsl s e < length (zsl_nodes zsl) \<and>
     zn_key (zsl_nodes zsl ! zsl_update0 zsl s e) = (s, e) \<and> s \<noteq> NaN"
proof -
  obtain y where y: "y \<in> set (zsl_nodes zsl)" "zn_key y = (s, e)"
    using assms(2) by (auto simp: zsl_keys_def)
  then have s: "s \<noteq> NaN" using assms(1) by (auto simp: zsl_inv_def zn_key_def)
  obtain l r where sp: "zsl_nodes zsl = l @ r" "\<forall>x \<in> set l. zn_key x < (s, e)"
    "\<forall>x \<in> set r. (s, e) \<le> zn_key x" "zsl_update0 zsl s e = length l"
    "sorted_wrt (\<lambda>x y. zn_key x < zn_key y) (l @ r)"
    using zsl_splitE[OF assms(1) s] .
  with y have "y \<in> set r" by auto
  then obtain z zs where r: "r = z # zs" by (cases r) auto
  with sp(3,5) y \<open>y \<in> set r\<close> have "zn_key z = (s, e)"
    by (auto simp: sorted_wrt_append)
  with sp(1,4) r s show ?thesis by simp
qed

lemma zslDelete_spec:
  assumes "zsl_inv zsl" "(s, e) \<in> zsl_keys zsl"
  shows "fst (zslDelete zsl s e) \<and> zsl_inv (snd (zslDelete zsl s e)) \<and>
     zsl_keys (snd (zslDelete zsl s e)) = zsl_keys zsl - {(s, e)}"
  using zsl_update0_found[OF assms] zslDeleteNode_spec[OF assms(1), of "zsl_update0 zsl s e"]
  by (auto simp: zslDelete_def Let_def zn_key_def deq_def sdscmp_spec)

lemma zslDelete_absent:
  assumes "zsl_inv zsl" "(s, e) \<notin> zsl_keys zsl"
  shows "zslDelete zsl s e = (False, zsl)"
proof -
  have "zn_key (zsl_nodes zsl ! p) \<noteq> (s, e)" if "p < length (zsl_nodes zsl)" for p
    using assms(2) that nth_mem[OF that] unfolding zsl_keys_def by (metis image_eqI)
  then show ?thesis by (auto simp: zslDelete_def Let_def zn_key_def deq_def sdscmp_spec)
qed

lemma sorted_wrt_list_update:
  assumes "sorted_wrt R (l @ x # r)" "\<forall>y \<in> set l. R y x'" "\<forall>y \<in> set r. R x' y"
  shows "sorted_wrt R (l @ x' # r)"
  using assms by (simp add: sorted_wrt_append)

lemma zslUpdateScore_spec:
  assumes inv: "zsl_inv zsl" and k: "(cur, e) \<in> zsl_keys zsl" and new: "new \<noteq> NaN"
    and lev: "0 < lev" and uniq: "\<forall>s. (s, e) \<in> zsl_keys zsl \<longrightarrow> s = cur"
  shows "\<exists>zsl'. zslUpdateScore lev zsl cur e new = Some zsl' \<and> zsl_inv zsl' \<and>
     zsl_keys zsl' = insert (new, e) (zsl_keys zsl - {(cur, e)})"
proof -
  let ?p = "zsl_update0 zsl cur e" and ?ns = "zsl_nodes zsl"
  note f = zsl_update0_found[OF inv k]
  then obtain l x r where n: "?ns = l @ x # r" "length l = ?p"
    by (metis id_take_nth_drop length_take min.absorb4)
  have x: "?ns ! ?p = x" unfolding n(1) n(2)[symmetric] by (rule nth_append_length)
  with f have xk: "zn_key x = (cur, e)" by simp
  have so: "sorted_wrt (\<lambda>x y. zn_key x < zn_key y) (l @ x # r)"
    and al: "\<forall>y \<in> set (l @ x # r). zn_score y \<noteq> NaN \<and> 0 < zn_level y \<and> zn_level y \<le> zsl_level zsl"
    using inv n(1) by (simp_all add: zsl_inv_def)
  let ?stay = "(?p = 0 \<or> dlt (zn_score (?ns ! (?p - 1))) new) \<and>
     (Suc ?p = length ?ns \<or> dlt new (zn_score (?ns ! Suc ?p)))"
  show ?thesis
  proof (cases ?stay)
    case True
    note T = True[unfolded n(2)[symmetric] n(1)]
    let ?x' = "x\<lparr>zn_score := new\<rparr>"
    have "zn_score y < new" if "y \<in> set l" for y
    proof -
      from that obtain l' z where l: "l = l' @ [z]" by (metis empty_iff list.set(1) rev_exhaust)
      then have "zn_score z < new" using T by (simp add: dlt_def nth_append)
      moreover have "zn_score y \<le> zn_score z"
        using so l that by (auto simp: sorted_wrt_append zn_key_def)
      ultimately show ?thesis by simp
    qed
    moreover have "new < zn_score y" if "y \<in> set r" for y
    proof -
      from that obtain z r' where r: "r = z # r'" by (cases r) auto
      then have "new < zn_score z" using T by (simp add: dlt_def nth_append)
      moreover have "zn_score z \<le> zn_score y"
        using so r that by (auto simp: sorted_wrt_append zn_key_def)
      ultimately show ?thesis by simp
    qed
    ultimately have so': "sorted_wrt (\<lambda>x y. zn_key x < zn_key y) (l @ ?x' # r)"
      by (intro sorted_wrt_list_update[OF so]) (simp_all add: zn_key_def)
    let ?z = "zsl\<lparr>zsl_nodes := l @ ?x' # r\<rparr>"
    have "zslUpdateScore lev zsl cur e new = Some ?z"
      using True f n x xk by (simp add: zslUpdateScore_def Let_def zn_key_def deq_def sdscmp_spec
          list_update_append)
    moreover have "zsl_inv ?z" using so' al new inv by (auto simp: zsl_inv_def)
    moreover have "zn_key x \<notin> zn_key ` set (l @ r)" using so by (auto simp: sorted_wrt_append)
    then have "zsl_keys ?z = insert (new, e) (zsl_keys zsl - {(cur, e)})"
      using n(1) xk by (auto simp: zsl_keys_def zn_key_def)
    ultimately show ?thesis by blast
  next
    case False
    have d: "zsl_inv (zslDeleteNode zsl ?p)"
      "zsl_keys (zslDeleteNode zsl ?p) = zsl_keys zsl - {(cur, e)}"
      using zslDeleteNode_spec[OF inv, of ?p] f by auto
    then have "(new, e) \<notin> zsl_keys (zslDeleteNode zsl ?p)" using uniq by auto
    then obtain zsl' where "zslInsert lev (zslDeleteNode zsl ?p) new e = Some zsl'" "zsl_inv zsl'"
      "zsl_keys zsl' = insert (new, e) (zsl_keys (zslDeleteNode zsl ?p))"
      using zslInsert_spec[OF d(1) new lev] by blast
    moreover have "zslUpdateScore lev zsl cur e new = zslInsert lev (zslDeleteNode zsl ?p) new e"
      using False f x unfolding zslUpdateScore_def Let_def
      by (auto simp: zn_key_def deq_def sdscmp_spec)
    ultimately show ?thesis using d(2) by auto
  qed
qed

end
