(* ===== verification/CFormat.thy ===== *)
theory CFormat
  imports Prelude
begin

text \<open>
  The text encoding of integers. The replicas exchange clocks and positions as decimal
  text, printed with \<open>%d\<close> (\<open>sdscatprintf\<close>) and read back with \<open>atoi\<close> and
  \<open>sscanf\<close>; command arguments are read with \<open>string2ll\<close> (util.c). This theory models the
  conversions and proves that reading inverts printing.
\<close>

section \<open>Printing\<close>

definition digit_char :: "nat \<Rightarrow> char" where
  "digit_char d = char_of (48 + d)"

definition isdigit :: "char \<Rightarrow> bool" where
  "isdigit c \<longleftrightarrow> 48 \<le> (of_char c :: nat) \<and> (of_char c :: nat) \<le> 57"

definition isspace :: "char \<Rightarrow> bool" where
  "isspace c \<longleftrightarrow> (of_char c :: nat) = 32 \<or> (9 \<le> (of_char c :: nat) \<and> (of_char c :: nat) \<le> 13)"

definition digit_val :: "char \<Rightarrow> nat" where
  "digit_val c = of_char c - 48"

fun dec_of_nat :: "nat \<Rightarrow> sds" where
  "dec_of_nat n =
     (if n < 10 then [digit_char n] else dec_of_nat (n div 10) @ [digit_char (n mod 10)])"

declare dec_of_nat.simps [simp del]

text \<open>\<open>printf("%d", n)\<close>.\<close>

definition print_d :: "int \<Rightarrow> sds" where
  "print_d n = (if n < 0 then CHR ''-'' # dec_of_nat (nat (- n)) else dec_of_nat (nat n))"

text \<open>Evaluation of printing on concrete numbers.\<close>

lemma digit_char_simps [simp]:
  "digit_char 0 = CHR ''0''" "digit_char 1 = CHR ''1''" "digit_char (Suc 0) = CHR ''1''"
  "digit_char 2 = CHR ''2''" "digit_char 3 = CHR ''3''" "digit_char 4 = CHR ''4''"
  "digit_char 5 = CHR ''5''" "digit_char 6 = CHR ''6''" "digit_char 7 = CHR ''7''"
  "digit_char 8 = CHR ''8''" "digit_char 9 = CHR ''9''"
  by (simp_all add: digit_char_def char_of_def bit_Suc_0_iff)

lemmas [text_eval] = print_d_def dec_of_nat.simps

section \<open>Reading\<close>

definition digits_val :: "sds \<Rightarrow> nat" where
  "digits_val ds = foldl (\<lambda>v c. 10 * v + digit_val c) 0 ds"

text \<open>
  \<open>atoi\<close>: white space, an optional sign, then the longest run of digits (0 if there is
  none); the value is converted to \<open>int\<close>.
\<close>

definition atoi :: "sds \<Rightarrow> int" where
  "atoi s =
     (case dropWhile isspace s of
        [] \<Rightarrow> 0
      | c # t \<Rightarrow>
          if c = CHR ''-'' then int32 (- int (digits_val (takeWhile isdigit t)))
          else if c = CHR ''+'' then int32 (int (digits_val (takeWhile isdigit t)))
          else int32 (int (digits_val (takeWhile isdigit (c # t)))))"

text \<open>
  One \<open>%d\<close> conversion of \<open>sscanf\<close>: like \<open>atoi\<close>, but at least one digit is required,
  and the rest of the input is returned. \<open>None\<close> is a matching failure, after which
  \<open>sscanf\<close> leaves the remaining variables unassigned.
\<close>

definition scan_digits :: "bool \<Rightarrow> sds \<Rightarrow> (int \<times> sds) option" where
  "scan_digits neg t =
     (if takeWhile isdigit t = [] then None
      else let v = int (digits_val (takeWhile isdigit t))
           in Some (int32 (if neg then - v else v), dropWhile isdigit t))"

definition scan_d :: "sds \<Rightarrow> (int \<times> sds) option" where
  "scan_d s =
     (case dropWhile isspace s of
        [] \<Rightarrow> None
      | c # t \<Rightarrow>
          if c = CHR ''-'' then scan_digits True t
          else if c = CHR ''+'' then scan_digits False t
          else scan_digits False (c # t))"

section \<open>string2ll\<close>

text \<open>
  \<open>string2ll\<close> of util.c. The loop keeps an \<open>unsigned long long\<close>, whose arithmetic wraps around, and
  checks for overflow before each multiplication and addition. The result is \<open>None\<close> where the
  code returns 0.
\<close>

abbreviation (input) ULLONG_MAX :: nat where
  "ULLONG_MAX \<equiv> 18446744073709551615"

abbreviation (input) LLONG_MAX :: nat where
  "LLONG_MAX \<equiv> 9223372036854775807"

definition uint64 :: "nat \<Rightarrow> nat" where
  "uint64 v = v mod 2 ^ 64"

fun string2ll_loop :: "nat \<Rightarrow> sds \<Rightarrow> (nat \<times> sds) option" where
  "string2ll_loop v [] = Some (v, [])"
| "string2ll_loop v (c # p) =
     (if isdigit c then
        if v > ULLONG_MAX div 10 then None
        else if uint64 (v * 10) > ULLONG_MAX - digit_val c then None
        else string2ll_loop (uint64 (uint64 (v * 10) + digit_val c)) p
      else Some (v, c # p))"

text \<open>The negation of an \<open>unsigned long long\<close> is its complement, which the assignment to \<open>*value\<close> reads as signed.\<close>

definition string2ll_tail :: "bool \<Rightarrow> sds \<Rightarrow> int option" where
  "string2ll_tail negative p =
     (case p of
        [] \<Rightarrow> None
      | c # q \<Rightarrow>
          if isdigit c \<and> c \<noteq> CHR ''0'' then
            (case string2ll_loop (digit_val c) q of
               None \<Rightarrow> None
             | Some (v, r) \<Rightarrow>
                 if r \<noteq> [] then None
                 else if negative then
                   if v > LLONG_MAX + 1 then None else Some (int64 (int (uint64 (2 ^ 64 - v))))
                 else
                   if v > LLONG_MAX then None else Some (int64 (int v)))
          else None)"

definition string2ll :: "sds \<Rightarrow> int option" where
  "string2ll s =
     (if s = [] then None
      else if s = ''0'' then Some 0
      else if hd s = CHR ''-'' then string2ll_tail True (tl s)
      else string2ll_tail False s)"

section \<open>Digits\<close>

lemma isdigit_digit_char [simp]: "d < 10 \<Longrightarrow> isdigit (digit_char d)"
  by (simp add: isdigit_def digit_char_def)

lemma digit_val_digit_char [simp]: "d < 10 \<Longrightarrow> digit_val (digit_char d) = d"
  by (simp add: digit_val_def digit_char_def)

lemma digit_val_bound: "isdigit c \<Longrightarrow> digit_val c < 10"
  by (auto simp: isdigit_def digit_val_def)

lemma digit_char_digit_val: "isdigit c \<Longrightarrow> digit_char (digit_val c) = c"
  by (auto simp: isdigit_def digit_val_def digit_char_def)

lemma char_of_48 [simp]: "char_of (48::nat) = CHR ''0''"
  by code_simp

lemma digit_val_pos: "isdigit c \<Longrightarrow> c \<noteq> CHR ''0'' \<Longrightarrow> 0 < digit_val c"
  using digit_char_digit_val[of c] by (cases "digit_val c") (auto simp: digit_char_def)

lemma isdigit_not_sign [simp]:
  "isdigit c \<Longrightarrow> c \<noteq> CHR ''-''" "isdigit c \<Longrightarrow> c \<noteq> CHR ''+''"
  by (auto simp: isdigit_def)

lemma isdigit_not_isspace [simp]: "isdigit c \<Longrightarrow> \<not> isspace c"
  by (auto simp: isdigit_def isspace_def)

lemma separators_not_digits [simp]:
  "\<not> isdigit CHR '',''" "\<not> isdigit CHR ''|''" "\<not> isdigit CHR ''-''"
  "\<not> isspace CHR ''-''"
  by (simp_all add: isdigit_def isspace_def)

lemma dec_of_nat_digits: "\<forall>c \<in> set (dec_of_nat n). isdigit c"
  by (induction n rule: dec_of_nat.induct) (subst dec_of_nat.simps, auto)

lemma dec_of_nat_nonempty [simp]: "dec_of_nat n \<noteq> []"
  by (subst dec_of_nat.simps) simp

lemma digits_val_snoc [simp]: "digits_val (ds @ [c]) = 10 * digits_val ds + digit_val c"
  by (simp add: digits_val_def)

lemma digits_val_dec_of_nat [simp]: "digits_val (dec_of_nat n) = n"
proof (induction n rule: dec_of_nat.induct)
  case (1 n)
  show ?case
  proof (cases "n < 10")
    case True
    then show ?thesis by (subst dec_of_nat.simps) (simp add: digits_val_def)
  next
    case False
    with 1 show ?thesis by (subst dec_of_nat.simps) simp
  qed
qed

lemma takeWhile_dec_of_nat:
  "takeWhile isdigit (dec_of_nat n @ r) = dec_of_nat n @ takeWhile isdigit r"
  "dropWhile isdigit (dec_of_nat n @ r) = dropWhile isdigit r"
  by (simp_all add: takeWhile_append dropWhile_append dec_of_nat_digits)

lemma dec_of_nat_Cons:
  obtains c t where "dec_of_nat n = c # t" and "isdigit c" and "\<forall>x \<in> set t. isdigit x"
  by (metis dec_of_nat_digits dec_of_nat_nonempty list.exhaust list.set_intros(1,2))

section \<open>Reading inverts printing\<close>

text \<open>A string that does not continue a number: empty, or starting with a non-digit.\<close>

definition ends_number :: "sds \<Rightarrow> bool" where
  "ends_number r \<longleftrightarrow> takeWhile isdigit r = []"

lemma ends_number_simps [simp]:
  "ends_number []" "ends_number (c # r) \<longleftrightarrow> \<not> isdigit c"
  by (auto simp: ends_number_def)

lemma ends_number_dropWhile [simp]: "ends_number r \<Longrightarrow> dropWhile isdigit r = r"
  by (cases r) auto

lemma takeWhile_number [simp]:
  "ends_number r \<Longrightarrow> takeWhile isdigit (dec_of_nat n @ r) = dec_of_nat n"
  by (simp add: ends_number_def takeWhile_dec_of_nat)

lemma dropWhile_number [simp]:
  "ends_number r \<Longrightarrow> dropWhile isdigit (dec_of_nat n @ r) = r"
  by (simp add: ends_number_dropWhile takeWhile_dec_of_nat)

lemma ends_number_takeWhile [simp]: "ends_number r \<Longrightarrow> takeWhile isdigit r = []"
  by (simp add: ends_number_def)

text \<open>Reading a string that starts with a digit.\<close>

lemma atoi_digits:
  assumes "xs \<noteq> []" "\<forall>c \<in> set xs. isdigit c"
  shows "atoi (xs @ r) = int32 (int (digits_val (takeWhile isdigit (xs @ r))))"
  using assms by (cases xs) (auto simp: atoi_def)

lemma scan_d_digits:
  assumes "xs \<noteq> []" "\<forall>c \<in> set xs. isdigit c"
  shows "scan_d (xs @ r) = scan_digits False (xs @ r)"
  using assms by (cases xs) (auto simp: scan_d_def)

lemma atoi_print_d:
  assumes "is_int32 n" "ends_number r"
  shows "atoi (print_d n @ r) = n"
proof (cases "n < 0")
  case True
  then show ?thesis using assms by (simp add: print_d_def atoi_def)
next
  case False
  then show ?thesis using assms
    by (simp add: print_d_def atoi_digits dec_of_nat_digits)
qed

lemma scan_d_print_d:
  assumes "is_int32 n" "ends_number r"
  shows "scan_d (print_d n @ r) = Some (n, r)"
proof (cases "n < 0")
  case True
  then show ?thesis using assms
    by (simp add: print_d_def scan_d_def scan_digits_def)
next
  case False
  then show ?thesis using assms
    by (simp add: print_d_def scan_d_digits dec_of_nat_digits scan_digits_def
       )
qed

text \<open>The characters of a printed number: digits and the minus sign only.\<close>

lemma print_d_chars: "x \<in> set (print_d n) \<Longrightarrow> isdigit x \<or> x = CHR ''-''"
  using dec_of_nat_digits by (auto simp: print_d_def split: if_splits)

lemma print_d_no_separator:
  "CHR '','' \<notin> set (print_d n)" "CHR ''|'' \<notin> set (print_d n)"
  using print_d_chars[of "CHR '',''" n] print_d_chars[of "CHR ''|''" n] by auto

lemma print_d_nonempty [simp]: "print_d n \<noteq> []"
  by (simp add: print_d_def)

section \<open>string2ll is exact\<close>

lemma dec_of_nat_unfold:
  "0 < v \<Longrightarrow> d < 10 \<Longrightarrow> dec_of_nat (v * 10 + d) = dec_of_nat v @ [digit_char d]"
  by (subst dec_of_nat.simps) (simp add: add.commute)

lemma dec_of_nat_small: "d < 10 \<Longrightarrow> dec_of_nat d = [digit_char d]"
  by (subst dec_of_nat.simps) simp

text \<open>The overflow checks keep the arithmetic from wrapping around.\<close>

lemma uint64_small [simp]: "v \<le> ULLONG_MAX \<Longrightarrow> uint64 v = v"
  by (simp add: uint64_def)

lemma string2ll_step:
  assumes "\<not> v > ULLONG_MAX div 10"
  shows "uint64 (v * 10) = v * 10" "\<not> v * 10 > ULLONG_MAX - digit_val c \<Longrightarrow> isdigit c \<Longrightarrow> uint64 (v * 10 + digit_val c) = v * 10 + digit_val c"
  using assms digit_val_bound[of c] by auto

lemma string2ll_signed:
  "v \<le> LLONG_MAX \<Longrightarrow> int64 (int v) = int v" "0 < v \<Longrightarrow> v \<le> LLONG_MAX + 1 \<Longrightarrow> int64 (int (uint64 (2 ^ 64 - v))) = - int v"
proof -
  show "v \<le> LLONG_MAX \<Longrightarrow> int64 (int v) = int v" by (simp add: is_int64_def)
  assume v: "0 < v" "v \<le> LLONG_MAX + 1"
  then have "int (uint64 (2 ^ 64 - v)) + 2 ^ 63 = 2 ^ 63 - int v + 2 ^ 64" by (simp add: uint64_def of_nat_diff)
  then have "(int (uint64 (2 ^ 64 - v)) + 2 ^ 63) mod 2 ^ 64 = (2 ^ 63 - int v) mod 2 ^ 64" by (simp only: mod_add_self2)
  also have "\<dots> = 2 ^ 63 - int v" using v by (intro mod_pos_pos_trivial) simp_all
  finally show "int64 (int (uint64 (2 ^ 64 - v))) = - int v" by (simp add: int64_def)
qed

text \<open>The loop reads exactly the digits that continue the number printed so far.\<close>

lemma string2ll_loop_sound:
  assumes "0 < v" and "string2ll_loop v p = Some (w, [])"
  shows "dec_of_nat w = dec_of_nat v @ p \<and> 0 < w"
  using assms
proof (induction v p rule: string2ll_loop.induct)
  case (2 v c p)
  then have c: "isdigit c" "\<not> v > ULLONG_MAX div 10" "\<not> uint64 (v * 10) > ULLONG_MAX - digit_val c" by (auto split: if_splits)
  note s = string2ll_step(1)[OF c(2)] string2ll_step(2)[OF c(2) _ c(1)]
  then have "string2ll_loop (v * 10 + digit_val c) p = Some (w, [])" using 2(3) c by simp
  then show ?case using 2(1)[OF c] 2(2) c s by (simp add: dec_of_nat_unfold digit_val_bound digit_char_digit_val)
qed auto

lemma digits_val_mono: "digits_val ds * 10 ^ length p \<le> digits_val (ds @ p)"
proof (induction p rule: rev_induct)
  case (snoc c p)
  have "digits_val (ds @ p @ [c]) = 10 * digits_val (ds @ p) + digit_val c"
    using digits_val_snoc[of "ds @ p" c] by simp
  with snoc show ?case by (simp del: digits_val_snoc)
qed simp

lemma string2ll_loop_complete:
  assumes "\<forall>c \<in> set p. isdigit c" and "digits_val (dec_of_nat v @ p) \<le> ULLONG_MAX" and "0 < v"
  shows "string2ll_loop v p = Some (digits_val (dec_of_nat v @ p), [])"
  using assms
proof (induction p arbitrary: v)
  case (Cons c p)
  let ?w = "v * 10 + digit_val c"
  have w: "dec_of_nat v @ c # p = dec_of_nat ?w @ p"
    using Cons.prems by (simp add: dec_of_nat_unfold digit_val_bound digit_char_digit_val)
  have "?w \<le> digits_val (dec_of_nat ?w @ p)"
    using digits_val_mono[of "dec_of_nat ?w" p]
    by (metis digits_val_dec_of_nat le_trans mult_le_mono2 mult.right_neutral one_le_power one_le_numeral)
  then have b: "?w \<le> ULLONG_MAX"
    using Cons.prems(2) w by simp
  then have "\<not> v > ULLONG_MAX div 10" "\<not> v * 10 > ULLONG_MAX - digit_val c"
    by (simp_all add: less_eq_div_iff_mult_less_eq)
  with string2ll_step(1)[OF this(1)] string2ll_step(2)[OF this(1), of c] Cons.prems Cons.IH[of ?w] show ?case unfolding w by simp
qed simp

lemma dec_of_nat_first: "0 < n \<Longrightarrow> hd (dec_of_nat n) \<noteq> CHR ''0''"
proof (induction n rule: dec_of_nat.induct)
  case (1 n)
  show ?case
  proof (cases "n < 10")
    case True
    then have "digit_val (hd (dec_of_nat n)) = n" by (simp add: dec_of_nat_small)
    with 1(2) show ?thesis by (auto simp: digit_val_def)
  next
    case False
    with 1 show ?thesis by (subst dec_of_nat.simps) (simp add: hd_append)
  qed
qed

lemma string2ll_tail_Some:
  "string2ll_tail neg p = Some n \<longleftrightarrow>
     (\<exists>v. 0 < v \<and> p = dec_of_nat v \<and> (if neg then v \<le> LLONG_MAX + 1 \<and> n = - int v
                                   else v \<le> LLONG_MAX \<and> n = int v))"
  (is "_ \<longleftrightarrow> ?R")
proof
  assume "string2ll_tail neg p = Some n"
  then obtain c q v where p: "p = c # q" and c: "isdigit c" "c \<noteq> CHR ''0''"
    and l: "string2ll_loop (digit_val c) q = Some (v, [])"
    and n: "if neg then v \<le> LLONG_MAX + 1 \<and> n = int64 (int (uint64 (2 ^ 64 - v))) else v \<le> LLONG_MAX \<and> n = int64 (int v)"
    by (auto simp: string2ll_tail_def split: list.splits option.splits if_splits prod.splits)
  have d: "dec_of_nat (digit_val c) = [c]"
    using c by (simp add: dec_of_nat_small digit_val_bound digit_char_digit_val)
  have "0 < digit_val c" using c by (rule digit_val_pos)
  then have v: "dec_of_nat v = p \<and> 0 < v"
    using string2ll_loop_sound[OF _ l] d p by simp
  with n show ?R using string2ll_signed[of v] by (intro exI[of _ v]) auto
next
  assume ?R
  then obtain v where v: "0 < v" "p = dec_of_nat v"
    and n: "if neg then v \<le> LLONG_MAX + 1 \<and> n = - int v else v \<le> LLONG_MAX \<and> n = int v"
    by blast
  obtain c q where cq: "dec_of_nat v = c # q" "isdigit c" "\<forall>x \<in> set q. isdigit x"
    by (rule dec_of_nat_Cons)
  have c0: "c \<noteq> CHR ''0''" using dec_of_nat_first[OF v(1)] cq(1) by simp
  then have "0 < digit_val c" using cq(2) by (simp add: digit_val_pos)
  moreover have d: "dec_of_nat (digit_val c) @ q = dec_of_nat v"
    using cq by (simp add: dec_of_nat_small digit_val_bound digit_char_digit_val)
  moreover have "v \<le> ULLONG_MAX" using n by (auto split: if_splits)
  ultimately have "string2ll_loop (digit_val c) q = Some (v, [])"
    using string2ll_loop_complete[of q "digit_val c"] cq(3) by simp
  then show "string2ll_tail neg p = Some n"
    using v cq c0 n string2ll_signed[of v] by (cases neg) (simp_all add: string2ll_tail_def)
qed

text \<open>
  The comment above \<open>string2ll\<close> in util.c: the string is accepted if and only if it is
  the canonical decimal text of a \<open>long long\<close>, and the value is that number.
\<close>

lemma dec_of_nat_0 [simp]: "dec_of_nat 0 = ''0''"
  by (simp add: dec_of_nat_small digit_char_def)

lemma dec_of_nat_inj: "dec_of_nat m = dec_of_nat n \<Longrightarrow> m = n"
  by (metis digits_val_dec_of_nat)

lemma dec_of_nat_sign: "dec_of_nat n \<noteq> CHR ''-'' # t"
  using dec_of_nat_digits[of n] by (metis list.set_intros(1) separators_not_digits(3))

lemma print_d_neg_iff: "print_d n = CHR ''-'' # t \<longleftrightarrow> n < 0 \<and> t = dec_of_nat (nat (- n))"
  by (auto simp: print_d_def dec_of_nat_sign)

lemma print_d_nonneg_iff: "0 \<le> n \<Longrightarrow> print_d n = dec_of_nat v \<longleftrightarrow> n = int v"
  by (auto simp: print_d_def dest: dec_of_nat_inj)

lemma string2ll_neg:
  "string2ll (CHR ''-'' # t) = Some n \<longleftrightarrow> is_int64 n \<and> CHR ''-'' # t = print_d n"
proof -
  have "string2ll (CHR ''-'' # t) = Some n \<longleftrightarrow>
      (\<exists>v. 0 < v \<and> t = dec_of_nat v \<and> v \<le> LLONG_MAX + 1 \<and> n = - int v)"
    by (simp add: string2ll_def string2ll_tail_Some)
  also have "\<dots> \<longleftrightarrow> is_int64 n \<and> n < 0 \<and> t = dec_of_nat (nat (- n))"
  proof
    assume "\<exists>v. 0 < v \<and> t = dec_of_nat v \<and> v \<le> LLONG_MAX + 1 \<and> n = - int v"
    then show "is_int64 n \<and> n < 0 \<and> t = dec_of_nat (nat (- n))"
      by (auto simp: is_int64_def)
  next
    assume "is_int64 n \<and> n < 0 \<and> t = dec_of_nat (nat (- n))"
    then show "\<exists>v. 0 < v \<and> t = dec_of_nat v \<and> v \<le> LLONG_MAX + 1 \<and> n = - int v"
      by (intro exI[of _ "nat (- n)"]) (simp add: is_int64_def nat_le_iff)
  qed
  finally show ?thesis by (metis print_d_neg_iff)
qed

lemma string2ll_nonneg:
  assumes "s \<noteq> []" "hd s \<noteq> CHR ''-''"
  shows "string2ll s = Some n \<longleftrightarrow> is_int64 n \<and> s = print_d n"
proof -
  have "string2ll s = Some n \<longleftrightarrow> (\<exists>v. s = dec_of_nat v \<and> v \<le> LLONG_MAX \<and> n = int v)"
  proof (cases "s = ''0''")
    case True
    then show ?thesis using dec_of_nat_inj[of 0] by (auto simp: string2ll_def)
  next
    case False
    then have "s = dec_of_nat v \<Longrightarrow> 0 < v" for v by (cases v) auto
    with False assms show ?thesis by (auto simp: string2ll_def string2ll_tail_Some)
  qed
  also have "\<dots> \<longleftrightarrow> is_int64 n \<and> s = print_d n"
  proof
    assume "\<exists>v. s = dec_of_nat v \<and> v \<le> LLONG_MAX \<and> n = int v"
    then show "is_int64 n \<and> s = print_d n" by (auto simp: is_int64_def print_d_def)
  next
    assume a: "is_int64 n \<and> s = print_d n"
    with assms(2) have "0 \<le> n" by (auto simp: print_d_def split: if_splits)
    with a show "\<exists>v. s = dec_of_nat v \<and> v \<le> LLONG_MAX \<and> n = int v"
      by (intro exI[of _ "nat n"]) (simp add: is_int64_def print_d_def nat_le_iff)
  qed
  finally show ?thesis .
qed

lemma string2ll_exact: "string2ll s = Some n \<longleftrightarrow> is_int64 n \<and> s = print_d n"
proof (cases s)
  case Nil
  then show ?thesis using print_d_nonempty[of n, symmetric] by (simp add: string2ll_def)
next
  case (Cons c t)
  then show ?thesis using string2ll_neg[of t n] string2ll_nonneg[of s n] by (cases "c = CHR ''-''") auto
qed

text \<open>
  C37 (strict decimal numbers): \<open>string2ll\<close> accepts a text iff it is the \<open>%d\<close> text of a
  \<open>long long\<close>, and then returns that number; no overflow slips through, and no second spelling of
  a number (blanks, signs, leading zeros) is accepted.
\<close>

theorem string2ll_canonical: "string2ll s = Some n \<longleftrightarrow> is_int64 n \<and> s = print_d n"
  by (rule string2ll_exact)

end
