(* ===== verification/Zset.thy ===== *)
theory Zset
  imports SkipList CFormat
begin

text \<open>
  The sorted set of t_zset.c in its two encodings. A ziplist is the sequence of its
  (element, score) pairs: an element entry is a string or, where \<open>zipTryEncoding\<close> succeeds, an
  integer; a score entry is read back by \<open>zzlGetScore\<close> as the double that \<open>d2string\<close> printed
  with 17 digits. The byte layout of ziplist.c is not represented. The other encoding is a
  dictionary from elements to scores together with a skip list.
\<close>

section \<open>Ziplist entries\<close>

datatype zlentry = ZStr sds | ZInt int

definition zipTryEncoding :: "sds \<Rightarrow> int option" where
  "zipTryEncoding s = (if 32 \<le> length s \<or> length s = 0 then None else string2ll s)"

definition zlentry_of :: "sds \<Rightarrow> zlentry" where
  "zlentry_of s = (case zipTryEncoding s of Some v \<Rightarrow> ZInt v | None \<Rightarrow> ZStr s)"

definition ziplistCompare :: "zlentry \<Rightarrow> sds \<Rightarrow> bool" where
  "ziplistCompare p s =
     (case p of
        ZStr t \<Rightarrow> (if length t = length s then t = s else False)
      | ZInt zval \<Rightarrow> (case zipTryEncoding s of Some sval \<Rightarrow> zval = sval | None \<Rightarrow> False))"

definition ziplistGetObject :: "zlentry \<Rightarrow> sds" where
  "ziplistGetObject p = (case p of ZStr s \<Rightarrow> s | ZInt v \<Rightarrow> print_d v)"

definition zzlCompareElements :: "zlentry \<Rightarrow> sds \<Rightarrow> int" where
  "zzlCompareElements p s = sdscmp (ziplistGetObject p) s"

section \<open>Ziplist-backed sorted set\<close>

type_synonym ziplist = "(zlentry \<times> double) list"

definition zzlLength :: "ziplist \<Rightarrow> nat" where
  "zzlLength zl = length zl"

fun zzlFind :: "ziplist \<Rightarrow> sds \<Rightarrow> (nat \<times> double) option" where
  "zzlFind [] ele = None"
| "zzlFind ((p, s) # zl) ele =
     (if ziplistCompare p ele then Some (0, s)
      else map_option (\<lambda>(i, s). (Suc i, s)) (zzlFind zl ele))"

definition zzlDelete :: "ziplist \<Rightarrow> nat \<Rightarrow> ziplist" where
  "zzlDelete zl i = take i zl @ drop (Suc i) zl"

text \<open>\<open>zzlInsertAt\<close> with the remaining list, which is empty where \<open>eptr\<close> is NULL.\<close>

definition zzlInsertAt :: "ziplist \<Rightarrow> sds \<Rightarrow> double \<Rightarrow> ziplist" where
  "zzlInsertAt zl ele score = (zlentry_of ele, score) # zl"

fun zzlInsert :: "ziplist \<Rightarrow> sds \<Rightarrow> double \<Rightarrow> ziplist" where
  "zzlInsert [] ele score = zzlInsertAt [] ele score"
| "zzlInsert ((p, s) # zl) ele score =
     (if dlt score s then zzlInsertAt ((p, s) # zl) ele score
      else if deq s score \<and> zzlCompareElements p ele > 0 then zzlInsertAt ((p, s) # zl) ele score
      else (p, s) # zzlInsert zl ele score)"

section \<open>Common sorted set API\<close>

datatype zset =
    ZipList ziplist
  | SkipDict "sds \<Rightarrow> double option" zskiplist

text \<open>The two limits of the configuration.\<close>

record zset_config =
  zset_max_ziplist_entries :: nat
  zset_max_ziplist_value :: nat

definition createZsetObject :: zset where
  "createZsetObject = SkipDict Map.empty zslCreate"

definition createZsetZiplistObject :: zset where
  "createZsetZiplistObject = ZipList []"

fun zsetLength :: "zset \<Rightarrow> nat" where
  "zsetLength (ZipList zl) = zzlLength zl"
| "zsetLength (SkipDict d zsl) = length (zsl_nodes zsl)"

definition dictAdd :: "(sds \<Rightarrow> 'v option) \<Rightarrow> sds \<Rightarrow> 'v \<Rightarrow> (sds \<Rightarrow> 'v option) option" where
  "dictAdd d k v = (if d k = None then Some (d(k \<mapsto> v)) else None)"

text \<open>
  The conversion loop of \<open>zsetConvert\<close>; \<open>rnd i\<close> determines the level of the \<open>i\<close>-th new node.
\<close>

fun zset_convert_loop ::
    "(nat \<Rightarrow> nat) \<Rightarrow> ziplist \<Rightarrow> (sds \<Rightarrow> double option) \<Rightarrow> zskiplist \<Rightarrow> zset option" where
  "zset_convert_loop rnd [] d zsl = Some (SkipDict d zsl)"
| "zset_convert_loop rnd ((p, score) # zl) d zsl =
     (let ele = ziplistGetObject p
      in do {
        zsl' \<leftarrow> zslInsert (zslRandomLevel (rnd 0)) zsl score ele;
        d' \<leftarrow> dictAdd d ele score;
        zset_convert_loop (\<lambda>i. rnd (Suc i)) zl d' zsl'
      })"

datatype zset_enc = OBJ_ENCODING_ZIPLIST | OBJ_ENCODING_SKIPLIST

fun zset_encoding :: "zset \<Rightarrow> zset_enc" where
  "zset_encoding (ZipList zl) = OBJ_ENCODING_ZIPLIST"
| "zset_encoding (SkipDict d zsl) = OBJ_ENCODING_SKIPLIST"

definition zsetConvert :: "(nat \<Rightarrow> nat) \<Rightarrow> zset \<Rightarrow> zset_enc \<Rightarrow> zset option" where
  "zsetConvert rnd z enc =
     (if zset_encoding z = enc then Some z
      else case z of
        ZipList zl \<Rightarrow> (if zl = [] then None else zset_convert_loop rnd zl Map.empty zslCreate)
      | SkipDict d zsl \<Rightarrow>
          Some (ZipList (fold (\<lambda>x zl. zl @ zzlInsertAt [] (zn_ele x) (zn_score x)) (zsl_nodes zsl) [])))"

definition zsetConvertToZiplistIfNeeded ::
    "zset_config \<Rightarrow> (nat \<Rightarrow> nat) \<Rightarrow> zset \<Rightarrow> nat \<Rightarrow> zset option" where
  "zsetConvertToZiplistIfNeeded cfg rnd z maxelelen =
     (case z of
        ZipList zl \<Rightarrow> Some z
      | SkipDict d zsl \<Rightarrow>
          (if length (zsl_nodes zsl) \<le> zset_max_ziplist_entries cfg \<and>
              maxelelen \<le> zset_max_ziplist_value cfg
           then zsetConvert rnd z OBJ_ENCODING_ZIPLIST else Some z))"

fun zsetScore :: "zset \<Rightarrow> sds \<Rightarrow> double option" where
  "zsetScore (ZipList zl) member = map_option snd (zzlFind zl member)"
| "zsetScore (SkipDict d zsl) member = d member"

record zadd_opts =
  zo_incr :: bool
  zo_nx :: bool
  zo_xx :: bool

datatype zadd_flag = ZADD_NONE | ZADD_NOP | ZADD_NAN | ZADD_ADDED | ZADD_UPDATED

record zadd_res =
  za_ret :: bool
  za_flag :: zadd_flag
  za_newscore :: "double option"
  za_zset :: zset

text \<open>
  The part of \<open>zsetAdd\<close> that both encodings have in their own copy: the options, the
  increment and the result flags. \<open>upd score\<close> replaces the score of the element, \<open>ins score\<close>
  inserts it.
\<close>

definition zset_add_with ::
    "zadd_opts \<Rightarrow> zset \<Rightarrow> double option \<Rightarrow> (double \<Rightarrow> zset option) \<Rightarrow> (double \<Rightarrow> zset option)
      \<Rightarrow> double \<Rightarrow> zadd_res option" where
  "zset_add_with opts z found upd ins score =
     (case found of
        Some curscore \<Rightarrow>
          (if zo_nx opts then Some \<lparr>za_ret = True, za_flag = ZADD_NOP, za_newscore = None, za_zset = z\<rparr>
           else let score' = (if zo_incr opts then dadd score curscore else score)
             in if zo_incr opts \<and> score' = NaN
                then Some \<lparr>za_ret = False, za_flag = ZADD_NAN, za_newscore = None, za_zset = z\<rparr>
                else let new = (if zo_incr opts then Some score' else None)
                  in if deq score' curscore
                     then Some \<lparr>za_ret = True, za_flag = ZADD_NONE, za_newscore = new, za_zset = z\<rparr>
                     else do {
                       z' \<leftarrow> upd score';
                       Some \<lparr>za_ret = True, za_flag = ZADD_UPDATED, za_newscore = new, za_zset = z'\<rparr>
                     })
      | None \<Rightarrow>
          (if \<not> zo_xx opts
           then do {
             z' \<leftarrow> ins score;
             Some \<lparr>za_ret = True, za_flag = ZADD_ADDED, za_newscore = Some score, za_zset = z'\<rparr>
           }
           else Some \<lparr>za_ret = True, za_flag = ZADD_NOP, za_newscore = None, za_zset = z\<rparr>))"

definition zsetAdd ::
    "zset_config \<Rightarrow> (nat \<Rightarrow> nat) \<Rightarrow> zset \<Rightarrow> double \<Rightarrow> sds \<Rightarrow> zadd_opts \<Rightarrow> zadd_res option" where
  "zsetAdd cfg rnd z score ele opts =
     (if score = NaN
      then Some \<lparr>za_ret = False, za_flag = ZADD_NAN, za_newscore = None, za_zset = z\<rparr>
      else case z of
        ZipList zl \<Rightarrow>
          zset_add_with opts z (map_option snd (zzlFind zl ele))
            (\<lambda>s. map_option (\<lambda>(i, cur). ZipList (zzlInsert (zzlDelete zl i) ele s)) (zzlFind zl ele))
            (\<lambda>s. let zl' = zzlInsert zl ele s
                 in if zset_max_ziplist_entries cfg < zzlLength zl' \<or>
                       zset_max_ziplist_value cfg < length ele
                    then zsetConvert rnd (ZipList zl') OBJ_ENCODING_SKIPLIST
                    else Some (ZipList zl'))
            score
      | SkipDict d zsl \<Rightarrow>
          zset_add_with opts z (d ele)
            (\<lambda>s. do {
                cur \<leftarrow> d ele;
                zsl' \<leftarrow> zslUpdateScore (zslRandomLevel (rnd 0)) zsl cur ele s;
                Some (SkipDict (d(ele \<mapsto> s)) zsl')
              })
            (\<lambda>s. do {
                zsl' \<leftarrow> zslInsert (zslRandomLevel (rnd 0)) zsl s ele;
                d' \<leftarrow> dictAdd d ele s;
                Some (SkipDict d' zsl')
              })
            score)"

definition zsetDel :: "zset \<Rightarrow> sds \<Rightarrow> (bool \<times> zset) option" where
  "zsetDel z ele =
     (case z of
        ZipList zl \<Rightarrow>
          (case zzlFind zl ele of
             Some (i, s) \<Rightarrow> Some (True, ZipList (zzlDelete zl i))
           | None \<Rightarrow> Some (False, z))
      | SkipDict d zsl \<Rightarrow>
          (case d ele of
             Some score \<Rightarrow>
               (case zslDelete zsl score ele of
                  (True, zsl') \<Rightarrow> Some (True, SkipDict (d(ele := None)) zsl')
                | (False, zsl') \<Rightarrow> None)
           | None \<Rightarrow> Some (False, z)))"

text \<open>The entry of greatest score, as the \<open>max\<close> commands read it at the tail.\<close>

definition zset_tail :: "zset \<Rightarrow> (sds \<times> double) option" where
  "zset_tail z =
     (case z of
        ZipList zl \<Rightarrow>
          (if zl = [] then None else Some (ziplistGetObject (fst (last zl)), snd (last zl)))
      | SkipDict d zsl \<Rightarrow>
          (if zsl_nodes zsl = [] then None
           else Some (zn_ele (last (zsl_nodes zsl)), zn_score (last (zsl_nodes zsl)))))"

section \<open>Invariant and abstraction\<close>

text \<open>The (score, element) pairs in the order of the encoding.\<close>

definition zset_pairs :: "zset \<Rightarrow> (double \<times> sds) list" where
  "zset_pairs z =
     (case z of
        ZipList zl \<Rightarrow> map (\<lambda>(p, s). (s, ziplistGetObject p)) zl
      | SkipDict d zsl \<Rightarrow> map zn_key (zsl_nodes zsl))"

definition pairs_ok :: "(double \<times> sds) list \<Rightarrow> bool" where
  "pairs_ok xs \<longleftrightarrow> sorted xs \<and> distinct (map snd xs) \<and> (\<forall>x \<in> set xs. fst x \<noteq> NaN)"

definition zl_enc :: "(double \<times> sds) list \<Rightarrow> ziplist" where
  "zl_enc xs = map (\<lambda>(s, e). (zlentry_of e, s)) xs"

definition zset_wf :: "zset \<Rightarrow> bool" where
  "zset_wf z \<longleftrightarrow> pairs_ok (zset_pairs z) \<and>
     (case z of
        ZipList zl \<Rightarrow> zl = zl_enc (zset_pairs z)
      | SkipDict d zsl \<Rightarrow> zsl_inv zsl \<and> (\<forall>e s. d e = Some s \<longleftrightarrow> (s, e) \<in> zsl_keys zsl))"

text \<open>The contract of \<open>zsetAdd\<close> on the map from elements to scores.\<close>

definition zadd_abs ::
    "zadd_opts \<Rightarrow> (sds \<Rightarrow> double option) \<Rightarrow> double \<Rightarrow> sds
      \<Rightarrow> bool \<times> zadd_flag \<times> double option \<times> (sds \<Rightarrow> double option)" where
  "zadd_abs opts m score ele =
     (if score = NaN then (False, ZADD_NAN, None, m)
      else case m ele of
        None \<Rightarrow> (if zo_xx opts then (True, ZADD_NOP, None, m)
                 else (True, ZADD_ADDED, Some score, m(ele \<mapsto> score)))
      | Some cur \<Rightarrow>
          (if zo_nx opts then (True, ZADD_NOP, None, m)
           else if zo_incr opts
           then (let new = dadd score cur
                 in if new = NaN then (False, ZADD_NAN, None, m)
                    else (True, if new = cur then ZADD_NONE else ZADD_UPDATED, Some new, m(ele \<mapsto> new)))
           else (True, if score = cur then ZADD_NONE else ZADD_UPDATED, None, m(ele \<mapsto> score))))"

section \<open>Ziplist lemmas\<close>

lemma zipTryEncoding_iff:
  "zipTryEncoding s = Some v \<longleftrightarrow> length s < 32 \<and> s \<noteq> [] \<and> is_int64 v \<and> s = print_d v"
  by (auto simp: zipTryEncoding_def string2ll_exact)

lemma zlentry_object [simp]: "ziplistGetObject (zlentry_of s) = s"
  by (auto simp: zlentry_of_def ziplistGetObject_def zipTryEncoding_iff split: option.split)

lemma ziplistCompare_of [simp]: "ziplistCompare (zlentry_of t) s \<longleftrightarrow> t = s"
proof (cases "zipTryEncoding t")
  case None
  then show ?thesis by (auto simp: zlentry_of_def ziplistCompare_def)
next
  case (Some v)
  have "zipTryEncoding s = Some v \<longleftrightarrow> s = t" using Some by (auto simp: zipTryEncoding_iff)
  with Some show ?thesis by (auto simp: zlentry_of_def ziplistCompare_def split: option.splits)
qed

lemma zl_enc_simps [simp]:
  "zl_enc [] = []" "zl_enc ((s, e) # xs) = (zlentry_of e, s) # zl_enc xs"
  "zl_enc (xs @ ys) = zl_enc xs @ zl_enc ys"
  "take i (zl_enc xs) = zl_enc (take i xs)" "drop i (zl_enc xs) = zl_enc (drop i xs)"
  "length (zl_enc xs) = length xs" "zl_enc xs = [] \<longleftrightarrow> xs = []"
  by (auto simp: zl_enc_def take_map drop_map)

lemma zset_pairs_enc [simp]: "zset_pairs (ZipList (zl_enc xs)) = xs"
  by (induction xs) (auto simp: zset_pairs_def)

lemma zzlFind_None: "zzlFind (zl_enc xs) ele = None \<longleftrightarrow> ele \<notin> snd ` set xs"
  by (induction xs) (auto split: if_splits)

lemma zzlFind_Some:
  "zzlFind (zl_enc xs) ele = Some (i, s) \<Longrightarrow> i < length xs \<and> xs ! i = (s, ele)"
  by (induction xs arbitrary: i) (auto split: if_splits)

lemma sdscmp_pos: "sdscmp s t > 0 \<longleftrightarrow> t < s"
  using sdscmp_spec[of s t] by (metis linorder_neqE_linordered_idom not_less_iff_gr_or_eq)

lemma zzlInsert_enc:
  "(score, ele) \<notin> set xs \<Longrightarrow> score \<noteq> NaN \<Longrightarrow> \<forall>x \<in> set xs. fst x \<noteq> NaN \<Longrightarrow>
   zzlInsert (zl_enc xs) ele score = zl_enc (insort (score, ele) xs)"
proof (induction xs)
  case (Cons x xs)
  obtain a b where x: "x = (a, b)" by fastforce
  have ne: "(score, ele) \<noteq> (a, b)" and na: "a \<noteq> NaN" "score \<noteq> NaN" using Cons.prems x by auto
  have "(score, ele) \<le> x \<longleftrightarrow> dlt score a \<or> deq a score \<and> zzlCompareElements (zlentry_of b) ele > 0"
    using ne na by (auto simp: x dlt_def deq_def zzlCompareElements_def sdscmp_pos)
  then show ?case using Cons by (simp add: x zzlInsertAt_def)
qed (simp add: zzlInsertAt_def)

lemma pairs_ok_insort:
  "pairs_ok xs \<Longrightarrow> ele \<notin> snd ` set xs \<Longrightarrow> score \<noteq> NaN \<Longrightarrow> pairs_ok (insort (score, ele) xs)"
  unfolding pairs_ok_def
  by (auto simp: sorted_insort set_insort_key distinct_map inj_on_def distinct_insort intro: rev_image_eqI)

lemma pairs_ok_delete:
  assumes "pairs_ok xs" "i < length xs" "xs ! i = (s, ele)"
  shows "pairs_ok (take i xs @ drop (Suc i) xs) \<and>
     set (take i xs @ drop (Suc i) xs) = {x \<in> set xs. snd x \<noteq> ele}"
proof -
  obtain l r where xs: "xs = l @ (s, ele) # r" "length l = i"
    using assms(2,3) by (metis id_take_nth_drop length_take min.absorb4)
  then show ?thesis using assms(1) by (auto simp: pairs_ok_def sorted_append)
qed

section \<open>Both encodings represent a map\<close>

lemma zset_wf_ZipListE:
  assumes "zset_wf (ZipList zl)"
  obtains xs where "zl = zl_enc xs" "pairs_ok xs"
  using assms that[of "zset_pairs (ZipList zl)"] by (simp add: zset_wf_def)

lemma zset_wf_enc [simp]: "zset_wf (ZipList (zl_enc xs)) \<longleftrightarrow> pairs_ok xs"
  by (simp add: zset_wf_def)

lemma set_zset_pairs_SkipDict: "set (zset_pairs (SkipDict d zsl)) = zsl_keys zsl"
  by (simp add: zset_pairs_def zsl_keys_def)

lemma zsl_pairs_ok:
  assumes "zsl_inv zsl" "\<And>e s. d e = Some s \<longleftrightarrow> (s, e) \<in> zsl_keys zsl"
  shows "pairs_ok (zset_pairs (SkipDict d zsl))"
proof -
  let ?xs = "map zn_key (zsl_nodes zsl)"
  have so: "sorted_wrt (<) ?xs" using assms(1) by (simp add: zsl_inv_def sorted_wrt_map)
  have "inj_on snd (set ?xs)"
  proof (rule inj_onI)
    fix x y assume "x \<in> set ?xs" "y \<in> set ?xs" "snd x = snd y"
    then show "x = y" using assms(2) by (metis (no_types) option.inject prod.collapse set_map zsl_keys_def)
  qed
  moreover have "distinct ?xs" using so by (simp add: strict_sorted_iff)
  moreover have "sorted ?xs" using so by (simp add: strict_sorted_iff)
  moreover have "\<forall>x \<in> set ?xs. fst x \<noteq> NaN" using assms(1) by (auto simp: zsl_inv_def zn_key_def)
  ultimately show ?thesis unfolding pairs_ok_def zset_pairs_def by (simp only: zset.case distinct_map)
qed

lemma zset_wf_SkipDict:
  "zset_wf (SkipDict d zsl) \<longleftrightarrow> zsl_inv zsl \<and> (\<forall>e s. d e = Some s \<longleftrightarrow> (s, e) \<in> zsl_keys zsl)"
  using zsl_pairs_ok[of zsl d] by (auto simp: zset_wf_def)

lemma zsetScore_pairs:
  assumes "zset_wf z"
  shows "zsetScore z e = Some s \<longleftrightarrow> (s, e) \<in> set (zset_pairs z)"
proof (cases z)
  case (ZipList zl)
  with assms obtain xs where xs: "zl = zl_enc xs" "pairs_ok xs" by (metis zset_wf_ZipListE)
  have inj: "s = t" if "(s, e) \<in> set xs" "(t, e) \<in> set xs" for s t
    using xs(2) inj_onD[OF _ _ that, of snd] by (simp add: pairs_ok_def distinct_map)
  show ?thesis
  proof (cases "zzlFind zl e")
    case None
    then have "(s, e) \<notin> set xs" using xs(1) zzlFind_None[of xs e] by (metis rev_image_eqI snd_conv)
    with None show ?thesis using ZipList xs(1) by simp
  next
    case (Some r)
    obtain i t where r: "r = (i, t)" by fastforce
    with Some xs(1) have "(t, e) \<in> set xs" by (metis nth_mem zzlFind_Some)
    with Some r inj show ?thesis using ZipList xs(1) by auto
  qed
next
  case (SkipDict d zsl)
  with assms show ?thesis by (simp add: zset_wf_SkipDict set_zset_pairs_SkipDict)
qed

lemma zsetScore_NaN: "zset_wf z \<Longrightarrow> zsetScore z e \<noteq> Some NaN"
  by (auto simp: zsetScore_pairs zset_wf_def pairs_ok_def)

lemma zsetScore_eqI:
  assumes "zset_wf z" "\<And>e s. (s, e) \<in> set (zset_pairs z) \<longleftrightarrow> m e = Some s"
  shows "zsetScore z = m"
proof
  fix e show "zsetScore z e = m e"
    using assms(2)[of _ e] zsetScore_pairs[OF assms(1), of e] by (metis not_None_eq)
qed

lemma zsetLength_card:
  assumes "zset_wf z"
  shows "zsetLength z = card (dom (zsetScore z))"
proof -
  have "distinct (map snd (zset_pairs z))" using assms by (simp add: zset_wf_def pairs_ok_def)
  then have "card (set (map snd (zset_pairs z))) = length (zset_pairs z)"
    by (metis distinct_card length_map)
  moreover have "dom (zsetScore z) = set (map snd (zset_pairs z))"
    using zsetScore_pairs[OF assms] by (force simp: dom_def)
  moreover have "zsetLength z = length (zset_pairs z)"
    by (cases z) (simp_all add: zset_pairs_def zzlLength_def)
  ultimately show ?thesis by simp
qed

lemma zset_convert_loop_spec:
  assumes "zset_wf (SkipDict d zsl)" "distinct (map snd xs)" "\<forall>x \<in> set xs. fst x \<noteq> NaN \<and> d (snd x) = None"
  shows "\<exists>d' zsl'. zset_convert_loop rnd (zl_enc xs) d zsl = Some (SkipDict d' zsl') \<and>
     zset_wf (SkipDict d' zsl') \<and> zsl_keys zsl' = zsl_keys zsl \<union> set xs"
  using assms
proof (induction xs arbitrary: rnd d zsl)
  case (Cons x xs)
  obtain s e where x: "x = (s, e)" by fastforce
  have de: "d e = None" "s \<noteq> NaN" using Cons.prems x by auto
  have inv: "zsl_inv zsl" "\<And>e s. d e = Some s \<longleftrightarrow> (s, e) \<in> zsl_keys zsl"
    using Cons.prems(1) by (auto simp: zset_wf_SkipDict)
  then have "(s, e) \<notin> zsl_keys zsl" using de(1) by (metis option.distinct(1))
  then obtain zsl1 where z1: "zslInsert (zslRandomLevel (rnd 0)) zsl s e = Some zsl1"
    "zsl_inv zsl1" "zsl_keys zsl1 = insert (s, e) (zsl_keys zsl)"
    using zslInsert_spec[OF inv(1) de(2) zslRandomLevel_pos(1)] by blast
  have "zset_wf (SkipDict (d(e \<mapsto> s)) zsl1)"
    using z1(2,3) inv(2) de(1) by (auto simp: zset_wf_SkipDict) (metis option.distinct(1))+
  moreover have "\<forall>y \<in> set xs. fst y \<noteq> NaN \<and> (d(e \<mapsto> s)) (snd y) = None"
    using Cons.prems x by force
  ultimately show ?case
    using Cons.IH[of "d(e \<mapsto> s)" zsl1 "\<lambda>i. rnd (Suc i)"] Cons.prems(2) z1(1,3) de(1) x
    by (simp add: dictAdd_def del: fun_upd_apply)
qed simp

lemma zset_wf_create: "zset_wf createZsetObject" "zset_wf createZsetZiplistObject"
  "zsetScore createZsetObject = Map.empty" "zsetScore createZsetZiplistObject = Map.empty"
  using zslCreate_inv zset_wf_enc[of "[]"]
  by (auto simp: createZsetObject_def createZsetZiplistObject_def zset_wf_SkipDict zsl_keys_def
      zslCreate_def pairs_ok_def)

lemma zsetConvert_spec:
  assumes "zset_wf z" "z \<noteq> ZipList []"
  shows "\<exists>z'. zsetConvert rnd z enc = Some z' \<and> zset_wf z' \<and> zset_encoding z' = enc \<and>
     zsetScore z' = zsetScore z"
proof (cases z)
  case (ZipList zl)
  with assms obtain xs where xs: "zl = zl_enc xs" "pairs_ok xs" "xs \<noteq> []" by (metis zl_enc_simps(1) zset_wf_ZipListE)
  have "zset_wf (SkipDict Map.empty zslCreate)" using zset_wf_create(1) by (simp add: createZsetObject_def)
  then obtain d zsl where l: "zset_convert_loop rnd zl Map.empty zslCreate = Some (SkipDict d zsl)"
    "zset_wf (SkipDict d zsl)" "zsl_keys zsl = zsl_keys zslCreate \<union> set xs"
    using zset_convert_loop_spec[of Map.empty zslCreate xs rnd] xs by (auto simp: pairs_ok_def)
  have "zsl_keys zsl = set (zset_pairs z)" using l(3) ZipList xs(1) by (simp add: zsl_keys_def zslCreate_def)
  then have "zsetScore (SkipDict d zsl) = zsetScore z"
    using zsetScore_pairs[OF assms(1)] l(2) by (intro zsetScore_eqI) (auto simp: set_zset_pairs_SkipDict)
  then show ?thesis using l ZipList assms(1) xs by (cases enc) (auto simp: zsetConvert_def)
next
  case (SkipDict d zsl)
  have f: "fold (\<lambda>x zl. zl @ zzlInsertAt [] (zn_ele x) (zn_score x)) ns zl = zl @ zl_enc (map zn_key ns)"
    for ns zl by (induction ns arbitrary: zl) (auto simp: zzlInsertAt_def zn_key_def)
  have p: "zset_pairs z = map zn_key (zsl_nodes zsl)" using SkipDict by (simp add: zset_pairs_def)
  have w: "zset_wf (ZipList (zl_enc (zset_pairs z)))" using assms(1) by (simp add: zset_wf_def)
  then have "zsetScore (ZipList (zl_enc (zset_pairs z))) = zsetScore z"
    using zsetScore_pairs[OF assms(1)] by (intro zsetScore_eqI) auto
  with w show ?thesis using SkipDict assms(1) p by (cases enc) (auto simp: zsetConvert_def f)
qed

lemma zset_add_with_spec:
  assumes wf: "zset_wf z" and nan: "score \<noteq> NaN"
    and upd: "\<And>s cur. zsetScore z ele = Some cur \<Longrightarrow> s \<noteq> NaN \<Longrightarrow>
        \<exists>z'. upd s = Some z' \<and> zset_wf z' \<and> zsetScore z' = (zsetScore z)(ele \<mapsto> s)"
    and ins: "\<And>s. zsetScore z ele = None \<Longrightarrow> s \<noteq> NaN \<Longrightarrow>
        \<exists>z'. ins s = Some z' \<and> zset_wf z' \<and> zsetScore z' = (zsetScore z)(ele \<mapsto> s)"
  shows "\<exists>r. zset_add_with opts z (zsetScore z ele) upd ins score = Some r \<and> zset_wf (za_zset r) \<and>
     (za_ret r, za_flag r, za_newscore r, zsetScore (za_zset r)) = zadd_abs opts (zsetScore z) score ele"
proof (cases "zsetScore z ele")
  case None
  with ins[of score] nan wf show ?thesis by (auto simp: zset_add_with_def zadd_abs_def)
next
  case (Some cur)
  then have "cur \<noteq> NaN" using zsetScore_NaN[OF wf] by auto
  have "(zsetScore z)(ele \<mapsto> cur) = zsetScore z" using Some by auto
  with Some nan wf upd[OF Some, of score] upd[OF Some, of "dadd score cur"] \<open>cur \<noteq> NaN\<close> show ?thesis
    by (auto simp: zset_add_with_def zadd_abs_def Let_def deq_def)
qed

lemma zsetAdd_ziplist:
  assumes wf: "zset_wf (ZipList zl)" and nan: "score \<noteq> NaN"
  shows "\<exists>r. zsetAdd cfg rnd (ZipList zl) score ele opts = Some r \<and> zset_wf (za_zset r) \<and>
     (za_ret r, za_flag r, za_newscore r, zsetScore (za_zset r)) =
       zadd_abs opts (zsetScore (ZipList zl)) score ele"
proof -
  define z where "z = ZipList zl"
  from wf obtain xs where xs: "zl = zl_enc xs" "pairs_ok xs" by (metis zset_wf_ZipListE)
  have xsc: "zsetScore z e = Some s \<longleftrightarrow> (s, e) \<in> set xs" for e s
    using zsetScore_pairs[OF wf] xs(1) by (simp add: z_def)
  have insert: "zzlInsert (zl_enc ys) ele s = zl_enc (insort (s, ele) ys) \<and> pairs_ok (insort (s, ele) ys)"
    if "pairs_ok ys" "ele \<notin> snd ` set ys" "s \<noteq> NaN" for ys s
    using that by (intro conjI zzlInsert_enc pairs_ok_insort) (force simp: pairs_ok_def)+
  have score: "zsetScore (ZipList (zl_enc (insort (s, ele) ys))) = (zsetScore z)(ele \<mapsto> s)"
    if "pairs_ok (insort (s, ele) ys)" "set ys = {x \<in> set xs. snd x \<noteq> ele}" for ys s
    using that by (intro zsetScore_eqI) (auto simp: set_insort_key xsc)
  have upd: "\<exists>z'. map_option (\<lambda>(i, cur). ZipList (zzlInsert (zzlDelete zl i) ele s)) (zzlFind zl ele) = Some z' \<and>
      zset_wf z' \<and> zsetScore z' = (zsetScore z)(ele \<mapsto> s)"
    if found: "zsetScore z ele = Some cur" and s: "s \<noteq> NaN" for s cur
  proof -
    obtain i where i: "zzlFind zl ele = Some (i, cur)" using found by (auto simp: z_def)
    let ?ys = "take i xs @ drop (Suc i) xs"
    have d: "pairs_ok ?ys" "set ?ys = {x \<in> set xs. snd x \<noteq> ele}"
      using pairs_ok_delete[OF xs(2)] zzlFind_Some i xs(1) by blast+
    then have "ele \<notin> snd ` set ?ys" by auto
    with insert[OF d(1) _ s] score[OF _ d(2), of s] i show ?thesis
      by (simp add: zzlDelete_def xs(1))
  qed
  have ins: "\<exists>z'. (let zl' = zzlInsert zl ele s
       in if zset_max_ziplist_entries cfg < zzlLength zl' \<or> zset_max_ziplist_value cfg < length ele
          then zsetConvert rnd (ZipList zl') OBJ_ENCODING_SKIPLIST else Some (ZipList zl')) = Some z' \<and>
      zset_wf z' \<and> zsetScore z' = (zsetScore z)(ele \<mapsto> s)"
    if new: "zsetScore z ele = None" and s: "s \<noteq> NaN" for s
  proof -
    let ?ys = "insort (s, ele) xs"
    have ne: "ele \<notin> snd ` set xs" using new xsc[of ele] by auto
    note i = insert[OF xs(2) ne s]
    have w: "zset_wf (ZipList (zl_enc ?ys))" and nn: "ZipList (zl_enc ?ys) \<noteq> ZipList []" using i by auto
    have sc: "zsetScore (ZipList (zl_enc ?ys)) = (zsetScore z)(ele \<mapsto> s)"
      using i ne by (intro score) auto
    show ?thesis
      using zsetConvert_spec[OF w nn, of rnd OBJ_ENCODING_SKIPLIST] w sc i
      by (auto simp: Let_def xs(1))
  qed
  show ?thesis
    using zset_add_with_spec[OF wf[folded z_def] nan upd ins, where opts = opts] nan by (simp add: zsetAdd_def z_def)
qed

lemma zset_wf_SkipDict_put:
  assumes "zset_wf (SkipDict d zsl)" "zsl_inv zsl'"
    "zsl_keys zsl' = insert (s, ele) {x \<in> zsl_keys zsl. snd x \<noteq> ele}"
  shows "zset_wf (SkipDict (d(ele \<mapsto> s)) zsl')"
  using assms by (auto simp: zset_wf_SkipDict)

lemma zset_wf_SkipDict_remove:
  assumes "zset_wf (SkipDict d zsl)" "zsl_inv zsl'"
    "zsl_keys zsl' = {x \<in> zsl_keys zsl. snd x \<noteq> ele}"
  shows "zset_wf (SkipDict (d(ele := None)) zsl')"
  using assms by (simp add: zset_wf_SkipDict)

lemma zsetScore_SkipDict [simp]: "zsetScore (SkipDict d zsl) = d"
  by (rule ext) simp

lemma diff_unique_key:
  assumes "\<forall>t. (t, k) \<in> A \<longrightarrow> t = c"
  shows "A - {(c, k)} = {x \<in> A. snd x \<noteq> k}"
proof (rule set_eqI)
  show "x \<in> A - {(c, k)} \<longleftrightarrow> x \<in> {x \<in> A. snd x \<noteq> k}" for x
    using assms by (cases x) (simp, blast)
qed

lemma zsetAdd_skipdict:
  assumes wf: "zset_wf (SkipDict d zsl)" and nan: "score \<noteq> NaN"
  shows "\<exists>r. zsetAdd cfg rnd (SkipDict d zsl) score ele opts = Some r \<and> zset_wf (za_zset r) \<and>
     (za_ret r, za_flag r, za_newscore r, zsetScore (za_zset r)) =
       zadd_abs opts (zsetScore (SkipDict d zsl)) score ele"
proof -
  define z where "z = SkipDict d zsl"
  have inv: "zsl_inv zsl" and k: "\<And>e s. d e = Some s \<longleftrightarrow> (s, e) \<in> zsl_keys zsl"
    using wf by (auto simp: zset_wf_SkipDict)
  have upd: "\<exists>z'. do { cur \<leftarrow> d ele; zsl' \<leftarrow> zslUpdateScore (zslRandomLevel (rnd 0)) zsl cur ele s;
         Some (SkipDict (d(ele \<mapsto> s)) zsl') } = Some z' \<and>
      zset_wf z' \<and> zsetScore z' = (zsetScore z)(ele \<mapsto> s)"
    if found: "zsetScore z ele = Some cur" and s: "s \<noteq> NaN" for s cur
  proof -
    have c: "d ele = Some cur" using found by (simp add: z_def)
    then have u: "\<forall>t. (t, ele) \<in> zsl_keys zsl \<longrightarrow> t = cur" using k by (metis option.inject)
    have "(cur, ele) \<in> zsl_keys zsl" using c k by blast
    from zslUpdateScore_spec[of zsl cur ele s "zslRandomLevel (rnd 0)", OF inv this s zslRandomLevel_pos(1) u]
    obtain zsl' where "zslUpdateScore (zslRandomLevel (rnd 0)) zsl cur ele s = Some zsl'" "zsl_inv zsl'"
      "zsl_keys zsl' = insert (s, ele) (zsl_keys zsl - {(cur, ele)})" by (elim exE conjE)
    moreover note diff_unique_key[OF u]
    ultimately show ?thesis using c zset_wf_SkipDict_put[OF wf, of zsl' s ele] by (simp add: z_def)
  qed
  have ins: "\<exists>z'. do { zsl' \<leftarrow> zslInsert (zslRandomLevel (rnd 0)) zsl s ele; d' \<leftarrow> dictAdd d ele s;
         Some (SkipDict d' zsl') } = Some z' \<and> zset_wf z' \<and> zsetScore z' = (zsetScore z)(ele \<mapsto> s)"
    if new: "zsetScore z ele = None" and s: "s \<noteq> NaN" for s
  proof -
    have c: "d ele = None" using new by (simp add: z_def)
    then have n: "\<And>t. (t, ele) \<notin> zsl_keys zsl" using k by (metis option.distinct(1))
    obtain zsl' where "zslInsert (zslRandomLevel (rnd 0)) zsl s ele = Some zsl'" "zsl_inv zsl'"
      "zsl_keys zsl' = insert (s, ele) (zsl_keys zsl)"
      using zslInsert_spec[OF inv s zslRandomLevel_pos(1) n] by metis
    moreover have "zsl_keys zsl = {x \<in> zsl_keys zsl. snd x \<noteq> ele}"
      using diff_unique_key[of ele "zsl_keys zsl"] n by fastforce
    ultimately show ?thesis using c zset_wf_SkipDict_put[OF wf, of zsl' s ele] by (simp add: dictAdd_def z_def)
  qed
  show ?thesis
    using zset_add_with_spec[OF wf[folded z_def] nan upd ins, where opts = opts] nan by (simp add: zsetAdd_def z_def)
qed

lemma zsetAdd_refines:
  assumes "zset_wf z"
  shows "\<exists>r. zsetAdd cfg rnd z score ele opts = Some r \<and> zset_wf (za_zset r) \<and>
     (za_ret r, za_flag r, za_newscore r, zsetScore (za_zset r)) =
       zadd_abs opts (zsetScore z) score ele"
proof (cases "score = NaN")
  case True
  with assms show ?thesis by (simp add: zsetAdd_def zadd_abs_def)
next
  case False
  with assms show ?thesis
    by (cases z) (use zsetAdd_ziplist zsetAdd_skipdict in blast)+
qed

lemma zsetDel_refines:
  assumes wf: "zset_wf z"
  shows "\<exists>z'. zsetDel z ele = Some (zsetScore z ele \<noteq> None, z') \<and> zset_wf z' \<and>
     zsetScore z' = (zsetScore z)(ele := None)"
proof (cases "zsetScore z ele")
  case None
  then have "zsetDel z ele = Some (False, z)" by (cases z) (auto simp: zsetDel_def)
  with None wf show ?thesis by auto
next
  case (Some cur)
  show ?thesis
  proof (cases z)
    case (ZipList zl)
    with wf obtain xs where xs: "zl = zl_enc xs" "pairs_ok xs" by (metis zset_wf_ZipListE)
    obtain i where i: "zzlFind zl ele = Some (i, cur)" using Some ZipList by auto
    let ?ys = "take i xs @ drop (Suc i) xs"
    have d: "pairs_ok ?ys" "set ?ys = {x \<in> set xs. snd x \<noteq> ele}"
      using pairs_ok_delete[OF xs(2)] zzlFind_Some i xs(1) by blast+
    have "zsetScore (ZipList (zl_enc ?ys)) = (zsetScore z)(ele := None)"
    proof (rule zsetScore_eqI)
      show "zset_wf (ZipList (zl_enc ?ys))" using d(1) by (simp only: zset_wf_enc)
      show "(s, e) \<in> set (zset_pairs (ZipList (zl_enc ?ys))) \<longleftrightarrow> ((zsetScore z)(ele := None)) e = Some s" for e s
        using zsetScore_pairs[OF wf, of e s] ZipList xs(1) d(2) by (simp only: zset_pairs_enc) auto
    qed
    moreover have "zset_wf (ZipList (zl_enc ?ys))" using d(1) by (simp only: zset_wf_enc)
    ultimately show ?thesis using Some i ZipList xs(1) by (simp add: zsetDel_def zzlDelete_def)
  next
    case (SkipDict d zsl)
    have inv: "zsl_inv zsl" and k: "\<And>e s. d e = Some s \<longleftrightarrow> (s, e) \<in> zsl_keys zsl"
      using wf SkipDict by (auto simp: zset_wf_SkipDict)
    have c: "d ele = Some cur" using Some SkipDict by simp
    then have in1: "(cur, ele) \<in> zsl_keys zsl" and u: "\<forall>t. (t, ele) \<in> zsl_keys zsl \<longrightarrow> t = cur"
      using k by (blast, metis option.inject)
    obtain zsl' where "zslDelete zsl cur ele = (True, zsl')" "zsl_inv zsl'"
      "zsl_keys zsl' = zsl_keys zsl - {(cur, ele)}"
      using zslDelete_spec[OF inv in1] by (cases "zslDelete zsl cur ele") auto
    moreover note diff_unique_key[OF u]
    ultimately show ?thesis
      using c zset_wf_SkipDict_remove[OF wf[unfolded SkipDict], of zsl' ele] SkipDict
      by (simp add: zsetDel_def)
  qed
qed

lemma zset_tail_greatest:
  assumes "zset_wf z"
  shows "zset_tail z = Some (e, s) \<longleftrightarrow>
     zsetScore z e = Some s \<and> (\<forall>e' s'. zsetScore z e' = Some s' \<longrightarrow> (s', e') \<le> (s, e))"
proof -
  have t: "zset_tail z = (if zset_pairs z = [] then None
      else Some (snd (last (zset_pairs z)), fst (last (zset_pairs z))))"
    by (cases z) (auto simp: zset_tail_def zset_pairs_def last_map zn_key_def split: prod.split)
  have so: "sorted (zset_pairs z)" using assms by (simp add: zset_wf_def pairs_ok_def)
  show ?thesis
  proof (cases "zset_pairs z" rule: rev_cases)
    case Nil
    then show ?thesis using t zsetScore_pairs[OF assms] by simp
  next
    case (snoc ys y)
    then have "\<forall>x \<in> set (zset_pairs z). x \<le> y" using so by (auto simp: sorted_append)
    moreover have "y \<in> set (zset_pairs z)" using snoc by simp
    ultimately have "y = (s, e) \<longleftrightarrow> (s, e) \<in> set (zset_pairs z) \<and> (\<forall>x \<in> set (zset_pairs z). x \<le> (s, e))"
      by (metis antisym)
    also have "\<dots> \<longleftrightarrow> zsetScore z e = Some s \<and> (\<forall>e' s'. zsetScore z e' = Some s' \<longrightarrow> (s', e') \<le> (s, e))"
      unfolding zsetScore_pairs[OF assms] Ball_def split_paired_All by blast
    finally show ?thesis using t snoc by (cases y) auto
  qed
qed

section \<open>The sorted set as an interface\<close>

text \<open>
  What the replicated types rely on: a sorted set is a finite map from elements to scores
  with insertion, removal, size and access to the greatest entry. The first argument of
  \<open>add\<close> stands for the configuration and the random levels, on which no result depends.
\<close>

locale sorted_set =
  fixes wf :: "'z \<Rightarrow> bool"
    and score :: "'z \<Rightarrow> sds \<Rightarrow> double option"
    and add :: "'r \<Rightarrow> 'z \<Rightarrow> double \<Rightarrow> sds \<Rightarrow> 'z option"
    and del :: "'z \<Rightarrow> sds \<Rightarrow> 'z option"
    and size :: "'z \<Rightarrow> nat"
    and tail :: "'z \<Rightarrow> (sds \<times> double) option"
  assumes add_law: "wf z \<Longrightarrow> s \<noteq> NaN \<Longrightarrow>
      \<exists>z'. add r z s e = Some z' \<and> wf z' \<and> score z' = (score z)(e \<mapsto> s)"
    and add_NaN: "wf z \<Longrightarrow> add r z NaN e = Some z"
    and del_law: "wf z \<Longrightarrow> \<exists>z'. del z e = Some z' \<and> wf z' \<and> score z' = (score z)(e := None)"
    and score_not_NaN: "wf z \<Longrightarrow> score z e \<noteq> Some NaN"
    and size_law: "wf z \<Longrightarrow> size z = card (dom (score z))"
    and tail_law: "wf z \<Longrightarrow> tail z = Some (e, s) \<longleftrightarrow>
      score z e = Some s \<and> (\<forall>e' s'. score z e' = Some s' \<longrightarrow> (s', e') \<le> (s, e))"
    and finite_law: "wf z \<Longrightarrow> finite (dom (score z))"
begin

lemma add_wf: "wf z \<Longrightarrow> add r z s e = Some z' \<Longrightarrow> wf z'"
  using add_law[of z s r e] add_NaN[of z r e] by (cases "s = NaN") auto

lemma add_score:
  "wf z \<Longrightarrow> s \<noteq> NaN \<Longrightarrow> add r z s e = Some z' \<Longrightarrow> score z' = (score z)(e \<mapsto> s)"
  using add_law[of z s r e] by auto

lemma add_total: "wf z \<Longrightarrow> \<exists>z'. add r z s e = Some z'"
  using add_law[of z s r e] add_NaN[of z r e] by (cases "s = NaN") auto

lemma add_other:
  "wf z \<Longrightarrow> add r z s e = Some z' \<Longrightarrow> e' \<noteq> e \<Longrightarrow> score z' e' = score z e'"
  using add_law[of z s r e] add_NaN[of z r e] by (cases "s = NaN") auto

lemma del_wf: "wf z \<Longrightarrow> del z e = Some z' \<Longrightarrow> wf z'"
  using del_law[of z e] by auto

lemma del_score: "wf z \<Longrightarrow> del z e = Some z' \<Longrightarrow> score z' = (score z)(e := None)"
  using del_law[of z e] by auto

lemma size_add_new:
  assumes "wf z" "score z e = None" "s \<noteq> NaN" "add r z s e = Some z'"
  shows "size z' = Suc (size z)"
proof -
  have "score z' = (score z)(e \<mapsto> s)" "wf z'"
    using assms add_score add_wf by blast+
  then show ?thesis
    using assms finite_law[of z] size_law by (simp add: card_insert_if domIff)
qed

lemma size_zero: "wf z \<Longrightarrow> size z = 0 \<longleftrightarrow> score z = Map.empty"
  using size_law[of z] finite_law[of z] by simp

lemma tail_None: 
  assumes "wf z"
  shows "tail z = None \<longleftrightarrow> size z = 0"
proof
  assume t: "tail z = None"
  show "size z = 0"
  proof (rule ccontr)
    assume "size z \<noteq> 0"
    then have ne: "dom (score z) \<noteq> {}" using size_law[OF assms] by auto
    let ?P = "(\<lambda>e. (the (score z e), e)) ` dom (score z)"
    have fin: "finite ?P" "?P \<noteq> {}" using finite_law[OF assms] ne by auto
    obtain s e where m: "Max ?P = (s, e)" by fastforce
    have "(s, e) \<in> ?P" using Max_in[OF fin] m by simp
    moreover have "(s', e') \<le> (s, e)" if "score z e' = Some s'" for e' s'
      using Max_ge[OF fin(1), of "(s', e')"] that m by (force simp: image_iff)
    ultimately have "tail z = Some (e, s)" using tail_law[OF assms] by auto
    with t show False by simp
  qed
next
  assume "size z = 0"
  then have "score z = Map.empty" using size_zero[OF assms] by simp
  then have "tail z \<noteq> Some (e, s)" for e s using tail_law[OF assms] by simp
  then show "tail z = None" by (cases "tail z") auto
qed

end

text \<open>The calls of the replicated types: no options, no result score.\<close>

definition no_opts :: zadd_opts where
  "no_opts = \<lparr>zo_incr = False, zo_nx = False, zo_xx = False\<rparr>"

definition zset_put :: "zset_config \<times> (nat \<Rightarrow> nat) \<Rightarrow> zset \<Rightarrow> double \<Rightarrow> sds \<Rightarrow> zset option" where
  "zset_put r z s e = map_option za_zset (zsetAdd (fst r) (snd r) z s e no_opts)"

definition zset_remove :: "zset \<Rightarrow> sds \<Rightarrow> zset option" where
  "zset_remove z e = map_option snd (zsetDel z e)"

lemma zset_put_law:
  assumes "zset_wf z"
  shows "\<exists>z'. zset_put r z s e = Some z' \<and> zset_wf z' \<and>
     zsetScore z' = (if s = NaN then zsetScore z else (zsetScore z)(e \<mapsto> s))"
  using zsetAdd_refines[OF assms, of "fst r" "snd r" s e no_opts]
  by (fastforce simp: zset_put_def zadd_abs_def no_opts_def split: if_splits option.splits)

lemma zset_put_NaN: "zset_put r z NaN e = Some z"
  by (simp add: zset_put_def zsetAdd_def)

lemma zsetScore_finite: "zset_wf z \<Longrightarrow> finite (dom (zsetScore z))"
proof -
  assume "zset_wf z"
  then have "dom (zsetScore z) \<subseteq> snd ` set (zset_pairs z)"
    using zsetScore_pairs by (force simp: dom_def)
  then show ?thesis by (rule finite_subset) simp
qed

interpretation zs: sorted_set zset_wf zsetScore zset_put zset_remove zsetLength zset_tail
proof unfold_locales
  show "\<exists>z'. zset_remove z e = Some z' \<and> zset_wf z' \<and> zsetScore z' = (zsetScore z)(e := None)"
    if "zset_wf z" for z e
    using zsetDel_refines[OF that, of e] by (auto simp: zset_remove_def)
  show "\<exists>z'. zset_put r z s e = Some z' \<and> zset_wf z' \<and> zsetScore z' = (zsetScore z)(e \<mapsto> s)"
    if "zset_wf z" "s \<noteq> NaN" for z s r e
    using zset_put_law[OF that(1), of r s e] that(2) by simp
qed (simp_all only: zset_put_NaN zsetScore_NaN zsetLength_card zset_tail_greatest zsetScore_finite
      not_False_eq_True)

section \<open>Properties of sorted sets\<close>

text \<open>
  C25 (sorted sets refine maps): in both encodings, and across the conversion between them,
  \<open>zsetAdd\<close> never fails an assertion, keeps the representation sorted and free of duplicates, and
  changes the map from elements to scores, its result and its flags as the contract
  \<open>zadd_abs\<close> says, for every combination of options.
\<close>

theorem zset_add_refinement:
  assumes "zset_wf z"
  shows "\<exists>r. zsetAdd cfg rnd z score ele opts = Some r \<and> zset_wf (za_zset r) \<and>
     (za_ret r, za_flag r, za_newscore r, zsetScore (za_zset r)) = zadd_abs opts (zsetScore z) score ele"
  by (rule zsetAdd_refines[OF assms])

lemma empty_zset_wf: "zset_wf createZsetZiplistObject"
  by (simp add: createZsetZiplistObject_def zset_wf_def zset_pairs_def pairs_ok_def zl_enc_def)

theorem zset_add_refinement_witness:
  "\<exists>r. zsetAdd \<lparr>zset_max_ziplist_entries = 0, zset_max_ziplist_value = 64\<rparr> (\<lambda>_. 3) createZsetZiplistObject
        PInf ''x'' no_opts = Some r \<and> zset_wf (za_zset r) \<and>
     (za_ret r, za_flag r, za_newscore r, zsetScore (za_zset r)) =
       zadd_abs no_opts (zsetScore createZsetZiplistObject) PInf ''x''"
  by (rule zset_add_refinement[OF empty_zset_wf])

text \<open>
  Deletion and maximum: \<open>zsetDel\<close> removes exactly the element and reports whether it was
  there; the last entry of either encoding is the element with the greatest score, ties broken
  by the greater name.
\<close>

theorem zset_del_max:
  assumes "zset_wf z"
  shows "(\<exists>z'. zsetDel z ele = Some (zsetScore z ele \<noteq> None, z') \<and> zset_wf z' \<and>
       zsetScore z' = (zsetScore z)(ele := None)) \<and>
    (zset_tail z = Some (e, s) \<longleftrightarrow>
       zsetScore z e = Some s \<and> (\<forall>e' s'. zsetScore z e' = Some s' \<longrightarrow> (s', e') \<le> (s, e)))"
  using zsetDel_refines[OF assms] zs.tail_law[OF assms] by blast

theorem zset_del_max_witness:
  "(\<exists>z'. zsetDel createZsetZiplistObject ''x'' = Some (zsetScore createZsetZiplistObject ''x'' \<noteq> None, z') \<and> zset_wf z' \<and>
       zsetScore z' = (zsetScore createZsetZiplistObject)(''x'' := None)) \<and>
    (zset_tail createZsetZiplistObject = Some (''x'', PInf) \<longleftrightarrow>
       zsetScore createZsetZiplistObject ''x'' = Some PInf \<and>
       (\<forall>e' s'. zsetScore createZsetZiplistObject e' = Some s' \<longrightarrow> (s', e') \<le> (PInf, ''x'')))"
  by (rule zset_del_max[OF empty_zset_wf])

end
