(* ===== verification/VectorClock.thy ===== *)
theory VectorClock
  imports CFormat
begin

text \<open>
  The vector clocks of vector_clock.c and vector_clock.h: creation, comparison, join,
  causal readiness, and the text form in which they travel between replicas. An array
  with its length (\<open>vector\<close>, \<open>size\<close>) is a list.
\<close>

section \<open>Definitions\<close>

record vc =
  vector :: "int list"
  vc_id :: int

abbreviation (input) VC_LESS :: int where "VC_LESS \<equiv> - 2"
abbreviation (input) VC_C_LESS :: int where "VC_C_LESS \<equiv> - 1"
abbreviation (input) VC_CMP_ERR :: int where "VC_CMP_ERR \<equiv> 0"
abbreviation (input) VC_C_GREATER :: int where "VC_C_GREATER \<equiv> 1"
abbreviation (input) VC_GREATER :: int where "VC_GREATER \<equiv> 2"

definition CONCURRENT :: "int \<Rightarrow> bool" where
  "CONCURRENT x \<longleftrightarrow> x = VC_C_LESS \<or> x = VC_C_GREATER"

definition vc_size :: "vc \<Rightarrow> nat" where
  "vc_size c = length (vector c)"

definition vc_new :: "nat \<Rightarrow> int \<Rightarrow> vc" where
  "vc_new n i = \<lparr>vector = replicate n 0, vc_id = i\<rparr>"

definition vc_dup :: "vc \<Rightarrow> vc" where
  "vc_dup c = \<lparr>vector = map (\<lambda>i. vector c ! i) [0..<vc_size c], vc_id = vc_id c\<rparr>"

definition vc_equal :: "vc \<Rightarrow> vc \<Rightarrow> bool" where
  "vc_equal c1 c2 \<longleftrightarrow> vc_size c1 = vc_size c2 \<and> list_all2 (=) (vector c1) (vector c2)"

text \<open>
  \<open>vc_causally_ready\<close>: the assertion on the sizes, then the loop over every component but
  the sender's, then the sender's component. \<open>None\<close> is the failed assertion or an
  access outside the array when the sender's id is not an index.
\<close>

definition vc_causally_ready :: "vc \<Rightarrow> vc \<Rightarrow> bool option" where
  "vc_causally_ready current next =
     (if vc_size current \<noteq> vc_size next then None
      else if list_ex (\<lambda>i. int i \<noteq> vc_id next \<and> vector next ! i > vector current ! i)
                [0..<vc_size current] then Some False
      else if vc_id next < 0 \<or> vc_id next \<ge> int (vc_size next) then None
      else Some (vector next ! nat (vc_id next)
                   = int32 (vector current ! nat (vc_id next) + 1)))"

text \<open>
  \<open>vc_cmp\<close>: the first component where the vectors differ decides the direction; a later
  component in the other direction makes the clocks concurrent, and then the ids decide
  (with equal ids the loop runs to the end).
\<close>

definition vc_cmp :: "vc \<Rightarrow> vc \<Rightarrow> int" where
  "vc_cmp c1 c2 =
     (if vc_size c1 \<noteq> vc_size c2 then VC_CMP_ERR
      else case dropWhile (\<lambda>(x, y). x = y) (zip (vector c1) (vector c2)) of
        [] \<Rightarrow>
          if vc_id c1 = vc_id c2 then VC_CMP_ERR
          else if vc_id c1 > vc_id c2 then VC_C_GREATER
          else VC_C_LESS
      | (x, y) # rest \<Rightarrow>
          if x > y then
            if list_ex (\<lambda>(a, b). a < b) rest \<and> vc_id c1 > vc_id c2 then VC_C_GREATER
            else if list_ex (\<lambda>(a, b). a < b) rest \<and> vc_id c1 < vc_id c2 then VC_C_LESS
            else VC_GREATER
          else
            if list_ex (\<lambda>(a, b). a > b) rest \<and> vc_id c1 > vc_id c2 then VC_C_GREATER
            else if list_ex (\<lambda>(a, b). a > b) rest \<and> vc_id c1 < vc_id c2 then VC_C_LESS
            else VC_LESS)"

definition vc_update :: "vc \<Rightarrow> vc \<Rightarrow> vc" where
  "vc_update tar m =
     (if vc_size tar \<noteq> vc_size m then tar
      else tar\<lparr>vector := map2 (\<lambda>t x. if x > t then x else t) (vector tar) (vector m)\<rparr>)"

text \<open>\<open>vcToSds\<close> reads \<open>vector[0]\<close> even when the size is 0: an access outside the array.\<close>

definition vcToSds :: "vc \<Rightarrow> sds option" where
  "vcToSds c =
     (if vector c = [] then None
      else Some (concat (map (\<lambda>v. print_d v @ '','') (butlast (vector c)))
                 @ print_d (last (vector c)) @ ''|'' @ print_d (vc_id c)))"

text \<open>
  \<open>sdsToVC\<close> fills the global \<open>vc_int_buf[100]\<close> without a bound check: a clock with more
  than 100 components writes outside the array (\<open>None\<close>), and so does, on the reading
  side, a text without the closing bar.
\<close>

function sdsToVC_loop :: "sds \<Rightarrow> int list \<Rightarrow> (int list \<times> sds) option" where
  "sdsToVC_loop p buf =
     (if length buf \<ge> 100 then None
      else case dropWhile (\<lambda>c. c \<noteq> CHR '','' \<and> c \<noteq> CHR ''|'') p of
        [] \<Rightarrow> None
      | c # q \<Rightarrow> if c = CHR ''|'' then Some (buf @ [atoi p], q)
                 else sdsToVC_loop q (buf @ [atoi p]))"
  by pat_completeness auto
termination
proof (relation "measure (\<lambda>(p, buf). length p)", goal_cases)
  case (2 p buf c q)
  then show ?case
    by simp (metis length_dropWhile_le Suc_le_lessD length_Cons)
qed simp

declare sdsToVC_loop.simps [simp del]

definition sdsToVC :: "sds \<Rightarrow> vc option" where
  "sdsToVC s =
     (case sdsToVC_loop s [] of
        None \<Rightarrow> None
      | Some (buf, p) \<Rightarrow> Some \<lparr>vector = buf, vc_id = atoi p\<rparr>)"

definition vc_incr_at :: "vc \<Rightarrow> int \<Rightarrow> vc option" where
  "vc_incr_at c i =
     (if i < 0 \<or> i \<ge> int (vc_size c) then None
      else Some (c\<lparr>vector := (vector c)[nat i := int32 (vector c ! nat i + 1)]\<rparr>))"

definition vc_inc :: "vc \<Rightarrow> int \<Rightarrow> vc option" where
  "vc_inc c i = vc_incr_at (c\<lparr>vc_id := i\<rparr>) i"

text \<open>\<open>vc_now\<close> increments its own component, prints the clock and decrements again.\<close>

definition vc_now :: "vc \<Rightarrow> sds option" where
  "vc_now c = Option.bind (vc_incr_at c (vc_id c)) vcToSds"

section \<open>The order of clocks\<close>

text \<open>The order the clocks are meant to have: component by component.\<close>

definition vc_leq :: "vc \<Rightarrow> vc \<Rightarrow> bool" where
  "vc_leq c1 c2 \<longleftrightarrow> list_all2 (\<le>) (vector c1) (vector c2)"

definition vc_wf :: "nat \<Rightarrow> vc \<Rightarrow> bool" where
  "vc_wf n c \<longleftrightarrow> vc_size c = n \<and> 0 \<le> vc_id c \<and> vc_id c < int n \<and>
     (\<forall>x \<in> set (vector c). is_int32 x)"

lemma vc_dup_id [simp]: "vc_dup c = c"
  by (simp add: vc_dup_def vc_size_def map_nth)

lemma vc_equal_iff: "vc_equal c1 c2 \<longleftrightarrow> vector c1 = vector c2"
  by (auto simp: vc_equal_def vc_size_def list.rel_eq)

lemma vc_size_simps [simp]:
  "vc_size (c\<lparr>vc_id := i\<rparr>) = vc_size c" "vc_size (vc_update c d) = vc_size c"
  "vc_size (vc_new n i) = n"
  by (simp_all add: vc_size_def vc_update_def vc_new_def)

lemma vc_id_update [simp]: "vc_id (vc_update c d) = vc_id c"
  by (simp add: vc_update_def)

lemma vc_leq_refl [simp]: "vc_leq c c"
  by (simp add: vc_leq_def list_all2_refl)

lemma vc_leq_trans: "vc_leq a b \<Longrightarrow> vc_leq b c \<Longrightarrow> vc_leq a c"
  unfolding vc_leq_def by (rule list_all2_trans[of "(\<le>)" "(\<le>)" "(\<le>)"]) auto

lemma vc_leq_antisym: "vc_leq a b \<Longrightarrow> vc_leq b a \<Longrightarrow> vector a = vector b"
  unfolding vc_leq_def by (rule list_all2_antisym) auto

lemma vc_leq_size: "vc_leq a b \<Longrightarrow> vc_size a = vc_size b"
  by (simp add: vc_leq_def vc_size_def list_all2_lengthD)

lemma vc_leq_nth:
  "vc_leq a b \<longleftrightarrow> vc_size a = vc_size b \<and> (\<forall>i < vc_size a. vector a ! i \<le> vector b ! i)"
  by (auto simp: vc_leq_def vc_size_def list_all2_conv_all_nth)

lemma vc_leq_cong: "vector a = vector a' \<Longrightarrow> vector b = vector b' \<Longrightarrow> vc_leq a b = vc_leq a' b'"
  by (simp add: vc_leq_def)

section \<open>Comparison\<close>

text \<open>What the scan of \<open>vc_cmp\<close> decides, in terms of the order.\<close>

lemma list_all2_le_zip:
  fixes xs ys :: "int list"
  assumes "length xs = length ys"
  shows "list_all2 (\<le>) xs ys \<longleftrightarrow> \<not> list_ex (\<lambda>(a, b). a > b) (zip xs ys)"
    and "list_all2 (\<le>) ys xs \<longleftrightarrow> \<not> list_ex (\<lambda>(a, b). a < b) (zip xs ys)"
  using assms by (induction xs ys rule: list_induct2) auto

lemma scan_first:
  assumes "length xs = length ys"
  shows "case dropWhile (\<lambda>(x, y). x = y) (zip xs ys) of
     [] \<Rightarrow> xs = ys
   | (x, y) # rest \<Rightarrow> x \<noteq> y \<and> xs \<noteq> ys \<and>
       (list_all2 (\<le>) xs ys \<longleftrightarrow> x < y \<and> \<not> list_ex (\<lambda>(a, b). a > b) rest) \<and>
       (list_all2 (\<le>) ys xs \<longleftrightarrow> x > (y::int) \<and> \<not> list_ex (\<lambda>(a, b). a < b) rest)"
  using assms
proof (induction xs ys rule: list_induct2)
  case (Cons x xs y ys)
  show ?case
  proof (cases "x = y")
    case True
    with Cons.IH show ?thesis
      by (cases "dropWhile (\<lambda>(x, y). x = y) (zip xs ys)")
        (auto simp del: dropWhile_eq_Nil_conv)
  next
    case False
    with list_all2_le_zip[OF Cons.hyps] show ?thesis by auto
  qed
qed simp

lemma vc_cmp_spec:
  assumes "vc_size c1 = vc_size c2" and "vc_id c1 \<noteq> vc_id c2"
  shows "vc_cmp c1 c2 =
     (if vector c1 \<noteq> vector c2 \<and> vc_leq c1 c2 then VC_LESS
      else if vector c1 \<noteq> vector c2 \<and> vc_leq c2 c1 then VC_GREATER
      else if vc_id c1 < vc_id c2 then VC_C_LESS else VC_C_GREATER)"
proof (cases "dropWhile (\<lambda>(x, y). x = y) (zip (vector c1) (vector c2))")
  case Nil
  with scan_first[of "vector c1" "vector c2"] assms show ?thesis
    by (simp add: vc_cmp_def vc_size_def del: dropWhile_eq_Nil_conv)
next
  case (Cons p rest)
  obtain x y where "p = (x, y)" by fastforce
  with Cons scan_first[of "vector c1" "vector c2"] assms show ?thesis
    by (auto simp: vc_cmp_def vc_leq_def vc_size_def)
qed

lemma vc_cmp_swap: "vc_cmp c2 c1 = - vc_cmp c1 c2"
proof (cases "vc_size c1 = vc_size c2")
  case False
  then show ?thesis by (simp add: vc_cmp_def)
next
  case True
  have sw: "zip (vector c2) (vector c1) = map prod.swap (zip (vector c1) (vector c2))"
    by (subst zip_commute) (auto simp: prod.swap_def)
  have dw: "dropWhile (\<lambda>(x, y). x = y) (map prod.swap zs) =
      map prod.swap (dropWhile (\<lambda>(x, y). x = y) zs)" for zs :: "(int \<times> int) list"
    by (induction zs) auto
  have ex: "list_ex (\<lambda>(a, b). a < b) (map prod.swap zs) = list_ex (\<lambda>(a, b). a > b) zs"
    "list_ex (\<lambda>(a, b). a > b) (map prod.swap zs) = list_ex (\<lambda>(a, b). a < b) zs"
    for zs :: "(int \<times> int) list"
    by (induction zs) auto
  show ?thesis
  proof (cases "dropWhile (\<lambda>(x, y). x = y) (zip (vector c1) (vector c2))")
    case Nil
    with True show ?thesis by (simp add: vc_cmp_def sw dw del: dropWhile_eq_Nil_conv)
  next
    case (Cons p rest)
    obtain x y where p: "p = (x, y)" by fastforce
    with Cons True scan_first[of "vector c1" "vector c2"] have "x \<noteq> y"
      by (simp add: vc_size_def)
    with True Cons p show ?thesis by (auto simp: vc_cmp_def sw dw ex)
  qed
qed

section \<open>Join\<close>

lemma vc_update_vector:
  "vc_size c = vc_size d \<Longrightarrow> vector (vc_update c d) = map2 max (vector c) (vector d)"
  by (auto simp: vc_update_def max_def)

lemma vc_update_nth:
  assumes "vc_size c = vc_size d" "i < vc_size c"
  shows "vector (vc_update c d) ! i = max (vector c ! i) (vector d ! i)"
  using assms by (simp add: vc_update_vector vc_size_def)

lemma vc_update_upper:
  assumes "vc_size c = vc_size d"
  shows "vc_leq c (vc_update c d)" "vc_leq d (vc_update c d)"
  using assms by (auto simp: vc_leq_nth vc_update_nth)

lemma vc_update_least:
  assumes "vc_leq c e" "vc_leq d e"
  shows "vc_leq (vc_update c d) e"
  using assms vc_leq_size[OF assms(1)] vc_leq_size[OF assms(2)]
  by (auto simp: vc_leq_nth vc_update_nth)

lemma vc_eqI: "vector a = vector b \<Longrightarrow> vc_id a = vc_id b \<Longrightarrow> a = (b :: vc)"
  by simp

lemma vc_update_absorb: "vc_leq d c \<Longrightarrow> vc_update c d = c"
  using vc_leq_antisym[of "vc_update c d" c] vc_update_upper(1)[of c d] vc_update_least[of c c d]
    vc_leq_size[of d c]
  by (intro vc_eqI) auto

lemma vc_update_le: "vc_leq c d \<Longrightarrow> vector (vc_update c d) = vector d"
  using vc_leq_antisym[of "vc_update c d" d] vc_update_upper(2)[of c d] vc_update_least[of c d d]
    vc_leq_size[of c d]
  by simp

lemma vc_update_commute_vector:
  assumes "vc_size c = vc_size d"
  shows "vector (vc_update c d) = vector (vc_update d c)"
  using assms vc_update_least vc_update_upper by (intro vc_leq_antisym) auto

lemma vc_update_exchange:
  assumes "vc_size c = vc_size d" "vc_size c = vc_size e"
  shows "vc_update (vc_update c d) e = vc_update (vc_update c e) d"
proof (rule vc_eqI)
  have "vc_leq (vc_update (vc_update c d) e) (vc_update (vc_update c e) d)" (is "vc_leq ?l ?r")
    using assms vc_update_upper[of c e] vc_update_upper[of "vc_update c e" d]
    by (intro vc_update_least) (auto intro: vc_leq_trans)
  moreover have "vc_leq ?r ?l"
    using assms vc_update_upper[of c d] vc_update_upper[of "vc_update c d" e]
    by (intro vc_update_least) (auto intro: vc_leq_trans)
  ultimately show "vector ?l = vector ?r" by (rule vc_leq_antisym)
qed simp

section \<open>Causal readiness\<close>

text \<open>
  A clock is ready exactly when it is the current clock with the sender's component one
  higher, up to components where the current clock is already ahead.
\<close>

lemma vc_causally_ready_iff:
  assumes "vc_wf n next" "vc_size current = n"
    "vector current ! nat (vc_id next) + 1 < 2 ^ 31" "0 \<le> vector current ! nat (vc_id next)"
  shows "vc_causally_ready current next =
     Some ((\<forall>i < n. int i \<noteq> vc_id next \<longrightarrow> vector next ! i \<le> vector current ! i) \<and>
           vector next ! nat (vc_id next) = vector current ! nat (vc_id next) + 1)"
  using assms by (auto simp: vc_causally_ready_def vc_wf_def list_ex_iff not_less)

lemma vc_causally_ready_total:
  assumes "vc_wf n next" "vc_size current = n"
  shows "\<exists>b. vc_causally_ready current next = Some b"
  using assms by (auto simp: vc_causally_ready_def vc_wf_def)

section \<open>Text form\<close>

lemma dropWhile_sep:
  assumes "c = CHR '','' \<or> c = CHR ''|''"
  shows "dropWhile (\<lambda>c. c \<noteq> CHR '','' \<and> c \<noteq> CHR ''|'') (print_d x @ c # r) = c # r"
  using assms print_d_no_separator[of x] by (subst dropWhile_append2) auto

lemma sdsToVC_loop_print:
  assumes "xs \<noteq> []" "\<forall>x \<in> set xs. is_int32 x" "length buf + length xs \<le> 100"
  shows "sdsToVC_loop (concat (map (\<lambda>v. print_d v @ '','') (butlast xs)) @
           print_d (last xs) @ ''|'' @ r) buf = Some (buf @ xs, r)"
  using assms
proof (induction xs arbitrary: buf)
  case (Cons x xs)
  show ?case
  proof (cases "xs = []")
    case True
    with Cons.prems show ?thesis
      by (subst sdsToVC_loop.simps) (simp add: dropWhile_sep atoi_print_d)
  next
    case False
    with Cons.prems Cons.IH[of "buf @ [x]"] show ?thesis
      by (subst sdsToVC_loop.simps) (simp add: dropWhile_sep atoi_print_d)
  qed
qed simp

lemma vc_roundtrip:
  assumes "vc_wf n c" "n \<le> 100"
  shows "\<exists>s. vcToSds c = Some s \<and> sdsToVC s = Some c"
proof -
  have ne: "vector c \<noteq> []" and l: "length (vector c) \<le> 100"
    using assms by (auto simp: vc_wf_def vc_size_def)
  have id: "atoi (print_d (vc_id c)) = vc_id c"
    using atoi_print_d[of "vc_id c" "[]"] assms by (simp add: vc_wf_def is_int32_def)
  show ?thesis
    using ne id sdsToVC_loop_print[OF ne, of "[]" "print_d (vc_id c)"] l assms
    by (simp add: vcToSds_def sdsToVC_def vc_wf_def)
qed

lemma sdsToVC_text: "vcToSds c = Some x \<Longrightarrow> vc_wf n c \<Longrightarrow> n \<le> 100 \<Longrightarrow> sdsToVC x = Some c"
  using vc_roundtrip by force

section \<open>Properties of vector clocks\<close>

text \<open>
  Vector clocks survive the wire: the text of a well-formed clock of at most 100 replicas,
  the size of the parse buffer, reads back as the same clock.
\<close>

theorem vc_wire_roundtrip:
  assumes "vc_wf n c" "n \<le> 100"
  shows "\<exists>s. vcToSds c = Some s \<and> sdsToVC s = Some c"
  by (rule vc_roundtrip[OF assms])

theorem vc_wire_roundtrip_witness:
  "\<exists>s. vcToSds \<lparr>vector = [3, 0, 12], vc_id = 2\<rparr> = Some s \<and> sdsToVC s = Some \<lparr>vector = [3, 0, 12], vc_id = 2\<rparr>"
  by (rule vc_wire_roundtrip[of 3]) (simp_all add: vc_wf_def vc_size_def)

text \<open>
  C35 (comparison of vector clocks): for clocks of different replicas \<open>vc_cmp\<close> returns less or
  greater exactly for the strict componentwise order, and orders all other pairs by identity.
\<close>

theorem vc_cmp_correct:
  assumes "vc_size c1 = vc_size c2" "vc_id c1 \<noteq> vc_id c2"
  shows "vc_cmp c1 c2 =
     (if vector c1 \<noteq> vector c2 \<and> vc_leq c1 c2 then VC_LESS
      else if vector c1 \<noteq> vector c2 \<and> vc_leq c2 c1 then VC_GREATER
      else if vc_id c1 < vc_id c2 then VC_C_LESS else VC_C_GREATER)"
  by (rule vc_cmp_spec[OF assms])

theorem vc_cmp_correct_witness:
  "vc_cmp \<lparr>vector = [1, 0], vc_id = 0\<rparr> \<lparr>vector = [0, 1], vc_id = 1\<rparr> = VC_C_LESS"
  using vc_cmp_correct[of "\<lparr>vector = [1, 0], vc_id = 0\<rparr>" "\<lparr>vector = [0, 1], vc_id = 1\<rparr>"]
  by (simp add: vc_size_def vc_leq_def)

text \<open>
  Merging clocks: \<open>vc_update\<close> computes the least upper bound in the componentwise order.
\<close>

theorem vc_update_join:
  assumes "vc_size c = vc_size d"
  shows "vc_leq (vc_update c d) e \<longleftrightarrow> vc_leq c e \<and> vc_leq d e"
  using vc_update_least vc_update_upper[OF assms] vc_leq_trans by blast

theorem vc_update_join_witness:
  "vc_leq (vc_update \<lparr>vector = [1, 0], vc_id = 0\<rparr> \<lparr>vector = [0, 1], vc_id = 1\<rparr>) \<lparr>vector = [1, 1], vc_id = 0\<rparr> \<longleftrightarrow>
   vc_leq \<lparr>vector = [1, 0], vc_id = 0\<rparr> \<lparr>vector = [1, 1], vc_id = 0\<rparr> \<and>
   vc_leq \<lparr>vector = [0, 1], vc_id = 1\<rparr> \<lparr>vector = [1, 1], vc_id = 0\<rparr>"
  by (rule vc_update_join) (simp add: vc_size_def)

end
