(* ===== verification/LamportClock.thy ===== *)
theory LamportClock
  imports VectorClock "HOL-Library.Product_Lexorder"
begin

text \<open>
  The Lamport clocks of lamport_clock.h. They serve as unique tags (ordered by id, then
  counter) in the add-wins types and as time stamps (ordered by counter, then id) in the
  remove-win-framework list.
\<close>

section \<open>Definitions\<close>

record lc =
  lc_x :: int
  lc_id :: int

definition lc_new :: "int \<Rightarrow> int \<Rightarrow> lc" where
  "lc_new x i = \<lparr>lc_x = x, lc_id = i\<rparr>"

definition lc_cmp_as_tag :: "lc \<Rightarrow> lc \<Rightarrow> int" where
  "lc_cmp_as_tag t1 t2 =
     (if lc_id t1 \<noteq> lc_id t2 then int32 (lc_id t1 - lc_id t2)
      else int32 (lc_x t1 - lc_x t2))"

definition lc_cmp :: "lc \<Rightarrow> lc \<Rightarrow> int" where
  "lc_cmp t1 t2 =
     (if lc_x t1 \<noteq> lc_x t2 then int32 (lc_x t1 - lc_x t2)
      else int32 (lc_id t1 - lc_id t2))"

definition lc_dup :: "lc \<Rightarrow> lc" where
  "lc_dup t = lc_new (lc_x t) (lc_id t)"

definition lcToSds :: "lc \<Rightarrow> sds" where
  "lcToSds t = print_d (lc_x t) @ '','' @ print_d (lc_id t)"

text \<open>
  \<open>sscanf(s, "%d,%d", ...)\<close>; on a matching failure a field of the fresh clock stays
  uninitialised, which is a fault when it is read.
\<close>

definition sdsToLc :: "sds \<Rightarrow> lc option" where
  "sdsToLc s =
     (case scan_d s of
        None \<Rightarrow> None
      | Some (x, r) \<Rightarrow>
          (case r of
             [] \<Rightarrow> None
           | c # r' \<Rightarrow>
               if c = CHR '','' then map_option (\<lambda>(i, _). lc_new x i) (scan_d r') else None))"

definition lc_update :: "lc \<Rightarrow> lc \<Rightarrow> lc" where
  "lc_update tar m = tar\<lparr>lc_x := (if lc_x tar > lc_x m then lc_x tar else lc_x m)\<rparr>"

definition lc_copy :: "lc option \<Rightarrow> lc \<Rightarrow> lc option" where
  "lc_copy tar m =
     (case tar of
        None \<Rightarrow> Some (lc_dup m)
      | Some t \<Rightarrow> Some (t\<lparr>lc_x := lc_x m, lc_id := lc_id m\<rparr>))"

definition lc_now :: "lc \<Rightarrow> sds" where
  "lc_now t = lcToSds (t\<lparr>lc_x := int32 (lc_x t + 1)\<rparr>)"

section \<open>Order\<close>

definition lc_wf :: "lc \<Rightarrow> bool" where
  "lc_wf t \<longleftrightarrow> is_int32 (lc_x t) \<and> is_int32 (lc_id t)"

definition lc_nonneg :: "lc \<Rightarrow> bool" where
  "lc_nonneg t \<longleftrightarrow> lc_wf t \<and> 0 \<le> lc_x t \<and> 0 \<le> lc_id t"

text \<open>The order of tags and the order of time stamps, as lexicographic keys.\<close>

definition tag_key :: "lc \<Rightarrow> int \<times> int" where
  "tag_key t = (lc_id t, lc_x t)"

definition time_key :: "lc \<Rightarrow> int \<times> int" where
  "time_key t = (lc_x t, lc_id t)"

lemma lc_dup_id [simp]: "lc_dup t = t"
  by (simp add: lc_dup_def lc_new_def)

lemma lc_copy_eq [simp]: "lc_copy tar m = Some m"
  by (auto simp: lc_copy_def split: option.splits)

lemma tag_key_inj: "tag_key t = tag_key u \<longleftrightarrow> t = u"
  by (auto simp: tag_key_def)

lemma time_key_inj: "time_key t = time_key u \<longleftrightarrow> t = u"
  by (auto simp: time_key_def)

lemma lc_nonneg_wf [simp]: "lc_nonneg t \<Longrightarrow> lc_wf t"
  by (simp add: lc_nonneg_def)

lemma int32_eq_0:
  assumes "is_int32 a" "is_int32 b"
  shows "int32 (a - b) = 0 \<longleftrightarrow> a = b"
proof
  assume "int32 (a - b) = 0"
  then have "(a - b + 2 ^ 31) mod 2 ^ 32 = (2 ^ 31 :: int) mod 2 ^ 32"
    by (simp add: int32_def)
  then have "2 ^ 32 dvd a - b"
    by (simp only: mod_eq_dvd_iff add_diff_cancel_right')
  moreover have "\<bar>a - b\<bar> < 2 ^ 32" using assms by (simp add: is_int32_def abs_less_iff)
  ultimately show "a = b"
    using dvd_imp_le_int[of "a - b" "2 ^ 32"] by fastforce
qed simp

text \<open>Equality of tags is decided correctly for every pair of 32 bit clocks.\<close>

lemma lc_cmp_as_tag_eq: "lc_wf t \<Longrightarrow> lc_wf u \<Longrightarrow> lc_cmp_as_tag t u = 0 \<longleftrightarrow> t = u"
  by (auto simp: lc_cmp_as_tag_def lc_wf_def int32_eq_0)

lemma lc_cmp_eq: "lc_wf t \<Longrightarrow> lc_wf u \<Longrightarrow> lc_cmp t u = 0 \<longleftrightarrow> t = u"
  by (auto simp: lc_cmp_def lc_wf_def int32_eq_0)

text \<open>The sign is right where the subtraction does not overflow: on non-negative fields.\<close>

lemma lc_cmp_as_tag_less:
  "lc_nonneg t \<Longrightarrow> lc_nonneg u \<Longrightarrow> lc_cmp_as_tag t u < 0 \<longleftrightarrow> tag_key t < tag_key u"
  by (auto simp: lc_cmp_as_tag_def lc_nonneg_def lc_wf_def tag_key_def int32_diff)

lemma lc_cmp_less:
  "lc_nonneg t \<Longrightarrow> lc_nonneg u \<Longrightarrow> lc_cmp t u < 0 \<longleftrightarrow> time_key t < time_key u"
  by (auto simp: lc_cmp_def lc_nonneg_def lc_wf_def time_key_def int32_diff)

lemma lc_cmp_le:
  "lc_nonneg t \<Longrightarrow> lc_nonneg u \<Longrightarrow> lc_cmp t u \<le> 0 \<longleftrightarrow> time_key t \<le> time_key u"
  by (auto simp: lc_cmp_def lc_nonneg_def lc_wf_def time_key_def int32_diff)

text \<open>With a negative field the comparison can be inverted by the overflow.\<close>

lemma lc_cmp_overflow:
  "lc_cmp \<lparr>lc_x = 2147483647, lc_id = 0\<rparr> \<lparr>lc_x = - 1, lc_id = 0\<rparr> < 0"
  by (simp add: lc_cmp_def int32_def)

section \<open>Text form\<close>

lemma lc_roundtrip:
  assumes "lc_wf t"
  shows "sdsToLc (lcToSds t) = Some t"
proof -
  have "scan_d (print_d (lc_x t) @ CHR '','' # print_d (lc_id t)) =
      Some (lc_x t, CHR '','' # print_d (lc_id t))"
    using assms by (intro scan_d_print_d) (simp_all add: lc_wf_def)
  moreover have "scan_d (print_d (lc_id t)) = Some (lc_id t, [])"
    using scan_d_print_d[of "lc_id t" "[]"] assms by (simp add: lc_wf_def)
  ultimately show ?thesis
    by (simp add: sdsToLc_def lcToSds_def lc_new_def)
qed

lemma sdsToLc_text: "lcToSds t = x \<Longrightarrow> lc_wf t \<Longrightarrow> sdsToLc x = Some t"
  using lc_roundtrip[of t] by simp

lemmas [text_eval] = lcToSds_def lc_wf_def lc_nonneg_def

text \<open>
  Logical clocks are totally ordered: on clocks with non-negative fields, where the
  subtraction cannot overflow, \<open>lc_cmp\<close> is the comparison of (time, identity) pairs: it is
  antisymmetric and zero only for equal clocks. A negative field breaks this.
\<close>

theorem lc_cmp_orders:
  assumes "lc_nonneg t" "lc_nonneg u"
  shows "(lc_cmp t u < 0 \<longleftrightarrow> time_key t < time_key u) \<and> (lc_cmp t u = 0 \<longleftrightarrow> t = u) \<and>
    (lc_cmp t u > 0 \<longleftrightarrow> lc_cmp u t < 0)"
proof -
  have "lc_cmp t u > 0 \<longleftrightarrow> time_key u < time_key t"
    using lc_cmp_le[OF assms] by (simp add: not_le flip: not_less)
  then show ?thesis using assms by (simp add: lc_cmp_less lc_cmp_eq)
qed

theorem lc_cmp_orders_witness:
  "(lc_cmp \<lparr>lc_x = 1, lc_id = 0\<rparr> \<lparr>lc_x = 1, lc_id = 1\<rparr> < 0 \<longleftrightarrow>
      time_key \<lparr>lc_x = 1, lc_id = 0\<rparr> < time_key \<lparr>lc_x = 1, lc_id = 1\<rparr>) \<and>
   (lc_cmp \<lparr>lc_x = 1, lc_id = 0\<rparr> \<lparr>lc_x = 1, lc_id = 1\<rparr> = 0 \<longleftrightarrow>
      \<lparr>lc_x = 1, lc_id = 0\<rparr> = \<lparr>lc_x = 1, lc_id = (1 :: int)\<rparr>) \<and>
   (lc_cmp \<lparr>lc_x = 1, lc_id = 0\<rparr> \<lparr>lc_x = 1, lc_id = 1\<rparr> > 0 \<longleftrightarrow>
      lc_cmp \<lparr>lc_x = 1, lc_id = 1\<rparr> \<lparr>lc_x = 1, lc_id = 0\<rparr> < 0)"
  by (rule lc_cmp_orders) (simp_all add: lc_nonneg_def lc_wf_def)

end
