(* ===== verification/CDouble.thy ===== *)
theory CDouble
  imports CFormat DoubleArith
begin

text \<open>
  Reading a \<open>double\<close> from a command argument: \<open>string2d\<close> of util.c on top of \<open>strtod\<close> of the
  C library. \<open>string2d\<close> accepts a text only if \<open>strtod\<close> consumes all of it, so the model is a
  parser of whole strings: an optional sign, then \<open>inf\<close>, \<open>infinity\<close> or \<open>nan\<close> in any case, a
  hexadecimal number with a binary exponent, or a decimal number with a decimal exponent.
\<close>

section \<open>Numbers\<close>

definition tolower :: "char \<Rightarrow> char" where
  "tolower c = (let n = of_char c :: nat in if 65 \<le> n \<and> n \<le> 90 then char_of (n + 32) else c)"

text \<open>\<open>strcmp\<close> of a text with a string literal sees the text up to the first NUL character.\<close>

definition c_text :: "sds \<Rightarrow> sds" where
  "c_text x = takeWhile (\<lambda>c. c \<noteq> CHR 0x00) x"

text \<open>\<open>strcasecmp\<close> of a text with a string literal in lower case, for equality.\<close>

definition strcaseeq :: "sds \<Rightarrow> sds \<Rightarrow> bool" where
  "strcaseeq x lit \<longleftrightarrow> map tolower (c_text x) = lit"

definition isxdigit :: "char \<Rightarrow> bool" where
  "isxdigit c \<longleftrightarrow> isdigit c \<or> (97 \<le> (of_char (tolower c) :: nat) \<and> (of_char (tolower c) :: nat) \<le> 102)"

definition xdigit_val :: "char \<Rightarrow> nat" where
  "xdigit_val c = (if isdigit c then digit_val c else of_char (tolower c) - 87)"

definition base_val :: "nat \<Rightarrow> (char \<Rightarrow> nat) \<Rightarrow> sds \<Rightarrow> nat" where
  "base_val b val ds = foldl (\<lambda>v c. b * v + val c) 0 ds"

text \<open>
  Digits, an optional point and more digits, at least one digit in all; the value and the
  rest of the input.
\<close>

definition parse_mantissa ::
    "nat \<Rightarrow> (char \<Rightarrow> bool) \<Rightarrow> (char \<Rightarrow> nat) \<Rightarrow> sds \<Rightarrow> (rat \<times> sds) option" where
  "parse_mantissa b isd val s =
     (let i = takeWhile isd s; r = dropWhile isd s;
          (f, r') = (case r of
                       c # t \<Rightarrow> if c = CHR ''.'' then (takeWhile isd t, dropWhile isd t) else ([], r)
                     | [] \<Rightarrow> ([], r))
      in if i @ f = [] then None
         else Some (of_nat (base_val b val (i @ f)) / of_nat (b ^ length f), r'))"

text \<open>The exponent part must consume the rest of the input.\<close>

definition parse_exponent :: "char \<Rightarrow> sds \<Rightarrow> int option" where
  "parse_exponent e s =
     (case s of
        [] \<Rightarrow> Some 0
      | c # t \<Rightarrow>
          if tolower c = e
          then let (neg, ds) = (case t of
                                  d # u \<Rightarrow> if d = CHR ''-'' then (True, u)
                                           else if d = CHR ''+'' then (False, u) else (False, t)
                                | [] \<Rightarrow> (False, t))
               in if ds \<noteq> [] \<and> list_all isdigit ds
                  then Some (if neg then - int (digits_val ds) else int (digits_val ds)) else None
          else None)"

definition rat_pow :: "nat \<Rightarrow> int \<Rightarrow> rat" where
  "rat_pow b e = (if 0 \<le> e then of_nat (b ^ nat e) else 1 / of_nat (b ^ nat (- e)))"

definition parse_number :: "nat \<Rightarrow> (char \<Rightarrow> bool) \<Rightarrow> (char \<Rightarrow> nat) \<Rightarrow> char \<Rightarrow> nat \<Rightarrow> sds \<Rightarrow> rat option" where
  "parse_number b isd val e eb s =
     do {
       (v, r) \<leftarrow> parse_mantissa b isd val s;
       x \<leftarrow> parse_exponent e r;
       Some (v * rat_pow eb x)
     }"

datatype strtod_value = SInf | SNan | SNum rat

definition parse_unsigned :: "sds \<Rightarrow> strtod_value option" where
  "parse_unsigned s =
     (let l = map tolower s
      in if l = ''inf'' \<or> l = ''infinity'' then Some SInf
         else if take 3 l = ''nan'' then Some SNan
         else if take 2 l = ''0x'' then map_option SNum (parse_number 16 isxdigit xdigit_val CHR ''p'' 2 (drop 2 s))
         else map_option SNum (parse_number 10 isdigit digit_val CHR ''e'' 10 s))"

text \<open>
  \<open>string2d\<close>: an overflow and an underflow to zero are range errors, a \<open>nan\<close> is refused
  whatever follows it.
\<close>

definition string2d :: "sds \<Rightarrow> double option" where
  "string2d s =
     (case s of
        [] \<Rightarrow> None
      | c # t \<Rightarrow>
          let (neg, u) = (if c = CHR ''-'' then (True, t) else if c = CHR ''+'' then (False, t) else (False, s))
          in case parse_unsigned u of
               None \<Rightarrow> None
             | Some SNan \<Rightarrow> None
             | Some SInf \<Rightarrow> Some (if neg then NInf else PInf)
             | Some (SNum r) \<Rightarrow>
                 (case round_double (if neg then - r else r) of
                    Fin v \<Rightarrow> if v = 0 \<and> r \<noteq> 0 then None else Some (Fin v)
                  | _ \<Rightarrow> None))"

text \<open>
  The conversion \<open>%f\<close> of \<open>sdscatprintf\<close>: six decimals, the exact value rounded half to even. The
  only NaN of the scores is the one of adding opposite infinities, whose sign bit is set on x86-64.
\<close>

definition print_f :: "double \<Rightarrow> sds" where
  "print_f d =
     (case d of
        PInf \<Rightarrow> ''inf''
      | NInf \<Rightarrow> ''-inf''
      | NaN \<Rightarrow> ''-nan''
      | Fin r \<Rightarrow>
          (let n = nat (round_even (\<bar>r\<bar> * 10 ^ 6)); frac = dec_of_nat (n mod 10 ^ 6)
           in (if r < 0 then ''-'' else []) @ dec_of_nat (n div 10 ^ 6) @ ''.'' @
              replicate (6 - length frac) CHR ''0'' @ frac))"

section \<open>Integers are read exactly\<close>

lemma base_val_digits: "base_val 10 digit_val ds = digits_val ds"
  by (simp add: base_val_def digits_val_def)

lemma string2d_not_NaN: "string2d s = Some v \<Longrightarrow> v \<noteq> NaN"
  by (auto simp: string2d_def Let_def split: list.splits prod.splits option.splits strtod_value.splits
      double.splits if_splits)

lemma tolower_digit [simp]: "isdigit c \<Longrightarrow> tolower c = c"
  by (simp add: tolower_def isdigit_def Let_def)

lemma parse_unsigned_digits:
  assumes "\<forall>c \<in> set ds. isdigit c" "ds \<noteq> []"
  shows "parse_unsigned ds = Some (SNum (of_nat (digits_val ds)))"
proof -
  have l: "map tolower ds = ds" using assms(1) by (intro map_idI) simp
  have d: "isdigit c" if "ds = p @ c # q" for p c q using assms(1) that by simp
  have "\<not> isdigit CHR ''i''" "\<not> isdigit CHR ''n''" "\<not> isdigit CHR ''x''"
    by (simp_all add: isdigit_def)
  then have "ds \<noteq> ''inf''" "ds \<noteq> ''infinity''" "take 3 ds \<noteq> ''nan''" "take 2 ds \<noteq> ''0x''"
    using assms(1) by (auto dest: in_set_takeD simp: take_Cons split: nat.splits)
      (metis in_set_takeD list.set_intros(1,2))+
  moreover have tw: "takeWhile isdigit ds = ds" "dropWhile isdigit ds = []"
    using assms(1) by simp_all
  have "parse_mantissa 10 isdigit digit_val ds = Some (of_nat (digits_val ds), [])"
    unfolding parse_mantissa_def tw using assms(2) by (simp add: base_val_digits)
  ultimately show ?thesis
    using l by (simp add: parse_unsigned_def parse_number_def parse_exponent_def rat_pow_def Let_def)
qed

lemma string2d_print_d:
  assumes "\<bar>n\<bar> < 2 ^ 53"
  shows "string2d (print_d n) = Some (Fin (of_int n))"
proof (cases "n < 0")
  case True
  have r: "round_double (- of_nat (nat (- n))) = Fin (of_int n)"
    using round_double_int[OF assms] True by simp
  have "parse_unsigned (dec_of_nat (nat (- n))) = Some (SNum (of_nat (nat (- n))))"
    using parse_unsigned_digits[OF dec_of_nat_digits dec_of_nat_nonempty] by simp
  then show ?thesis using True r by (simp add: string2d_def print_d_def)
next
  case False
  obtain c t where c: "dec_of_nat (nat n) = c # t" "isdigit c" using dec_of_nat_Cons .
  have r: "round_double (of_nat (nat n)) = Fin (of_int n)"
    using round_double_int[OF assms] False by simp
  have "parse_unsigned (dec_of_nat (nat n)) = Some (SNum (of_nat (nat n)))"
    using parse_unsigned_digits[OF dec_of_nat_digits dec_of_nat_nonempty] by simp
  then show ?thesis using False r c by (simp add: string2d_def print_d_def)
qed

lemma string2d_text: "print_d n = x \<Longrightarrow> \<bar>n\<bar> < 2 ^ 53 \<Longrightarrow> string2d x = Some (Fin (of_int n))"
  using string2d_print_d by blast

end
