(* ===== verification/Server.thy ===== *)
theory Server
  imports Zset LamportClock CDouble
begin

text \<open>
  The part of the Redis server that the replicated types run on: objects and the key space,
  clients and replies, the prepare/effect macros of CRDT.h, the element tables of
  RWFramework.c, the sorted set helpers of t_ozset.c, and the execution and broadcast of a
  command (\<open>call\<close> of server.c, \<open>replicationBroadcast\<close> of p2p.c). \<open>None\<close> stands for a fault:
  a failed assertion, a panic, an access outside an array, or the use of an object at the
  wrong type.
\<close>

section \<open>Objects, server, clients\<close>

text \<open>The type parameter is the element metadata that a hash object points to.\<close>

datatype 'v robj =
    ObjString sds
  | ObjZset zset
  | ObjHash "sds \<Rightarrow> 'v option"

datatype obj_type = OBJ_STRING | OBJ_ZSET | OBJ_HASH

fun robj_type :: "'v robj \<Rightarrow> obj_type" where
  "robj_type (ObjString s) = OBJ_STRING"
| "robj_type (ObjZset z) = OBJ_ZSET"
| "robj_type (ObjHash h) = OBJ_HASH"

abbreviation (input) crlf :: sds where
  "crlf \<equiv> [CHR 0x0D, CHR 0x0A]"

datatype reply =
    ReplyOk
  | ReplySyntaxerr
  | ReplyWrongtypeerr
  | ReplyEleExist
  | ReplyEleNexist
  | ReplyNotreplerr
  | ReplyPreNexist
  | ReplyReplhandshake
  | ReplyError sds
  | ReplyRaw sds
  | ReplyNull
  | ReplyEmptyarray
  | ReplyBool bool
  | ReplyLongLong int
  | ReplyDouble double
  | ReplyBulk sds
  | ReplyArrayLen nat

text \<open>
  A replica is the client structure of its connection, of which the server keeps the
  outgoing replies. \<open>rand n\<close> is the supply of random levels for the \<open>n\<close>-th next insertion
  into a sorted set.
\<close>

record 'v server =
  p2p_id :: int
  p2p_count :: int
  replicas :: "reply list list"
  db :: "sds \<Rightarrow> 'v robj option"
  dirty :: int
  zcfg :: zset_config
  rand :: "nat \<Rightarrow> nat \<Rightarrow> nat"

record client =
  argv :: "sds list"
  rargv :: "sds list option"
  is_replica :: bool
  is_replica_message :: bool
  replies :: "reply list"

definition addReply :: "client \<Rightarrow> reply \<Rightarrow> client" where
  "addReply c r =
     (if is_replica c \<and> \<not> is_replica_message c then c else c\<lparr>replies := replies c @ [r]\<rparr>)"

definition addReplies :: "client \<Rightarrow> reply list \<Rightarrow> client" where
  "addReplies c rs = foldl addReply c rs"

definition lookupKey :: "'v server \<Rightarrow> sds \<Rightarrow> 'v robj option" where
  "lookupKey s k = db s k"

definition dbAdd :: "'v server \<Rightarrow> sds \<Rightarrow> 'v robj \<Rightarrow> 'v server option" where
  "dbAdd s k v = (if db s k = None then Some (s\<lparr>db := (db s)(k \<mapsto> v)\<rparr>) else None)"

text \<open>In-place modification of the object behind a key.\<close>

definition dbSet :: "'v server \<Rightarrow> sds \<Rightarrow> 'v robj \<Rightarrow> 'v server" where
  "dbSet s k v = s\<lparr>db := (db s)(k \<mapsto> v)\<rparr>"

definition arg :: "sds list \<Rightarrow> nat \<Rightarrow> sds option" where
  "arg xs i = (if i < length xs then Some (xs ! i) else None)"

section \<open>The macros of CRDT.h\<close>

definition CHECK_ARGC :: "sds list \<Rightarrow> nat \<Rightarrow> bool" where
  "CHECK_ARGC args mx \<longleftrightarrow> \<not> (length args > mx \<or> length args < 2)"

definition CHECK_CONTAINER_TYPE :: "'v server \<Rightarrow> sds \<Rightarrow> obj_type \<Rightarrow> bool" where
  "CHECK_CONTAINER_TYPE s k ty \<longleftrightarrow>
     (case lookupKey s k of None \<Rightarrow> True | Some o' \<Rightarrow> robj_type o' = ty)"

text \<open>\<open>getLongLongFromObject\<close> on a string object.\<close>

definition getLongLongFromObject :: "sds \<Rightarrow> int option" where
  "getLongLongFromObject s = string2ll s"

definition CHECK_ARG_TYPE_INT :: "sds \<Rightarrow> bool" where
  "CHECK_ARG_TYPE_INT s \<longleftrightarrow> getLongLongFromObject s \<noteq> None"

definition getDoubleFromObject :: "sds \<Rightarrow> double option" where
  "getDoubleFromObject s = string2d s"

definition CHECK_ARG_TYPE_DOUBLE :: "sds \<Rightarrow> bool" where
  "CHECK_ARG_TYPE_DOUBLE s \<longleftrightarrow> getDoubleFromObject s \<noteq> None"

abbreviation (input) ADDITIONAL_CAPACITY :: int where
  "ADDITIONAL_CAPACITY \<equiv> 4"

text \<open>
  \<open>rargv\<close> during the prepare phase: the arguments collected so far (\<open>None\<close> before
  \<open>INIT_RARGV\<close>) and the variable \<open>__capacity__\<close>. The capacity, \<open>argc\<close> and \<open>rargc\<close> are of type \<open>int\<close>; an
  overflow of the arithmetic on them and a write behind the capacity are faults.
\<close>

definition c_int :: "int \<Rightarrow> int option" where
  "c_int x = (if is_int32 x then Some x else None)"

record rargv_buf =
  rb_args :: "sds list option"
  rb_capacity :: int

definition rargv_begin :: "sds list \<Rightarrow> rargv_buf option" where
  "rargv_begin args = do { cap \<leftarrow> c_int (int (length args) + ADDITIONAL_CAPACITY); Some \<lparr>rb_args = None, rb_capacity = cap\<rparr> }"

definition INIT_RARGV :: "sds list \<Rightarrow> rargv_buf \<Rightarrow> rargv_buf option" where
  "INIT_RARGV args b =
     (if int (length args) \<le> rb_capacity b then Some (b\<lparr>rb_args := Some args\<rparr>) else None)"

definition RARGV_ADD :: "sds list \<Rightarrow> sds \<Rightarrow> rargv_buf \<Rightarrow> rargv_buf option" where
  "RARGV_ADD args x b =
     do {
       b1 \<leftarrow> (if rb_args b = None then INIT_RARGV args b else Some b);
       xs \<leftarrow> rb_args b1;
       cap \<leftarrow> (if int (length xs) = rb_capacity b1
               then do { c2 \<leftarrow> c_int (2 * rb_capacity b1); c_int (c2 - int (length args)) }
               else Some (rb_capacity b1));
       if int (length xs) < cap
       then do { rargc \<leftarrow> c_int (int (length xs) + 1); Some \<lparr>rb_args = Some (xs @ [x]), rb_capacity = cap\<rparr> }
       else None
     }"

fun RARGV_ADDS :: "sds list \<Rightarrow> sds list \<Rightarrow> rargv_buf \<Rightarrow> rargv_buf option" where
  "RARGV_ADDS args [] b = Some b"
| "RARGV_ADDS args (x # xs) b = do { b' \<leftarrow> RARGV_ADD args x b; RARGV_ADDS args xs b' }"

definition rargv_finish :: "sds list \<Rightarrow> rargv_buf \<Rightarrow> sds list option" where
  "rargv_finish args b =
     do { b' \<leftarrow> (if rb_args b = None then INIT_RARGV args b else Some b); rb_args b' }"

definition REPLICATION_MODE :: "'v server \<Rightarrow> bool" where
  "REPLICATION_MODE s \<longleftrightarrow> length (replicas s) \<noteq> 0 \<or> p2p_count s \<noteq> 0"

text \<open>
  The frame \<open>CRDT_BEGIN\<close>, \<open>CRDT_PREPARE\<close>, \<open>CRDT_EFFECT\<close>, \<open>CRDT_END\<close> of an update command.
  A prepare phase ends with a reply to the client (\<open>Inl\<close>, an early return) or with the
  arguments it adds to \<open>rargv\<close> (\<open>Inr\<close>).
\<close>

type_synonym 'v prepare = "'v server \<Rightarrow> sds list \<Rightarrow> ('v server \<times> (reply + sds list)) option"
type_synonym 'v effect = "'v server \<Rightarrow> sds list \<Rightarrow> 'v server option"
type_synonym 'v command = "'v server \<Rightarrow> client \<Rightarrow> ('v server \<times> client) option"

definition CRDT_END :: "client \<Rightarrow> client" where
  "CRDT_END c = (if is_replica_message c then addReply c ReplyOk else c)"

definition crdt_command :: "'v prepare \<Rightarrow> 'v effect \<Rightarrow> 'v command" where
  "crdt_command prep eff s c =
     (if REPLICATION_MODE s then
        if \<not> is_replica c then
          do {
            (s1, r) \<leftarrow> prep s (argv c);
            case r of
              Inl msg \<Rightarrow> Some (s1, addReply c msg)
            | Inr extra \<Rightarrow>
                do {
                  b0 \<leftarrow> rargv_begin (argv c);
                  b \<leftarrow> RARGV_ADDS (argv c) extra b0;
                  ra \<leftarrow> rargv_finish (argv c) b;
                  s2 \<leftarrow> eff s1 ra;
                  Some (s2, CRDT_END ((addReply c ReplyOk)\<lparr>rargv := Some ra\<rparr>))
                }
          }
        else
          do {
            ra \<leftarrow> rargv c;
            s1 \<leftarrow> eff s ra;
            Some (s1, CRDT_END c)
          }
      else Some (s, addReply c ReplyNotreplerr))"

section \<open>Execution and broadcast\<close>

definition replicationBroadcast :: "reply list list \<Rightarrow> sds list \<Rightarrow> reply list list" where
  "replicationBroadcast rs args =
     map (\<lambda>out. out @ ReplyArrayLen (length args) # map ReplyBulk args) rs"

definition call :: "'v command \<Rightarrow> 'v command" where
  "call proc s c =
     do {
       (s1, c1) \<leftarrow> proc s (if is_replica c then c\<lparr>rargv := Some (argv c)\<rparr> else c);
       let s2 = (case rargv c1 of
                   Some ra \<Rightarrow> if \<not> is_replica c1
                              then s1\<lparr>replicas := replicationBroadcast (replicas s1) ra\<rparr> else s1
                 | None \<Rightarrow> s1);
           c2 = (if is_replica c1 then c1\<lparr>rargv := None\<rparr> else c1)
       in Some (s2, c2)
     }"

text \<open>A client of the given kind with a command; a message is executed by a replica client.\<close>

definition user_client :: "sds list \<Rightarrow> client" where
  "user_client args =
     \<lparr>argv = args, rargv = None, is_replica = False, is_replica_message = False, replies = []\<rparr>"

definition replica_client :: "sds list \<Rightarrow> client" where
  "replica_client args =
     \<lparr>argv = args, rargv = None, is_replica = True, is_replica_message = False, replies = []\<rparr>"

definition deliver :: "'v command \<Rightarrow> 'v server \<Rightarrow> sds list \<Rightarrow> 'v server option" where
  "deliver proc s msg = map_option fst (call proc s (replica_client msg))"

section \<open>Element tables\<close>

definition getInnerHT ::
    "'v server \<Rightarrow> sds \<Rightarrow> sds \<Rightarrow> bool \<Rightarrow> ('v server \<times> 'v robj option) option" where
  "getInnerHT s tname suf create =
     (let htname = tname @ suf; ht = lookupKey s htname
      in if create \<and> ht = None
         then do { s' \<leftarrow> dbAdd s htname (ObjHash Map.empty); Some (s', Some (ObjHash Map.empty)) }
         else Some (s, ht))"

definition rehHTGet ::
    "'v server \<Rightarrow> sds \<Rightarrow> sds \<Rightarrow> sds \<Rightarrow> bool \<Rightarrow> 'v \<Rightarrow> ('v server \<times> 'v option) option" where
  "rehHTGet s tname suf key create new =
     do {
       (s1, ht) \<leftarrow> getInnerHT s tname suf create;
       case ht of
         None \<Rightarrow> Some (s1, None)
       | Some (ObjHash h) \<Rightarrow>
           (case h key of
              None \<Rightarrow> (if \<not> create then Some (s1, None)
                       else Some (dbSet s1 (tname @ suf) (ObjHash (h(key \<mapsto> new))), Some new))
            | Some e \<Rightarrow> Some (s1, Some e))
       | Some _ \<Rightarrow> None
     }"

text \<open>The modification of an element in place, through the pointer that \<open>rehHTGet\<close> returned.\<close>

definition rehHTPut :: "'v server \<Rightarrow> sds \<Rightarrow> sds \<Rightarrow> sds \<Rightarrow> 'v \<Rightarrow> 'v server option" where
  "rehHTPut s tname suf key e =
     (case lookupKey s (tname @ suf) of
        Some (ObjHash h) \<Rightarrow> Some (dbSet s (tname @ suf) (ObjHash (h(key \<mapsto> e))))
      | _ \<Rightarrow> None)"

section \<open>Sorted set objects\<close>

definition getZsetOrCreate :: "'v server \<Rightarrow> sds \<Rightarrow> sds \<Rightarrow> ('v server \<times> 'v robj) option" where
  "getZsetOrCreate s zset_name element_name =
     (case lookupKey s zset_name of
        None \<Rightarrow>
          (let zobj = (if zset_max_ziplist_entries (zcfg s) = 0 \<or>
                          zset_max_ziplist_value (zcfg s) < length element_name
                       then ObjZset createZsetObject else ObjZset createZsetZiplistObject)
           in do { s' \<leftarrow> dbAdd s zset_name zobj; Some (s', zobj) })
      | Some zobj \<Rightarrow> Some (s, zobj))"

text \<open>\<open>zsetAdd\<close> and \<open>zsetDel\<close> on the object that \<open>getZsetOrCreate\<close> returns.\<close>

definition server_zsetAdd :: "'v server \<Rightarrow> sds \<Rightarrow> sds \<Rightarrow> double \<Rightarrow> 'v server option" where
  "server_zsetAdd s key ele score =
     do {
       (s1, zobj) \<leftarrow> getZsetOrCreate s key ele;
       case zobj of
         ObjZset z \<Rightarrow>
           do {
             z' \<leftarrow> zset_put (zcfg s1, rand s1 0) z score ele;
             Some ((dbSet s1 key (ObjZset z'))\<lparr>rand := (\<lambda>n. rand s1 (Suc n))\<rparr>)
           }
       | _ \<Rightarrow> None
     }"

definition server_zsetDel :: "'v server \<Rightarrow> sds \<Rightarrow> sds \<Rightarrow> 'v server option" where
  "server_zsetDel s key ele =
     do {
       (s1, zobj) \<leftarrow> getZsetOrCreate s key ele;
       case zobj of
         ObjZset z \<Rightarrow> do { z' \<leftarrow> zset_remove z ele; Some (dbSet s1 key (ObjZset z')) }
       | _ \<Rightarrow> None
     }"

section \<open>Queries\<close>

text \<open>
  The query commands of the set and priority queue types; every type has its own copy of this
  text.
\<close>

definition zset_containsCommand :: "'v command" where
  "zset_containsCommand s c =
     do {
       key \<leftarrow> arg (argv c) 1;
       case lookupKey s key of
         None \<Rightarrow> Some (s, addReply c ReplyNull)
       | Some (ObjZset z) \<Rightarrow>
           do { ele \<leftarrow> arg (argv c) 2; Some (s, addReply c (ReplyBool (zsetScore z ele \<noteq> None))) }
       | Some _ \<Rightarrow> Some (s, addReply c ReplyWrongtypeerr)
     }"

definition zset_sizeCommand :: "'v command" where
  "zset_sizeCommand s c =
     do {
       key \<leftarrow> arg (argv c) 1;
       case lookupKey s key of
         None \<Rightarrow> Some (s, addReply c ReplyEmptyarray)
       | Some (ObjZset z) \<Rightarrow> Some (s, addReply c (ReplyLongLong (int (zsetLength z))))
       | Some _ \<Rightarrow> Some (s, addReply c ReplyWrongtypeerr)
     }"

definition zset_scoreCommand :: "'v command" where
  "zset_scoreCommand s c =
     do {
       key \<leftarrow> arg (argv c) 1;
       case lookupKey s key of
         None \<Rightarrow> Some (s, addReply c ReplyNull)
       | Some (ObjZset z) \<Rightarrow>
           do {
             ele \<leftarrow> arg (argv c) 2;
             Some (s, addReply c (case zsetScore z ele of None \<Rightarrow> ReplyNull | Some d \<Rightarrow> ReplyDouble d))
           }
       | Some _ \<Rightarrow> Some (s, addReply c ReplyWrongtypeerr)
     }"

definition zset_maxCommand :: "'v command" where
  "zset_maxCommand s c =
     do {
       key \<leftarrow> arg (argv c) 1;
       case lookupKey s key of
         None \<Rightarrow> Some (s, addReply c ReplyEmptyarray)
       | Some (ObjZset z) \<Rightarrow>
           (if zsetLength z = 0 then Some (s, addReply c ReplyEmptyarray)
            else do {
              (ele, d) \<leftarrow> zset_tail z;
              Some (s, addReplies c [ReplyArrayLen 2, ReplyBulk ele, ReplyDouble d])
            })
       | Some _ \<Rightarrow> Some (s, addReply c ReplyWrongtypeerr)
     }"

section \<open>The argument buffer never overflows\<close>

text \<open>
  The capacity doubles its part behind the arguments of the user when the buffer is full. With at most
  \<open>2 ^ 30\<close> arguments in all nothing overflows.
\<close>

definition rargv_room :: "sds list \<Rightarrow> sds list \<Rightarrow> rargv_buf \<Rightarrow> bool" where
  "rargv_room args xs b \<longleftrightarrow> int (length args) < rb_capacity b \<and> int (length xs) \<le> rb_capacity b \<and> rb_capacity b < 2 ^ 31 \<and>
     (\<exists>zs. xs = args @ zs) \<and> (rb_args b = Some xs \<or> rb_args b = None \<and> xs = args)"

lemma RARGV_ADD_room:
  assumes "rargv_room args xs b" "length xs < 2 ^ 30"
  shows "\<exists>b'. RARGV_ADD args x b = Some b' \<and> rargv_room args (xs @ [x]) b' \<and> rb_args b' = Some (xs @ [x])"
proof -
  let ?b1 = "b\<lparr>rb_args := Some xs\<rparr>" and ?c = "if int (length xs) = rb_capacity b then 2 * rb_capacity b - int (length args) else rb_capacity b"
  have b1: "(if rb_args b = None then INIT_RARGV args b else Some b) = Some ?b1"
    using assms(1) by (auto simp: rargv_room_def INIT_RARGV_def)
  have l: "int (length args) < rb_capacity b" "int (length xs) \<le> rb_capacity b" "int (length xs) < 2 ^ 30" "length args \<le> length xs"
    using assms by (auto simp: rargv_room_def)
  then have "RARGV_ADD args x b = Some \<lparr>rb_args = Some (xs @ [x]), rb_capacity = ?c\<rparr>"
    unfolding RARGV_ADD_def b1 by (simp add: c_int_def is_int32_def)
  then show ?thesis using assms l by (auto simp: rargv_room_def)
qed

lemma RARGV_ADDS_room:
  "rargv_room args ys b \<Longrightarrow> rb_args b = Some ys \<or> xs \<noteq> [] \<Longrightarrow> length (ys @ xs) \<le> 2 ^ 30 \<Longrightarrow>
    \<exists>b'. RARGV_ADDS args xs b = Some b' \<and> rargv_room args (ys @ xs) b' \<and> rb_args b' = Some (ys @ xs)"
proof (induction xs arbitrary: b ys)
  case (Cons x xs)
  obtain b1 where b1: "RARGV_ADD args x b = Some b1" "rargv_room args (ys @ [x]) b1" "rb_args b1 = Some (ys @ [x])"
    using RARGV_ADD_room[OF Cons.prems(1), of x] Cons.prems(3) by auto
  then show ?case using Cons.IH[OF b1(2)] Cons.prems(3) by simp
qed simp

lemma rargv_begin_room:
  assumes "length args \<le> 2 ^ 30"
  shows "\<exists>b. rargv_begin args = Some b \<and> rargv_room args args b \<and> rb_args b = None"
  using assms by (simp add: rargv_begin_def c_int_def is_int32_def rargv_room_def)

lemma rargv_build:
  assumes "length (args @ xs) \<le> 2 ^ 30"
  shows "\<exists>b0 b. rargv_begin args = Some b0 \<and> RARGV_ADDS args xs b0 = Some b \<and> rargv_finish args b = Some (args @ xs) \<and>
     int (length (args @ xs)) \<le> rb_capacity b \<and> rb_capacity b < 2 ^ 31"
proof -
  obtain b0 where b0: "rargv_begin args = Some b0" "rargv_room args args b0" "rb_args b0 = None"
    using rargv_begin_room[of args] assms by auto
  show ?thesis
  proof (cases "xs = []")
    case True
    then show ?thesis using b0 by (simp add: rargv_finish_def INIT_RARGV_def rargv_room_def)
  next
    case False
    then show ?thesis using RARGV_ADDS_room[OF b0(2), of xs] b0(1) assms by (auto simp: rargv_finish_def rargv_room_def)
  qed
qed

text \<open>Whatever the number of arguments, a buffer that is built without a fault holds the right arguments.\<close>

lemma RARGV_ADDS_args:
  "RARGV_ADDS args xs b = Some b' \<Longrightarrow> rb_args b = Some ys \<or> rb_args b = None \<and> ys = args \<Longrightarrow>
    rb_args b' = Some (ys @ xs) \<or> rb_args b' = None \<and> xs = [] \<and> rb_args b = None"
proof (induction xs arbitrary: b ys)
  case (Cons x xs)
  obtain b1 where b1: "RARGV_ADD args x b = Some b1" "RARGV_ADDS args xs b1 = Some b'" using Cons.prems(1) by (auto simp: bind_eq_Some_conv)
  then have "rb_args b1 = Some (ys @ [x])" using Cons.prems(2)
    by (auto simp: RARGV_ADD_def INIT_RARGV_def bind_eq_Some_conv split: if_splits)
  then show ?case using Cons.IH[OF b1(2)] by auto
qed auto

lemma rargv_built:
  assumes "rargv_begin args = Some b0" "RARGV_ADDS args xs b0 = Some b" "rargv_finish args b = Some ra"
  shows "ra = args @ xs"
  using RARGV_ADDS_args[OF assms(2), of args] assms(1,3)
  by (auto simp: rargv_begin_def rargv_finish_def INIT_RARGV_def bind_eq_Some_conv split: if_splits)

section \<open>Behaviour of the frame\<close>

lemma addReply_user: "\<not> is_replica c \<Longrightarrow> addReply c r = c\<lparr>replies := replies c @ [r]\<rparr>"
  by (simp add: addReply_def)

lemma crdt_command_replica:
  assumes "REPLICATION_MODE s"
  shows "deliver (crdt_command prep eff) s msg = eff s msg"
  using assms
  by (cases "eff s msg") (auto simp: deliver_def call_def crdt_command_def replica_client_def CRDT_END_def)

lemma crdt_command_user:
  assumes "REPLICATION_MODE s" "prep s args = Some (s1, Inr extra)" "eff s1 (args @ extra) = Some s2" "length (args @ extra) \<le> 2 ^ 30"
  shows "call (crdt_command prep eff) s (user_client args) =
     Some (s2\<lparr>replicas := replicationBroadcast (replicas s2) (args @ extra)\<rparr>,
           (user_client args)\<lparr>rargv := Some (args @ extra), replies := [ReplyOk]\<rparr>)"
  using assms(1-3) rargv_build[OF assms(4)]
  by (auto simp: call_def crdt_command_def user_client_def addReply_def CRDT_END_def)

lemma crdt_command_user_result:
  assumes "REPLICATION_MODE s" "prep s args = Some (s1, Inr extra)" "eff s1 (args @ extra) = Some s2"
    "call (crdt_command prep eff) s (user_client args) = Some (s', cl)"
  shows "s' = s2\<lparr>replicas := replicationBroadcast (replicas s2) (args @ extra)\<rparr>"
    "cl = (user_client args)\<lparr>rargv := Some (args @ extra), replies := [ReplyOk]\<rparr>"
  using assms rargv_built[of args _ extra]
  by (auto simp: call_def crdt_command_def user_client_def addReply_def CRDT_END_def bind_eq_Some_conv)

lemma crdt_command_reject:
  assumes "REPLICATION_MODE s" "prep s args = Some (s1, Inl msg)"
  shows "call (crdt_command prep eff) s (user_client args) =
     Some (s1, (user_client args)\<lparr>replies := [msg]\<rparr>)"
  using assms by (simp add: call_def crdt_command_def user_client_def addReply_def)

lemma crdt_command_no_replication:
  assumes "\<not> REPLICATION_MODE s"
  shows "call (crdt_command prep eff) s (user_client args) =
     Some (s, (user_client args)\<lparr>replies := [ReplyNotreplerr]\<rparr>)"
  using assms by (simp add: call_def crdt_command_def user_client_def addReply_def)

section \<open>Container views\<close>

definition elem :: "sds \<Rightarrow> 'v server \<Rightarrow> sds \<Rightarrow> sds \<Rightarrow> 'v option" where
  "elem suf s k x = (case db s (k @ suf) of Some (ObjHash h) \<Rightarrow> h x | _ \<Rightarrow> None)"

definition zscore :: "'v server \<Rightarrow> sds \<Rightarrow> sds \<Rightarrow> double option" where
  "zscore s k x = (case db s k of Some (ObjZset z) \<Rightarrow> zsetScore z x | _ \<Rightarrow> None)"

definition separated :: "sds \<Rightarrow> sds set \<Rightarrow> bool" where
  "separated suf K \<longleftrightarrow> (\<forall>k \<in> K. \<forall>k' \<in> K. k \<noteq> k' @ suf)"

definition zset_slot :: "'v robj option \<Rightarrow> bool" where
  "zset_slot o' = (case o' of None \<Rightarrow> True | Some (ObjZset z) \<Rightarrow> zset_wf z | _ \<Rightarrow> False)"

definition hash_slot :: "'v robj option \<Rightarrow> bool" where
  "hash_slot o' = (case o' of None \<Rightarrow> True | Some (ObjHash h) \<Rightarrow> True | _ \<Rightarrow> False)"

definition store_inv :: "sds \<Rightarrow> sds set \<Rightarrow> 'v server \<Rightarrow> bool" where
  "store_inv suf K s \<longleftrightarrow> separated suf K \<and>
     (\<forall>k \<in> K. zset_slot (db s k) \<and> hash_slot (db s (k @ suf)))"

definition senv :: "'v server \<Rightarrow> int \<times> int \<times> reply list list \<times> zset_config" where
  "senv s = (p2p_id s, p2p_count s, replicas s, zcfg s)"

text \<open>
  The store of a replicated container: a table of element metadata and a sorted set per
  key, and what the operations on the one leave of the other.
\<close>

locale crdt_store =
  fixes inv :: "'s \<Rightarrow> bool"
    and K :: "sds set"
    and el :: "'s \<Rightarrow> sds \<Rightarrow> sds \<Rightarrow> 'v option"
    and zsc :: "'s \<Rightarrow> sds \<Rightarrow> sds \<Rightarrow> double option"
    and env :: "'s \<Rightarrow> 'n"
    and get :: "'s \<Rightarrow> sds \<Rightarrow> sds \<Rightarrow> 'v \<Rightarrow> ('s \<times> 'v option) option"
    and put :: "'s \<Rightarrow> sds \<Rightarrow> sds \<Rightarrow> 'v \<Rightarrow> 's option"
    and zadd :: "'s \<Rightarrow> sds \<Rightarrow> sds \<Rightarrow> double \<Rightarrow> 's option"
    and zdel :: "'s \<Rightarrow> sds \<Rightarrow> sds \<Rightarrow> 's option"
  assumes get_law: "inv s \<Longrightarrow> k \<in> K \<Longrightarrow>
      \<exists>s'. get s k x new = Some (s', Some (case el s k x of None \<Rightarrow> new | Some e \<Rightarrow> e)) \<and> inv s' \<and>
        el s' = (el s)(k := (el s k)(x \<mapsto> (case el s k x of None \<Rightarrow> new | Some e \<Rightarrow> e))) \<and>
        zsc s' = zsc s \<and> env s' = env s"
    and put_law: "inv s \<Longrightarrow> k \<in> K \<Longrightarrow> el s k x \<noteq> None \<Longrightarrow>
      \<exists>s'. put s k x e = Some s' \<and> inv s' \<and> el s' = (el s)(k := (el s k)(x \<mapsto> e)) \<and>
        zsc s' = zsc s \<and> env s' = env s"
    and zadd_law: "inv s \<Longrightarrow> k \<in> K \<Longrightarrow>
      \<exists>s'. zadd s k x sc = Some s' \<and> inv s' \<and> el s' = el s \<and>
        zsc s' = (if sc = NaN then zsc s else (zsc s)(k := (zsc s k)(x \<mapsto> sc))) \<and> env s' = env s"
    and zdel_law: "inv s \<Longrightarrow> k \<in> K \<Longrightarrow>
      \<exists>s'. zdel s k x = Some s' \<and> inv s' \<and> el s' = el s \<and>
        zsc s' = (zsc s)(k := (zsc s k)(x := None)) \<and> env s' = env s"
begin

text \<open>Reading an element for modification and writing it back.\<close>

lemma get_put:
  assumes "inv s" "k \<in> K"
  obtains s1 where "get s k x new = Some (s1, Some (case el s k x of None \<Rightarrow> new | Some e \<Rightarrow> e))"
    "\<forall>e. \<exists>s2. put s1 k x e = Some s2 \<and> inv s2 \<and> el s2 = (el s)(k := (el s k)(x \<mapsto> e)) \<and>
       zsc s2 = zsc s \<and> env s2 = env s"
    "env s1 = env s" "inv s1"
proof -
  let ?v = "case el s k x of None \<Rightarrow> new | Some e \<Rightarrow> e"
  obtain s1 where s1: "get s k x new = Some (s1, Some ?v)" "inv s1"
    "el s1 = (el s)(k := (el s k)(x \<mapsto> ?v))" "zsc s1 = zsc s" "env s1 = env s"
    using get_law[OF assms] by blast
  have "\<exists>s2. put s1 k x e = Some s2 \<and> inv s2 \<and> el s2 = (el s)(k := (el s k)(x \<mapsto> e)) \<and>
       zsc s2 = zsc s \<and> env s2 = env s" for e
    using put_law[OF s1(2) assms(2), of x e] s1(3-5) by auto
  with s1 that show ?thesis by blast
qed

end

text \<open>Laws of the definitions above.\<close>

lemma elem_dbSet_hash:
  "elem suf (dbSet s (k @ suf) (ObjHash h)) = (elem suf s)(k := h)"
  by (rule ext)+ (simp add: elem_def dbSet_def)

lemma elem_dbSet_zset:
  "zset_slot (db s k) \<Longrightarrow> elem suf (dbSet s k (ObjZset z)) = elem suf s"
  by (rule ext)+ (auto simp: elem_def dbSet_def zset_slot_def split: option.splits robj.splits)

lemma zscore_dbSet_zset: "zscore (dbSet s k (ObjZset z)) = (zscore s)(k := zsetScore z)"
  by (rule ext)+ (simp add: zscore_def dbSet_def)

lemma zscore_dbSet_hash:
  "hash_slot (db s k) \<Longrightarrow> zscore (dbSet s k (ObjHash h)) = zscore s"
  by (rule ext)+ (auto simp: zscore_def dbSet_def hash_slot_def split: option.splits robj.splits)

lemma senv_dbSet [simp]: "senv (dbSet s k v) = senv s"
  by (simp add: senv_def dbSet_def)

lemma store_inv_dbSet_hash:
  "store_inv suf K s \<Longrightarrow> k \<in> K \<Longrightarrow> store_inv suf K (dbSet s (k @ suf) (ObjHash h))"
  by (auto simp: store_inv_def separated_def dbSet_def hash_slot_def)

lemma store_inv_dbSet_zset:
  "store_inv suf K s \<Longrightarrow> k \<in> K \<Longrightarrow> zset_wf z \<Longrightarrow> store_inv suf K (dbSet s k (ObjZset z))"
  by (auto simp: store_inv_def separated_def dbSet_def zset_slot_def)

lemma store_inv_slots:
  "store_inv suf K s \<Longrightarrow> k \<in> K \<Longrightarrow> zset_slot (db s k) \<and> hash_slot (db s (k @ suf))"
  by (simp add: store_inv_def)

lemmas store_laws = elem_dbSet_hash elem_dbSet_zset zscore_dbSet_zset zscore_dbSet_hash
  store_inv_dbSet_hash store_inv_dbSet_zset

lemma rehHTGet_create:
  assumes "store_inv suf K s" "k \<in> K"
  shows "rehHTGet s k suf x True new =
     (let v = (case elem suf s k x of None \<Rightarrow> new | Some e \<Rightarrow> e)
      in Some (dbSet s (k @ suf) (ObjHash ((elem suf s k)(x \<mapsto> v))), Some v))"
proof (cases "db s (k @ suf)")
  case None
  then have "elem suf s k = Map.empty" by (auto intro!: ext simp: elem_def)
  with None show ?thesis
    by (simp add: rehHTGet_def getInnerHT_def lookupKey_def dbAdd_def dbSet_def Let_def)
next
  case (Some o')
  with store_inv_slots[OF assms] obtain h where h: "o' = ObjHash h"
    by (cases o') (auto simp: hash_slot_def)
  have e: "elem suf s k = h" using Some h by (auto intro!: ext simp: elem_def)
  have "dbSet s (k @ suf) (ObjHash h) = s" using Some h by (simp add: dbSet_def fun_upd_idem)
  moreover have "h x = Some e \<Longrightarrow> h(x \<mapsto> e) = h" for e by (simp add: fun_upd_idem)
  ultimately show ?thesis using Some h e
    by (cases "h x") (simp_all add: rehHTGet_def getInnerHT_def lookupKey_def Let_def)
qed

lemma rehHTGet_read:
  assumes "store_inv suf K s" "k \<in> K"
  shows "rehHTGet s k suf x False new = Some (s, elem suf s k x)"
  using store_inv_slots[OF assms]
  by (auto simp: rehHTGet_def getInnerHT_def lookupKey_def elem_def hash_slot_def
      split: option.splits robj.splits)

lemma getZsetOrCreate_spec:
  assumes "zset_slot (db s k)"
  shows "\<exists>z. getZsetOrCreate s k x = Some (dbSet s k (ObjZset z), ObjZset z) \<and> zset_wf z \<and>
     zsetScore z = zscore s k"
proof (cases "db s k")
  case None
  have e: "zscore s k = Map.empty" by (rule ext) (simp add: zscore_def None)
  show ?thesis using None zset_wf_create e
    by (auto simp: getZsetOrCreate_def lookupKey_def dbAdd_def dbSet_def Let_def)
next
  case (Some o')
  with assms obtain z where z: "o' = ObjZset z" "zset_wf z" by (cases o') (auto simp: zset_slot_def)
  have "zscore s k = zsetScore z" by (rule ext) (simp add: zscore_def Some z)
  moreover have "dbSet s k (ObjZset z) = s" using Some z by (simp add: dbSet_def fun_upd_idem)
  ultimately show ?thesis using Some z by (simp add: getZsetOrCreate_def lookupKey_def)
qed

lemma dbSet_dbSet [simp]: "dbSet (dbSet s k v) k w = dbSet s k w"
  by (simp add: dbSet_def)

lemma dbSet_rand [simp]: "rand (dbSet s k v) = rand s" "zcfg (dbSet s k v) = zcfg s"
  by (simp_all add: dbSet_def)

lemma rand_views [simp]:
  "elem suf (s\<lparr>rand := r\<rparr>) = elem suf s" "zscore (s\<lparr>rand := r\<rparr>) = zscore s"
  "store_inv suf K (s\<lparr>rand := r\<rparr>) = store_inv suf K s" "senv (s\<lparr>rand := r\<rparr>) = senv s"
  "elem suf (s\<lparr>dirty := d\<rparr>) = elem suf s" "zscore (s\<lparr>dirty := d\<rparr>) = zscore s"
  "store_inv suf K (s\<lparr>dirty := d\<rparr>) = store_inv suf K s" "senv (s\<lparr>dirty := d\<rparr>) = senv s"
  by (auto intro!: ext simp: elem_def zscore_def store_inv_def senv_def)

interpretation st: crdt_store "store_inv suf K" K "elem suf" zscore senv
  "\<lambda>s k x new. rehHTGet s k suf x True new" "\<lambda>s k x e. rehHTPut s k suf x e"
  server_zsetAdd server_zsetDel for suf K
proof unfold_locales
  fix s k x assume a: "store_inv suf K s" "k \<in> K"
  note sl = store_inv_slots[OF a]
  show "\<exists>s'. rehHTGet s k suf x True new = Some (s', Some (case elem suf s k x of None \<Rightarrow> new | Some e \<Rightarrow> e)) \<and>
      store_inv suf K s' \<and>
      elem suf s' = (elem suf s)(k := (elem suf s k)(x \<mapsto> (case elem suf s k x of None \<Rightarrow> new | Some e \<Rightarrow> e))) \<and>
      zscore s' = zscore s \<and> senv s' = senv s" for new
    using rehHTGet_create[OF a, of x new] a sl by (auto simp: store_laws Let_def)
  show "\<exists>s'. rehHTPut s k suf x e = Some s' \<and> store_inv suf K s' \<and>
      elem suf s' = (elem suf s)(k := (elem suf s k)(x \<mapsto> e)) \<and> zscore s' = zscore s \<and> senv s' = senv s"
    if "elem suf s k x \<noteq> None" for e
  proof -
    from that obtain h where h: "db s (k @ suf) = Some (ObjHash h)"
      by (auto simp: elem_def split: option.splits robj.splits)
    then have "elem suf s k = h" by (auto intro!: ext simp: elem_def)
    with h show ?thesis using a sl by (simp add: rehHTPut_def lookupKey_def store_laws)
  qed
  obtain z where z: "getZsetOrCreate s k x = Some (dbSet s k (ObjZset z), ObjZset z)" "zset_wf z"
    "zsetScore z = zscore s k" using getZsetOrCreate_spec sl by blast
  show "\<exists>s'. server_zsetAdd s k x sc = Some s' \<and> store_inv suf K s' \<and> elem suf s' = elem suf s \<and>
      zscore s' = (if sc = NaN then zscore s else (zscore s)(k := (zscore s k)(x \<mapsto> sc))) \<and> senv s' = senv s" for sc
    using zset_put_law[OF z(2), of "(zcfg s, rand s 0)" sc x] z a sl
    by (auto simp: server_zsetAdd_def store_laws)
  show "\<exists>s'. server_zsetDel s k x = Some s' \<and> store_inv suf K s' \<and> elem suf s' = elem suf s \<and>
      zscore s' = (zscore s)(k := (zscore s k)(x := None)) \<and> senv s' = senv s"
    using zs.del_law[OF z(2), of x] z a sl by (auto simp: server_zsetDel_def store_laws)
qed

section \<open>One element and its score\<close>

text \<open>
  The effect of an update on the store: the element \<open>x\<close> of container \<open>k\<close> becomes \<open>e\<close>, its entry in
  the sorted set becomes \<open>z\<close>, nothing else changes.
\<close>

definition store_upd ::
    "sds \<Rightarrow> sds set \<Rightarrow> 'v server \<Rightarrow> sds \<Rightarrow> sds \<Rightarrow> 'v \<Rightarrow> double option \<Rightarrow> 'v server \<Rightarrow> bool" where
  "store_upd suf K s k x e z s' \<longleftrightarrow> store_inv suf K s' \<and> senv s' = senv s \<and>
     elem suf s' = (elem suf s)(k := (elem suf s k)(x \<mapsto> e)) \<and>
     zscore s' = (zscore s)(k := (zscore s k)(x := z))"

lemma store_upd_dirty [simp]:
  "store_upd suf K s k x e z (s'\<lparr>dirty := d\<rparr>) = store_upd suf K s k x e z s'"
  by (simp add: store_upd_def)

text \<open>\<open>s1\<close> is the server \<open>s\<close> with \<open>x\<close> present in the table of \<open>k\<close> and score entry \<open>z\<close>.\<close>

definition put_ok ::
    "sds \<Rightarrow> sds set \<Rightarrow> 'v server \<Rightarrow> 'v server \<Rightarrow> sds \<Rightarrow> sds \<Rightarrow> double option \<Rightarrow> bool" where
  "put_ok suf K s s1 k x z \<longleftrightarrow> k \<in> K \<and> (\<exists>e. store_upd suf K s k x e z s1)"

lemma store_upd_put:
  assumes "store_upd suf K s k x e z s1" "k \<in> K"
  shows "\<exists>s2. rehHTPut s1 k suf x e' = Some s2 \<and> store_upd suf K s k x e' z s2"
proof -
  have "store_inv suf K s1" "elem suf s1 k x \<noteq> None" using assms(1) by (simp_all add: store_upd_def)
  then show ?thesis using st.put_law[of suf K s1 k x e'] assms by (auto simp: store_upd_def)
qed

lemma store_upd_zadd:
  assumes "store_upd suf K s k x e z s1" "k \<in> K"
  shows "\<exists>s2. server_zsetAdd s1 k x sc = Some s2 \<and>
    store_upd suf K s k x e (if sc = NaN then z else Some sc) s2"
proof -
  have "store_inv suf K s1" using assms(1) by (simp add: store_upd_def)
  then show ?thesis
    using st.zadd_law[of suf K s1 k x sc] assms by (cases "sc = NaN") (auto simp: store_upd_def)
qed

lemma store_upd_zdel:
  assumes "store_upd suf K s k x e z s1" "k \<in> K"
  shows "\<exists>s2. server_zsetDel s1 k x = Some s2 \<and> store_upd suf K s k x e None s2"
proof -
  have "store_inv suf K s1" using assms(1) by (simp add: store_upd_def)
  then show ?thesis using st.zdel_law[of suf K s1 k x] assms by (auto simp: store_upd_def)
qed

lemma store_modify:
  assumes "store_inv suf K s" "k \<in> K"
  obtains s1 where
    "rehHTGet s k suf x True new = Some (s1, Some (case elem suf s k x of None \<Rightarrow> new | Some e \<Rightarrow> e))"
    "put_ok suf K s s1 k x (zscore s k x)" "senv s1 = senv s"
    "store_upd suf K s k x (case elem suf s k x of None \<Rightarrow> new | Some e \<Rightarrow> e) (zscore s k x) s1"
proof -
  have "\<exists>s'. rehHTGet s k suf x True new = Some (s', Some (case elem suf s k x of None \<Rightarrow> new | Some e \<Rightarrow> e)) \<and>
      store_upd suf K s k x (case elem suf s k x of None \<Rightarrow> new | Some e \<Rightarrow> e) (zscore s k x) s'"
    using st.get_law[OF assms, of x new] by (auto simp: store_upd_def)
  with assms(2) that show ?thesis unfolding put_ok_def store_upd_def by blast
qed

lemma put_okE:
  assumes "put_ok suf K s s1 k x z"
  obtains s2 where "rehHTPut s1 k suf x e = Some s2" "store_upd suf K s k x e z s2"
    "\<forall>sc. \<exists>s3. server_zsetAdd s2 k x sc = Some s3 \<and>
       store_upd suf K s k x e (if sc = NaN then z else Some sc) s3"
    "\<exists>s3. server_zsetDel s2 k x = Some s3 \<and> store_upd suf K s k x e None s3"
proof -
  obtain e0 where e0: "k \<in> K" "store_upd suf K s k x e0 z s1" using assms by (auto simp: put_ok_def)
  obtain s2 where s2: "rehHTPut s1 k suf x e = Some s2" "store_upd suf K s k x e z s2"
    using store_upd_put[OF e0(2,1)] by blast
  then show ?thesis using that store_upd_zadd[OF s2(2) e0(1)] store_upd_zdel[OF s2(2) e0(1)] by blast
qed

lemma put_ok_upd: "store_upd suf K s k x e z s1 \<Longrightarrow> k \<in> K \<Longrightarrow> put_ok suf K s s1 k x z"
  by (auto simp: put_ok_def)

lemma put_ok_dirty [simp]: "put_ok suf K s (s1\<lparr>dirty := d\<rparr>) k x z = put_ok suf K s s1 k x z"
  by (simp add: put_ok_def)

definition fresh_server :: "sds \<Rightarrow> sds set \<Rightarrow> 'v server \<Rightarrow> bool" where
  "fresh_server suf K s \<longleftrightarrow> separated suf K \<and> REPLICATION_MODE s \<and>
     (\<forall>k \<in> K. db s k = None \<and> db s (k @ suf) = None)"

text \<open>
  The server after start and a \<open>replicate\<close> command that made it replica \<open>i\<close> of \<open>n\<close>, with the
  default configuration.
\<close>

definition started_server :: "int \<Rightarrow> int \<Rightarrow> 'v server" where
  "started_server n i =
     \<lparr>p2p_id = i, p2p_count = n, replicas = [], db = Map.empty, dirty = 0,
      zcfg = \<lparr>zset_max_ziplist_entries = 128, zset_max_ziplist_value = 64\<rparr>,
      rand = (\<lambda>_ _. 0)\<rparr>"

lemma started_fresh: "n \<noteq> 0 \<Longrightarrow> separated suf K \<Longrightarrow> fresh_server suf K (started_server n i)"
  by (simp add: fresh_server_def started_server_def REPLICATION_MODE_def)

lemma rehHTGet_present:
  "elem suf s k x = Some e \<Longrightarrow> rehHTGet s k suf x create new = Some (s, Some e)"
  by (auto simp: elem_def rehHTGet_def getInnerHT_def lookupKey_def split: option.splits robj.splits)

lemma store_container_type:
  "store_inv suf K s \<Longrightarrow> k \<in> K \<Longrightarrow> CHECK_CONTAINER_TYPE s k OBJ_ZSET"
  using store_inv_slots[of suf K s k]
  by (auto simp: zset_slot_def CHECK_CONTAINER_TYPE_def lookupKey_def split: option.splits robj.splits)

text \<open>Broadcasting changes the outgoing replies of the replicas only.\<close>

lemma broadcast_views [simp]:
  "elem suf (s\<lparr>replicas := r\<rparr>) = elem suf s" "zscore (s\<lparr>replicas := r\<rparr>) = zscore s"
  "store_inv suf K (s\<lparr>replicas := r\<rparr>) = store_inv suf K s"
  "REPLICATION_MODE (s\<lparr>replicas := replicationBroadcast (replicas s) m\<rparr>) = REPLICATION_MODE s"
  by (auto intro!: ext simp: elem_def zscore_def store_inv_def REPLICATION_MODE_def replicationBroadcast_def)

lemma zset_slot_views:
  assumes "zset_slot (db s k)"
  obtains "db s k = None" "zscore s k = Map.empty"
  | z where "db s k = Some (ObjZset z)" "zset_wf z" "zscore s k = zsetScore z"
proof (cases "db s k")
  case None
  moreover have "zscore s k = Map.empty" by (rule ext) (simp add: zscore_def None)
  ultimately show ?thesis using that(1) by blast
next
  case (Some o')
  with assms obtain z where z: "o' = ObjZset z" "zset_wf z" by (cases o') (auto simp: zset_slot_def)
  moreover have "zscore s k = zsetScore z" by (rule ext) (simp add: zscore_def Some z)
  ultimately show ?thesis using that(2) Some by blast
qed

lemma sample_value: "getLongLongFromObject ''5'' = Some 5"
  by (simp add: getLongLongFromObject_def string2ll_exact is_int64_def text_eval)

text \<open>
  C38 (the argument vector of a broadcast never overflows): when a prepare phase adds arguments to those of the
  user, up to \<open>2 ^ 30\<close> in all, the growing buffer of \<open>RARGV_ADD_SDS\<close> always has room for the next one, the
  \<open>int\<close> that holds its capacity does not overflow, and the broadcast arguments are those of the user followed
  by the added ones.
\<close>

theorem rargv_never_overflows:
  assumes "length (args @ xs) \<le> 2 ^ 30"
  shows "\<exists>b0 b. rargv_begin args = Some b0 \<and> RARGV_ADDS args xs b0 = Some b \<and> rargv_finish args b = Some (args @ xs) \<and>
     int (length (args @ xs)) \<le> rb_capacity b \<and> rb_capacity b < 2 ^ 31"
  using assms by (rule rargv_build)

theorem rargv_never_overflows_witness:
  "\<exists>b0 b. rargv_begin [''c'', ''k''] = Some b0 \<and> RARGV_ADDS [''c'', ''k''] [''1'', ''2'', ''3'', ''4'', ''5''] b0 = Some b \<and>
     rargv_finish [''c'', ''k''] b = Some [''c'', ''k'', ''1'', ''2'', ''3'', ''4'', ''5''] \<and> 7 \<le> rb_capacity b \<and> rb_capacity b < 2 ^ 31"
  using rargv_never_overflows[of "[''c'', ''k'']" "[''1'', ''2'', ''3'', ''4'', ''5'']"] by simp

end
