(* ===== verification/Delivery.thy ===== *)
theory Delivery
  imports Prelude
begin

text \<open>
  Replicas apply the messages they receive one after the other. The locales of this theory
  state what a replicated type has to provide, an effect per message that acts on one
  component of the state as an abstract operation, and derive what follows for sequences of
  messages: no fault, the state of every component, and independence of the order.
\<close>

fun run :: "('s \<Rightarrow> 'm \<Rightarrow> 's option) \<Rightarrow> 's \<Rightarrow> 'm list \<Rightarrow> 's option" where
  "run eff s [] = Some s"
| "run eff s (m # ms) = Option.bind (eff s m) (\<lambda>s'. run eff s' ms)"

lemma run_append: "run eff s (ms @ ns) = Option.bind (run eff s ms) (\<lambda>s'. run eff s' ns)"
  by (induction ms arbitrary: s) (auto split: bind_splits)

locale keyed_effects =
  fixes eff :: "'s \<Rightarrow> 'm \<Rightarrow> 's option"
    and inv :: "'s \<Rightarrow> bool"
    and ok :: "'m \<Rightarrow> bool"
    and target :: "'m \<Rightarrow> 'k"
    and view :: "'k \<Rightarrow> 's \<Rightarrow> 'a"
    and astep :: "'m \<Rightarrow> 'a \<Rightarrow> 'a"
  assumes eff_law: "inv s \<Longrightarrow> ok m \<Longrightarrow>
    \<exists>s'. eff s m = Some s' \<and> inv s' \<and>
      (\<forall>k. view k s' = (if k = target m then astep m (view k s) else view k s))"
begin

lemma run_view:
  assumes "inv s" "\<forall>m \<in> set ms. ok m"
  shows "\<exists>s'. run eff s ms = Some s' \<and> inv s' \<and>
    (\<forall>k. view k s' = fold astep (filter (\<lambda>m. target m = k) ms) (view k s))"
  using assms
proof (induction ms arbitrary: s)
  case (Cons m ms)
  obtain s1 where s1: "eff s m = Some s1" "inv s1"
    "\<forall>k. view k s1 = (if k = target m then astep m (view k s) else view k s)"
    using eff_law[of s m] Cons.prems by auto
  obtain s2 where "run eff s1 ms = Some s2" "inv s2"
    "\<forall>k. view k s2 = fold astep (filter (\<lambda>m. target m = k) ms) (view k s1)"
    using Cons.IH[OF s1(2)] Cons.prems by auto
  with s1 show ?case by auto
qed simp

lemma run_inv: "inv s \<Longrightarrow> \<forall>m \<in> set ms. ok m \<Longrightarrow> run eff s ms = Some s' \<Longrightarrow> inv s'"
  using run_view[of s ms] by auto

lemma run_viewD:
  "inv s \<Longrightarrow> \<forall>m \<in> set ms. ok m \<Longrightarrow> run eff s ms = Some s' \<Longrightarrow>
   view k s' = fold astep (filter (\<lambda>m. target m = k) ms) (view k s)"
  using run_view[of s ms] by auto

end

text \<open>Independent operations commute: the order of delivery is irrelevant.\<close>

locale commutative_effects = keyed_effects +
  fixes indep :: "'m \<Rightarrow> 'm \<Rightarrow> bool"
  assumes astep_commute: "ok m \<Longrightarrow> ok n \<Longrightarrow> indep m n \<Longrightarrow> astep m (astep n a) = astep n (astep m a)"
begin

lemma fold_order:
  assumes "mset ms = mset ns" "\<forall>m \<in> set ms. ok m" "\<forall>m \<in> set ms. \<forall>n \<in> set ms. m \<noteq> n \<longrightarrow> indep m n"
  shows "fold astep ms a = fold astep ns a"
proof (rule fold_permuted_eq[where P = "\<lambda>_. True"])
  show "astep x (astep y z) = astep y (astep x z)" if "x \<in> set ms" "y \<in> set ms" for x y z
    using that assms(2,3) astep_commute by (cases "x = y") auto
qed (use assms(1) in auto)

lemma converge:
  assumes "inv s" "inv t" "\<And>k. view k s = view k t" "mset ms = mset ns" "\<forall>m \<in> set ms. ok m"
    "\<forall>m \<in> set ms. \<forall>n \<in> set ms. m \<noteq> n \<longrightarrow> indep m n"
  shows "\<exists>s' t'. run eff s ms = Some s' \<and> run eff t ns = Some t' \<and> inv s' \<and> inv t' \<and>
    (\<forall>k. view k s' = view k t')"
proof -
  have ok: "\<forall>m \<in> set ns. ok m" using assms(4,5) by (metis set_mset_mset)
  obtain s' where s': "run eff s ms = Some s'" "inv s'"
    "\<forall>k. view k s' = fold astep (filter (\<lambda>m. target m = k) ms) (view k s)"
    using run_view[OF assms(1,5)] by auto
  obtain t' where t': "run eff t ns = Some t'" "inv t'"
    "\<forall>k. view k t' = fold astep (filter (\<lambda>m. target m = k) ns) (view k t)"
    using run_view[OF assms(2) ok] by auto
  have "view k s' = view k t'" for k
    using s'(3) t'(3) assms(3,5,6)
      fold_order[of "filter (\<lambda>m. target m = k) ms" "filter (\<lambda>m. target m = k) ns" "view k s"]
    by (simp add: assms(4) mset_filter)
  with s' t' show ?thesis by blast
qed

end

end
