(* ===== verification/RWFramework.thy ===== *)
theory RWFramework
  imports Server Delivery
begin

text \<open>
  The remove-win framework of RWFramework.h: every element starts with a header holding the
  id of the replica whose add is in force and the remove history, a vector clock; an
  operation travels with the remove history its origin had seen. The header is a record that
  the element records extend, as the C structures begin with it.
\<close>

section \<open>Header and checks\<close>

abbreviation (input) PID_NEXIST :: int where "PID_NEXIST \<equiv> - 1"
abbreviation (input) PID_WAIT_INNATE :: int where "PID_WAIT_INNATE \<equiv> - 2"

record reh =
  PID :: int
  CURRENT :: vc

definition EXISTS :: "'a reh_scheme \<Rightarrow> bool" where
  "EXISTS h \<longleftrightarrow> PID h \<noteq> PID_NEXIST"

definition REH_RMV_FUNC :: "'a reh_scheme \<Rightarrow> vc \<Rightarrow> 'a reh_scheme" where
  "REH_RMV_FUNC h t = h\<lparr>CURRENT := vc_update (CURRENT h) t, PID := PID_NEXIST\<rparr>"

definition PREPARE_PRECOND_ADD :: "'a reh_scheme \<Rightarrow> bool" where
  "PREPARE_PRECOND_ADD h \<longleftrightarrow> \<not> EXISTS h"

definition PREPARE_PRECOND_NON_ADD :: "'a reh_scheme option \<Rightarrow> bool" where
  "PREPARE_PRECOND_NON_ADD h \<longleftrightarrow> (case h of None \<Rightarrow> False | Some e \<Rightarrow> EXISTS e)"

definition addCheck :: "'a reh_scheme \<Rightarrow> vc \<Rightarrow> 'a reh_scheme \<times> bool" where
  "addCheck h t =
     (if \<not> vc_equal t (CURRENT h) then (h, False)
      else if PID h < vc_id t then (h\<lparr>PID := vc_id t\<rparr>, True)
      else (h, False))"

definition updateCheck :: "'a reh_scheme \<Rightarrow> vc \<Rightarrow> 'a reh_scheme \<times> bool" where
  "updateCheck h t =
     (if \<not> vc_equal t (CURRENT h) then (h, False)
      else (if \<not> EXISTS h then h\<lparr>PID := PID_WAIT_INNATE\<rparr> else h, True))"

text \<open>
  The loop of \<open>removeCheck\<close> over the components of \<open>t\<close>; the local clock is read at the same
  index without a check of its size.
\<close>

fun removeCheck_loop :: "int list \<Rightarrow> int list \<Rightarrow> bool option" where
  "removeCheck_loop cs [] = Some False"
| "removeCheck_loop [] (x # xs) = None"
| "removeCheck_loop (c # cs) (x # xs) = (if c < x then Some True else removeCheck_loop cs xs)"

definition removeCheck :: "'a reh_scheme \<Rightarrow> vc \<Rightarrow> ('a reh_scheme \<times> bool) option" where
  "removeCheck h t =
     do {
       b \<leftarrow> removeCheck_loop (vector (CURRENT h)) (vector t);
       Some (if b then (REH_RMV_FUNC h t, True) else (h, False))
     }"

text \<open>The clock that a prepare phase adds to the arguments.\<close>

definition ADD_CR_NON_RMV :: "'a reh_scheme \<Rightarrow> sds option" where
  "ADD_CR_NON_RMV h = vcToSds (CURRENT h)"

definition ADD_CR_RMV :: "'a reh_scheme \<Rightarrow> sds option" where
  "ADD_CR_RMV h = vc_now (CURRENT h)"

definition CR_GET :: "sds list \<Rightarrow> nat \<Rightarrow> vc option" where
  "CR_GET ra n = do { x \<leftarrow> arg ra n; sdsToVC x }"

definition CR_GET_LAST :: "sds list \<Rightarrow> vc option" where
  "CR_GET_LAST ra = CR_GET ra (length ra - 1)"

text \<open>\<open>vc_new()\<close> in the environment of the server.\<close>

definition server_vc :: "'v server \<Rightarrow> vc" where
  "server_vc s = vc_new (nat (p2p_count s)) (p2p_id s)"

section \<open>Vectors\<close>

definition vle :: "int list \<Rightarrow> int list \<Rightarrow> bool" where
  "vle a b \<longleftrightarrow> list_all2 (\<le>) a b"

definition vjoin :: "int list \<Rightarrow> int list \<Rightarrow> int list" where
  "vjoin a b = map2 max a b"

lemma vle_nth: "length a = length b \<Longrightarrow> vle a b \<longleftrightarrow> (\<forall>i < length a. a ! i \<le> b ! i)"
  by (auto simp: vle_def list_all2_conv_all_nth)

lemma vjoin_nth: "i < length a \<Longrightarrow> i < length b \<Longrightarrow> vjoin a b ! i = max (a ! i) (b ! i)"
  by (simp add: vjoin_def)

lemma vjoin_length [simp]: "length (vjoin a b) = min (length a) (length b)"
  by (simp add: vjoin_def)

lemma vc_update_vjoin:
  "vc_size c = vc_size d \<Longrightarrow> vector (vc_update c d) = vjoin (vector c) (vector d)"
  by (simp add: vc_update_vector vjoin_def)

lemma vjoin_set: "set (vjoin a b) \<subseteq> set a \<union> set b"
  by (auto simp: vjoin_def in_set_zip max_def split: if_splits)

lemma vle_refl [simp]: "vle a a"
  by (simp add: vle_def list_all2_refl)

lemma vle_trans: "vle a b \<Longrightarrow> vle b c \<Longrightarrow> vle a c"
  unfolding vle_def by (rule list_all2_trans) auto

lemma vle_antisym: "vle a b \<Longrightarrow> vle b a \<Longrightarrow> a = b"
  unfolding vle_def by (rule list_all2_antisym) auto

lemma vle_vjoin:
  "length a = length b \<Longrightarrow> vle a (vjoin a b)" "length a = length b \<Longrightarrow> vle b (vjoin a b)"
  by (simp_all add: vle_nth vjoin_nth)

lemma vjoin_least: "vle a c \<Longrightarrow> vle b c \<Longrightarrow> vle (vjoin a b) c"
  by (auto simp: vle_def list_all2_conv_all_nth vjoin_nth)

lemma removeCheck_loop_vle:
  "length cs = length xs \<Longrightarrow> removeCheck_loop cs xs = Some (\<not> vle xs cs)"
  by (induction cs xs rule: removeCheck_loop.induct) (auto simp: vle_def)

section \<open>Operations stamped with their remove history\<close>

text \<open>
  The pattern of all effects: a stamp not below the history joins it and resets the payload
  of the element, then the operation acts on the payload if its stamp is the history.
\<close>

definition stamped_step ::
    "('v \<Rightarrow> 'v \<Rightarrow> bool) \<Rightarrow> ('v \<Rightarrow> 'v \<Rightarrow> 'v) \<Rightarrow> ('m \<Rightarrow> 'v) \<Rightarrow> ('m \<Rightarrow> 'p \<Rightarrow> 'p) \<Rightarrow> 'p \<Rightarrow> 'm \<Rightarrow> 'v \<times> 'p \<Rightarrow> 'v \<times> 'p" where
  "stamped_step le join stamp act p0 m cp =
     (let (c, p) = (if le (stamp m) (fst cp) then cp else (join (fst cp) (stamp m), p0))
      in (c, if stamp m = c then act m p else p))"

lemma stamped_stepI:
  "(c, p) = (if le (stamp m) (fst v) then v else (join (fst v) (stamp m), p0)) \<Longrightarrow>
    stamped_step le join stamp act p0 m v = (c, if stamp m = c then act m p else p)"
  unfolding stamped_step_def by (erule subst) simp

locale stamp_lattice =
  fixes le :: "'v \<Rightarrow> 'v \<Rightarrow> bool" and join :: "'v \<Rightarrow> 'v \<Rightarrow> 'v" and C :: "'v \<Rightarrow> bool"
  assumes le_refl: "C a \<Longrightarrow> le a a"
    and le_trans: "le a b \<Longrightarrow> le b c \<Longrightarrow> le a c"
    and le_antisym: "le a b \<Longrightarrow> le b a \<Longrightarrow> a = b"
    and join_closed: "C a \<Longrightarrow> C b \<Longrightarrow> C (join a b)"
    and join_upper: "C a \<Longrightarrow> C b \<Longrightarrow> le a (join a b)" "C a \<Longrightarrow> C b \<Longrightarrow> le b (join a b)"
    and join_least: "le a c \<Longrightarrow> le b c \<Longrightarrow> le (join a b) c"
begin

lemma join_absorb: "C a \<Longrightarrow> C b \<Longrightarrow> le b a \<Longrightarrow> join a b = a"
  by (rule le_antisym) (simp_all add: join_least le_refl join_upper(1))

text \<open>The join of all stamps is their least upper bound.\<close>

lemma fold_join_lub:
  assumes "C c" "\<forall>m \<in> set ms. C (stamp m)"
  shows "C (fold (\<lambda>m c. join c (stamp m)) ms c) \<and> le c (fold (\<lambda>m c. join c (stamp m)) ms c) \<and>
    (\<forall>m \<in> set ms. le (stamp m) (fold (\<lambda>m c. join c (stamp m)) ms c)) \<and>
    (\<forall>d. le c d \<longrightarrow> (\<forall>m \<in> set ms. le (stamp m) d) \<longrightarrow> le (fold (\<lambda>m c. join c (stamp m)) ms c) d)"
  using assms
proof (induction ms arbitrary: c)
  case Nil
  then show ?case by (simp add: le_refl)
next
  case (Cons n ms)
  define c' where "c' = join c (stamp n)"
  define J where "J = fold (\<lambda>m c. join c (stamp m)) ms c'"
  have c: "C c'" "le c c'" "le (stamp n) c'"
    using Cons.prems join_closed join_upper by (simp_all add: c'_def)
  have IH: "C J" "le c' J" "\<forall>m \<in> set ms. le (stamp m) J"
    "\<forall>d. le c' d \<longrightarrow> (\<forall>m \<in> set ms. le (stamp m) d) \<longrightarrow> le J d"
    using Cons.IH[OF c(1)] Cons.prems(2) by (simp_all add: J_def)
  have "fold (\<lambda>m c. join c (stamp m)) (n # ms) c = J" by (simp add: J_def c'_def)
  moreover have "le c J" using c(2) IH(2) le_trans by blast
  moreover have "\<forall>m \<in> set (n # ms). le (stamp m) J" using c(3) IH(2,3) le_trans by auto
  moreover have "\<forall>d. le c d \<longrightarrow> (\<forall>m \<in> set (n # ms). le (stamp m) d) \<longrightarrow> le J d"
    using IH(4) join_least by (simp add: c'_def)
  ultimately show ?case using IH(1) by (simp only: simp_thms)
qed

lemma fold_join_snoc:
  "fold (\<lambda>m c. join c (stamp m)) (ms @ [m]) c = join (fold (\<lambda>m c. join c (stamp m)) ms c) (stamp m)"
  by simp

text \<open>
  The state after a sequence of operations: the join of all stamps, and the payload that the
  operations stamped with exactly this join produce, in their order.
\<close>

lemma stamped_fold:
  assumes "C c" "\<forall>m \<in> set ms. C (stamp m)"
  defines "J \<equiv> fold (\<lambda>m c. join c (stamp m)) ms c"
  shows "fold (stamped_step le join stamp act p0) ms (c, p) =
    (J, fold act (filter (\<lambda>m. stamp m = J) ms) (if J = c then p else p0))"
  using assms(1,2) unfolding J_def
proof (induction ms rule: rev_induct)
  case (snoc m ms)
  define J where "J = fold (\<lambda>m c. join c (stamp m)) ms c"
  define P where "P = fold act (filter (\<lambda>m. stamp m = J) ms) (if J = c then p else p0)"
  have IH: "fold (stamped_step le join stamp act p0) ms (c, p) = (J, P)"
    using snoc by (simp add: J_def P_def)
  have J: "C J" "le c J" "\<forall>m \<in> set ms. le (stamp m) J"
    using fold_join_lub[OF snoc.prems(1), of ms stamp] snoc.prems(2) by (simp_all add: J_def)
  have Cm: "C (stamp m)" using snoc.prems(2) by simp
  have st: "fold (stamped_step le join stamp act p0) (ms @ [m]) (c, p) = stamped_step le join stamp act p0 m (J, P)"
    using IH by simp
  have jn: "fold (\<lambda>m c. join c (stamp m)) (ms @ [m]) c = join J (stamp m)" by (simp add: J_def)
  have "stamped_step le join stamp act p0 m (J, P) = (join J (stamp m),
      fold act (filter (\<lambda>n. stamp n = join J (stamp m)) (ms @ [m])) (if join J (stamp m) = c then p else p0))"
  proof (cases "le (stamp m) J")
    case True
    then have "join J (stamp m) = J" using join_absorb J(1) Cm by blast
    with True show ?thesis by (simp add: stamped_step_def P_def)
  next
    case False
    let ?J' = "join J (stamp m)"
    have up: "le J ?J'" "le (stamp m) ?J'" using join_upper J(1) Cm by blast+
    have "?J' \<noteq> J" using False up(2) by auto
    then have nle: "\<not> le ?J' J" using up(1) le_antisym by blast
    then have "filter (\<lambda>m. stamp m = ?J') ms = []" using J(3) by (auto simp: filter_empty_conv)
    moreover have "?J' \<noteq> c" using nle J(2) by auto
    ultimately show ?thesis using False by (simp add: stamped_step_def)
  qed
  then show ?case unfolding st jn .
qed simp

lemma fold_join_order:
  assumes "C c" "\<forall>m \<in> set ms. C (stamp m)" "set ms = set ns"
  shows "fold (\<lambda>m c. join c (stamp m)) ms c = fold (\<lambda>m c. join c (stamp m)) ns c"
proof -
  have ns: "\<forall>m \<in> set ns. C (stamp m)" using assms(2,3) by simp
  show ?thesis
    using fold_join_lub[OF assms(1,2)] fold_join_lub[OF assms(1) ns] assms(3)
    by (intro le_antisym) auto
qed

end

interpretation vec: stamp_lattice vle vjoin "\<lambda>v. length v = n" for n
  by unfold_locales (auto intro: vle_trans vle_antisym vle_vjoin vjoin_least)

lemma removeCheck_spec:
  assumes "vc_size t = vc_size (CURRENT h)"
  shows "removeCheck h t =
    Some (if vle (vector t) (vector (CURRENT h)) then (h, False) else (REH_RMV_FUNC h t, True))"
  using assms removeCheck_loop_vle[of "vector (CURRENT h)" "vector t"]
  by (simp add: removeCheck_def vc_size_def)

lemma REH_RMV_FUNC_simps [simp]:
  "PID (REH_RMV_FUNC h t) = PID_NEXIST" "CURRENT (REH_RMV_FUNC h t) = vc_update (CURRENT h) t"
  by (simp_all add: REH_RMV_FUNC_def)

lemma addCheck_spec:
  "addCheck h t = (if vector t = vector (CURRENT h) \<and> PID h < vc_id t then (h\<lparr>PID := vc_id t\<rparr>, True) else (h, False))"
  by (auto simp: addCheck_def vc_equal_iff)

lemma updateCheck_spec:
  "updateCheck h t = (if vector t = vector (CURRENT h)
     then (h\<lparr>PID := if EXISTS h then PID h else PID_WAIT_INNATE\<rparr>, True) else (h, False))"
  by (auto simp: updateCheck_def vc_equal_iff)

text \<open>The text of a clock of \<open>n\<close> replicas, as an argument of a message.\<close>

definition vc_text :: "nat \<Rightarrow> sds \<Rightarrow> bool" where
  "vc_text n x = (case sdsToVC x of None \<Rightarrow> False | Some t \<Rightarrow> vc_wf n t \<and> (\<forall>v \<in> set (vector t). 0 \<le> v))"

definition last_vc :: "sds list \<Rightarrow> vc" where
  "last_vc m = the (sdsToVC (last m))"

definition msg_stamp :: "sds list \<Rightarrow> int list" where
  "msg_stamp m = vector (last_vc m)"

lemmas rwf_stepI = stamped_stepI[where le = vle and join = vjoin and stamp = msg_stamp]

lemma vc_text_last:
  assumes "vc_text n (last m)" "m \<noteq> []"
  shows "CR_GET_LAST m = Some (last_vc m)" "vc_size (last_vc m) = n" "length (msg_stamp m) = n"
    "0 \<le> vc_id (last_vc m)" "vc_id (last_vc m) < int n" "\<forall>v \<in> set (msg_stamp m). 0 \<le> v"
  using assms
  by (auto simp: vc_text_def CR_GET_LAST_def CR_GET_def arg_def last_vc_def last_conv_nth msg_stamp_def
      vc_wf_def vc_size_def split: option.splits)

lemma vc_text_entries: "vc_text n (last m) \<Longrightarrow> \<forall>v \<in> set (vector (last_vc m)). 0 \<le> v \<and> is_int32 v"
  by (auto simp: vc_text_def last_vc_def vc_wf_def split: option.splits)

lemma vc_print_text:
  assumes "vc_wf n c" "\<forall>v \<in> set (vector c). 0 \<le> v" "n \<le> 100"
  shows "\<exists>x. vcToSds c = Some x \<and> vc_text n x \<and> sdsToVC x = Some c"
  using vc_roundtrip[OF assms(1,3)] assms by (auto simp: vc_text_def)

text \<open>A remove is stamped with an incremented clock, which is not below the clock itself.\<close>

lemma vc_now_text:
  assumes wf: "vc_wf n c" and nn: "\<forall>v \<in> set (vector c). 0 \<le> v" and n: "n \<le> 100"
    and room: "vector c ! nat (vc_id c) < 2 ^ 31 - 1"
  defines "d \<equiv> c\<lparr>vector := (vector c)[nat (vc_id c) := vector c ! nat (vc_id c) + 1]\<rparr>"
  shows "\<exists>x. vc_now c = Some x \<and> vc_text n x \<and> sdsToVC x = Some d" and "\<not> vle (vector d) (vector c)"
proof -
  let ?i = "nat (vc_id c)"
  have i: "?i < length (vector c)" "0 \<le> vc_id c" "vc_id c < int (vc_size c)"
    using wf by (auto simp: vc_wf_def vc_size_def)
  then have v: "0 \<le> vector c ! ?i" using nn by simp
  have eq: "int32 (vector c ! ?i + 1) = vector c ! ?i + 1"
    using v room by (simp add: is_int32_def)
  have wfd: "vc_wf n d" "\<forall>v \<in> set (vector d). 0 \<le> v"
    using wf nn v room by (auto simp: d_def vc_wf_def vc_size_def is_int32_def dest!: set_update_subset_insert[THEN subsetD])
  show "\<exists>x. vc_now c = Some x \<and> vc_text n x \<and> sdsToVC x = Some d"
    using vc_print_text[OF wfd n] i(2,3) eq by (simp add: vc_now_def vc_incr_at_def d_def)
  have "vector d ! ?i = vector c ! ?i + 1" "length (vector d) = length (vector c)" using i by (simp_all add: d_def)
  then show "\<not> vle (vector d) (vector c)" using i(1) vle_nth[of "vector d" "vector c"] by force
qed

text \<open>The size and id of the clocks are those of this replica, at most 100 replicas.\<close>

definition replica_ok :: "nat \<Rightarrow> 'v server \<Rightarrow> bool" where
  "replica_ok n s \<longleftrightarrow> p2p_count s = int n \<and> 0 < n \<and> n \<le> 100 \<and> 0 \<le> p2p_id s \<and> p2p_id s < int n"

lemma replica_ok_mode: "replica_ok n s \<Longrightarrow> REPLICATION_MODE s"
  by (simp add: replica_ok_def REPLICATION_MODE_def)

lemma replica_ok_vc:
  "replica_ok n s \<Longrightarrow> vc_wf n (server_vc s) \<and> vc_id (server_vc s) = p2p_id s \<and>
    vector (server_vc s) = replicate n 0 \<and> vc_size (server_vc s) = n"
  by (auto simp: replica_ok_def server_vc_def vc_wf_def vc_new_def vc_size_def is_int32_def)

definition key_ele :: "sds list \<Rightarrow> sds \<times> sds" where
  "key_ele m = (m ! 1, m ! 2)"

text \<open>An operation carries the join of all stamps iff its stamp is above all others.\<close>

lemma stamp_is_join:
  assumes "\<forall>m \<in> set ms. length (msg_stamp m) = n \<and> (\<forall>v \<in> set (msg_stamp m). 0 \<le> v)" "m \<in> set ms"
  shows "msg_stamp m = fold (\<lambda>m c. vjoin c (msg_stamp m)) ms (replicate n 0) \<longleftrightarrow>
    (\<forall>m' \<in> set ms. vle (msg_stamp m') (msg_stamp m))"
proof -
  let ?J = "fold (\<lambda>m c. vjoin c (msg_stamp m)) ms (replicate n 0)"
  have z: "length (replicate n (0 :: int)) = n" by simp
  have s: "\<forall>m \<in> set ms. length (msg_stamp m) = n" using assms(1) by blast
  note lub = vec.fold_join_lub[OF z s]
  have "vle (replicate n 0) (msg_stamp m)" using assms by (auto simp: vle_nth)
  then show ?thesis using lub assms(2) by (metis vle_antisym)
qed

section \<open>Data types of the framework\<close>

text \<open>
  The interface that a data type of the framework implements: the effect of a message on the
  element it targets is a stamped step on the remove history and the payload of the element.
  \<open>D\<close> is the set of targets that the invariant covers.
\<close>

locale stamped_effects =
  keyed_effects eff inv ok target view "stamped_step vle vjoin stamp act p0"
  for eff :: "'s \<Rightarrow> 'm \<Rightarrow> 's option" and inv ok and target :: "'m \<Rightarrow> 'k"
    and view :: "'k \<Rightarrow> 's \<Rightarrow> int list \<times> 'p" and stamp :: "'m \<Rightarrow> int list" and act p0 +
  fixes n :: nat and D :: "'k \<Rightarrow> bool"
  assumes stamp_length: "ok m \<Longrightarrow> length (stamp m) = n"
    and view_length: "inv s \<Longrightarrow> D k \<Longrightarrow> length (fst (view k s)) = n"
begin

text \<open>
  After any sequence of messages, the history of an element is the join of all stamps and its
  payload comes from the messages that carry exactly this join.
\<close>

lemma run_stamped:
  assumes "inv s" "\<forall>m \<in> set ms. ok m"
  shows "\<exists>s'. run eff s ms = Some s' \<and> inv s' \<and> (\<forall>k. D k \<longrightarrow>
    view k s' = (let ns = filter (\<lambda>m. target m = k) ms; (c, p) = view k s;
                     J = fold (\<lambda>m c. vjoin c (stamp m)) ns c
                 in (J, fold act (filter (\<lambda>m. stamp m = J) ns) (if J = c then p else p0))))"
proof -
  obtain s' where s': "run eff s ms = Some s'" "inv s'"
    "\<forall>k. view k s' = fold (stamped_step vle vjoin stamp act p0) (filter (\<lambda>m. target m = k) ms) (view k s)"
    using run_view[OF assms] by blast
  have "view k s' = (let ns = filter (\<lambda>m. target m = k) ms; (c, p) = view k s;
                     J = fold (\<lambda>m c. vjoin c (stamp m)) ns c
                 in (J, fold act (filter (\<lambda>m. stamp m = J) ns) (if J = c then p else p0)))" if "D k" for k
  proof -
    obtain c p where cp: "view k s = (c, p)" by fastforce
    have c: "length c = n" using view_length[OF assms(1) that] cp by simp
    have "\<forall>m \<in> set (filter (\<lambda>m. target m = k) ms). length (stamp m) = n"
      using assms(2) stamp_length by simp
    note fold = vec.stamped_fold[OF c this]
    show ?thesis unfolding s'(3)[rule_format] cp fold by (simp only: Let_def prod.case)
  qed
  with s' show ?thesis by blast
qed

text \<open>The history does not depend on the order of the messages.\<close>

lemma join_order:
  assumes "inv s" "D k" "mset ms = mset ns" "\<forall>m \<in> set ms. ok m"
  shows "fold (\<lambda>m c. vjoin c (stamp m)) (filter (\<lambda>m. target m = k) ms) (fst (view k s)) =
    fold (\<lambda>m c. vjoin c (stamp m)) (filter (\<lambda>m. target m = k) ns) (fst (view k s))"
proof (rule vec.fold_join_order[where n = n])
  show "set (filter (\<lambda>m. target m = k) ms) = set (filter (\<lambda>m. target m = k) ns)"
    using assms(3) by (metis mset_filter set_mset_mset)
qed (use assms stamp_length view_length in simp_all)

end

text \<open>With payload actions that commute, the type converges.\<close>

locale commuting_stamped_effects = stamped_effects +
  fixes indep :: "'b \<Rightarrow> 'b \<Rightarrow> bool" and good :: "'d \<Rightarrow> bool"
  assumes act_commute: "ok m \<Longrightarrow> ok m' \<Longrightarrow> indep m m' \<Longrightarrow> good p \<Longrightarrow> act m (act m' p) = act m' (act m p)"
    and act_good: "ok m \<Longrightarrow> good p \<Longrightarrow> good (act m p)"
    and view_good: "good p0" "inv s \<Longrightarrow> D k \<Longrightarrow> good (snd (view k s))"
begin

lemma act_order:
  assumes "mset ms = mset ns" "\<forall>m \<in> set ms. ok m" "\<forall>m \<in> set ms. \<forall>m' \<in> set ms. m \<noteq> m' \<longrightarrow> indep m m'" "good p"
  shows "fold act ms p = fold act ns p"
proof (rule fold_permuted_eq[where P = good])
  show "act x (act y z) = act y (act x z)" if "x \<in> set ms" "y \<in> set ms" "good z" for x y z
    using that assms(2,3) act_commute by (cases "x = y") auto
qed (use assms act_good in auto)

lemma stamped_converge:
  assumes "inv s" "inv t" "\<forall>k. D k \<longrightarrow> view k s = view k t" "mset ms = mset ns" "\<forall>m \<in> set ms. ok m"
    "\<forall>m \<in> set ms. \<forall>m' \<in> set ms. m \<noteq> m' \<longrightarrow> target m = target m' \<longrightarrow> stamp m = stamp m' \<longrightarrow> indep m m'"
  shows "\<exists>s' t'. run eff s ms = Some s' \<and> run eff t ns = Some t' \<and> inv s' \<and> inv t' \<and>
    (\<forall>k. D k \<longrightarrow> view k s' = view k t')"
proof -
  have ok: "\<forall>m \<in> set ns. ok m" using assms(4,5) by (metis set_mset_mset)
  obtain s' t' where s': "run eff s ms = Some s'" "inv s'" "\<forall>k. D k \<longrightarrow>
      view k s' = (let ns = filter (\<lambda>m. target m = k) ms; (c, p) = view k s;
                     J = fold (\<lambda>m c. vjoin c (stamp m)) ns c
                 in (J, fold act (filter (\<lambda>m. stamp m = J) ns) (if J = c then p else p0)))"
    and t': "run eff t ns = Some t'" "inv t'" "\<forall>k. D k \<longrightarrow>
      view k t' = (let ns = filter (\<lambda>m. target m = k) ns; (c, p) = view k t;
                     J = fold (\<lambda>m c. vjoin c (stamp m)) ns c
                 in (J, fold act (filter (\<lambda>m. stamp m = J) ns) (if J = c then p else p0)))"
    using run_stamped[OF assms(1,5)] run_stamped[OF assms(2) ok] by blast
  have "view k s' = view k t'" if D: "D k" for k
  proof -
    obtain c p where cp: "view k s = (c, p)" "view k t = (c, p)" using assms(3) D by fastforce
    let ?J = "fold (\<lambda>m c. vjoin c (stamp m)) (filter (\<lambda>m. target m = k) ms) c"
    have J: "fold (\<lambda>m c. vjoin c (stamp m)) (filter (\<lambda>m. target m = k) ns) c = ?J"
      using join_order[OF assms(1) D assms(4,5)] cp by simp
    have "mset (filter (\<lambda>m. stamp m = ?J) (filter (\<lambda>m. target m = k) ms)) =
        mset (filter (\<lambda>m. stamp m = ?J) (filter (\<lambda>m. target m = k) ns))"
      using assms(4) by (simp add: mset_filter)
    then have "fold act (filter (\<lambda>m. stamp m = ?J) (filter (\<lambda>m. target m = k) ms)) q =
        fold act (filter (\<lambda>m. stamp m = ?J) (filter (\<lambda>m. target m = k) ns)) q" if "good q" for q
      by (rule act_order) (use assms(5,6) that in auto)
    moreover have "good p" using view_good(2)[OF assms(1) D] cp by simp
    ultimately show ?thesis using s'(3) t'(3) D cp J view_good(1) by (simp add: Let_def)
  qed
  with s' t' show ?thesis by blast
qed

end

section \<open>Sample clocks\<close>

lemma sample_replica: "0 \<le> i \<Longrightarrow> i < 2 \<Longrightarrow> replica_ok 2 (started_server 2 i)"
  by (simp add: replica_ok_def started_server_def)

lemma sample_vc:
  "sdsToVC ''0,0|0'' = Some \<lparr>vector = [0, 0], vc_id = 0\<rparr>"
  "sdsToVC ''0,1|1'' = Some \<lparr>vector = [0, 1], vc_id = 1\<rparr>"
  "sdsToVC ''1,0|0'' = Some \<lparr>vector = [1, 0], vc_id = 0\<rparr>"
  "sdsToVC ''2,0|0'' = Some \<lparr>vector = [2, 0], vc_id = 0\<rparr>"
  "sdsToVC ''1,1|1'' = Some \<lparr>vector = [1, 1], vc_id = 1\<rparr>"
  by (rule sdsToVC_text[where n = 2]; simp add: vcToSds_def text_eval vc_wf_def vc_size_def is_int32_def)+

lemma sample_vc_text: "vc_text 2 ''0,0|0''" "vc_text 2 ''0,1|1''"
  by (simp_all add: vc_text_def sample_vc vc_wf_def vc_size_def is_int32_def)

end
