(* ===== verification/CausalBuffer.thy ===== *)
theory CausalBuffer
  imports RWFramework
begin

text \<open>
  Causal delivery by buffering, as t_rset.c, t_rzset.c and t_rlist.c implement it: a command whose
  vector clock is not causally ready waits in the list \<open>ops\<close> of the element; after every applied
  command \<open>notifyLoop\<close> applies the waiting commands that have become ready. The three files
  contain the same loop over their own command type; here it is one function over the clock of a
  command and the function that applies it.
\<close>

section \<open>The loop\<close>

text \<open>One scan of \<open>ops\<close>: the first command that is ready.\<close>

fun first_ready :: "vc \<Rightarrow> ('c \<Rightarrow> vc) \<Rightarrow> 'c list \<Rightarrow> 'c option option" where
  "first_ready current clk [] = Some None"
| "first_ready current clk (c # cs) =
     do {
       b \<leftarrow> vc_causally_ready current (clk c);
       if b then Some (Some c) else first_ready current clk cs
     }"

lemma first_ready_mem: "first_ready current clk cs = Some (Some c) \<Longrightarrow> c \<in> set cs"
  by (induction cs) (auto simp: Option.bind_eq_Some_conv split: if_splits)

function notify_loop ::
    "('s \<Rightarrow> vc) \<Rightarrow> ('c \<Rightarrow> vc) \<Rightarrow> ('c \<Rightarrow> 's \<Rightarrow> 's option) \<Rightarrow> 's \<Rightarrow> 'c list \<Rightarrow> ('s \<times> 'c list) option" where
  "notify_loop cur clk app s ops =
     (case first_ready (cur s) clk ops of
        None \<Rightarrow> None
      | Some None \<Rightarrow> Some (s, ops)
      | Some (Some c) \<Rightarrow>
          (case app c s of
             None \<Rightarrow> None
           | Some s' \<Rightarrow> notify_loop cur clk app s' (remove1 c ops)))"
  by pat_completeness auto
termination
proof (relation "measure (\<lambda>(cur, clk, app, s, ops). length ops)", goal_cases)
  case (2 cur clk app s ops x c s')
  then have "c \<in> set ops" using first_ready_mem[of "cur s" clk ops c] by simp
  then have "length (remove1 c ops) < length ops"
    using length_pos_if_in_set[of c ops] by (simp add: length_remove1 del: length_greater_0_conv)
  then show ?case by simp
qed simp

declare notify_loop.simps [simp del]

text \<open>The effect of a command: apply it and run the loop, or put it at the end of \<open>ops\<close>.\<close>

definition causal_receive ::
    "('s \<Rightarrow> vc) \<Rightarrow> ('c \<Rightarrow> vc) \<Rightarrow> ('c \<Rightarrow> 's \<Rightarrow> 's option) \<Rightarrow> 'c \<Rightarrow> 's \<times> 'c list \<Rightarrow> ('s \<times> 'c list) option" where
  "causal_receive cur clk app c so =
     do {
       b \<leftarrow> vc_causally_ready (cur (fst so)) (clk c);
       if b then do { s' \<leftarrow> app c (fst so); notify_loop cur clk app s' (snd so) }
       else Some (fst so, snd so @ [c])
     }"

section \<open>Sets of clocks of an execution\<close>

definition vc_rid :: "vc \<Rightarrow> nat" where
  "vc_rid t = nat (vc_id t)"

definition vc_seq :: "vc \<Rightarrow> int" where
  "vc_seq t = vector t ! vc_rid t"

text \<open>
  The clocks of the commands of an execution: a clock that has counted a command is above its
  clock, and different commands have different vectors. A set is closed if every command that
  is counted in it is in it.
\<close>

definition vc_causal :: "nat \<Rightarrow> vc set \<Rightarrow> bool" where
  "vc_causal n M \<longleftrightarrow>
     (\<forall>t \<in> M. vc_wf n t \<and> (\<forall>v \<in> set (vector t). 0 \<le> v) \<and> 1 \<le> vc_seq t) \<and>
     (\<forall>t \<in> M. \<forall>u \<in> M. vc_seq u \<le> vector t ! vc_rid u \<longrightarrow> vle (vector u) (vector t)) \<and>
     (\<forall>t \<in> M. \<forall>u \<in> M. vector u = vector t \<longrightarrow> u = t)"

definition vc_closed :: "nat \<Rightarrow> vc set \<Rightarrow> bool" where
  "vc_closed n M \<longleftrightarrow>
     (\<forall>t \<in> M. \<forall>j < n. \<forall>k. 1 \<le> k \<longrightarrow> k \<le> vector t ! j \<longrightarrow> (\<exists>u \<in> M. vc_rid u = j \<and> vc_seq u = k))"

lemma vc_causal_mono: "vc_causal n M \<Longrightarrow> N \<subseteq> M \<Longrightarrow> vc_causal n N"
  unfolding vc_causal_def by (meson subsetD)

lemma vc_wf_index: "vc_wf n t \<Longrightarrow> vc_rid t < n \<and> length (vector t) = n"
  by (auto simp: vc_wf_def vc_rid_def vc_size_def)

lemma vc_causalD:
  assumes "vc_causal n M" "t \<in> M"
  shows "vc_wf n t" "\<forall>v \<in> set (vector t). 0 \<le> v" "1 \<le> vc_seq t" "vc_rid t < n" "length (vector t) = n"
    "vc_id t = int (vc_rid t)"
  using assms vc_wf_index[of n t] by (auto simp: vc_causal_def vc_wf_def vc_rid_def)

lemma vc_causal_le:
  assumes "vc_causal n M" "t \<in> M" "u \<in> M"
  shows "vle (vector u) (vector t) \<longleftrightarrow> vc_seq u \<le> vector t ! vc_rid u"
proof
  assume "vle (vector u) (vector t)"
  then show "vc_seq u \<le> vector t ! vc_rid u"
    using vc_causalD(4,5)[OF assms(1,3)] vc_causalD(5)[OF assms(1,2)] by (simp add: vle_nth vc_seq_def)
next
  assume "vc_seq u \<le> vector t ! vc_rid u"
  then show "vle (vector u) (vector t)" using assms by (simp add: vc_causal_def)
qed

lemma vc_causal_eq:
  assumes "vc_causal n M" "t \<in> M" "u \<in> M" "vc_rid t = vc_rid u" "vc_seq t = vc_seq u"
  shows "t = u"
proof -
  have "vle (vector u) (vector t)" "vle (vector t) (vector u)"
    using assms(4,5) by (simp_all add: vc_causal_le[OF assms(1,2,3)] vc_causal_le[OF assms(1,3,2)] vc_seq_def)
  then have "vector u = vector t" by (rule vle_antisym)
  then show ?thesis using assms(1,2,3) by (simp add: vc_causal_def)
qed

text \<open>\<open>vc_cmp\<close> decides the causal order of the commands of an execution.\<close>

lemma vc_causal_cmp:
  assumes M: "vc_causal n M" "t \<in> M" "u \<in> M"
  shows "vc_cmp u t = VC_LESS \<longleftrightarrow> u \<noteq> t \<and> vle (vector u) (vector t)"
proof (cases "vc_id u = vc_id t")
  case False
  have "vc_size u = vc_size t" using vc_causalD(5)[OF M(1,2)] vc_causalD(5)[OF M(1,3)] by (simp add: vc_size_def)
  moreover have "vector u = vector t \<longleftrightarrow> u = t" using M by (auto simp: vc_causal_def)
  ultimately show ?thesis using False by (auto simp: vc_cmp_spec vc_leq_def vle_def)
next
  case True
  have l: "length (vector u) = length (vector t)" using vc_causalD(5)[OF M(1,2)] vc_causalD(5)[OF M(1,3)] by simp
  have r: "vc_rid u = vc_rid t" using True by (simp add: vc_rid_def)
  have eq: "vector u = vector t \<longleftrightarrow> u = t" using M by (auto simp: vc_causal_def)
  have cmp: "vle (vector u) (vector t) \<or> vle (vector t) (vector u)"
    using vc_causal_le[OF M] vc_causal_le[OF M(1,3,2)] r by (auto simp: vc_seq_def)
  show ?thesis
    using scan_first[of "vector u" "vector t"] l eq True cmp vle_antisym[of "vector u" "vector t"]
    by (auto simp: vc_cmp_def vc_size_def vle_def simp del: dropWhile_eq_Nil_conv split: list.splits)
qed

section \<open>Causal histories\<close>

text \<open>The vector after a sequence of commands, and when the next command is ready.\<close>

definition hist_vec :: "nat \<Rightarrow> vc list \<Rightarrow> int list" where
  "hist_vec n ts = fold (\<lambda>t c. vjoin c (vector t)) ts (replicate n 0)"

definition ready_after :: "int list \<Rightarrow> vc \<Rightarrow> bool" where
  "ready_after v t \<longleftrightarrow> (\<forall>j < length v. j \<noteq> vc_rid t \<longrightarrow> vector t ! j \<le> v ! j) \<and>
     vc_seq t = v ! vc_rid t + 1"

fun causal_hist :: "nat \<Rightarrow> vc list \<Rightarrow> vc list \<Rightarrow> bool" where
  "causal_hist n done [] = True"
| "causal_hist n done (t # ts) = (ready_after (hist_vec n done) t \<and> causal_hist n (done @ [t]) ts)"

lemma causal_hist_append:
  "causal_hist n done (ts @ us) \<longleftrightarrow> causal_hist n done ts \<and> causal_hist n (done @ ts) us"
  by (induction ts arbitrary: "done") auto

lemma hist_vec_snoc [simp]: "hist_vec n (ts @ [t]) = vjoin (hist_vec n ts) (vector t)"
  by (simp add: hist_vec_def)

lemma hist_vec_length: "\<forall>t \<in> set ts. length (vector t) = n \<Longrightarrow> length (hist_vec n ts) = n"
  by (induction ts rule: rev_induct) (simp_all, simp add: hist_vec_def)

text \<open>
  In a causal history the vector counts the commands of every replica: they carry the numbers
  \<open>1\<close> to the component of the replica.
\<close>

lemma ready_join:
  assumes "length (vector t) = n" "length v = n" "vc_rid t < n" "ready_after v t"
  shows "vjoin v (vector t) = v[vc_rid t := vc_seq t]"
proof (rule nth_equalityI)
  fix j
  assume "j < length (vjoin v (vector t))"
  then have j: "j < n" using assms by simp
  show "vjoin v (vector t) ! j = v[vc_rid t := vc_seq t] ! j"
    using assms j by (cases "j = vc_rid t") (auto simp: vjoin_nth ready_after_def vc_seq_def max_def)
qed (use assms in simp)

definition counts :: "nat \<Rightarrow> vc list \<Rightarrow> int list \<Rightarrow> bool" where
  "counts n ts v \<longleftrightarrow> length v = n \<and> (\<forall>j < n. 0 \<le> v ! j) \<and> (\<forall>t \<in> set ts. vc_seq t \<le> v ! vc_rid t) \<and>
     (\<forall>j < n. \<forall>k. 1 \<le> k \<longrightarrow> k \<le> v ! j \<longrightarrow> (\<exists>t \<in> set ts. vc_rid t = j \<and> vc_seq t = k))"

lemma counts_snoc:
  assumes c: "counts n ts v" and t: "length (vector t) = n" "vc_rid t < n" "ready_after v t"
  shows "counts n (ts @ [t]) (vjoin v (vector t))"
proof -
  let ?i = "vc_rid t"
  have v: "length v = n" "\<forall>j < n. 0 \<le> v ! j" "\<forall>u \<in> set ts. vc_seq u \<le> v ! vc_rid u"
    "\<forall>j < n. \<forall>k. 1 \<le> k \<longrightarrow> k \<le> v ! j \<longrightarrow> (\<exists>u \<in> set ts. vc_rid u = j \<and> vc_seq u = k)"
    using c by (simp_all add: counts_def)
  have s: "vc_seq t = v ! ?i + 1" using t(3) by (simp add: ready_after_def)
  have nth: "v[?i := vc_seq t] ! j = (if j = ?i then vc_seq t else v ! j)" if "j < n" for j
    using that v(1) by simp
  have old: "vc_seq u \<le> v[?i := vc_seq t] ! vc_rid u" if "u \<in> set ts" for u
    using v(1,3) that s t(2) by (cases "vc_rid u = ?i") force+
  have "\<exists>u \<in> set (ts @ [t]). vc_rid u = j \<and> vc_seq u = k"
    if "j < n" "1 \<le> k" "k \<le> v[?i := vc_seq t] ! j" for j k
  proof (cases "j = ?i \<and> k = vc_seq t")
    case True
    then show ?thesis by auto
  next
    case False
    then have "k \<le> v ! j" using that(1,3) s nth by (auto split: if_splits)
    then show ?thesis using v(4) that(1,2) by (metis Un_iff set_append)
  qed
  then have "counts n (ts @ [t]) (v[?i := vc_seq t])"
    using v t(2) s nth old by (auto simp: counts_def)
  then show ?thesis using ready_join[OF t(1) v(1) t(2,3)] by simp
qed

lemma causal_hist_counts:
  assumes "causal_hist n [] ts" "\<forall>t \<in> set ts. length (vector t) = n \<and> vc_rid t < n"
  shows "counts n ts (hist_vec n ts)"
  using assms
proof (induction ts rule: rev_induct)
  case Nil
  then show ?case by (auto simp: counts_def hist_vec_def)
next
  case (snoc t ts)
  then have "counts n ts (hist_vec n ts)" "ready_after (hist_vec n ts) t"
    by (simp_all add: causal_hist_append)
  then show ?case using counts_snoc snoc.prems(2) by simp
qed

text \<open>The test of the source is this readiness.\<close>

lemma vc_causally_ready_after:
  assumes "vc_wf n t" "\<forall>v \<in> set (vector t). 0 \<le> v" "vc_size c = n" "\<forall>v \<in> set (vector c). 0 \<le> v \<and> is_int32 v"
  shows "vc_causally_ready c t = Some (ready_after (vector c) t)"
proof -
  have i: "vc_rid t < n" "length (vector t) = n" "vc_id t = int (vc_rid t)"
    using assms(1) by (auto simp: vc_wf_def vc_rid_def vc_size_def)
  have ci: "0 \<le> vector c ! vc_rid t" "is_int32 (vector c ! vc_rid t)" "0 \<le> vc_seq t" "is_int32 (vc_seq t)"
    using assms i by (auto simp: vc_size_def vc_seq_def vc_wf_def)
  have "vc_seq t = int32 (vector c ! vc_rid t + 1) \<longleftrightarrow> vc_seq t = vector c ! vc_rid t + 1"
  proof (cases "vector c ! vc_rid t = 2 ^ 31 - 1")
    case True
    then have "int32 (vector c ! vc_rid t + 1) = - (2 ^ 31)" by (simp add: int32_def)
    then show ?thesis using True ci by (simp add: is_int32_def)
  next
    case False
    then show ?thesis using ci by (simp add: is_int32_def)
  qed
  then show ?thesis using assms(1,3) i
    by (auto simp: vc_causally_ready_def vc_wf_def ready_after_def list_ex_iff not_less vc_size_def vc_seq_def)
qed

lemma hist_vec_entries:
  assumes "\<forall>t \<in> set ts. \<forall>v \<in> set (vector t). 0 \<le> v \<and> is_int32 v"
  shows "\<forall>v \<in> set (hist_vec n ts). 0 \<le> v \<and> is_int32 v"
  using assms
proof (induction ts rule: rev_induct)
  case Nil
  then show ?case by (auto simp: hist_vec_def is_int32_def)
next
  case (snoc t ts)
  have IH: "\<forall>v \<in> set (hist_vec n ts). 0 \<le> v \<and> is_int32 v" by (rule snoc.IH) (use snoc.prems in auto)
  have "\<forall>v \<in> set (vector t). 0 \<le> v \<and> is_int32 v" by (rule bspec[OF snoc.prems]) simp
  then have "\<forall>v \<in> set (hist_vec n ts) \<union> set (vector t). 0 \<le> v \<and> is_int32 v" using IH by blast
  then show ?case using vjoin_set[of "hist_vec n ts" "vector t"] unfolding hist_vec_snoc by blast
qed

lemma vle_sum_strict:
  assumes "vle a b" "a \<noteq> b"
  shows "sum_list a < sum_list b"
proof -
  have "list_all2 (\<le>) a b \<Longrightarrow> sum_list a \<le> sum_list b \<and> (a \<noteq> b \<longrightarrow> sum_list a < sum_list b)"
    by (induction rule: list_all2_induct) auto
  then show ?thesis using assms by (simp add: vle_def)
qed

text \<open>A command that is ready after a history is not below any command of it.\<close>

definition vc_older :: "vc \<Rightarrow> vc \<Rightarrow> bool" where
  "vc_older u t \<longleftrightarrow> u \<noteq> t \<and> vle (vector u) (vector t)"

lemma vc_older_irrefl [simp]: "\<not> vc_older t t"
  by (simp add: vc_older_def)

lemma vc_cmp_older:
  "vc_causal n M \<Longrightarrow> t \<in> M \<Longrightarrow> u \<in> M \<Longrightarrow> vc_cmp u t = VC_LESS \<longleftrightarrow> vc_older u t"
  by (simp add: vc_causal_cmp vc_older_def)

lemma hist_vec_upper:
  assumes "\<forall>t \<in> set ts. length (vector t) = n" "u \<in> set ts"
  shows "vle (vector u) (hist_vec n ts)"
  using assms
proof (induction ts rule: rev_induct)
  case (snoc t ts)
  have l: "length (hist_vec n ts) = length (vector t)" using snoc.prems(1) hist_vec_length[of ts n] by simp
  show ?case
  proof (cases "u = t")
    case True
    then show ?thesis using vle_vjoin(2)[OF l] by simp
  next
    case False
    then have "vle (vector u) (hist_vec n ts)" using snoc by simp
    then show ?thesis using vle_vjoin(1)[OF l] vle_trans by simp
  qed
qed simp

lemma causal_hist_last:
  assumes M: "vc_causal n (set (ts @ [t]))" and h: "causal_hist n [] (ts @ [t])" and u: "u \<in> set ts"
  shows "\<not> vc_older t u"
proof
  assume "vc_older t u"
  note D = vc_causalD[OF M]
  have "vle (vector u) (hist_vec n ts)" by (rule hist_vec_upper[OF _ u]) (use D(5) in simp)
  then have "vle (vector t) (hist_vec n ts)" using \<open>vc_older t u\<close> vle_trans by (auto simp: vc_older_def)
  moreover have "length (hist_vec n ts) = n" by (rule hist_vec_length) (use D(5) in simp)
  ultimately have "vector t ! vc_rid t \<le> hist_vec n ts ! vc_rid t" using D(4,5)[of t] by (simp add: vle_nth)
  then show False using h by (simp add: causal_hist_append ready_after_def vc_seq_def)
qed

text \<open>
  If the received commands are closed, none of them is left waiting: the waiting command with
  the smallest clock would be ready.
\<close>

lemma causal_waits:
  assumes ch: "causal_hist n [] (map clk h)" and v: "v = hist_vec n (map clk h)"
    and dist: "distinct (map clk (h @ ops))" and M: "vc_causal n (clk ` set (h @ ops))"
    and stuck: "\<forall>d \<in> set ops. \<not> ready_after v (clk d)" and closed: "vc_closed n (clk ` set (h @ ops))"
  shows "ops = []"
proof (rule ccontr)
  assume "ops \<noteq> []"
  then obtain c where c: "c \<in> set ops" "\<forall>d \<in> set ops. sum_list (vector (clk c)) \<le> sum_list (vector (clk d))"
    using arg_min_list_in[of ops "\<lambda>c. sum_list (vector (clk c))"] f_arg_min_list_f[of ops "\<lambda>c. sum_list (vector (clk c))"]
    by (metis Min_le finite_imageI finite_set image_eqI)
  let ?M = "clk ` set (h @ ops)" and ?t = "clk c" and ?v = v
  have t: "?t \<in> ?M" using c(1) by auto
  note D = vc_causalD[OF M t]
  have cnt: "counts n (map clk h) v" unfolding v by (rule causal_hist_counts[OF ch]) (use vc_causalD(4,5)[OF M] in auto)
  have applied: "u \<in> clk ` set h" if u: "u \<in> ?M" "vle (vector u) (vector ?t)" "u \<noteq> ?t" for u
  proof (rule ccontr)
    assume "u \<notin> clk ` set h"
    then obtain d where d: "d \<in> set ops" "u = clk d" using u(1) by auto
    have "vector u \<noteq> vector ?t" using M t u(1,3) by (auto simp: vc_causal_def)
    then have "sum_list (vector u) < sum_list (vector ?t)" by (rule vle_sum_strict[OF u(2)])
    then show False using c(2) d by force
  qed
  have step: "k \<le> ?v ! j" if jk: "j < n" "1 \<le> k" "k \<le> vector ?t ! j" "j = vc_rid ?t \<longrightarrow> k < vc_seq ?t" for j k
  proof -
    obtain u where u: "u \<in> ?M" "vc_rid u = j" "vc_seq u = k"
      using closed[unfolded vc_closed_def, rule_format, OF t jk(1-3)] by blast
    have "vle (vector u) (vector ?t)" using vc_causal_le[OF M t u(1)] u jk(3) by simp
    moreover have "u \<noteq> ?t" using u jk(4) by auto
    ultimately have "u \<in> clk ` set h" by (rule applied[OF u(1)])
    then show ?thesis using cnt u unfolding counts_def by auto
  qed
  have "vector ?t ! j \<le> ?v ! j" if "j < n" "j \<noteq> vc_rid ?t" for j
    using step[of j "vector ?t ! j"] that cnt by (cases "1 \<le> vector ?t ! j") (auto simp: counts_def)
  moreover have "vc_seq ?t \<le> ?v ! vc_rid ?t + 1"
    using step[of "vc_rid ?t" "vc_seq ?t - 1"] D(3,4) cnt
    by (cases "1 \<le> vc_seq ?t - 1") (auto simp: counts_def vc_seq_def)
  moreover have "\<not> vc_seq ?t \<le> ?v ! vc_rid ?t"
  proof
    assume "vc_seq ?t \<le> ?v ! vc_rid ?t"
    then obtain u where u: "u \<in> clk ` set h" "vc_rid u = vc_rid ?t" "vc_seq u = vc_seq ?t"
      using cnt D(3,4) unfolding counts_def by (metis image_set)
    then have "u = ?t" using vc_causal_eq[OF M _ t] by auto
    then show False using u(1) c(1) dist by auto
  qed
  ultimately have "ready_after ?v ?t" using cnt by (auto simp: ready_after_def counts_def)
  then show False using stuck c(1) by blast
qed

section \<open>The buffer delivers in causal order\<close>

text \<open>
  The interface of a type with causal delivery: \<open>hinv h s\<close> describes the state after the commands
  \<open>h\<close> in this order; a ready command can be applied and joins its clock to the current one.
\<close>

locale causal_ops =
  fixes n :: nat and cur :: "'s \<Rightarrow> vc" and clk :: "'c \<Rightarrow> vc" and app :: "'c \<Rightarrow> 's \<Rightarrow> 's option"
    and ok :: "'c \<Rightarrow> bool" and hinv :: "'c list \<Rightarrow> 's \<Rightarrow> bool"
  assumes app_law: "hinv h s \<Longrightarrow> \<forall>d \<in> set (h @ [c]). ok d \<Longrightarrow> distinct (map clk (h @ [c])) \<Longrightarrow>
    vc_causal n (clk ` set (h @ [c])) \<Longrightarrow> causal_hist n [] (map clk (h @ [c])) \<Longrightarrow>
    vector (cur s) = hist_vec n (map clk h) \<Longrightarrow>
    \<exists>s'. app c s = Some s' \<and> hinv (h @ [c]) s' \<and> vector (cur s') = vjoin (vector (cur s)) (vector (clk c))"
begin

definition binv :: "'c list \<Rightarrow> 's \<Rightarrow> 'c list \<Rightarrow> bool" where
  "binv h s ops \<longleftrightarrow> hinv h s \<and> causal_hist n [] (map clk h) \<and> vector (cur s) = hist_vec n (map clk h) \<and>
     distinct (map clk (h @ ops)) \<and> vc_causal n (clk ` set (h @ ops)) \<and> (\<forall>c \<in> set (h @ ops). ok c)"

lemma binv_cur:
  assumes "binv h s ops"
  shows "vc_size (cur s) = n" "\<forall>v \<in> set (vector (cur s)). 0 \<le> v \<and> is_int32 v"
    "counts n (map clk h) (vector (cur s))"
proof -
  have M: "vc_causal n (clk ` set (h @ ops))" and v: "vector (cur s) = hist_vec n (map clk h)"
    and ch: "causal_hist n [] (map clk h)" using assms by (simp_all add: binv_def)
  have e: "length (vector t) = n \<and> vc_rid t < n \<and> (\<forall>v \<in> set (vector t). 0 \<le> v \<and> is_int32 v)" if "t \<in> set (map clk h)" for t
  proof -
    have "t \<in> clk ` set (h @ ops)" using that by auto
    note D = vc_causalD[OF M this]
    show ?thesis using D(1,2,4,5) unfolding vc_wf_def by blast
  qed
  show "vc_size (cur s) = n" unfolding vc_size_def v by (rule hist_vec_length) (use e in blast)
  show "\<forall>v \<in> set (vector (cur s)). 0 \<le> v \<and> is_int32 v" unfolding v by (rule hist_vec_entries) (use e in blast)
  show "counts n (map clk h) (vector (cur s))" unfolding v by (rule causal_hist_counts[OF ch]) (use e in blast)
qed

lemma binv_ready:
  assumes "binv h s ops" "vc_wf n (clk c)" "\<forall>v \<in> set (vector (clk c)). 0 \<le> v"
  shows "vc_causally_ready (cur s) (clk c) = Some (ready_after (vector (cur s)) (clk c))"
  by (rule vc_causally_ready_after[OF assms(2,3) binv_cur(1,2)[OF assms(1)]])

lemma binv_first_ready:
  assumes "binv h s ops" "set cs \<subseteq> set ops"
  shows "first_ready (cur s) clk cs = Some (find (\<lambda>c. ready_after (vector (cur s)) (clk c)) cs)"
  using assms(2)
proof (induction cs)
  case (Cons c cs)
  have M: "vc_causal n (clk ` set (h @ ops))" using assms(1) by (simp add: binv_def)
  have c: "clk c \<in> clk ` set (h @ ops)" using Cons.prems by auto
  show ?case using Cons binv_ready[OF assms(1) vc_causalD(1,2)[OF M c]] by simp
qed simp

text \<open>Applying a ready command of the buffer.\<close>

lemma binv_apply:
  assumes b: "binv h s (c # ops)" and r: "ready_after (vector (cur s)) (clk c)"
  shows "\<exists>s'. app c s = Some s' \<and> binv (h @ [c]) s' ops"
proof -
  have v: "vector (cur s) = hist_vec n (map clk h)" and h: "hinv h s"
    and ok: "\<forall>d \<in> set (h @ [c]). ok d" and d: "distinct (map clk (h @ [c]))"
    and M: "vc_causal n (clk ` set (h @ c # ops))" using b by (auto simp: binv_def)
  have ch: "causal_hist n [] (map clk (h @ [c]))" using b r v by (simp add: binv_def causal_hist_append)
  have "vc_causal n (clk ` set (h @ [c]))" by (rule vc_causal_mono[OF M]) auto
  then obtain s' where "app c s = Some s'" "hinv (h @ [c]) s'"
    "vector (cur s') = vjoin (vector (cur s)) (vector (clk c))"
    using app_law[OF h ok d _ ch v] by blast
  moreover have "hist_vec n (map clk (h @ [c])) = vjoin (vector (cur s)) (vector (clk c))" using v by simp
  ultimately show ?thesis using b ch unfolding binv_def append_assoc append_Cons append_Nil by metis
qed

text \<open>The order of the waiting commands is irrelevant for the invariant.\<close>

lemma binv_perm: "binv h s ops \<Longrightarrow> mset ops = mset ops' \<Longrightarrow> binv h s ops'"
  using mset_eq_setD[of ops ops'] mset_eq_imp_distinct_iff[of "map clk ops" "map clk ops'"]
  by (auto simp: binv_def)

lemma drain:
  "binv h s ops \<Longrightarrow> \<exists>h' s' ops'. notify_loop cur clk app s ops = Some (s', ops') \<and> binv h' s' ops' \<and>
    mset h' + mset ops' = mset h + mset ops \<and> (\<forall>c \<in> set ops'. \<not> ready_after (vector (cur s')) (clk c))"
proof (induction "length ops" arbitrary: h s ops rule: less_induct)
  case less
  note f = binv_first_ready[OF less.prems subset_refl]
  show ?case
  proof (cases "find (\<lambda>c. ready_after (vector (cur s)) (clk c)) ops")
    case None
    then have "notify_loop cur clk app s ops = Some (s, ops)" using f by (simp add: notify_loop.simps)
    moreover have "\<forall>c \<in> set ops. \<not> ready_after (vector (cur s)) (clk c)" using None by (simp add: find_None_conv)
    ultimately show ?thesis using less.prems by blast
  next
    case (Some c)
    then have c: "c \<in> set ops" "ready_after (vector (cur s)) (clk c)" by (auto simp: find_Some_iff)
    have m: "mset ops = mset (c # remove1 c ops)" using c(1) by simp
    obtain s' where s': "app c s = Some s'" "binv (h @ [c]) s' (remove1 c ops)"
      using binv_apply[OF binv_perm[OF less.prems m] c(2)] by blast
    have "length (remove1 c ops) < length ops"
      using length_pos_if_in_set[OF c(1)] c(1) by (simp add: length_remove1 del: length_greater_0_conv)
    then obtain h' s'' ops' where r: "notify_loop cur clk app s' (remove1 c ops) = Some (s'', ops')" "binv h' s'' ops'"
      "mset h' + mset ops' = mset (h @ [c]) + mset (remove1 c ops)"
      "\<forall>c \<in> set ops'. \<not> ready_after (vector (cur s'')) (clk c)"
      using less.hyps[OF _ s'(2)] by blast
    have "mset (h @ [c]) + mset (remove1 c ops) = mset h + mset ops" using m by simp
    moreover have "notify_loop cur clk app s ops = Some (s'', ops')"
      using f Some s'(1) r(1) by (simp add: notify_loop.simps[of _ _ _ s ops])
    ultimately show ?thesis using r by auto
  qed
qed

text \<open>Receiving a command of the execution that has not been received before.\<close>

lemma receive:
  assumes b: "binv h s (c # ops)" and stuck: "\<forall>d \<in> set ops. \<not> ready_after (vector (cur s)) (clk d)"
  shows "\<exists>h' s' ops'. causal_receive cur clk app c (s, ops) = Some (s', ops') \<and> binv h' s' ops' \<and>
    mset h' + mset ops' = mset h + mset (c # ops) \<and> (\<forall>d \<in> set ops'. \<not> ready_after (vector (cur s')) (clk d))"
proof -
  have M: "vc_causal n (clk ` set (h @ c # ops))" using b by (simp add: binv_def)
  have "clk c \<in> clk ` set (h @ c # ops)" by simp
  note r = binv_ready[OF b vc_causalD(1,2)[OF M this]]
  show ?thesis
  proof (cases "ready_after (vector (cur s)) (clk c)")
    case True
    obtain s' where s': "app c s = Some s'" "binv (h @ [c]) s' ops" using binv_apply[OF b True] by blast
    from drain[OF s'(2)] show ?thesis using r True s'(1) by (auto simp: causal_receive_def)
  next
    case False
    have "binv h s (ops @ [c])" by (rule binv_perm[OF b]) simp
    then show ?thesis using r False stuck
      by (intro exI[of _ h] exI[of _ s] exI[of _ "ops @ [c]"]) (simp add: causal_receive_def)
  qed
qed

lemma receive_all:
  assumes "binv h s ops" "\<forall>d \<in> set ops. \<not> ready_after (vector (cur s)) (clk d)" "\<forall>c \<in> set cs. ok c"
    "distinct (map clk (h @ ops @ cs))" "vc_causal n (clk ` set (h @ ops @ cs))"
  shows "\<exists>h' s' ops'. run (\<lambda>so c. causal_receive cur clk app c so) (s, ops) cs = Some (s', ops') \<and> binv h' s' ops' \<and>
    mset h' + mset ops' = mset h + mset ops + mset cs \<and>
    (\<forall>d \<in> set ops'. \<not> ready_after (vector (cur s')) (clk d))"
  using assms
proof (induction cs arbitrary: h s ops)
  case Nil
  then show ?case by auto
next
  case (Cons c cs)
  have "vc_causal n (clk ` set (h @ c # ops))" by (rule vc_causal_mono[OF Cons.prems(5)]) auto
  then have b: "binv h s (c # ops)" using Cons.prems by (auto simp: binv_def)
  obtain h1 s1 ops1 where r: "causal_receive cur clk app c (s, ops) = Some (s1, ops1)" "binv h1 s1 ops1"
    "mset h1 + mset ops1 = mset h + mset (c # ops)" "\<forall>d \<in> set ops1. \<not> ready_after (vector (cur s1)) (clk d)"
    using receive[OF b Cons.prems(2)] by blast
  have m: "mset (h1 @ ops1 @ cs) = mset (h @ ops @ c # cs)" using r(3) by (simp add: ac_simps)
  then have "distinct (map clk (h1 @ ops1 @ cs))" "vc_causal n (clk ` set (h1 @ ops1 @ cs))"
    using Cons.prems(4,5) mset_eq_imp_distinct_iff[of "map clk (h1 @ ops1 @ cs)" "map clk (h @ ops @ c # cs)"]
      mset_eq_setD[OF m] by (simp_all only: mset_map)
  then obtain h' s' ops' where r': "run (\<lambda>so c. causal_receive cur clk app c so) (s1, ops1) cs = Some (s', ops')"
    "binv h' s' ops'" "mset h' + mset ops' = mset h1 + mset ops1 + mset cs"
    "\<forall>d \<in> set ops'. \<not> ready_after (vector (cur s')) (clk d)"
    using Cons.IH[OF r(2,4)] Cons.prems(3) by auto
  moreover have "mset h' + mset ops' = mset h + mset ops + mset (c # cs)" using r'(3) r(3) by simp
  ultimately show ?case using r(1) by auto
qed

text \<open>If all predecessors have been received, none of the received commands waits.\<close>

lemma nothing_waits:
  assumes b: "binv h s ops" and stuck: "\<forall>d \<in> set ops. \<not> ready_after (vector (cur s)) (clk d)"
    and closed: "vc_closed n (clk ` set (h @ ops))"
  shows "ops = []"
  by (rule causal_waits[of n clk h "vector (cur s)"]) (use assms in \<open>simp_all add: binv_def\<close>)

end

end
