(* ===== verification/RSet.thy ===== *)
theory RSet
  imports CausalBuffer
begin

text \<open>
  The remove-win set of t_rset.c with causal delivery. The command table binds the names of its
  commands to the handlers of t_rwfset.c, so no client reaches this code.
\<close>

section \<open>Element operations\<close>

record rs_ase =
  rs_addr :: nat
  rs_t :: vc
  rs_value :: int

datatype rs_cmd_type = RSADD | RSREM

record rs_cmd =
  rs_type :: rs_cmd_type
  rs_cvalue :: int
  rs_ct :: vc

record rse =
  rse_current :: vc
  rse_exist :: "nat option"
  rse_aset :: "rs_ase list"
  rse_rset :: "vc list"
  rse_ops :: "rs_cmd list"
  rse_fresh :: nat

definition rseNew :: "rse server \<Rightarrow> rse" where
  "rseNew s = \<lparr>rse_current = server_vc s, rse_exist = None, rse_aset = [], rse_rset = [], rse_ops = [], rse_fresh = 0\<rparr>"

definition rs_cmdNew :: "rs_cmd_type \<Rightarrow> int \<Rightarrow> vc \<Rightarrow> rs_cmd" where
  "rs_cmdNew ty v t = \<lparr>rs_type = ty, rs_cvalue = int32 v, rs_ct = t\<rparr>"

definition rse_deref :: "rse \<Rightarrow> nat \<Rightarrow> rs_ase option" where
  "rse_deref e p = find (\<lambda>a. rs_addr a = p) (rse_aset e)"

definition rs_LOOKUP :: "rse \<Rightarrow> bool" where
  "rs_LOOKUP e \<longleftrightarrow> length (rse_aset e) \<noteq> 0 \<and> length (rse_rset e) = 0"

definition rs_SCORE :: "rse \<Rightarrow> double option" where
  "rs_SCORE e =
     do { p \<leftarrow> rse_exist e; a \<leftarrow> rse_deref e p; Some (double_of_int (rs_value a)) }"

definition rs_below :: "vc \<Rightarrow> rs_ase \<Rightarrow> bool" where
  "rs_below t a \<longleftrightarrow> vc_cmp (rs_t a) t = VC_LESS"

definition rs_delete_below :: "vc \<Rightarrow> rse \<Rightarrow> rse \<times> bool" where
  "rs_delete_below t e =
     (let dead = filter (rs_below t) (rse_aset e)
      in (e\<lparr>rse_aset := filter (\<lambda>a. \<not> rs_below t a) (rse_aset e),
            rse_exist := (case rse_exist e of
                            None \<Rightarrow> None
                          | Some p \<Rightarrow> if list_ex (\<lambda>a. rs_addr a = p) dead then None else Some p)\<rparr>,
          dead \<noteq> []))"

definition exist_id_less :: "rse \<Rightarrow> int \<Rightarrow> bool option" where
  "exist_id_less e i =
     (case rse_exist e of
        None \<Rightarrow> Some True
      | Some p \<Rightarrow> do { x \<leftarrow> rse_deref e p; Some (vc_id (rs_t x) < i) })"

fun rs_pick :: "rs_ase list \<Rightarrow> rse \<Rightarrow> rse option" where
  "rs_pick [] e = Some e"
| "rs_pick (a # as) e =
     do {
       b \<leftarrow> exist_id_less e (vc_id (rs_t a));
       rs_pick as (if b then e\<lparr>rse_exist := Some (rs_addr a)\<rparr> else e)
     }"

definition r_addFunc ::
    "sds \<Rightarrow> sds \<Rightarrow> int \<Rightarrow> vc \<Rightarrow> rse server \<times> rse \<Rightarrow> (rse server \<times> rse) option" where
  "r_addFunc tname key v t se =
     (let (s, e) = se;
          a = \<lparr>rs_addr = rse_fresh e, rs_t = vc_dup t, rs_value = int32 v\<rparr>;
          e1 = e\<lparr>rse_aset := rse_aset e @ [a], rse_fresh := Suc (rse_fresh e)\<rparr>;
          (e2, removed) = rs_delete_below t e1;
          e3 = e2\<lparr>rse_rset := filter (\<lambda>r. vc_cmp r t \<noteq> VC_LESS) (rse_rset e2)\<rparr>
      in do {
        e4 \<leftarrow> (if removed \<and> rse_exist e3 = None then rs_pick (rse_aset e3) e3 else Some e3);
        b \<leftarrow> exist_id_less e4 (vc_id t);
        let e5 = (if b then e4\<lparr>rse_exist := Some (rs_addr a)\<rparr> else e4);
        s1 \<leftarrow> (if rs_LOOKUP e5 then do { score \<leftarrow> rs_SCORE e5; server_zsetAdd s tname key score } else Some s);
        Some (s1\<lparr>dirty := dirty s1 + 1\<rparr>, e5\<lparr>rse_current := vc_update (rse_current e5) t\<rparr>)
      })"

definition r_removeFunc ::
    "sds \<Rightarrow> sds \<Rightarrow> vc \<Rightarrow> rse server \<times> rse \<Rightarrow> (rse server \<times> rse) option" where
  "r_removeFunc tname key t se =
     (let (s, e) = se;
          e1 = e\<lparr>rse_rset := rse_rset e @ [vc_dup t]\<rparr>;
          e2 = fst (rs_delete_below t e1)
      in do {
        e3 \<leftarrow> (if rse_exist e2 = None then rs_pick (rse_aset e2) e2 else Some e2);
        s1 \<leftarrow> (if \<not> rs_LOOKUP e3 then server_zsetDel s tname key else Some s);
        Some (s1\<lparr>dirty := dirty s1 + 1\<rparr>, e3\<lparr>rse_current := vc_update (rse_current e3) t\<rparr>)
      })"

definition rs_apply :: "sds \<Rightarrow> sds \<Rightarrow> rs_cmd \<Rightarrow> rse server \<times> rse \<Rightarrow> (rse server \<times> rse) option" where
  "rs_apply tname key cmd se =
     (case rs_type cmd of
        RSADD \<Rightarrow> r_addFunc tname key (rs_cvalue cmd) (rs_ct cmd) se
      | RSREM \<Rightarrow> r_removeFunc tname key (rs_ct cmd) se)"

definition r_notifyLoop ::
    "sds \<Rightarrow> sds \<Rightarrow> rse server \<times> rse \<Rightarrow> rs_cmd list \<Rightarrow> ((rse server \<times> rse) \<times> rs_cmd list) option" where
  "r_notifyLoop tname key = notify_loop (rse_current \<circ> snd) rs_ct (rs_apply tname key)"

section \<open>Commands\<close>

abbreviation (input) RW_SET_TABLE_SUFFIX :: sds where
  "RW_SET_TABLE_SUFFIX \<equiv> ''_rsets_''"

definition GET_RSE :: "rse server \<Rightarrow> sds \<Rightarrow> sds \<Rightarrow> bool \<Rightarrow> (rse server \<times> rse option) option" where
  "GET_RSE s key ele create = rehHTGet s key RW_SET_TABLE_SUFFIX ele create (rseNew s)"

definition PUT_RSE :: "rse server \<Rightarrow> sds \<Rightarrow> sds \<Rightarrow> rse \<Rightarrow> rse server option" where
  "PUT_RSE s key ele e = rehHTPut s key RW_SET_TABLE_SUFFIX ele e"

text \<open>The common end of both effect phases.\<close>

definition rs_receive :: "rse server \<Rightarrow> sds \<Rightarrow> sds \<Rightarrow> rs_cmd \<Rightarrow> rse server option" where
  "rs_receive s key ele cmd =
     do {
       (s1, eo) \<leftarrow> GET_RSE s key ele True;
       e \<leftarrow> eo;
       ready \<leftarrow> vc_causally_ready (rse_current e) (rs_ct cmd);
       if ready
       then do {
         se \<leftarrow> rs_apply key ele cmd (s1, e);
         ((s2, e2), ops) \<leftarrow> r_notifyLoop key ele se (rse_ops e);
         PUT_RSE s2 key ele (e2\<lparr>rse_ops := ops\<rparr>)
       }
       else PUT_RSE s1 key ele (e\<lparr>rse_ops := rse_ops e @ [cmd]\<rparr>)
     }"

definition rsadd_prepare :: "rse prepare" where
  "rsadd_prepare s args =
     (if \<not> CHECK_ARGC args 3 then Some (s, Inl ReplySyntaxerr)
      else do {
        key \<leftarrow> arg args 1;
        if \<not> CHECK_CONTAINER_TYPE s key OBJ_ZSET then Some (s, Inl ReplyWrongtypeerr)
        else do {
          ele \<leftarrow> arg args 2;
          (s1, eo) \<leftarrow> GET_RSE s key ele True;
          e \<leftarrow> eo;
          if rs_LOOKUP e then Some (s1, Inl ReplyEleExist)
          else do { t \<leftarrow> vc_now (rse_current e); Some (s1, Inr [t]) }
        }
      })"

text \<open>The effect phase reads the clock from \<open>rargv[4]\<close>, but the message has only four arguments.\<close>

definition rsadd_effect :: "rse effect" where
  "rsadd_effect s ra =
     do {
       ele \<leftarrow> arg ra 2;
       v \<leftarrow> getLongLongFromObject ele;
       tx \<leftarrow> arg ra 4;
       t \<leftarrow> sdsToVC tx;
       key \<leftarrow> arg ra 1;
       rs_receive s key ele (rs_cmdNew RSADD v t)
     }"

definition rsaddCommand :: "rse command" where
  "rsaddCommand = crdt_command rsadd_prepare rsadd_effect"

definition rsrem_prepare :: "rse prepare" where
  "rsrem_prepare s args =
     (if \<not> CHECK_ARGC args 3 then Some (s, Inl ReplySyntaxerr)
      else do {
        key \<leftarrow> arg args 1;
        if \<not> CHECK_CONTAINER_TYPE s key OBJ_ZSET then Some (s, Inl ReplyWrongtypeerr)
        else do {
          ele \<leftarrow> arg args 2;
          (s1, eo) \<leftarrow> GET_RSE s key ele False;
          case eo of
            None \<Rightarrow> Some (s1, Inl ReplyEleNexist)
          | Some e \<Rightarrow>
              (if \<not> rs_LOOKUP e then Some (s1, Inl ReplyEleNexist)
               else do { t \<leftarrow> vc_now (rse_current e); Some (s1, Inr [t]) })
        }
      })"

definition rsrem_effect :: "rse effect" where
  "rsrem_effect s ra =
     do {
       tx \<leftarrow> arg ra 3;
       t \<leftarrow> sdsToVC tx;
       key \<leftarrow> arg ra 1;
       ele \<leftarrow> arg ra 2;
       rs_receive s key ele (rs_cmdNew RSREM 0 t)
     }"

definition rsremCommand :: "rse command" where
  "rsremCommand = crdt_command rsrem_prepare rsrem_effect"

definition rscontainsCommand :: "rse command" where
  "rscontainsCommand = zset_containsCommand"

definition rssizeCommand :: "rse command" where
  "rssizeCommand = zset_sizeCommand"

section \<open>The add command reads outside its arguments\<close>

text \<open>
  Adding to this set faults: whenever the prepare phase of \<open>rsadd\<close> accepts a user's command, the
  effect phase reads \<open>rargv[4]\<close>, behind the last of its four arguments.
\<close>

theorem rsadd_out_of_bounds:
  assumes "REPLICATION_MODE s" "rsadd_prepare s args = Some (s1, Inr extra)"
  shows "call rsaddCommand s (user_client args) = None"
proof -
  have l: "length args \<le> 3" using assms(2)
    by (auto simp: rsadd_prepare_def CHECK_ARGC_def split: if_splits)
  have "length extra = 1" using assms(2)
    by (auto simp: rsadd_prepare_def Option.bind_eq_Some_conv split: if_splits)
  then have "arg (args @ extra) 4 = None" using l by (simp add: arg_def)
  then have "rsadd_effect s1 (args @ extra) = None"
    by (auto simp: rsadd_effect_def split: bind_splits)
  then show ?thesis using assms rargv_built[of args _ extra]
    by (auto simp: rsaddCommand_def call_def crdt_command_def user_client_def split: bind_splits)
qed

lemma sample_rs_prepare:
  "\<exists>s1 t. rsadd_prepare (started_server 2 0) [''rsadd'', ''k'', ''5''] = Some (s1, Inr [t])"
  by (simp add: rsadd_prepare_def CHECK_ARGC_def arg_def CHECK_CONTAINER_TYPE_def lookupKey_def started_server_def
      GET_RSE_def rehHTGet_def getInnerHT_def dbAdd_def rseNew_def server_vc_def vc_new_def vc_now_def vc_incr_at_def
      rs_LOOKUP_def vcToSds_def vc_size_def)

theorem rsadd_out_of_bounds_witness:
  "\<exists>s1 t. rsadd_prepare (started_server 2 0) [''rsadd'', ''k'', ''5''] = Some (s1, Inr [t]) \<and>
    call rsaddCommand (started_server 2 0) (user_client [''rsadd'', ''k'', ''5'']) = None"
proof -
  obtain s1 t where p: "rsadd_prepare (started_server 2 0) [''rsadd'', ''k'', ''5''] = Some (s1, Inr [t])"
    using sample_rs_prepare by blast
  have "REPLICATION_MODE (started_server 2 0 :: rse server)" by (simp add: REPLICATION_MODE_def started_server_def)
  from rsadd_out_of_bounds[OF this p] p show ?thesis by blast
qed

end
