(* ===== verification/OSet.thy ===== *)
theory OSet
  imports Server Delivery
begin

text \<open>
  The observed-remove set of t_oset.c. Every element carries the set of add tags it has
  received and not seen removed (\<open>aset\<close>), the set of removed tags (\<open>rset\<close>) and a pointer
  \<open>exist\<close> to the entry of greatest tag; the sorted set under the key holds the elements
  with a nonempty \<open>aset\<close>. List entries have addresses so that the pointer is explicit.
\<close>

section \<open>Element operations\<close>

record os_ase =
  oa_addr :: nat
  oa_t :: lc
  oa_value :: "int option"

record ose =
  ose_current :: int
  ose_exist :: "nat option"
  ose_aset :: "os_ase list"
  ose_rset :: "lc list"
  ose_fresh :: nat

definition oseNew :: ose where
  "oseNew = \<lparr>ose_current = 0, ose_exist = None, ose_aset = [], ose_rset = [], ose_fresh = 0\<rparr>"

definition ose_deref :: "ose \<Rightarrow> nat \<Rightarrow> os_ase option" where
  "ose_deref e p = find (\<lambda>a. oa_addr a = p) (ose_aset e)"

definition os_LOOKUP :: "ose \<Rightarrow> bool" where
  "os_LOOKUP e \<longleftrightarrow> length (ose_aset e) \<noteq> 0"

definition os_SCORE :: "ose \<Rightarrow> double option" where
  "os_SCORE e =
     do { p \<leftarrow> ose_exist e; a \<leftarrow> ose_deref e p; v \<leftarrow> oa_value a; Some (double_of_int v) }"

definition o_asetGet :: "ose \<Rightarrow> lc \<Rightarrow> bool \<Rightarrow> ose \<times> os_ase option" where
  "o_asetGet e t delete =
     (case find (\<lambda>a. lc_cmp_as_tag t (oa_t a) = 0) (ose_aset e) of
        None \<Rightarrow> (e, None)
      | Some a \<Rightarrow> (if delete then e\<lparr>ose_aset := remove1 a (ose_aset e)\<rparr> else e, Some a))"

definition o_rsetGet :: "ose \<Rightarrow> lc \<Rightarrow> bool \<Rightarrow> ose \<times> lc option" where
  "o_rsetGet e t delete =
     (case find (\<lambda>a. lc_cmp_as_tag t a = 0) (ose_rset e) of
        None \<Rightarrow> (e, None)
      | Some a \<Rightarrow> (if delete then e\<lparr>ose_rset := remove1 a (ose_rset e)\<rparr> else e, Some a))"

definition o_add_ase :: "ose \<Rightarrow> lc \<Rightarrow> ose \<times> os_ase" where
  "o_add_ase e t =
     (let a = \<lparr>oa_addr = ose_fresh e, oa_t = lc_dup t, oa_value = None\<rparr>
      in (e\<lparr>ose_aset := ose_aset e @ [a], ose_fresh := Suc (ose_fresh e)\<rparr>, a))"

text \<open>The assignment \<open>a->value = v\<close> through a pointer into \<open>aset\<close>.\<close>

definition ose_set_value :: "ose \<Rightarrow> nat \<Rightarrow> int \<Rightarrow> ose" where
  "ose_set_value e p v =
     e\<lparr>ose_aset := map (\<lambda>a. if oa_addr a = p then a\<lparr>oa_value := Some v\<rparr> else a) (ose_aset e)\<rparr>"

text \<open>\<open>e->exist == NULL || lc_cmp_as_tag(e->exist->t, a->t) < 0\<close>\<close>

definition exist_less :: "ose \<Rightarrow> os_ase \<Rightarrow> bool option" where
  "exist_less e a =
     (case ose_exist e of
        None \<Rightarrow> Some True
      | Some p \<Rightarrow> do { x \<leftarrow> ose_deref e p; Some (lc_cmp_as_tag (oa_t x) (oa_t a) < 0) })"

definition update_exist :: "ose \<Rightarrow> lc \<Rightarrow> int \<Rightarrow> (ose \<times> bool) option" where
  "update_exist e t v =
     (if snd (o_rsetGet e t False) \<noteq> None then Some (e, False)
      else let (e1, a) = (case snd (o_asetGet e t False) of
                            Some a \<Rightarrow> (e, a)
                          | None \<Rightarrow> o_add_ase e t);
               e2 = ose_set_value e1 (oa_addr a) (int32 v)
           in do {
             b \<leftarrow> exist_less e2 a;
             if b then Some (e2\<lparr>ose_exist := Some (oa_addr a)\<rparr>, True) else Some (e2, False)
           })"

definition set_remove_tag :: "ose \<Rightarrow> lc \<Rightarrow> ose" where
  "set_remove_tag e t =
     (if snd (o_rsetGet e t False) \<noteq> None then e
      else let e1 = e\<lparr>ose_rset := ose_rset e @ [lc_dup t]\<rparr>
           in case o_asetGet e1 t True of
                (e2, Some a) \<Rightarrow>
                  (if ose_exist e2 = Some (oa_addr a) then e2\<lparr>ose_exist := None\<rparr> else e2)
              | (e2, None) \<Rightarrow> e2)"

fun set_resort_loop :: "os_ase list \<Rightarrow> ose \<Rightarrow> ose option" where
  "set_resort_loop [] e = Some e"
| "set_resort_loop (a # as) e =
     do {
       b \<leftarrow> exist_less e a;
       set_resort_loop as (if b then e\<lparr>ose_exist := Some (oa_addr a)\<rparr> else e)
     }"

definition set_resort :: "ose \<Rightarrow> ose option" where
  "set_resort e = (if ose_exist e \<noteq> None then Some e else set_resort_loop (ose_aset e) e)"

section \<open>Commands\<close>

abbreviation (input) ORI_SET_TABLE_SUFFIX :: sds where
  "ORI_SET_TABLE_SUFFIX \<equiv> ''_osets_''"

definition GET_OSE :: "ose server \<Rightarrow> sds \<Rightarrow> sds \<Rightarrow> bool \<Rightarrow> (ose server \<times> ose option) option" where
  "GET_OSE s key ele create = rehHTGet s key ORI_SET_TABLE_SUFFIX ele create oseNew"

definition PUT_OSE :: "ose server \<Rightarrow> sds \<Rightarrow> sds \<Rightarrow> ose \<Rightarrow> ose server option" where
  "PUT_OSE s key ele e = rehHTPut s key ORI_SET_TABLE_SUFFIX ele e"

definition osadd_prepare :: "ose prepare" where
  "osadd_prepare s args =
     (if \<not> CHECK_ARGC args 3 then Some (s, Inl ReplySyntaxerr)
      else do {
        key \<leftarrow> arg args 1;
        if \<not> CHECK_CONTAINER_TYPE s key OBJ_ZSET then Some (s, Inl ReplyWrongtypeerr)
        else do {
          ele \<leftarrow> arg args 2;
          (s1, eo) \<leftarrow> GET_OSE s key ele True;
          e \<leftarrow> eo;
          if os_LOOKUP e then Some (s1, Inl ReplyEleExist)
          else do {
            let t = lc_new (ose_current e) (p2p_id s1);
            s2 \<leftarrow> PUT_OSE s1 key ele (e\<lparr>ose_current := int32 (ose_current e + 1)\<rparr>);
            Some (s2, Inr [lcToSds t])
          }
        }
      })"

text \<open>
  A non-integer element leaves \<open>v\<close> uninitialised, and then its use in \<open>update_exist\<close> is a
  fault.
\<close>

definition osadd_effect :: "ose effect" where
  "osadd_effect s ra =
     do {
       key \<leftarrow> arg ra 1;
       ele \<leftarrow> arg ra 2;
       tag \<leftarrow> arg ra 3;
       v \<leftarrow> getLongLongFromObject ele;
       t \<leftarrow> sdsToLc tag;
       (s1, eo) \<leftarrow> GET_OSE s key ele True;
       e \<leftarrow> eo;
       (e', changed) \<leftarrow> update_exist e t v;
       s2 \<leftarrow> PUT_OSE s1 key ele e';
       s3 \<leftarrow> (if changed then do { score \<leftarrow> os_SCORE e'; server_zsetAdd s2 key ele score } else Some s2);
       Some (s3\<lparr>dirty := dirty s3 + 1\<rparr>)
     }"

definition osaddCommand :: "ose command" where
  "osaddCommand = crdt_command osadd_prepare osadd_effect"

definition osrem_prepare :: "ose prepare" where
  "osrem_prepare s args =
     (if \<not> CHECK_ARGC args 3 then Some (s, Inl ReplySyntaxerr)
      else do {
        key \<leftarrow> arg args 1;
        if \<not> CHECK_CONTAINER_TYPE s key OBJ_ZSET then Some (s, Inl ReplyWrongtypeerr)
        else do {
          ele \<leftarrow> arg args 2;
          (s1, eo) \<leftarrow> GET_OSE s key ele False;
          case eo of
            None \<Rightarrow> Some (s1, Inl ReplyEleNexist)
          | Some e \<Rightarrow>
              (if \<not> os_LOOKUP e then Some (s1, Inl ReplyEleNexist)
               else Some (s1, Inr (map (\<lambda>a. lcToSds (oa_t a)) (ose_aset e))))
        }
      })"

fun os_remove_tags :: "sds list \<Rightarrow> ose \<Rightarrow> ose option" where
  "os_remove_tags [] e = Some e"
| "os_remove_tags (x # xs) e = do { t \<leftarrow> sdsToLc x; os_remove_tags xs (set_remove_tag e t) }"

definition osrem_effect :: "ose effect" where
  "osrem_effect s ra =
     do {
       key \<leftarrow> arg ra 1;
       ele \<leftarrow> arg ra 2;
       (s1, eo) \<leftarrow> GET_OSE s key ele True;
       e \<leftarrow> eo;
       e1 \<leftarrow> os_remove_tags (drop 3 ra) e;
       if ose_exist e1 = None
       then do {
         e2 \<leftarrow> set_resort e1;
         s2 \<leftarrow> PUT_OSE s1 key ele e2;
         s3 \<leftarrow> (if os_LOOKUP e2 then do { score \<leftarrow> os_SCORE e2; server_zsetAdd s2 key ele score }
                else server_zsetDel s2 key ele);
         Some (s3\<lparr>dirty := dirty s3 + 1\<rparr>)
       }
       else do {
         s2 \<leftarrow> PUT_OSE s1 key ele e1;
         Some (s2\<lparr>dirty := dirty s2 + 1\<rparr>)
       }
     }"

definition osremCommand :: "ose command" where
  "osremCommand = crdt_command osrem_prepare osrem_effect"

definition oscontainsCommand :: "ose command" where
  "oscontainsCommand = zset_containsCommand"

definition ossizeCommand :: "ose command" where
  "ossizeCommand = zset_sizeCommand"

section \<open>Element invariant\<close>

definition os_tags :: "ose \<Rightarrow> lc set" where
  "os_tags e = oa_t ` set (ose_aset e)"

definition os_removed :: "ose \<Rightarrow> lc set" where
  "os_removed e = set (ose_rset e)"

text \<open>
  Between the removal of the tags of a message and \<open>set_resort\<close>, \<open>exist\<close> may be NULL although
  there are tags left; \<open>vo\<close> is the value of the element, which all entries share.
\<close>

definition ose_winv :: "int option \<Rightarrow> ose \<Rightarrow> bool" where
  "ose_winv vo e \<longleftrightarrow>
     distinct (map oa_addr (ose_aset e)) \<and> distinct (map oa_t (ose_aset e)) \<and>
     (\<forall>a \<in> set (ose_aset e). oa_addr a < ose_fresh e \<and> lc_nonneg (oa_t a) \<and>
        oa_value a = vo \<and> vo \<noteq> None) \<and>
     (\<forall>t \<in> set (ose_rset e). lc_nonneg t) \<and>
     os_tags e \<inter> os_removed e = {} \<and>
     (\<forall>p. ose_exist e = Some p \<longrightarrow>
        (\<exists>a \<in> set (ose_aset e). oa_addr a = p \<and>
           (\<forall>b \<in> set (ose_aset e). tag_key (oa_t b) \<le> tag_key (oa_t a))))"

definition ose_inv :: "int option \<Rightarrow> ose \<Rightarrow> bool" where
  "ose_inv vo e \<longleftrightarrow> ose_winv vo e \<and> (ose_aset e \<noteq> [] \<longrightarrow> ose_exist e \<noteq> None)"

lemma oseNew_inv: "ose_inv vo oseNew"
  by (simp add: ose_inv_def ose_winv_def oseNew_def os_tags_def)

lemma o_rsetGet_spec:
  assumes "ose_winv vo e" "lc_nonneg t"
  shows "snd (o_rsetGet e t False) = None \<longleftrightarrow> t \<notin> os_removed e"
proof -
  have "find (\<lambda>a. lc_cmp_as_tag t a = 0) (ose_rset e) = find (\<lambda>a. t = a) (ose_rset e)"
    using assms by (intro find_cong_set) (auto simp: ose_winv_def lc_cmp_as_tag_eq)
  then show ?thesis
    by (auto simp: o_rsetGet_def os_removed_def find_None_conv dest: find_Some_iff_first split: option.split)
qed

lemma o_aset_find:
  assumes "ose_winv vo e" "lc_nonneg t"
  shows "find (\<lambda>a. lc_cmp_as_tag t (oa_t a) = 0) (ose_aset e) = find (\<lambda>a. oa_t a = t) (ose_aset e)"
  using assms by (intro find_cong_set) (auto simp: ose_winv_def lc_cmp_as_tag_eq)

lemma ose_deref_mem:
  "distinct (map oa_addr (ose_aset e)) \<Longrightarrow> a \<in> set (ose_aset e) \<Longrightarrow> ose_deref e (oa_addr a) = Some a"
  unfolding ose_deref_def by (rule find_unique)

lemma ose_winv_distinct: "ose_winv vo e \<Longrightarrow> distinct (map oa_addr (ose_aset e))"
  by (simp add: ose_winv_def)

lemma exist_less_Some:
  assumes "distinct (map oa_addr (ose_aset e))" "lc_nonneg (oa_t a)" "x \<in> set (ose_aset e)"
    "lc_nonneg (oa_t x)" "ose_exist e = Some (oa_addr x)"
  shows "exist_less e a = Some (tag_key (oa_t x) < tag_key (oa_t a))"
  using assms ose_deref_mem[OF assms(1,3)] by (simp add: exist_less_def lc_cmp_as_tag_less)

lemma exist_less_None: "ose_exist e = None \<Longrightarrow> exist_less e a = Some True"
  by (simp add: exist_less_def)

lemma os_SCORE_spec:
  assumes "ose_winv vo e" "ose_exist e \<noteq> None"
  shows "os_SCORE e = map_option double_of_int vo \<and> vo \<noteq> None"
proof -
  from assms obtain a where a: "a \<in> set (ose_aset e)" "ose_exist e = Some (oa_addr a)"
    by (auto simp: ose_winv_def)
  moreover have "ose_deref e (oa_addr a) = Some a"
    by (rule ose_deref_mem[OF ose_winv_distinct[OF assms(1)] a(1)])
  moreover have "oa_value a = vo" "vo \<noteq> None" using assms(1) a(1) by (auto simp: ose_winv_def)
  ultimately show ?thesis by (auto simp: os_SCORE_def)
qed

section \<open>The element operations maintain the tag sets\<close>

lemma ose_set_value_proj:
  "map oa_addr (ose_aset (ose_set_value e p v)) = map oa_addr (ose_aset e)"
  "map oa_t (ose_aset (ose_set_value e p v)) = map oa_t (ose_aset e)"
  "ose_exist (ose_set_value e p v) = ose_exist e" "ose_rset (ose_set_value e p v) = ose_rset e"
  "ose_fresh (ose_set_value e p v) = ose_fresh e" "ose_current (ose_set_value e p v) = ose_current e"
  by (simp_all add: ose_set_value_def)

lemma ose_set_value_same:
  assumes "ose_winv (Some v) e"
  shows "ose_set_value e p v = e"
proof -
  have "map (\<lambda>a. if oa_addr a = p then a\<lparr>oa_value := Some v\<rparr> else a) (ose_aset e) = ose_aset e"
    using assms by (intro map_idI) (auto simp: ose_winv_def)
  then show ?thesis by (simp add: ose_set_value_def)
qed

text \<open>An entry for a new tag: appended, with its value set.\<close>

lemma o_add_ase_set:
  assumes "ose_winv (Some v) e" "lc_nonneg t" "t \<notin> os_tags e" "t \<notin> os_removed e"
  defines "a \<equiv> \<lparr>oa_addr = ose_fresh e, oa_t = t, oa_value = Some v\<rparr>"
  defines "e' \<equiv> e\<lparr>ose_aset := ose_aset e @ [a], ose_fresh := Suc (ose_fresh e)\<rparr>"
  shows "ose_set_value (fst (o_add_ase e t)) (ose_fresh e) v = e'"
    and "\<forall>p x. ose_exist e' = Some p \<longrightarrow> x \<in> set (ose_aset e) \<longrightarrow> oa_addr x = p \<longrightarrow>
        tag_key t \<le> tag_key (oa_t x) \<longrightarrow> ose_winv (Some v) e'"
    and "ose_winv (Some v) (e'\<lparr>ose_exist := None\<rparr>)"
    and "\<forall>x \<in> set (ose_aset e). tag_key (oa_t x) < tag_key t \<Longrightarrow> ose_winv (Some v) (e'\<lparr>ose_exist := Some (oa_addr a)\<rparr>)"
proof -
  have "map (\<lambda>a. if oa_addr a = ose_fresh e then a\<lparr>oa_value := Some v\<rparr> else a) (ose_aset e) = ose_aset e"
    using assms by (intro map_idI) (auto simp: ose_winv_def)
  then show "ose_set_value (fst (o_add_ase e t)) (ose_fresh e) v = e'"
    by (simp add: ose_set_value_def o_add_ase_def Let_def e'_def a_def)
  have w: "distinct (map oa_addr (ose_aset e))" "distinct (map oa_t (ose_aset e))"
    "\<forall>a \<in> set (ose_aset e). oa_addr a < ose_fresh e \<and> lc_nonneg (oa_t a) \<and> oa_value a = Some v"
    "\<forall>t \<in> set (ose_rset e). lc_nonneg t" "os_tags e \<inter> os_removed e = {}"
    using assms(1) by (auto simp: ose_winv_def)
  then have base: "distinct (map oa_addr (ose_aset e'))" "distinct (map oa_t (ose_aset e'))"
    "\<forall>a \<in> set (ose_aset e'). oa_addr a < ose_fresh e' \<and> lc_nonneg (oa_t a) \<and> oa_value a = Some v"
    "\<forall>t \<in> set (ose_rset e'). lc_nonneg t" "os_tags e' \<inter> os_removed e' = {}"
    using assms(2-4) by (auto simp: e'_def a_def os_tags_def os_removed_def less_Suc_eq)
  show "ose_winv (Some v) (e'\<lparr>ose_exist := None\<rparr>)"
    using base by (simp add: ose_winv_def os_tags_def os_removed_def)
  show "ose_winv (Some v) (e'\<lparr>ose_exist := Some (oa_addr a)\<rparr>)"
    if "\<forall>x \<in> set (ose_aset e). tag_key (oa_t x) < tag_key t"
    using base that by (auto simp: ose_winv_def os_tags_def os_removed_def e'_def a_def)
  show "\<forall>p x. ose_exist e' = Some p \<longrightarrow> x \<in> set (ose_aset e) \<longrightarrow> oa_addr x = p \<longrightarrow>
        tag_key t \<le> tag_key (oa_t x) \<longrightarrow> ose_winv (Some v) e'"
  proof (intro allI impI)
    fix p x
    assume x: "ose_exist e' = Some p" "x \<in> set (ose_aset e)" "oa_addr x = p"
      "tag_key t \<le> tag_key (oa_t x)"
    from x(1) assms(1) obtain y where y: "y \<in> set (ose_aset e)" "oa_addr y = p"
      "\<forall>b \<in> set (ose_aset e). tag_key (oa_t b) \<le> tag_key (oa_t y)"
      by (auto simp: ose_winv_def e'_def)
    have "y = x" using w(1) x y by (metis ose_deref_mem option.inject)
    with base x y show "ose_winv (Some v) e'" by (auto simp: ose_winv_def e'_def a_def)
  qed
qed

lemma ose_winv_exist:
  assumes "ose_winv vo e" "ose_exist e = Some p"
  obtains x where "x \<in> set (ose_aset e)" "p = oa_addr x"
    "\<forall>b \<in> set (ose_aset e). tag_key (oa_t b) \<le> tag_key (oa_t x)" "lc_nonneg (oa_t x)"
  using assms by (auto simp: ose_winv_def)

lemma update_exist_present:
  assumes inv: "ose_inv (Some (int32 v)) e" and t: "lc_nonneg t" "t \<notin> os_removed e" "t \<in> os_tags e"
  shows "update_exist e t v = Some (e, False)"
proof -
  have w: "ose_winv (Some (int32 v)) e" using inv by (simp add: ose_inv_def)
  obtain a where a: "a \<in> set (ose_aset e)" "oa_t a = t" using t(3) by (auto simp: os_tags_def)
  have f: "find (\<lambda>a. oa_t a = t) (ose_aset e) = Some a"
    using find_unique[of oa_t "ose_aset e" a] w a by (simp add: ose_winv_def)
  obtain p where p: "ose_exist e = Some p" using inv a(1) by (cases "ose_exist e") (auto simp: ose_inv_def)
  obtain x where x: "x \<in> set (ose_aset e)" "p = oa_addr x"
    "\<forall>b \<in> set (ose_aset e). tag_key (oa_t b) \<le> tag_key (oa_t x)" "lc_nonneg (oa_t x)"
    using ose_winv_exist[OF w p] .
  have "exist_less e a = Some False"
    using exist_less_Some[of e a x] ose_winv_distinct[OF w] x p a t(1) by (auto simp: not_less)
  then show ?thesis
    using o_rsetGet_spec[OF w t(1)] t(2) f o_aset_find[OF w t(1)] ose_set_value_same[OF w]
    by (simp add: update_exist_def o_asetGet_def)
qed

lemma update_exist_new:
  assumes inv: "ose_inv (Some (int32 v)) e" and t: "lc_nonneg t" "t \<notin> os_removed e" "t \<notin> os_tags e"
  shows "\<exists>e' b. update_exist e t v = Some (e', b) \<and> ose_inv (Some (int32 v)) e' \<and>
    os_tags e' = insert t (os_tags e) \<and> os_removed e' = os_removed e \<and>
    ose_current e' = ose_current e \<and> (\<not> b \<longrightarrow> ose_aset e \<noteq> [])"
proof -
  have w: "ose_winv (Some (int32 v)) e" using inv by (simp add: ose_inv_def)
  define a where "a = \<lparr>oa_addr = ose_fresh e, oa_t = t, oa_value = Some (int32 v)\<rparr>"
  define e1 where "e1 = e\<lparr>ose_aset := ose_aset e @ [a], ose_fresh := Suc (ose_fresh e)\<rparr>"
  note add = o_add_ase_set[OF w t(1) t(3) t(2), folded a_def, folded e1_def]
  let ?a0 = "snd (o_add_ase e t)"
  have f: "snd (o_asetGet e t False) = None"
    using o_aset_find[OF w t(1)] t(3) find_None_conv[of "\<lambda>a. oa_t a = t" "ose_aset e"]
    by (auto simp: o_asetGet_def os_tags_def)
  have u: "update_exist e t v = do {
      b \<leftarrow> exist_less e1 ?a0;
      if b then Some (e1\<lparr>ose_exist := Some (ose_fresh e)\<rparr>, True) else Some (e1, False) }"
    using f o_rsetGet_spec[OF w t(1)] t(2) add(1)
    by (simp add: update_exist_def o_add_ase_def Let_def cong del: if_weak_cong)
  have tg: "os_tags e1 = insert t (os_tags e)" "os_removed e1 = os_removed e"
    by (simp_all add: e1_def a_def os_tags_def os_removed_def)
  have a0: "oa_t ?a0 = t" by (simp add: o_add_ase_def Let_def)
  show ?thesis
  proof (cases "ose_exist e")
    case None
    with inv have "ose_aset e = []" by (auto simp: ose_inv_def)
    then have "ose_inv (Some (int32 v)) (e1\<lparr>ose_exist := Some (ose_fresh e)\<rparr>)"
      using add(4) by (simp add: ose_inv_def a_def)
    then show ?thesis using u None tg exist_less_None[of e1 ?a0]
      by (auto simp: e1_def os_tags_def os_removed_def)
  next
    case (Some p)
    obtain x where x: "x \<in> set (ose_aset e)" "p = oa_addr x"
      "\<forall>b \<in> set (ose_aset e). tag_key (oa_t b) \<le> tag_key (oa_t x)" "lc_nonneg (oa_t x)"
      using ose_winv_exist[OF w Some] .
    have "distinct (map oa_addr (ose_aset e1))" using add(3) by (simp add: ose_winv_def)
    then have l: "exist_less e1 ?a0 = Some (tag_key (oa_t x) < tag_key t)"
      using exist_less_Some[of e1 ?a0 x] x a0 t(1) Some by (simp add: e1_def)
    show ?thesis
    proof (cases "tag_key (oa_t x) < tag_key t")
      case True
      then have "\<forall>b \<in> set (ose_aset e). tag_key (oa_t b) < tag_key t" using x(3) by (meson le_less_trans)
      then have "ose_inv (Some (int32 v)) (e1\<lparr>ose_exist := Some (ose_fresh e)\<rparr>)"
        using add(4) by (simp add: ose_inv_def a_def)
      then show ?thesis using u l True tg by (auto simp: e1_def os_tags_def os_removed_def)
    next
      case False
      have e1: "ose_exist e1 = Some p" using Some by (simp add: e1_def)
      have "ose_winv (Some (int32 v)) e1"
        using add(2)[rule_format, OF e1 x(1) x(2)[symmetric]] False by simp
      then have "ose_inv (Some (int32 v)) e1" using e1 by (simp add: ose_inv_def)
      moreover have "update_exist e t v = Some (e1, False)" using u l False by simp
      moreover have "ose_current e1 = ose_current e" "ose_aset e \<noteq> []" using x(1) by (auto simp: e1_def)
      ultimately show ?thesis using tg by blast
    qed
  qed
qed

lemma update_exist_spec:
  assumes "ose_inv (Some (int32 v)) e" "lc_nonneg t"
  shows "\<exists>e' b. update_exist e t v = Some (e', b) \<and> ose_inv (Some (int32 v)) e' \<and>
    os_tags e' = (if t \<in> os_removed e then os_tags e else insert t (os_tags e)) \<and>
    os_removed e' = os_removed e \<and> ose_current e' = ose_current e \<and>
    (b \<longrightarrow> t \<notin> os_removed e) \<and> (\<not> b \<longrightarrow> t \<in> os_removed e \<or> ose_aset e \<noteq> [])"
proof (cases "t \<in> os_removed e")
  case True
  then have "update_exist e t v = Some (e, False)"
    using o_rsetGet_spec[of "Some (int32 v)" e t] assms by (simp add: update_exist_def ose_inv_def)
  with True assms show ?thesis by auto
next
  case f: False
  show ?thesis
  proof (cases "t \<in> os_tags e")
    case True
    then have "ose_aset e \<noteq> []" by (auto simp: os_tags_def)
    with f True assms update_exist_present[OF assms f True] show ?thesis by auto
  next
    case False
    with f show ?thesis using update_exist_new[OF assms f False] by auto
  qed
qed

lemma set_remove_tag_spec:
  assumes w: "ose_winv vo e" and t: "lc_nonneg t"
  shows "ose_winv vo (set_remove_tag e t) \<and> os_tags (set_remove_tag e t) = os_tags e - {t} \<and>
    os_removed (set_remove_tag e t) = insert t (os_removed e) \<and>
    ose_current (set_remove_tag e t) = ose_current e"
proof (cases "t \<in> os_removed e")
  case True
  then have "set_remove_tag e t = e" "t \<notin> os_tags e"
    using o_rsetGet_spec[OF w t] w by (auto simp: set_remove_tag_def ose_winv_def)
  with True w show ?thesis by auto
next
  case False
  define e1 where "e1 = e\<lparr>ose_rset := ose_rset e @ [t]\<rparr>"
  have r: "set_remove_tag e t = (case o_asetGet e1 t True of
      (e2, Some a) \<Rightarrow> if ose_exist e2 = Some (oa_addr a) then e2\<lparr>ose_exist := None\<rparr> else e2
    | (e2, None) \<Rightarrow> e2)"
    using False o_rsetGet_spec[OF w t] by (simp add: set_remove_tag_def e1_def)
  have f: "find (\<lambda>a. lc_cmp_as_tag t (oa_t a) = 0) (ose_aset e1) = find (\<lambda>a. oa_t a = t) (ose_aset e)"
    using o_aset_find[OF w t] by (simp add: e1_def)
  have d: "distinct (map oa_t (ose_aset e))" "distinct (ose_aset e)"
    using w by (auto simp: ose_winv_def distinct_map)
  show ?thesis
  proof (cases "find (\<lambda>a. oa_t a = t) (ose_aset e)")
    case None
    then have nt: "t \<notin> os_tags e" by (auto simp: find_None_conv os_tags_def)
    have "set_remove_tag e t = e1" using r f None by (simp add: o_asetGet_def)
    moreover have "ose_winv vo e1"
      using w t nt by (auto simp: ose_winv_def e1_def os_tags_def os_removed_def)
    ultimately show ?thesis using nt by (auto simp: e1_def os_tags_def os_removed_def)
  next
    case (Some a)
    then have a: "a \<in> set (ose_aset e)" "oa_t a = t" using find_Some_iff_first[OF Some] by auto
    define e2 where "e2 = e1\<lparr>ose_aset := remove1 a (ose_aset e)\<rparr>"
    have e2: "set_remove_tag e t =
        (if ose_exist e = Some (oa_addr a) then e2\<lparr>ose_exist := None\<rparr> else e2)"
      using r f Some by (simp add: o_asetGet_def e2_def e1_def)
    have set2: "set (ose_aset e2) = set (ose_aset e) - {a}" using d(2) by (simp add: e2_def)
    have ut: "x = a" if "x \<in> set (ose_aset e)" "oa_t x = t" for x
      using d(1) a that by (metis find_unique option.inject)
    have tags: "os_tags e2 = os_tags e - {t}" unfolding os_tags_def set2 using ut a(2) by auto
    have rm: "os_removed e2 = insert t (os_removed e)" by (simp add: e2_def e1_def os_removed_def)
    have w2: "distinct (map oa_addr (ose_aset e2))" "distinct (map oa_t (ose_aset e2))"
      "\<forall>a \<in> set (ose_aset e2). oa_addr a < ose_fresh e2 \<and> lc_nonneg (oa_t a) \<and> oa_value a = vo \<and> vo \<noteq> None"
      "\<forall>t \<in> set (ose_rset e2). lc_nonneg t" "os_tags e2 \<inter> os_removed e2 = {}"
      using w t set2 tags rm
      by (auto simp: ose_winv_def e2_def e1_def intro!: distinct_map_remove1)
    have "ose_winv vo (set_remove_tag e t)"
    proof (cases "ose_exist e = Some (oa_addr a)")
      case True
      then show ?thesis using e2 w2 by (simp add: ose_winv_def os_tags_def os_removed_def)
    next
      case False
      have "\<exists>x \<in> set (ose_aset e2). oa_addr x = p \<and> (\<forall>b \<in> set (ose_aset e2). tag_key (oa_t b) \<le> tag_key (oa_t x))"
        if p: "ose_exist e = Some p" for p
        using ose_winv_exist[OF w p] set2 False p by (metis Diff_iff empty_iff insert_iff)
      then show ?thesis using e2 w2 False by (simp add: ose_winv_def) (simp add: e2_def e1_def)
    qed
    then show ?thesis using e2 tags rm by (simp add: os_tags_def os_removed_def e2_def e1_def)
  qed
qed

text \<open>The tags that the arguments of a remove message name.\<close>

definition parsed_tags :: "sds list \<Rightarrow> lc set" where
  "parsed_tags xs = {t. Some t \<in> sdsToLc ` set xs}"

definition tag_text :: "sds \<Rightarrow> bool" where
  "tag_text x = (case sdsToLc x of None \<Rightarrow> False | Some t \<Rightarrow> lc_nonneg t)"

lemma os_remove_tags_spec:
  assumes "ose_winv vo e" "\<forall>x \<in> set xs. tag_text x"
  shows "\<exists>e'. os_remove_tags xs e = Some e' \<and> ose_winv vo e' \<and> os_tags e' = os_tags e - parsed_tags xs \<and>
    os_removed e' = os_removed e \<union> parsed_tags xs \<and> ose_current e' = ose_current e"
  using assms
proof (induction xs arbitrary: e)
  case (Cons x xs)
  obtain t where t: "sdsToLc x = Some t" "lc_nonneg t"
    using Cons.prems(2) by (auto simp: tag_text_def split: option.splits)
  have p: "parsed_tags (x # xs) = insert t (parsed_tags xs)" using t(1) by (auto simp: parsed_tags_def)
  note r = set_remove_tag_spec[OF Cons.prems(1) t(2)]
  obtain e' where "os_remove_tags xs (set_remove_tag e t) = Some e'" "ose_winv vo e'"
    "os_tags e' = os_tags (set_remove_tag e t) - parsed_tags xs"
    "os_removed e' = os_removed (set_remove_tag e t) \<union> parsed_tags xs"
    "ose_current e' = ose_current (set_remove_tag e t)"
    using Cons.IH[of "set_remove_tag e t"] r Cons.prems(2) by auto
  then show ?case using r t(1) by (auto simp: p)
qed (simp add: parsed_tags_def)

text \<open>\<open>exist\<close> points to the entry of greatest tag among \<open>P\<close>.\<close>

definition exist_max :: "os_ase set \<Rightarrow> nat option \<Rightarrow> bool" where
  "exist_max P q \<longleftrightarrow> (if P = {} then q = None
     else \<exists>x \<in> P. q = Some (oa_addr x) \<and> (\<forall>b \<in> P. tag_key (oa_t b) \<le> tag_key (oa_t x)))"

lemma set_resort_loop_spec:
  assumes "distinct (map oa_addr (ose_aset e))" "\<forall>a \<in> set (ose_aset e). lc_nonneg (oa_t a)"
    "P \<union> set as \<subseteq> set (ose_aset e)" "exist_max P (ose_exist e)"
  shows "\<exists>q. set_resort_loop as e = Some (e\<lparr>ose_exist := q\<rparr>) \<and> exist_max (P \<union> set as) q"
  using assms
proof (induction as arbitrary: e P)
  case (Cons a as)
  obtain b where b: "exist_less e a = Some b"
    "exist_max (insert a P) (if b then Some (oa_addr a) else ose_exist e)"
  proof (cases "P = {}")
    case True
    with Cons.prems(4) show ?thesis using that[of True] by (simp add: exist_max_def exist_less_None)
  next
    case False
    with Cons.prems(4) obtain x where x: "x \<in> P" "ose_exist e = Some (oa_addr x)"
      "\<forall>b \<in> P. tag_key (oa_t b) \<le> tag_key (oa_t x)" by (auto simp: exist_max_def)
    have l: "exist_less e a = Some (tag_key (oa_t x) < tag_key (oa_t a))"
      using exist_less_Some[of e a x] Cons.prems x by auto
    show ?thesis
    proof (cases "tag_key (oa_t x) < tag_key (oa_t a)")
      case True
      then have "\<forall>b \<in> insert a P. tag_key (oa_t b) \<le> tag_key (oa_t a)" using x(3) by force
      then show ?thesis using that[of True] l True by (auto simp: exist_max_def)
    next
      case nless: False
      then have "\<forall>b \<in> insert a P. tag_key (oa_t b) \<le> tag_key (oa_t x)" using x(3) by force
      then show ?thesis using that[of False] l nless x by (auto simp: exist_max_def)
    qed
  qed
  let ?e = "if b then e\<lparr>ose_exist := Some (oa_addr a)\<rparr> else e"
  have "\<exists>q. set_resort_loop as ?e = Some (?e\<lparr>ose_exist := q\<rparr>) \<and> exist_max (insert a P \<union> set as) q"
    using Cons.prems b(2) by (intro Cons.IH) auto
  then show ?case using b(1) by (cases b) auto
next
  case Nil
  then show ?case by (intro exI[of _ "ose_exist e"]) simp
qed

lemma set_resort_spec:
  assumes w: "ose_winv vo e" and n: "ose_exist e = None"
  shows "\<exists>q. set_resort e = Some (e\<lparr>ose_exist := q\<rparr>) \<and> ose_inv vo (e\<lparr>ose_exist := q\<rparr>)"
proof -
  obtain q where q: "set_resort_loop (ose_aset e) e = Some (e\<lparr>ose_exist := q\<rparr>)"
    "exist_max (set (ose_aset e)) q"
    using set_resort_loop_spec[of e "{}" "ose_aset e"] w n by (auto simp: ose_winv_def exist_max_def)
  have "ose_inv vo (e\<lparr>ose_exist := q\<rparr>)"
    using w q(2) by (auto simp: ose_inv_def ose_winv_def exist_max_def os_tags_def os_removed_def split: if_splits)
  moreover have "set_resort e = Some (e\<lparr>ose_exist := q\<rparr>)" using q(1) n by (simp add: set_resort_def)
  ultimately show ?thesis by blast
qed

section \<open>The set on the server\<close>

text \<open>The integer that an element stands for, which is its score in the sorted set.\<close>

definition os_value :: "sds \<Rightarrow> int option" where
  "os_value x = map_option int32 (getLongLongFromObject x)"

definition os_score :: "sds \<Rightarrow> bool \<Rightarrow> double option" where
  "os_score x present = (if present then map_option double_of_int (os_value x) else None)"

definition os_entry :: "sds \<Rightarrow> ose option \<Rightarrow> double option \<Rightarrow> bool" where
  "os_entry x eo z =
     (case eo of
        None \<Rightarrow> z = None
      | Some e \<Rightarrow> ose_inv (os_value x) e \<and> z = os_score x (ose_aset e \<noteq> []))"

definition oset_inv :: "sds set \<Rightarrow> ose server \<Rightarrow> bool" where
  "oset_inv K s \<longleftrightarrow> store_inv ORI_SET_TABLE_SUFFIX K s \<and> REPLICATION_MODE s \<and>
     (\<forall>k \<in> K. \<forall>x. os_entry x (elem ORI_SET_TABLE_SUFFIX s k x) (zscore s k x))"

definition oset_view :: "sds \<times> sds \<Rightarrow> ose server \<Rightarrow> lc set \<times> lc set" where
  "oset_view q s =
     (case elem ORI_SET_TABLE_SUFFIX s (fst q) (snd q) of
        None \<Rightarrow> ({}, {})
      | Some e \<Rightarrow> (os_tags e, os_removed e))"

definition os_clock :: "sds \<times> sds \<Rightarrow> ose server \<Rightarrow> int" where
  "os_clock q s =
     (case elem ORI_SET_TABLE_SUFFIX s (fst q) (snd q) of None \<Rightarrow> 0 | Some e \<Rightarrow> ose_current e)"

text \<open>Messages as the prepare phases produce them, and the abstract operations they carry.\<close>

definition os_msg_ok :: "sds set \<Rightarrow> sds list \<Rightarrow> bool" where
  "os_msg_ok K m \<longleftrightarrow> 3 \<le> length m \<and> m ! 1 \<in> K \<and>
     (if m ! 0 = ''osadd''
      then length m = 4 \<and> tag_text (m ! 3) \<and> getLongLongFromObject (m ! 2) \<noteq> None
      else m ! 0 = ''osrem'' \<and> (\<forall>x \<in> set (drop 3 m). tag_text x))"

definition os_target :: "sds list \<Rightarrow> sds \<times> sds" where
  "os_target m = (m ! 1, m ! 2)"

definition os_astep :: "sds list \<Rightarrow> lc set \<times> lc set \<Rightarrow> lc set \<times> lc set" where
  "os_astep m ar =
     (let (A, R) = ar; T = parsed_tags (drop 3 m)
      in if m ! 0 = ''osadd'' then (A \<union> (T - R), R) else (A - T, R \<union> T))"

definition os_deliver :: "ose server \<Rightarrow> sds list \<Rightarrow> ose server option" where
  "os_deliver s m = deliver (if m ! 0 = ''osadd'' then osaddCommand else osremCommand) s m"

lemma oset_inv_update:
  assumes inv: "oset_inv K s" and k: "k \<in> K" and e: "ose_inv (os_value x) e"
    and upd: "store_upd ORI_SET_TABLE_SUFFIX K s k x e (os_score x (ose_aset e \<noteq> [])) s'"
  shows "oset_inv K s' \<and> senv s' = senv s \<and>
    (\<forall>q. os_clock q s' = (if q = (k, x) then ose_current e else os_clock q s)) \<and>
    (\<forall>q. oset_view q s' = (if q = (k, x) then (os_tags e, os_removed e) else oset_view q s))"
proof -
  have "REPLICATION_MODE s'"
    using inv upd by (auto simp: oset_inv_def store_upd_def senv_def REPLICATION_MODE_def)
  then have "oset_inv K s'" using inv e upd
    by (simp add: oset_inv_def store_upd_def) (simp add: os_entry_def)
  then show ?thesis using upd by (simp add: oset_view_def os_clock_def prod_eq_iff store_upd_def)
qed

lemma oset_elem_inv:
  assumes "oset_inv K s" "k \<in> K"
  shows "ose_inv (os_value x) (case elem ORI_SET_TABLE_SUFFIX s k x of None \<Rightarrow> oseNew | Some e \<Rightarrow> e)"
    and "zscore s k x = os_score x
      (ose_aset (case elem ORI_SET_TABLE_SUFFIX s k x of None \<Rightarrow> oseNew | Some e \<Rightarrow> e) \<noteq> [])"
    and "oset_view (k, x) s =
      (let e = (case elem ORI_SET_TABLE_SUFFIX s k x of None \<Rightarrow> oseNew | Some e \<Rightarrow> e)
       in (os_tags e, os_removed e))"
    and "os_clock (k, x) s =
      ose_current (case elem ORI_SET_TABLE_SUFFIX s k x of None \<Rightarrow> oseNew | Some e \<Rightarrow> e)"
proof -
  have "os_entry x (elem ORI_SET_TABLE_SUFFIX s k x) (zscore s k x)" using assms by (simp add: oset_inv_def)
  then show "ose_inv (os_value x) (case elem ORI_SET_TABLE_SUFFIX s k x of None \<Rightarrow> oseNew | Some e \<Rightarrow> e)"
    and "zscore s k x = os_score x
      (ose_aset (case elem ORI_SET_TABLE_SUFFIX s k x of None \<Rightarrow> oseNew | Some e \<Rightarrow> e) \<noteq> [])"
    using oseNew_inv[of "os_value x"]
    by (auto simp: os_entry_def os_score_def oseNew_def split: option.splits)
  show "oset_view (k, x) s =
      (let e = (case elem ORI_SET_TABLE_SUFFIX s k x of None \<Rightarrow> oseNew | Some e \<Rightarrow> e)
       in (os_tags e, os_removed e))"
    by (auto simp: oset_view_def oseNew_def os_tags_def os_removed_def split: option.splits)
  show "os_clock (k, x) s =
      ose_current (case elem ORI_SET_TABLE_SUFFIX s k x of None \<Rightarrow> oseNew | Some e \<Rightarrow> e)"
    by (auto simp: os_clock_def oseNew_def split: option.splits)
qed

lemma os_tags_empty: "os_tags e = {} \<longleftrightarrow> ose_aset e = []"
  by (simp add: os_tags_def)

lemma osadd_effect_spec:
  assumes inv: "oset_inv K s" and k: "k \<in> K" and t: "sdsToLc tag = Some t" "lc_nonneg t"
    and v: "getLongLongFromObject x = Some v"
  shows "\<exists>s'. osadd_effect s [n, k, x, tag] = Some s' \<and> oset_inv K s' \<and> senv s' = senv s \<and>
    (\<forall>q. os_clock q s' = os_clock q s) \<and> (\<forall>q. oset_view q s' =
      (if q = (k, x) then (fst (oset_view q s) \<union> ({t} - snd (oset_view q s)), snd (oset_view q s))
       else oset_view q s))"
proof -
  define e where "e = (case elem ORI_SET_TABLE_SUFFIX s k x of None \<Rightarrow> oseNew | Some e \<Rightarrow> e)"
  have st: "store_inv ORI_SET_TABLE_SUFFIX K s" using inv by (simp add: oset_inv_def)
  have vo: "os_value x = Some (int32 v)" using v by (simp add: os_value_def)
  note old = oset_elem_inv[OF inv k, of x, folded e_def]
  obtain e' b where u: "update_exist e t v = Some (e', b)" "ose_inv (os_value x) e'"
    "os_tags e' = (if t \<in> os_removed e then os_tags e else insert t (os_tags e))"
    "os_removed e' = os_removed e" "ose_current e' = ose_current e"
    "b \<longrightarrow> t \<notin> os_removed e" "\<not> b \<longrightarrow> t \<in> os_removed e \<or> ose_aset e \<noteq> []"
    using update_exist_spec[of v e t] old(1) t(2) unfolding vo by blast
  obtain s1 where s1: "rehHTGet s k ORI_SET_TABLE_SUFFIX x True oseNew = Some (s1, Some e)"
    "put_ok ORI_SET_TABLE_SUFFIX K s s1 k x (zscore s k x)" "senv s1 = senv s"
    "store_upd ORI_SET_TABLE_SUFFIX K s k x e (zscore s k x) s1"
    using store_modify[OF st k, of x oseNew, folded e_def] .
  obtain s2 where s2: "rehHTPut s1 k ORI_SET_TABLE_SUFFIX x e' = Some s2"
    "store_upd ORI_SET_TABLE_SUFFIX K s k x e' (zscore s k x) s2"
    "\<forall>sc. \<exists>s3. server_zsetAdd s2 k x sc = Some s3 \<and>
       store_upd ORI_SET_TABLE_SUFFIX K s k x e' (if sc = NaN then zscore s k x else Some sc) s3"
    using put_okE[OF s1(2)] .
  obtain s3 where s3: "(if b then do { score \<leftarrow> os_SCORE e'; server_zsetAdd s2 k x score } else Some s2) = Some s3"
    "store_upd ORI_SET_TABLE_SUFFIX K s k x e' (os_score x (ose_aset e' \<noteq> [])) s3"
  proof (cases b)
    case True
    then have ne: "ose_aset e' \<noteq> []" using u(3,6) by (auto simp: os_tags_empty[symmetric])
    then have "os_SCORE e' = Some (double_of_int (int32 v))"
      using os_SCORE_spec[of "os_value x" e'] u(2) vo by (simp add: ose_inv_def)
    then show ?thesis
      using s2(3)[rule_format, of "double_of_int (int32 v)"] True that ne vo by (auto simp: os_score_def)
  next
    case False
    then have "(ose_aset e' \<noteq> []) = (ose_aset e \<noteq> [])"
      using u(3,7) by (auto simp: os_tags_empty[symmetric])
    then show ?thesis using that[of s2] False s2(2) old(2) by simp
  qed
  have "osadd_effect s [n, k, x, tag] = Some (s3\<lparr>dirty := dirty s3 + 1\<rparr>)"
    using t v u(1) s1(1) s2(1) s3(1)
    by (simp add: osadd_effect_def arg_def GET_OSE_def PUT_OSE_def)
  then show ?thesis
    using oset_inv_update[OF inv k u(2), of "s3\<lparr>dirty := dirty s3 + 1\<rparr>"] s3(2) old(3,4) u(3,4,5) by auto
qed

text \<open>The remove effect after its element operations: \<open>set_resort\<close> and the sorted set.\<close>

lemma osrem_finish:
  assumes e1: "ose_winv (os_value x) e1" "ose_exist e1 = None"
    and s1: "put_ok ORI_SET_TABLE_SUFFIX K s s1 k x (zscore s k x)"
  shows "\<exists>e2 s2 s3. set_resort e1 = Some e2 \<and> PUT_OSE s1 k x e2 = Some s2 \<and>
    (if os_LOOKUP e2 then do { score \<leftarrow> os_SCORE e2; server_zsetAdd s2 k x score }
     else server_zsetDel s2 k x) = Some s3 \<and>
    ose_inv (os_value x) e2 \<and> os_tags e2 = os_tags e1 \<and> os_removed e2 = os_removed e1 \<and>
    ose_current e2 = ose_current e1 \<and> store_upd ORI_SET_TABLE_SUFFIX K s k x e2 (os_score x (ose_aset e2 \<noteq> [])) s3"
proof -
  obtain q where q: "set_resort e1 = Some (e1\<lparr>ose_exist := q\<rparr>)" "ose_inv (os_value x) (e1\<lparr>ose_exist := q\<rparr>)"
    using set_resort_spec[OF e1] by blast
  define e2 where "e2 = e1\<lparr>ose_exist := q\<rparr>"
  obtain s2 where s2: "rehHTPut s1 k ORI_SET_TABLE_SUFFIX x e2 = Some s2"
    "\<forall>sc. \<exists>s3. server_zsetAdd s2 k x sc = Some s3 \<and>
       store_upd ORI_SET_TABLE_SUFFIX K s k x e2 (if sc = NaN then zscore s k x else Some sc) s3"
    "\<exists>s3. server_zsetDel s2 k x = Some s3 \<and> store_upd ORI_SET_TABLE_SUFFIX K s k x e2 None s3"
    using put_okE[OF s1] .
  have "\<exists>s3. (if os_LOOKUP e2 then do { score \<leftarrow> os_SCORE e2; server_zsetAdd s2 k x score }
         else server_zsetDel s2 k x) = Some s3 \<and>
      store_upd ORI_SET_TABLE_SUFFIX K s k x e2 (os_score x (ose_aset e2 \<noteq> [])) s3"
  proof (cases "ose_aset e2 = []")
    case True
    then show ?thesis using s2(3) by (simp add: os_LOOKUP_def os_score_def)
  next
    case False
    then have "ose_exist e2 \<noteq> None" using q(2) by (simp add: ose_inv_def e2_def)
    then obtain v where "os_value x = Some v" "os_SCORE e2 = Some (double_of_int v)"
      using os_SCORE_spec[of "os_value x" e2] q(2) by (auto simp: ose_inv_def e2_def)
    then show ?thesis
      using s2(2)[rule_format, of "double_of_int v"] False by (simp add: os_LOOKUP_def os_score_def)
  qed
  then obtain s3 where "(if os_LOOKUP e2 then do { score \<leftarrow> os_SCORE e2; server_zsetAdd s2 k x score }
         else server_zsetDel s2 k x) = Some s3"
      "store_upd ORI_SET_TABLE_SUFFIX K s k x e2 (os_score x (ose_aset e2 \<noteq> [])) s3" by blast
  moreover have "os_tags e2 = os_tags e1" "os_removed e2 = os_removed e1" "ose_current e2 = ose_current e1"
    by (simp_all add: e2_def os_tags_def os_removed_def)
  ultimately show ?thesis using q[folded e2_def] s2(1) unfolding PUT_OSE_def by blast
qed

lemma osrem_effect_spec:
  assumes inv: "oset_inv K s" and k: "k \<in> K" and t: "\<forall>y \<in> set tags. tag_text y"
  shows "\<exists>s'. osrem_effect s (n # k # x # tags) = Some s' \<and> oset_inv K s' \<and> senv s' = senv s \<and>
    (\<forall>q. os_clock q s' = os_clock q s) \<and> (\<forall>q. oset_view q s' =
      (if q = (k, x) then (fst (oset_view q s) - parsed_tags tags, snd (oset_view q s) \<union> parsed_tags tags)
       else oset_view q s))"
proof -
  define e where "e = (case elem ORI_SET_TABLE_SUFFIX s k x of None \<Rightarrow> oseNew | Some e \<Rightarrow> e)"
  have st: "store_inv ORI_SET_TABLE_SUFFIX K s" using inv by (simp add: oset_inv_def)
  note old = oset_elem_inv[OF inv k, of x, folded e_def]
  have w: "ose_winv (os_value x) e" using old(1) by (simp add: ose_inv_def)
  obtain e1 where e1: "os_remove_tags tags e = Some e1" "ose_winv (os_value x) e1"
    "os_tags e1 = os_tags e - parsed_tags tags" "os_removed e1 = os_removed e \<union> parsed_tags tags"
    "ose_current e1 = ose_current e"
    using os_remove_tags_spec[OF w t] by blast
  obtain s1 where s1: "rehHTGet s k ORI_SET_TABLE_SUFFIX x True oseNew = Some (s1, Some e)"
    "put_ok ORI_SET_TABLE_SUFFIX K s s1 k x (zscore s k x)" "senv s1 = senv s"
    "store_upd ORI_SET_TABLE_SUFFIX K s k x e (zscore s k x) s1"
    using store_modify[OF st k, of x oseNew, folded e_def] .
  have "\<exists>s3 e2. osrem_effect s (n # k # x # tags) = Some (s3\<lparr>dirty := dirty s3 + 1\<rparr>) \<and>
    ose_inv (os_value x) e2 \<and> os_tags e2 = os_tags e1 \<and> os_removed e2 = os_removed e1 \<and>
    ose_current e2 = ose_current e1 \<and> store_upd ORI_SET_TABLE_SUFFIX K s k x e2 (os_score x (ose_aset e2 \<noteq> [])) s3"
  proof (cases "ose_exist e1")
    case None
    from osrem_finish[OF e1(2) None s1(2)] show ?thesis
      using e1(1) s1(1) None
      by (fastforce simp: osrem_effect_def arg_def GET_OSE_def cong del: if_weak_cong)
  next
    case (Some p)
    obtain s2 where s2: "rehHTPut s1 k ORI_SET_TABLE_SUFFIX x e1 = Some s2"
      "store_upd ORI_SET_TABLE_SUFFIX K s k x e1 (zscore s k x) s2"
      using put_okE[OF s1(2)] .
    have ne: "ose_aset e1 \<noteq> []" using ose_winv_exist[OF e1(2) Some] by fastforce
    then have "ose_aset e \<noteq> []" using e1(3) by (auto simp: os_tags_empty[symmetric])
    then have "store_upd ORI_SET_TABLE_SUFFIX K s k x e1 (os_score x (ose_aset e1 \<noteq> [])) s2"
      using s2(2) old(2) ne by simp
    moreover have "osrem_effect s (n # k # x # tags) = Some (s2\<lparr>dirty := dirty s2 + 1\<rparr>)"
      using e1(1) s1(1) s2(1) Some
      by (simp add: osrem_effect_def arg_def GET_OSE_def PUT_OSE_def)
    moreover have "ose_inv (os_value x) e1" using e1(2) Some by (simp add: ose_inv_def)
    ultimately show ?thesis by blast
  qed
  then obtain s3 e2 where r: "osrem_effect s (n # k # x # tags) = Some (s3\<lparr>dirty := dirty s3 + 1\<rparr>)"
    "ose_inv (os_value x) e2" "os_tags e2 = os_tags e1" "os_removed e2 = os_removed e1" "ose_current e2 = ose_current e1"
    "store_upd ORI_SET_TABLE_SUFFIX K s k x e2 (os_score x (ose_aset e2 \<noteq> [])) s3" by blast
  then show ?thesis
    using oset_inv_update[OF inv k r(2), of "s3\<lparr>dirty := dirty s3 + 1\<rparr>"] old(3,4) e1(3,4,5) by auto
qed

section \<open>Delivery of messages\<close>

lemma os_msg_cases:
  assumes "os_msg_ok K m"
  obtains (add) n k x tag t v where "m = [n, k, x, tag]" "n = ''osadd''" "k \<in> K" "sdsToLc tag = Some t"
      "lc_nonneg t" "getLongLongFromObject x = Some v" "parsed_tags (drop 3 m) = {t}"
  | (rem) n k x tags where "m = n # k # x # tags" "n = ''osrem''" "k \<in> K" "\<forall>y \<in> set tags. tag_text y"
proof -
  from assms obtain n k x tags where m: "m = n # k # x # tags"
    by (cases m rule: list.exhaust[case_product list.exhaust])
      (auto simp: os_msg_ok_def Suc_le_length_iff numeral_3_eq_3)
  show thesis
  proof (cases "n = ''osadd''")
    case True
    with assms m obtain tag where "tags = [tag]" by (cases tags) (auto simp: os_msg_ok_def)
    with True assms m show ?thesis
      by (intro add[of n k x tag "the (sdsToLc tag)" "the (getLongLongFromObject x)"])
        (auto simp: os_msg_ok_def tag_text_def parsed_tags_def split: option.splits)
  next
    case False
    with assms m show ?thesis by (intro rem[of n k x tags]) (auto simp: os_msg_ok_def)
  qed
qed

lemma oset_inv_mode: "oset_inv K s \<Longrightarrow> REPLICATION_MODE s"
  by (simp add: oset_inv_def)

lemma os_deliver_law:
  assumes inv: "oset_inv K s" and ok: "os_msg_ok K m"
  shows "\<exists>s'. os_deliver s m = Some s' \<and> oset_inv K s' \<and>
    (\<forall>q. oset_view q s' = (if q = os_target m then os_astep m (oset_view q s) else oset_view q s))"
  using ok
proof (cases rule: os_msg_cases)
  case (add n k x tag t v)
  have "os_deliver s m = osadd_effect s m"
    using add(1,2) crdt_command_replica[OF oset_inv_mode[OF inv]]
    by (simp add: os_deliver_def osaddCommand_def)
  then show ?thesis
    using osadd_effect_spec[OF inv add(3,4,5,6), of n] add(1,2,7)
    by (auto simp: os_target_def os_astep_def split_beta Let_def)
next
  case (rem n k x tags)
  have "os_deliver s m = osrem_effect s m"
    using rem(1,2) crdt_command_replica[OF oset_inv_mode[OF inv]]
    by (simp add: os_deliver_def osremCommand_def)
  then show ?thesis
    using osrem_effect_spec[OF inv rem(3,4), of n x] rem(1,2)
    by (auto simp: os_target_def os_astep_def split_beta Let_def)
qed

lemma os_astep_commute: "os_astep m (os_astep n a) = os_astep n (os_astep m a)"
  by (cases a) (auto simp: os_astep_def Let_def)

interpretation os: commutative_effects os_deliver "oset_inv K" "os_msg_ok K" os_target oset_view os_astep
  "\<lambda>_ _. True" for K
  using os_deliver_law os_astep_commute by unfold_locales blast+

lemma oset_member_view:
  assumes "oset_inv K s" "k \<in> K"
  shows "zscore s k x = os_score x (fst (oset_view (k, x) s) \<noteq> {})"
  using oset_elem_inv(2,3)[OF assms] by (simp add: os_tags_empty Let_def)

lemma fresh_oset_inv:
  assumes "fresh_server ORI_SET_TABLE_SUFFIX K s"
  shows "oset_inv K s" "k \<in> K \<Longrightarrow> oset_view (k, x) s = ({}, {})"
  using assms
  by (auto simp: fresh_server_def oset_inv_def store_inv_def zset_slot_def hash_slot_def os_entry_def
      elem_def zscore_def oset_view_def)

text \<open>The tags that a sequence of messages adds and removes, and the tag sets after it.\<close>

definition os_added :: "sds list list \<Rightarrow> lc set" where
  "os_added ms = (\<Union>m \<in> {m \<in> set ms. m ! 0 = ''osadd''}. parsed_tags (drop 3 m))"

definition os_deleted :: "sds list list \<Rightarrow> lc set" where
  "os_deleted ms = (\<Union>m \<in> {m \<in> set ms. m ! 0 \<noteq> ''osadd''}. parsed_tags (drop 3 m))"

lemma os_added_Cons:
  "os_added (m # ms) = (if m ! 0 = ''osadd'' then parsed_tags (drop 3 m) else {}) \<union> os_added ms"
  "os_deleted (m # ms) = (if m ! 0 = ''osadd'' then {} else parsed_tags (drop 3 m)) \<union> os_deleted ms"
  by (auto simp: os_added_def os_deleted_def)

lemma os_fold:
  "fold os_astep ms (A, R) = (A \<union> (os_added ms - R) - os_deleted ms, R \<union> os_deleted ms)"
proof (induction ms arbitrary: A R)
  case Nil
  show ?case by (simp add: os_added_def os_deleted_def)
next
  case (Cons m ms)
  show ?case unfolding fold_simps comp_def os_added_Cons
    by (cases "m ! 0 = ''osadd''") (auto simp: os_astep_def Let_def Cons.IH)
qed

lemma oset_present:
  assumes "oset_inv K s" "k \<in> K"
  shows "zscore s k x = None \<longleftrightarrow> fst (oset_view (k, x) s) = {}"
proof -
  define e where "e = (case elem ORI_SET_TABLE_SUFFIX s k x of None \<Rightarrow> oseNew | Some e \<Rightarrow> e)"
  note old = oset_elem_inv[OF assms, of x, folded e_def]
  have "ose_aset e \<noteq> [] \<Longrightarrow> os_value x \<noteq> None"
    using old(1) by (auto simp: ose_inv_def ose_winv_def neq_Nil_conv)
  then show ?thesis using old(2,3) by (auto simp: Let_def os_score_def os_tags_empty)
qed

section \<open>Commands of a user\<close>

lemma osadd_prepare_new:
  assumes inv: "oset_inv K s" and k: "k \<in> K" and new: "fst (oset_view (k, x) s) = {}"
  shows "\<exists>s1. osadd_prepare s [n, k, x] =
      Some (s1, Inr [lcToSds (lc_new (os_clock (k, x) s) (p2p_id s))]) \<and>
    oset_inv K s1 \<and> senv s1 = senv s \<and> (\<forall>q. oset_view q s1 = oset_view q s) \<and>
    (\<forall>q. os_clock q s1 = (if q = (k, x) then int32 (os_clock q s + 1) else os_clock q s))"
proof -
  define e where "e = (case elem ORI_SET_TABLE_SUFFIX s k x of None \<Rightarrow> oseNew | Some e \<Rightarrow> e)"
  define e' where "e' = e\<lparr>ose_current := int32 (ose_current e + 1)\<rparr>"
  have st: "store_inv ORI_SET_TABLE_SUFFIX K s" using inv by (simp add: oset_inv_def)
  note old = oset_elem_inv[OF inv k, of x, folded e_def]
  have nil: "ose_aset e = []" using new old(3) by (simp add: os_tags_empty Let_def)
  obtain s1 where s1: "rehHTGet s k ORI_SET_TABLE_SUFFIX x True oseNew = Some (s1, Some e)"
    "put_ok ORI_SET_TABLE_SUFFIX K s s1 k x (zscore s k x)" "senv s1 = senv s"
    "store_upd ORI_SET_TABLE_SUFFIX K s k x e (zscore s k x) s1"
    using store_modify[OF st k, of x oseNew, folded e_def] .
  obtain s2 where s2: "rehHTPut s1 k ORI_SET_TABLE_SUFFIX x e' = Some s2"
    "store_upd ORI_SET_TABLE_SUFFIX K s k x e' (zscore s k x) s2"
    using put_okE[OF s1(2)] .
  have inv': "ose_inv (os_value x) e'" using old(1)
    by (simp add: e'_def ose_inv_def ose_winv_def os_tags_def os_removed_def)
  have same: "ose_aset e' = ose_aset e" "os_tags e' = os_tags e" "os_removed e' = os_removed e"
    by (simp_all add: e'_def os_tags_def os_removed_def)
  have "p2p_id s1 = p2p_id s" using s1(3) by (simp add: senv_def)
  then have "osadd_prepare s [n, k, x] = Some (s2, Inr [lcToSds (lc_new (os_clock (k, x) s) (p2p_id s))])"
    using store_container_type[OF st k] s1(1) s2(1) nil old(4)
    by (simp add: osadd_prepare_def CHECK_ARGC_def arg_def GET_OSE_def PUT_OSE_def os_LOOKUP_def e'_def)
  moreover note oset_inv_update[OF inv k inv', of s2]
  ultimately show ?thesis using s2(2) old same by (simp add: e'_def Let_def)
qed

lemma osadd_prepare_exists:
  assumes inv: "oset_inv K s" and k: "k \<in> K" and ex: "fst (oset_view (k, x) s) \<noteq> {}"
  shows "osadd_prepare s [n, k, x] = Some (s, Inl ReplyEleExist)"
proof -
  from ex obtain e where e: "elem ORI_SET_TABLE_SUFFIX s k x = Some e" "ose_aset e \<noteq> []"
    by (auto simp: oset_view_def os_tags_def split: option.splits)
  have "store_inv ORI_SET_TABLE_SUFFIX K s" using inv by (simp add: oset_inv_def)
  then show ?thesis using e store_container_type[OF _ k] rehHTGet_present[OF e(1)]
    by (simp add: osadd_prepare_def CHECK_ARGC_def arg_def GET_OSE_def os_LOOKUP_def)
qed

lemma osrem_prepare_spec:
  assumes inv: "oset_inv K s" and k: "k \<in> K"
  shows "osrem_prepare s [n, k, x] =
    (if fst (oset_view (k, x) s) = {} then Some (s, Inl ReplyEleNexist)
     else Some (s, Inr (map (\<lambda>a. lcToSds (oa_t a)) (ose_aset (the (elem ORI_SET_TABLE_SUFFIX s k x))))))"
proof -
  have st: "store_inv ORI_SET_TABLE_SUFFIX K s" using inv by (simp add: oset_inv_def)
  then show ?thesis
    using store_container_type[OF st k] rehHTGet_read[OF st k, of x oseNew]
    by (auto simp: osrem_prepare_def CHECK_ARGC_def arg_def GET_OSE_def os_LOOKUP_def oset_view_def
        os_tags_def split: option.splits)
qed

lemma parsed_tags_print:
  "\<forall>t \<in> set ts. lc_wf t \<Longrightarrow> parsed_tags (map lcToSds ts) = set ts"
  by (force simp: parsed_tags_def lc_roundtrip image_iff)

lemma tag_text_print: "lc_nonneg t \<Longrightarrow> tag_text (lcToSds t)"
  by (simp add: tag_text_def lc_roundtrip)

lemma broadcast_oset [simp]:
  "oset_inv K (s\<lparr>replicas := replicationBroadcast (replicas s) m\<rparr>) = oset_inv K s"
  "oset_view q (s\<lparr>replicas := r\<rparr>) = oset_view q s" "os_clock q (s\<lparr>replicas := r\<rparr>) = os_clock q s"
  by (simp_all add: oset_inv_def oset_view_def os_clock_def)

text \<open>
  The tags of this replica that an element has seen are below its counter, so the next tag
  is new.
\<close>

definition os_own_tags :: "ose server \<Rightarrow> sds \<Rightarrow> sds \<Rightarrow> bool" where
  "os_own_tags s k x \<longleftrightarrow> 0 \<le> os_clock (k, x) s \<and>
     (\<forall>t \<in> fst (oset_view (k, x) s) \<union> snd (oset_view (k, x) s).
        lc_id t = p2p_id s \<longrightarrow> lc_x t < os_clock (k, x) s)"

section \<open>Properties of the replicated set\<close>

text \<open>
  C6 (strong eventual consistency of the observed-remove set): replicas that start with equal
  tag sets and receive the same messages, in any two orders, process all of them without a
  fault and end with the same sorted set under every key.
\<close>

theorem oset_convergence:
  assumes "oset_inv K s" "oset_inv K t" "\<And>q. oset_view q s = oset_view q t"
    "mset ms = mset ns" "\<forall>m \<in> set ms. os_msg_ok K m"
  shows "\<exists>s' t'. run os_deliver s ms = Some s' \<and> run os_deliver t ns = Some t' \<and>
    (\<forall>k \<in> K. \<forall>x. zscore s' k x = zscore t' k x)"
  using os.converge[OF assms] oset_member_view by (metis (full_types))

text \<open>
  C22 (add wins): after any sequence of messages on a fresh server, an element is in the set iff
  some add message for it carries a tag that no remove message for it names. A remove names the
  tags its origin had observed, so an add that is concurrent with it survives.
\<close>

theorem oset_add_wins:
  assumes "fresh_server ORI_SET_TABLE_SUFFIX K s" "\<forall>m \<in> set ms. os_msg_ok K m"
  shows "\<exists>s'. run os_deliver s ms = Some s' \<and> (\<forall>k \<in> K. \<forall>x.
    zscore s' k x = os_score x
      (let ms' = filter (\<lambda>m. os_target m = (k, x)) ms in \<not> os_added ms' \<subseteq> os_deleted ms'))"
proof -
  note inv = fresh_oset_inv[OF assms(1)]
  obtain s' where s': "run os_deliver s ms = Some s'" "oset_inv K s'"
    "\<forall>q. oset_view q s' = fold os_astep (filter (\<lambda>m. os_target m = q) ms) (oset_view q s)"
    using os.run_view[OF inv(1) assms(2)] by blast
  have "fst (oset_view (k, x) s') = os_added (filter (\<lambda>m. os_target m = (k, x)) ms)
      - os_deleted (filter (\<lambda>m. os_target m = (k, x)) ms)" if "k \<in> K" for k x
    using s'(3) inv(2)[OF that] os_fold by simp
  with s' show ?thesis using oset_member_view[OF s'(2)] by (auto simp: Let_def)
qed

text \<open>
  C26 (a local add takes effect): an \<open>osadd\<close> of an absent integer element by a user is
  acknowledged, broadcasts its arguments followed by a new tag, and puts the element into the
  set. The tag has the value of the counter of the element and the id of this replica; it is neither
  among the tags of the element nor among the removed ones. The counter is incremented and stays above
  all tags of this replica, so the next tag is new as well. The counter is below the largest \<open>int\<close>.
\<close>

theorem osadd_user:
  assumes inv: "oset_inv K s" and k: "k \<in> K" and v: "getLongLongFromObject x = Some v"
    and id: "0 \<le> p2p_id s" "is_int32 (p2p_id s)" and own: "os_own_tags s k x"
    and room: "os_clock (k, x) s < 2 ^ 31 - 1" and absent: "zscore s k x = None"
  shows "\<exists>s' c' tag. call osaddCommand s (user_client [n, k, x]) = Some (s', c') \<and>
    replies c' = [ReplyOk] \<and> replicas s' = replicationBroadcast (replicas s) [n, k, x, tag] \<and>
    sdsToLc tag = Some (lc_new (os_clock (k, x) s) (p2p_id s)) \<and>
    lc_new (os_clock (k, x) s) (p2p_id s) \<notin> fst (oset_view (k, x) s) \<union> snd (oset_view (k, x) s) \<and>
    oset_view (k, x) s' = ({lc_new (os_clock (k, x) s) (p2p_id s)}, snd (oset_view (k, x) s)) \<and>
    os_clock (k, x) s' = os_clock (k, x) s + 1 \<and>
    tag_text tag \<and> oset_inv K s' \<and> zscore s' k x = os_score x True \<and> os_own_tags s' k x"
proof -
  let ?t = "lc_new (os_clock (k, x) s) (p2p_id s)"
  have new: "fst (oset_view (k, x) s) = {}"
    using oset_member_view[OF inv k, of x] absent v by (auto simp: os_score_def os_value_def split: if_splits)
  have wf: "lc_nonneg ?t"
    using own room id by (simp add: lc_nonneg_def lc_wf_def lc_new_def os_own_tags_def is_int32_def)
  then have rt: "sdsToLc (lcToSds ?t) = Some ?t" by (simp add: lc_roundtrip)
  obtain s1 where s1: "osadd_prepare s [n, k, x] = Some (s1, Inr [lcToSds ?t])" "oset_inv K s1"
    "senv s1 = senv s" "\<forall>q. oset_view q s1 = oset_view q s" "\<forall>q. os_clock q s1 = (if q = (k, x) then int32 (os_clock q s + 1) else os_clock q s)"
    using osadd_prepare_new[OF inv k new] by blast
  obtain s2 where s2: "osadd_effect s1 [n, k, x, lcToSds ?t] = Some s2" "oset_inv K s2" "senv s2 = senv s1"
    "\<forall>q. os_clock q s2 = os_clock q s1"
    "\<forall>q. oset_view q s2 = (if q = (k, x) then (fst (oset_view q s1) \<union> ({?t} - snd (oset_view q s1)), snd (oset_view q s1))
       else oset_view q s1)"
    using osadd_effect_spec[OF s1(2) k rt wf v] by blast
  let ?s' = "s2\<lparr>replicas := replicationBroadcast (replicas s2) ([n, k, x] @ [lcToSds ?t])\<rparr>"
  have fresh: "?t \<notin> snd (oset_view (k, x) s)"
    using own by (force simp: os_own_tags_def lc_new_def)
  then have view: "oset_view (k, x) s2 = ({?t}, snd (oset_view (k, x) s))" using s1(4) s2(5) new by auto
  have clk: "os_clock (k, x) s2 = os_clock (k, x) s + 1"
    using s1(5) s2(4) own room by (simp add: os_own_tags_def is_int32_def)
  let ?c' = "(user_client [n, k, x])\<lparr>rargv := Some ([n, k, x] @ [lcToSds ?t]), replies := [ReplyOk]\<rparr>"
  have "call osaddCommand s (user_client [n, k, x]) = Some (?s', ?c')"
    unfolding osaddCommand_def using s1(1) s2(1)
    by (intro crdt_command_user[OF oset_inv_mode[OF inv]]) simp_all
  moreover have "zscore ?s' k x = os_score x True"
    using oset_member_view[OF s2(2) k, of x] view by simp
  moreover have "os_own_tags ?s' k x"
    using own s1(3) s2(3) by (auto simp: os_own_tags_def view clk lc_new_def senv_def)
  moreover have "oset_inv K ?s'" using s2(2) by simp
  moreover have "oset_view (k, x) ?s' = ({?t}, snd (oset_view (k, x) s))" "os_clock (k, x) ?s' = os_clock (k, x) s + 1"
    using view clk by simp_all
  ultimately show ?thesis using s1(3) s2(3) tag_text_print[OF wf] rt fresh new
    by (intro exI[of _ ?s'] exI[of _ ?c'] exI[of _ "lcToSds ?t"]) (simp add: senv_def del: broadcast_oset)
qed

text \<open>
  C27 (a local remove takes effect): an \<open>osrem\<close> of a present element by a user is acknowledged,
  broadcasts its arguments followed by exactly the tags under which the element is present, and
  takes the element out of the set. The arguments, at most \<open>2 ^ 30\<close>, fit into the buffer of the broadcast.
\<close>

theorem osrem_user:
  assumes inv: "oset_inv K s" and k: "k \<in> K" and present: "zscore s k x \<noteq> None"
    and fits: "3 + card (fst (oset_view (k, x) s)) \<le> 2 ^ 30"
  shows "\<exists>s' c' tags. call osremCommand s (user_client [n, k, x]) = Some (s', c') \<and>
    replies c' = [ReplyOk] \<and> replicas s' = replicationBroadcast (replicas s) (n # k # x # tags) \<and>
    (\<forall>y \<in> set tags. tag_text y) \<and> parsed_tags tags = fst (oset_view (k, x) s) \<and>
    oset_inv K s' \<and> zscore s' k x = None"
proof -
  have ne: "fst (oset_view (k, x) s) \<noteq> {}"
    using oset_member_view[OF inv k, of x] present by (auto simp: os_score_def)
  then obtain e where e: "elem ORI_SET_TABLE_SUFFIX s k x = Some e" "fst (oset_view (k, x) s) = os_tags e"
    by (auto simp: oset_view_def split: option.splits)
  let ?ts = "map oa_t (ose_aset e)"
  have nn: "\<forall>t \<in> set ?ts. lc_nonneg t"
    using oset_elem_inv(1)[OF inv k, of x] e(1) by (auto simp: ose_inv_def ose_winv_def)
  have p: "osrem_prepare s [n, k, x] = Some (s, Inr (map lcToSds ?ts))"
    using osrem_prepare_spec[OF inv k] ne e by (simp add: comp_def)
  have tx: "\<forall>y \<in> set (map lcToSds ?ts). tag_text y" using nn tag_text_print by auto
  have pt: "parsed_tags (map lcToSds ?ts) = os_tags e"
    using parsed_tags_print[of ?ts] nn by (simp add: os_tags_def del: map_map)
  obtain s2 where s2: "osrem_effect s (n # k # x # map lcToSds ?ts) = Some s2" "oset_inv K s2" "senv s2 = senv s"
    "\<forall>q. oset_view q s2 = (if q = (k, x) then (fst (oset_view q s) - parsed_tags (map lcToSds ?ts),
       snd (oset_view q s) \<union> parsed_tags (map lcToSds ?ts)) else oset_view q s)"
    using osrem_effect_spec[OF inv k tx] by blast
  let ?s' = "s2\<lparr>replicas := replicationBroadcast (replicas s2) ([n, k, x] @ map lcToSds ?ts)\<rparr>"
  let ?c' = "(user_client [n, k, x])\<lparr>rargv := Some ([n, k, x] @ map lcToSds ?ts), replies := [ReplyOk]\<rparr>"
  have "distinct ?ts" using oset_elem_inv(1)[OF inv k, of x] e(1) by (simp add: ose_inv_def ose_winv_def)
  then have "length ?ts = card (fst (oset_view (k, x) s))" using distinct_card[of ?ts] e(2) by (simp add: os_tags_def)
  then have "call osremCommand s (user_client [n, k, x]) = Some (?s', ?c')"
    unfolding osremCommand_def using p s2(1) fits
    by (intro crdt_command_user[OF oset_inv_mode[OF inv]]) simp_all
  moreover have "zscore ?s' k x = None"
    using oset_member_view[OF s2(2) k, of x] s2(4) e(2) pt by (simp add: os_score_def)
  moreover have "oset_inv K ?s'" using s2(2) by simp
  ultimately show ?thesis using s2(3) tx pt e(2)
    by (intro exI[of _ ?s'] exI[of _ ?c'] exI[of _ "map lcToSds ?ts"]) (simp add: senv_def del: broadcast_oset)
qed

text \<open>
  C39 (rejected commands): adding a present element and removing an absent one only send the
  error to the user; the whole server state, including what is broadcast, is unchanged.
\<close>

theorem oset_reject:
  assumes inv: "oset_inv K s" and k: "k \<in> K"
  shows "if zscore s k x = None
    then call osremCommand s (user_client [n, k, x]) = Some (s, (user_client [n, k, x])\<lparr>replies := [ReplyEleNexist]\<rparr>)
    else call osaddCommand s (user_client [n, k, x]) = Some (s, (user_client [n, k, x])\<lparr>replies := [ReplyEleExist]\<rparr>)"
proof (cases "zscore s k x")
  case None
  then have "osrem_prepare s [n, k, x] = Some (s, Inl ReplyEleNexist)"
    using osrem_prepare_spec[OF inv k] oset_present[OF inv k] by simp
  then show ?thesis using None crdt_command_reject[OF oset_inv_mode[OF inv]] by (simp add: osremCommand_def)
next
  case (Some z)
  then have "fst (oset_view (k, x) s) \<noteq> {}" using oset_present[OF inv k, of x] by simp
  then have "osadd_prepare s [n, k, x] = Some (s, Inl ReplyEleExist)" by (rule osadd_prepare_exists[OF inv k])
  then show ?thesis using Some crdt_command_reject[OF oset_inv_mode[OF inv]] by (simp add: osaddCommand_def)
qed

text \<open>
  The size query: \<open>ossize\<close> answers the number of elements that are in the set, or an empty
  array for a key that was never used.
\<close>

theorem ossize_correct:
  assumes "oset_inv K s" "k \<in> K"
  shows "\<exists>r. ossizeCommand s (user_client [n, k]) = Some (s, (user_client [n, k])\<lparr>replies := [r]\<rparr>) \<and>
    (r = ReplyLongLong (int (card {x. zscore s k x \<noteq> None})) \<or> (db s k = None \<and> r = ReplyEmptyarray))"
proof -
  have "store_inv ORI_SET_TABLE_SUFFIX K s" using assms by (simp add: oset_inv_def)
  then have "zset_slot (db s k)" using store_inv_slots assms(2) by blast
  then show ?thesis
    by (cases rule: zset_slot_views)
      (auto simp: ossizeCommand_def zset_sizeCommand_def arg_def user_client_def lookupKey_def addReply_def zsetLength_card dom_def)
qed

section \<open>Witnesses\<close>

lemma sample_tag: "sdsToLc ''0,0'' = Some \<lparr>lc_x = 0, lc_id = 0\<rparr>"
  by (rule sdsToLc_text) (simp_all add: text_eval)

lemma sample_osadd_ok: "os_msg_ok {''k''} [''osadd'', ''k'', ''5'', ''0,0'']"
  by (simp add: os_msg_ok_def tag_text_def sample_tag sample_value text_eval)

lemma sample_osrem_ok: "os_msg_ok {''k''} [''osrem'', ''k'', ''5'', ''0,0'']"
  by (simp add: os_msg_ok_def tag_text_def sample_tag text_eval)

lemma sample_separated: "separated ORI_SET_TABLE_SUFFIX {''k''}"
  by (simp add: separated_def)

lemma sample_fresh: "fresh_server ORI_SET_TABLE_SUFFIX {''k''} (started_server 2 i)"
  by (rule started_fresh) (simp_all add: sample_separated)

theorem oset_convergence_witness:
  "\<exists>s' t'. run os_deliver (started_server 2 0)
      [[''osadd'', ''k'', ''5'', ''0,0''], [''osrem'', ''k'', ''5'', ''0,0'']] = Some s' \<and>
    run os_deliver (started_server 2 1)
      [[''osrem'', ''k'', ''5'', ''0,0''], [''osadd'', ''k'', ''5'', ''0,0'']] = Some t' \<and>
    (\<forall>k \<in> {''k''}. \<forall>x. zscore s' k x = zscore t' k x)"
proof (rule oset_convergence)
  show "oset_view q (started_server 2 0) = oset_view q (started_server 2 1)" for q
    by (simp add: oset_view_def elem_def started_server_def)
qed (simp_all add: fresh_oset_inv(1)[OF sample_fresh] sample_osadd_ok sample_osrem_ok add_mset_commute)

theorem oset_add_wins_witness:
  "\<exists>s'. run os_deliver (started_server 2 0) [[''osadd'', ''k'', ''5'', ''0,0'']] = Some s' \<and>
    (\<forall>k \<in> {''k''}. \<forall>x. zscore s' k x = os_score x
      (let ms' = filter (\<lambda>m. os_target m = (k, x)) [[''osadd'', ''k'', ''5'', ''0,0'']]
       in \<not> os_added ms' \<subseteq> os_deleted ms'))"
  by (rule oset_add_wins[OF sample_fresh]) (simp add: sample_osadd_ok)

lemma sample_views:
  "zscore (started_server n i) k x = None" "os_clock q (started_server n i) = 0"
  "oset_view q (started_server n i) = ({}, {})"
  by (simp_all add: zscore_def os_clock_def oset_view_def elem_def started_server_def)

theorem osadd_user_witness:
  "\<exists>s' c' tag. call osaddCommand (started_server 2 0) (user_client [''osadd'', ''k'', ''5'']) = Some (s', c') \<and>
    replies c' = [ReplyOk] \<and> replicas s' = replicationBroadcast (replicas (started_server 2 0 :: ose server))
      [''osadd'', ''k'', ''5'', tag] \<and>
    sdsToLc tag = Some (lc_new (os_clock (''k'', ''5'') (started_server 2 0)) (p2p_id (started_server 2 0 :: ose server))) \<and>
    lc_new (os_clock (''k'', ''5'') (started_server 2 0)) (p2p_id (started_server 2 0 :: ose server))
      \<notin> fst (oset_view (''k'', ''5'') (started_server 2 0)) \<union> snd (oset_view (''k'', ''5'') (started_server 2 0)) \<and>
    oset_view (''k'', ''5'') s' = ({lc_new (os_clock (''k'', ''5'') (started_server 2 0)) (p2p_id (started_server 2 0 :: ose server))},
      snd (oset_view (''k'', ''5'') (started_server 2 0))) \<and>
    os_clock (''k'', ''5'') s' = os_clock (''k'', ''5'') (started_server 2 0) + 1 \<and>
    tag_text tag \<and> oset_inv {''k''} s' \<and> zscore s' ''k'' ''5'' = os_score ''5'' True \<and> os_own_tags s' ''k'' ''5''"
proof (rule osadd_user)
  show "getLongLongFromObject ''5'' = Some 5" by (rule sample_value)
qed (simp_all add: fresh_oset_inv(1)[OF sample_fresh] sample_views os_own_tags_def,
    simp_all add: started_server_def is_int32_def)

text \<open>A server on which the element has been added, for the commands that need one.\<close>

lemma sample_present:
  obtains s :: "ose server" where "oset_inv {''k''} s" "zscore s ''k'' ''5'' \<noteq> None" "card (fst (oset_view (''k'', ''5'') s)) = 1"
    "run os_deliver (started_server 2 0) [[''osadd'', ''k'', ''5'', ''0,0'']] = Some s"
proof -
  have "\<exists>s'. run os_deliver (started_server 2 0) [[''osadd'', ''k'', ''5'', ''0,0'']] = Some s' \<and> oset_inv {''k''} s' \<and>
      (\<forall>q. oset_view q s' = fold os_astep (filter (\<lambda>m. os_target m = q) [[''osadd'', ''k'', ''5'', ''0,0'']])
        (oset_view q (started_server 2 0)))"
    by (rule os.run_view[OF fresh_oset_inv(1)[OF sample_fresh]]) (simp add: sample_osadd_ok)
  then obtain s' where s': "run os_deliver (started_server 2 0) [[''osadd'', ''k'', ''5'', ''0,0'']] = Some s'"
    "oset_inv {''k''} s'" "oset_view (''k'', ''5'') s' = fold os_astep
      (filter (\<lambda>m. os_target m = (''k'', ''5'')) [[''osadd'', ''k'', ''5'', ''0,0'']])
      (oset_view (''k'', ''5'') (started_server 2 0))" by blast
  have "fst (oset_view (''k'', ''5'') s') = {\<lparr>lc_x = 0, lc_id = 0\<rparr>}"
    using s'(3) by (simp add: os_target_def os_astep_def sample_views parsed_tags_def sample_tag)
  then have "card (fst (oset_view (''k'', ''5'') s')) = 1" "zscore s' ''k'' ''5'' \<noteq> None" using oset_present[OF s'(2), of "''k''" "''5''"] by simp_all
  with s' that show ?thesis by blast
qed

theorem osrem_user_witness:
  "\<exists>s s' c' tags. oset_inv {''k''} s \<and> zscore s ''k'' ''5'' \<noteq> None \<and>
    call osremCommand s (user_client [''osrem'', ''k'', ''5'']) = Some (s', c') \<and>
    replies c' = [ReplyOk] \<and> replicas s' = replicationBroadcast (replicas s) (''osrem'' # ''k'' # ''5'' # tags) \<and>
    (\<forall>y \<in> set tags. tag_text y) \<and> parsed_tags tags = fst (oset_view (''k'', ''5'') s) \<and>
    oset_inv {''k''} s' \<and> zscore s' ''k'' ''5'' = None"
proof -
  obtain s :: "ose server" where s: "oset_inv {''k''} s" "zscore s ''k'' ''5'' \<noteq> None" "card (fst (oset_view (''k'', ''5'') s)) = 1"
    using sample_present .
  then show ?thesis using osrem_user[OF s(1) _ s(2), of "''osrem''"] by auto
qed

theorem oset_reject_witness:
  "if zscore (started_server 2 0 :: ose server) ''k'' ''5'' = None
   then call osremCommand (started_server 2 0) (user_client [''osrem'', ''k'', ''5'']) =
     Some (started_server 2 0, (user_client [''osrem'', ''k'', ''5''])\<lparr>replies := [ReplyEleNexist]\<rparr>)
   else call osaddCommand (started_server 2 0) (user_client [''osrem'', ''k'', ''5'']) =
     Some (started_server 2 0, (user_client [''osrem'', ''k'', ''5''])\<lparr>replies := [ReplyEleExist]\<rparr>)"
  by (rule oset_reject[OF fresh_oset_inv(1)[OF sample_fresh]]) simp

theorem ossize_correct_witness:
  "\<exists>s r. ossizeCommand s (user_client [''ossize'', ''k'']) =
      Some (s, (user_client [''ossize'', ''k''])\<lparr>replies := [r]\<rparr>) \<and>
    zscore s ''k'' ''5'' \<noteq> None \<and>
    (r = ReplyLongLong (int (card {x. zscore s ''k'' x \<noteq> None})) \<or> (db s ''k'' = None \<and> r = ReplyEmptyarray))"
proof -
  obtain s :: "ose server" where s: "oset_inv {''k''} s" "zscore s ''k'' ''5'' \<noteq> None"
    using sample_present by blast
  then show ?thesis using ossize_correct[OF s(1), of "''k''" "''ossize''"] by blast
qed

end
