(* ===== verification/OZset.thy ===== *)
theory OZset
  imports Server Delivery
begin

text \<open>
  The observed-remove sorted set of t_ozset.c. Every element carries the tags it has received and
  not seen removed (\<open>aset\<close>), each with an innate value, the sum of its increments and the sum of
  their absolute values, the removed tags (\<open>rset\<close>), and pointers to the entries that give its innate
  and its acquired value. List entries have addresses so that the pointers are explicit.
\<close>

section \<open>Element operations\<close>

text \<open>\<open>add_ase\<close> leaves \<open>x\<close> uninitialised, which is \<open>None\<close> here.\<close>

record oz_ase =
  oz_addr :: nat
  oz_t :: lc
  oz_x :: "double option"
  oz_inc :: double
  oz_count :: double

record oze =
  oze_current :: int
  oze_innate :: "nat option"
  oze_acquired :: "nat option"
  oze_aset :: "oz_ase list"
  oze_rset :: "lc list"
  oze_fresh :: nat

definition oz_aseToSds :: "oz_ase \<Rightarrow> sds option" where
  "oz_aseToSds a =
     do {
       x \<leftarrow> oz_x a;
       Some (''('' @ print_d (lc_x (oz_t a)) @ '','' @ print_d (lc_id (oz_t a)) @ ''),'' @
         print_f x @ '','' @ print_f (oz_inc a) @ '','' @ print_f (oz_count a))
     }"

definition ozeNew :: oze where
  "ozeNew = \<lparr>oze_current = 0, oze_innate = None, oze_acquired = None, oze_aset = [], oze_rset = [], oze_fresh = 0\<rparr>"

definition oze_deref :: "oze \<Rightarrow> nat \<Rightarrow> oz_ase option" where
  "oze_deref e p = find (\<lambda>a. oz_addr a = p) (oze_aset e)"

definition oz_LOOKUP :: "oze \<Rightarrow> bool" where
  "oz_LOOKUP e \<longleftrightarrow> length (oze_aset e) \<noteq> 0"

definition oz_SCORE :: "oze \<Rightarrow> double option" where
  "oz_SCORE e =
     do {
       i \<leftarrow> (case oze_innate e of None \<Rightarrow> Some dzero | Some p \<Rightarrow> do { a \<leftarrow> oze_deref e p; oz_x a });
       q \<leftarrow> (case oze_acquired e of None \<Rightarrow> Some dzero | Some p \<Rightarrow> map_option oz_inc (oze_deref e p));
       Some (dadd i q)
     }"

definition asetGet :: "oze \<Rightarrow> lc \<Rightarrow> bool \<Rightarrow> oze \<times> oz_ase option" where
  "asetGet e t delete =
     (case find (\<lambda>a. lc_cmp_as_tag t (oz_t a) = 0) (oze_aset e) of
        None \<Rightarrow> (e, None)
      | Some a \<Rightarrow> (if delete then e\<lparr>oze_aset := remove1 a (oze_aset e)\<rparr> else e, Some a))"

definition rsetGet :: "oze \<Rightarrow> lc \<Rightarrow> bool \<Rightarrow> oze \<times> lc option" where
  "rsetGet e t delete =
     (case find (\<lambda>a. lc_cmp_as_tag t a = 0) (oze_rset e) of
        None \<Rightarrow> (e, None)
      | Some a \<Rightarrow> (if delete then e\<lparr>oze_rset := remove1 a (oze_rset e)\<rparr> else e, Some a))"

definition add_ase :: "oze \<Rightarrow> lc \<Rightarrow> oze \<times> oz_ase" where
  "add_ase e t =
     (let a = \<lparr>oz_addr = oze_fresh e, oz_t = lc_dup t, oz_x = None, oz_inc = dzero, oz_count = dzero\<rparr>
      in (e\<lparr>oze_aset := oze_aset e @ [a], oze_fresh := Suc (oze_fresh e)\<rparr>, a))"

text \<open>Assignments through a pointer into \<open>aset\<close>.\<close>

definition oze_write :: "oze \<Rightarrow> nat \<Rightarrow> (oz_ase \<Rightarrow> oz_ase) \<Rightarrow> oze" where
  "oze_write e p f = e\<lparr>oze_aset := map (\<lambda>a. if oz_addr a = p then f a else a) (oze_aset e)\<rparr>"

text \<open>\<open>e->innate == NULL || lc_cmp_as_tag(e->innate->t, a->t) < 0\<close>\<close>

definition innate_less :: "oze \<Rightarrow> oz_ase \<Rightarrow> bool option" where
  "innate_less e a =
     (case oze_innate e of
        None \<Rightarrow> Some True
      | Some p \<Rightarrow> do { x \<leftarrow> oze_deref e p; Some (lc_cmp_as_tag (oz_t x) (oz_t a) < 0) })"

text \<open>
  The comparison of the acquired values, by the sum of the absolute increments, then by tag.
\<close>

definition acquired_less :: "oze \<Rightarrow> oz_ase \<Rightarrow> bool option" where
  "acquired_less e a =
     (case oze_acquired e of
        None \<Rightarrow> Some True
      | Some p \<Rightarrow>
          do {
            x \<leftarrow> oze_deref e p;
            Some (dlt (oz_count x) (oz_count a) \<or>
              (deq (oz_count x) (oz_count a) \<and> lc_cmp_as_tag (oz_t x) (oz_t a) < 0))
          })"

definition update_innate_value :: "oze \<Rightarrow> lc \<Rightarrow> double \<Rightarrow> (oze \<times> bool) option" where
  "update_innate_value e t v =
     (if snd (rsetGet e t False) \<noteq> None then Some (e, False)
      else let (e1, a) = (case snd (asetGet e t False) of Some a \<Rightarrow> (e, a) | None \<Rightarrow> add_ase e t);
               e2 = oze_write e1 (oz_addr a) (\<lambda>a. a\<lparr>oz_x := Some v\<rparr>)
           in do {
             b \<leftarrow> innate_less e2 a;
             if b then Some (e2\<lparr>oze_innate := Some (oz_addr a)\<rparr>, True) else Some (e2, False)
           })"

definition update_acquired_value :: "oze \<Rightarrow> lc \<Rightarrow> double \<Rightarrow> (oze \<times> bool) option" where
  "update_acquired_value e t v =
     (if snd (rsetGet e t False) \<noteq> None then Some (e, False)
      else let (e1, a0) = (case snd (asetGet e t False) of Some a \<Rightarrow> (e, a) | None \<Rightarrow> add_ase e t);
               a = a0\<lparr>oz_inc := dadd (oz_inc a0) v,
                      oz_count := dadd (oz_count a0) (if dlt dzero v then v else dneg v)\<rparr>;
               e2 = oze_write e1 (oz_addr a) (\<lambda>_. a)
           in if oze_acquired e2 = Some (oz_addr a) then Some (e2, True)
              else do {
                b \<leftarrow> acquired_less e2 a;
                if b then Some (e2\<lparr>oze_acquired := Some (oz_addr a)\<rparr>, True) else Some (e2, False)
              })"

definition remove_tag :: "oze \<Rightarrow> lc \<Rightarrow> oze" where
  "remove_tag e t =
     (if snd (rsetGet e t False) \<noteq> None then e
      else let e1 = e\<lparr>oze_rset := oze_rset e @ [lc_dup t]\<rparr>
           in case asetGet e1 t True of
                (e2, Some a) \<Rightarrow>
                  (let e3 = (if oze_innate e2 = Some (oz_addr a) then e2\<lparr>oze_innate := None\<rparr> else e2)
                   in if oze_acquired e3 = Some (oz_addr a) then e3\<lparr>oze_acquired := None\<rparr> else e3)
              | (e2, None) \<Rightarrow> e2)"

fun resort_loop :: "oz_ase list \<Rightarrow> oze \<Rightarrow> oze option" where
  "resort_loop [] e = Some e"
| "resort_loop (a # as) e =
     do {
       b \<leftarrow> innate_less e a;
       let e1 = (if b then e\<lparr>oze_innate := Some (oz_addr a)\<rparr> else e);
       c \<leftarrow> acquired_less e1 a;
       resort_loop as (if c then e1\<lparr>oze_acquired := Some (oz_addr a)\<rparr> else e1)
     }"

definition resort :: "oze \<Rightarrow> oze option" where
  "resort e =
     (if oze_innate e \<noteq> None \<and> oze_acquired e \<noteq> None then Some e else resort_loop (oze_aset e) e)"

section \<open>Commands\<close>

abbreviation (input) ORI_RPQ_TABLE_SUFFIX :: sds where
  "ORI_RPQ_TABLE_SUFFIX \<equiv> ''_ozets_''"

definition GET_OZE :: "oze server \<Rightarrow> sds \<Rightarrow> sds \<Rightarrow> bool \<Rightarrow> (oze server \<times> oze option) option" where
  "GET_OZE s key ele create = rehHTGet s key ORI_RPQ_TABLE_SUFFIX ele create ozeNew"

definition PUT_OZE :: "oze server \<Rightarrow> sds \<Rightarrow> sds \<Rightarrow> oze \<Rightarrow> oze server option" where
  "PUT_OZE s key ele e = rehHTPut s key ORI_RPQ_TABLE_SUFFIX ele e"

definition ozadd_prepare :: "oze prepare" where
  "ozadd_prepare s args =
     (if \<not> CHECK_ARGC args 4 then Some (s, Inl ReplySyntaxerr)
      else do {
        key \<leftarrow> arg args 1;
        if \<not> CHECK_CONTAINER_TYPE s key OBJ_ZSET then Some (s, Inl ReplyWrongtypeerr)
        else do {
          x \<leftarrow> arg args 3;
          if \<not> CHECK_ARG_TYPE_DOUBLE x then Some (s, Inl (ReplyError ''value is not a valid float''))
          else do {
            ele \<leftarrow> arg args 2;
            (s1, eo) \<leftarrow> GET_OZE s key ele True;
            e \<leftarrow> eo;
            if oz_LOOKUP e then Some (s1, Inl ReplyEleExist)
            else do {
              let t = lc_new (oze_current e) (p2p_id s1);
              s2 \<leftarrow> PUT_OZE s1 key ele (e\<lparr>oze_current := int32 (oze_current e + 1)\<rparr>);
              Some (s2, Inr [lcToSds t])
            }
          }
        }
      })"

definition ozadd_effect :: "oze effect" where
  "ozadd_effect s ra =
     do {
       x \<leftarrow> arg ra 3;
       v \<leftarrow> getDoubleFromObject x;
       tag \<leftarrow> arg ra 4;
       t \<leftarrow> sdsToLc tag;
       key \<leftarrow> arg ra 1;
       ele \<leftarrow> arg ra 2;
       (s1, eo) \<leftarrow> GET_OZE s key ele True;
       e \<leftarrow> eo;
       (e', changed) \<leftarrow> update_innate_value e t v;
       s2 \<leftarrow> PUT_OZE s1 key ele e';
       s3 \<leftarrow> (if changed then do { score \<leftarrow> oz_SCORE e'; server_zsetAdd s2 key ele score } else Some s2);
       Some (s3\<lparr>dirty := dirty s3 + 1\<rparr>)
     }"

definition ozaddCommand :: "oze command" where
  "ozaddCommand = crdt_command ozadd_prepare ozadd_effect"

text \<open>The tags of an element as arguments of a message.\<close>

definition ozincrby_prepare :: "oze prepare" where
  "ozincrby_prepare s args =
     (if \<not> CHECK_ARGC args 4 then Some (s, Inl ReplySyntaxerr)
      else do {
        key \<leftarrow> arg args 1;
        if \<not> CHECK_CONTAINER_TYPE s key OBJ_ZSET then Some (s, Inl ReplyWrongtypeerr)
        else do {
          x \<leftarrow> arg args 3;
          if \<not> CHECK_ARG_TYPE_DOUBLE x then Some (s, Inl (ReplyError ''value is not a valid float''))
          else do {
            ele \<leftarrow> arg args 2;
            (s1, eo) \<leftarrow> GET_OZE s key ele False;
            case eo of
              None \<Rightarrow> Some (s1, Inl ReplyEleNexist)
            | Some e \<Rightarrow>
                (if \<not> oz_LOOKUP e then Some (s1, Inl ReplyEleNexist)
                 else Some (s1, Inr (map (\<lambda>a. lcToSds (oz_t a)) (oze_aset e))))
          }
        }
      })"

fun oz_update_tags :: "sds list \<Rightarrow> double \<Rightarrow> oze \<Rightarrow> (oze \<times> bool) option" where
  "oz_update_tags [] v e = Some (e, False)"
| "oz_update_tags (x # xs) v e =
     do {
       t \<leftarrow> sdsToLc x;
       (e1, c) \<leftarrow> update_acquired_value e t v;
       (e2, d) \<leftarrow> oz_update_tags xs v e1;
       Some (e2, c \<or> d)
     }"

definition ozincrby_effect :: "oze effect" where
  "ozincrby_effect s ra =
     do {
       x \<leftarrow> arg ra 3;
       v \<leftarrow> getDoubleFromObject x;
       key \<leftarrow> arg ra 1;
       ele \<leftarrow> arg ra 2;
       (s1, eo) \<leftarrow> GET_OZE s key ele True;
       e \<leftarrow> eo;
       (e', changed) \<leftarrow> oz_update_tags (drop 4 ra) v e;
       s2 \<leftarrow> PUT_OZE s1 key ele e';
       s3 \<leftarrow> (if changed then do { score \<leftarrow> oz_SCORE e'; server_zsetAdd s2 key ele score } else Some s2);
       Some (s3\<lparr>dirty := dirty s3 + 1\<rparr>)
     }"

definition ozincrbyCommand :: "oze command" where
  "ozincrbyCommand = crdt_command ozincrby_prepare ozincrby_effect"

definition ozrem_prepare :: "oze prepare" where
  "ozrem_prepare s args =
     (if \<not> CHECK_ARGC args 3 then Some (s, Inl ReplySyntaxerr)
      else do {
        key \<leftarrow> arg args 1;
        if \<not> CHECK_CONTAINER_TYPE s key OBJ_ZSET then Some (s, Inl ReplyWrongtypeerr)
        else do {
          ele \<leftarrow> arg args 2;
          (s1, eo) \<leftarrow> GET_OZE s key ele False;
          case eo of
            None \<Rightarrow> Some (s1, Inl ReplyEleNexist)
          | Some e \<Rightarrow>
              (if \<not> oz_LOOKUP e then Some (s1, Inl ReplyEleNexist)
               else Some (s1, Inr (map (\<lambda>a. lcToSds (oz_t a)) (oze_aset e))))
        }
      })"

fun oz_remove_tags :: "sds list \<Rightarrow> oze \<Rightarrow> oze option" where
  "oz_remove_tags [] e = Some e"
| "oz_remove_tags (x # xs) e = do { t \<leftarrow> sdsToLc x; oz_remove_tags xs (remove_tag e t) }"

definition ozrem_effect :: "oze effect" where
  "ozrem_effect s ra =
     do {
       key \<leftarrow> arg ra 1;
       ele \<leftarrow> arg ra 2;
       (s1, eo) \<leftarrow> GET_OZE s key ele True;
       e \<leftarrow> eo;
       e1 \<leftarrow> oz_remove_tags (drop 3 ra) e;
       if oze_innate e1 = None \<or> oze_acquired e1 = None
       then do {
         e2 \<leftarrow> resort e1;
         s2 \<leftarrow> PUT_OZE s1 key ele e2;
         s3 \<leftarrow> (if oz_LOOKUP e2 then do { score \<leftarrow> oz_SCORE e2; server_zsetAdd s2 key ele score }
                else server_zsetDel s2 key ele);
         Some (s3\<lparr>dirty := dirty s3 + 1\<rparr>)
       }
       else do {
         s2 \<leftarrow> PUT_OZE s1 key ele e1;
         Some (s2\<lparr>dirty := dirty s2 + 1\<rparr>)
       }
     }"

definition ozremCommand :: "oze command" where
  "ozremCommand = crdt_command ozrem_prepare ozrem_effect"

definition ozscoreCommand :: "oze command" where
  "ozscoreCommand = zset_scoreCommand"

definition ozmaxCommand :: "oze command" where
  "ozmaxCommand = zset_maxCommand"

text \<open>A pointer field in the status reply: the entry, or an empty bulk for NULL.\<close>

definition oz_status_ptr :: "oze \<Rightarrow> nat option \<Rightarrow> reply option" where
  "oz_status_ptr e po =
     (case po of
        None \<Rightarrow> Some (ReplyBulk [])
      | Some p \<Rightarrow> do { a \<leftarrow> oze_deref e p; x \<leftarrow> oz_aseToSds a; Some (ReplyBulk x) })"

fun oz_status_aset :: "oz_ase list \<Rightarrow> reply list option" where
  "oz_status_aset [] = Some []"
| "oz_status_aset (a # as) =
     do { x \<leftarrow> oz_aseToSds a; rs \<leftarrow> oz_status_aset as; Some (ReplyBulk x # rs) }"

definition ozestatusCommand :: "oze command" where
  "ozestatusCommand s c =
     do {
       key \<leftarrow> arg (argv c) 1;
       ele \<leftarrow> arg (argv c) 2;
       (s1, eo) \<leftarrow> GET_OZE s key ele False;
       case eo of
         None \<Rightarrow> Some (s1, addReply c ReplyEmptyarray)
       | Some e \<Rightarrow>
           do {
             i \<leftarrow> oz_status_ptr e (oze_innate e);
             q \<leftarrow> oz_status_ptr e (oze_acquired e);
             as \<leftarrow> oz_status_aset (oze_aset e);
             Some (s1, addReplies c ([ReplyArrayLen (6 + length (oze_aset e) + length (oze_rset e)),
               ReplyBulk (''current:'' @ print_d (oze_current e)), ReplyBulk ''innate,acquired:'', i, q,
               ReplyBulk ''Add Set:''] @ as @ [ReplyBulk ''Remove Set:''] @
               map (\<lambda>t. ReplyBulk (lcToSds t)) (oze_rset e)))
           }
     }"

end
