(* ===== verification/RZset.thy ===== *)
theory RZset
  imports CausalBuffer
begin

text \<open>
  The remove-win sorted set of t_rzset.c with causal delivery. An element holds the adds that no
  later operation has overwritten (\<open>aset\<close>), the removes that no later add has overwritten
  (\<open>rset\<close>), a pointer \<open>value\<close> to the entry that gives its score, and the commands that wait for their
  causal predecessors (\<open>ops\<close>). List entries have addresses so that the pointer is explicit.
\<close>

section \<open>Element operations\<close>

record rz_ase =
  rz_addr :: nat
  rz_t :: vc
  rz_x :: double
  rz_inc :: double

datatype rz_cmd_type = RZADD | RZINCBY | RZREM

record rz_cmd =
  rz_type :: rz_cmd_type
  rz_cvalue :: double
  rz_ct :: vc

record rze =
  rze_current :: vc
  rze_value :: "nat option"
  rze_aset :: "rz_ase list"
  rze_rset :: "vc list"
  rze_ops :: "rz_cmd list"
  rze_fresh :: nat

definition rz_aseToSds :: "rz_ase \<Rightarrow> sds option" where
  "rz_aseToSds a =
     do { t \<leftarrow> vcToSds (rz_t a); Some (print_f (rz_x a) @ '' '' @ print_f (rz_inc a) @ '' '' @ t) }"

definition rzeNew :: "rze server \<Rightarrow> rze" where
  "rzeNew s = \<lparr>rze_current = server_vc s, rze_value = None, rze_aset = [], rze_rset = [], rze_ops = [], rze_fresh = 0\<rparr>"

definition rz_cmdToSds :: "rz_cmd \<Rightarrow> sds option" where
  "rz_cmdToSds cmd =
     do {
       t \<leftarrow> vcToSds (rz_ct cmd);
       Some ((case rz_type cmd of RZADD \<Rightarrow> ''RZADD'' | RZINCBY \<Rightarrow> ''RZINCBY'' | RZREM \<Rightarrow> ''RZREM'') @ '' '' @
         print_f (rz_cvalue cmd) @ '' '' @ t)
     }"

definition rz_cmdNew :: "rz_cmd_type \<Rightarrow> double \<Rightarrow> vc \<Rightarrow> rz_cmd" where
  "rz_cmdNew ty v t = \<lparr>rz_type = ty, rz_cvalue = v, rz_ct = t\<rparr>"

definition rze_deref :: "rze \<Rightarrow> nat \<Rightarrow> rz_ase option" where
  "rze_deref e p = find (\<lambda>a. rz_addr a = p) (rze_aset e)"

definition rz_LOOKUP :: "rze \<Rightarrow> bool" where
  "rz_LOOKUP e \<longleftrightarrow> length (rze_aset e) \<noteq> 0 \<and> length (rze_rset e) = 0"

text \<open>\<open>SCORE\<close> follows \<open>value\<close> without a check for NULL.\<close>

definition rz_SCORE :: "rze \<Rightarrow> double option" where
  "rz_SCORE e =
     do { p \<leftarrow> rze_value e; a \<leftarrow> rze_deref e p; Some (dadd (rz_x a) (rz_inc a)) }"

text \<open>The loop that deletes the entries of \<open>aset\<close> below \<open>t\<close>, and the test whether it deleted one.\<close>

definition rz_below :: "vc \<Rightarrow> rz_ase \<Rightarrow> bool" where
  "rz_below t a \<longleftrightarrow> vc_cmp (rz_t a) t = VC_LESS"

definition rz_delete_below :: "vc \<Rightarrow> rze \<Rightarrow> rze \<times> bool" where
  "rz_delete_below t e =
     (let dead = filter (rz_below t) (rze_aset e)
      in (e\<lparr>rze_aset := filter (\<lambda>a. \<not> rz_below t a) (rze_aset e),
            rze_value := (case rze_value e of
                            None \<Rightarrow> None
                          | Some p \<Rightarrow> if list_ex (\<lambda>a. rz_addr a = p) dead then None else Some p)\<rparr>,
          dead \<noteq> []))"

text \<open>\<open>e->value == NULL || e->value->t->id < i\<close>\<close>

definition value_id_less :: "rze \<Rightarrow> int \<Rightarrow> bool option" where
  "value_id_less e i =
     (case rze_value e of
        None \<Rightarrow> Some True
      | Some p \<Rightarrow> do { x \<leftarrow> rze_deref e p; Some (vc_id (rz_t x) < i) })"

fun rz_pick :: "rz_ase list \<Rightarrow> rze \<Rightarrow> rze option" where
  "rz_pick [] e = Some e"
| "rz_pick (a # as) e =
     do {
       b \<leftarrow> value_id_less e (vc_id (rz_t a));
       rz_pick as (if b then e\<lparr>rze_value := Some (rz_addr a)\<rparr> else e)
     }"

definition rz_addFunc ::
    "sds \<Rightarrow> sds \<Rightarrow> double \<Rightarrow> vc \<Rightarrow> rze server \<times> rze \<Rightarrow> (rze server \<times> rze) option" where
  "rz_addFunc tname key v t se =
     (let (s, e) = se;
          a = \<lparr>rz_addr = rze_fresh e, rz_t = vc_dup t, rz_x = v, rz_inc = dzero\<rparr>;
          e1 = e\<lparr>rze_aset := rze_aset e @ [a], rze_fresh := Suc (rze_fresh e)\<rparr>;
          (e2, removed) = rz_delete_below t e1;
          e3 = e2\<lparr>rze_rset := filter (\<lambda>r. vc_cmp r t \<noteq> VC_LESS) (rze_rset e2)\<rparr>
      in do {
        e4 \<leftarrow> (if removed \<and> rze_value e3 = None then rz_pick (rze_aset e3) e3 else Some e3);
        b \<leftarrow> value_id_less e4 (vc_id t);
        let e5 = (if b then e4\<lparr>rze_value := Some (rz_addr a)\<rparr> else e4);
        s1 \<leftarrow> (if rz_LOOKUP e5 then do { score \<leftarrow> rz_SCORE e5; server_zsetAdd s tname key score } else Some s);
        Some (s1\<lparr>dirty := dirty s1 + 1\<rparr>, e5\<lparr>rze_current := vc_update (rze_current e5) t\<rparr>)
      })"

text \<open>\<open>LOOKUP(e) && vc_cmp(e->value->t, t) == VC_LESS\<close>\<close>

definition rz_value_below :: "vc \<Rightarrow> rze \<Rightarrow> bool option" where
  "rz_value_below t e =
     (if rz_LOOKUP e then do { p \<leftarrow> rze_value e; a \<leftarrow> rze_deref e p; Some (vc_cmp (rz_t a) t = VC_LESS) }
      else Some False)"

definition rz_increaseFunc ::
    "sds \<Rightarrow> sds \<Rightarrow> double \<Rightarrow> vc \<Rightarrow> rze server \<times> rze \<Rightarrow> (rze server \<times> rze) option" where
  "rz_increaseFunc tname key v t se =
     (let (s, e) = se;
          e1 = e\<lparr>rze_aset := map (\<lambda>a. if rz_below t a then a\<lparr>rz_inc := dadd (rz_inc a) v\<rparr> else a) (rze_aset e)\<rparr>
      in do {
        b \<leftarrow> rz_value_below t e1;
        s1 \<leftarrow> (if b then do { score \<leftarrow> rz_SCORE e1; server_zsetAdd s tname key score } else Some s);
        Some (s1\<lparr>dirty := dirty s1 + 1\<rparr>, e1\<lparr>rze_current := vc_update (rze_current e1) t\<rparr>)
      })"

definition rz_removeFunc ::
    "sds \<Rightarrow> sds \<Rightarrow> vc \<Rightarrow> rze server \<times> rze \<Rightarrow> (rze server \<times> rze) option" where
  "rz_removeFunc tname key t se =
     (let (s, e) = se;
          e1 = e\<lparr>rze_rset := rze_rset e @ [vc_dup t]\<rparr>;
          e2 = fst (rz_delete_below t e1)
      in do {
        e3 \<leftarrow> (if rze_value e2 = None then rz_pick (rze_aset e2) e2 else Some e2);
        s1 \<leftarrow> (if \<not> rz_LOOKUP e3 then server_zsetDel s tname key else Some s);
        Some (s1\<lparr>dirty := dirty s1 + 1\<rparr>, e3\<lparr>rze_current := vc_update (rze_current e3) t\<rparr>)
      })"

definition rz_apply :: "sds \<Rightarrow> sds \<Rightarrow> rz_cmd \<Rightarrow> rze server \<times> rze \<Rightarrow> (rze server \<times> rze) option" where
  "rz_apply tname key cmd se =
     (case rz_type cmd of
        RZADD \<Rightarrow> rz_addFunc tname key (rz_cvalue cmd) (rz_ct cmd) se
      | RZINCBY \<Rightarrow> rz_increaseFunc tname key (rz_cvalue cmd) (rz_ct cmd) se
      | RZREM \<Rightarrow> rz_removeFunc tname key (rz_ct cmd) se)"

definition rz_notifyLoop ::
    "sds \<Rightarrow> sds \<Rightarrow> rze server \<times> rze \<Rightarrow> rz_cmd list \<Rightarrow> ((rze server \<times> rze) \<times> rz_cmd list) option" where
  "rz_notifyLoop tname key = notify_loop (rze_current \<circ> snd) rz_ct (rz_apply tname key)"

section \<open>Commands\<close>

abbreviation (input) RW_RPQ_TABLE_SUFFIX :: sds where
  "RW_RPQ_TABLE_SUFFIX \<equiv> ''_rzets_''"

definition GET_RZE :: "rze server \<Rightarrow> sds \<Rightarrow> sds \<Rightarrow> bool \<Rightarrow> (rze server \<times> rze option) option" where
  "GET_RZE s key ele create = rehHTGet s key RW_RPQ_TABLE_SUFFIX ele create (rzeNew s)"

definition PUT_RZE :: "rze server \<Rightarrow> sds \<Rightarrow> sds \<Rightarrow> rze \<Rightarrow> rze server option" where
  "PUT_RZE s key ele e = rehHTPut s key RW_RPQ_TABLE_SUFFIX ele e"

text \<open>
  The common end of the three effect phases: apply the command and run \<open>notifyLoop\<close> if it is causally
  ready, put it into \<open>ops\<close> otherwise.
\<close>

definition rz_receive :: "rze server \<Rightarrow> sds \<Rightarrow> sds \<Rightarrow> rz_cmd \<Rightarrow> rze server option" where
  "rz_receive s key ele cmd =
     do {
       (s1, eo) \<leftarrow> GET_RZE s key ele True;
       e \<leftarrow> eo;
       ready \<leftarrow> vc_causally_ready (rze_current e) (rz_ct cmd);
       if ready
       then do {
         se \<leftarrow> rz_apply key ele cmd (s1, e);
         ((s2, e2), ops) \<leftarrow> rz_notifyLoop key ele se (rze_ops e);
         PUT_RZE s2 key ele (e2\<lparr>rze_ops := ops\<rparr>)
       }
       else PUT_RZE s1 key ele (e\<lparr>rze_ops := rze_ops e @ [cmd]\<rparr>)
     }"

definition rzadd_prepare :: "rze prepare" where
  "rzadd_prepare s args =
     (if \<not> CHECK_ARGC args 4 then Some (s, Inl ReplySyntaxerr)
      else do {
        key \<leftarrow> arg args 1;
        if \<not> CHECK_CONTAINER_TYPE s key OBJ_ZSET then Some (s, Inl ReplyWrongtypeerr)
        else do {
          x \<leftarrow> arg args 3;
          if \<not> CHECK_ARG_TYPE_DOUBLE x then Some (s, Inl (ReplyError ''value is not a valid float''))
          else do {
            ele \<leftarrow> arg args 2;
            (s1, eo) \<leftarrow> GET_RZE s key ele True;
            e \<leftarrow> eo;
            if rz_LOOKUP e then Some (s1, Inl ReplyEleExist)
            else do { t \<leftarrow> vc_now (rze_current e); Some (s1, Inr [t]) }
          }
        }
      })"

definition rzadd_effect :: "rze effect" where
  "rzadd_effect s ra =
     do {
       x \<leftarrow> arg ra 3;
       v \<leftarrow> getDoubleFromObject x;
       tx \<leftarrow> arg ra 4;
       t \<leftarrow> sdsToVC tx;
       key \<leftarrow> arg ra 1;
       ele \<leftarrow> arg ra 2;
       rz_receive s key ele (rz_cmdNew RZADD v t)
     }"

definition rzaddCommand :: "rze command" where
  "rzaddCommand = crdt_command rzadd_prepare rzadd_effect"

definition rzincrby_prepare :: "rze prepare" where
  "rzincrby_prepare s args =
     (if \<not> CHECK_ARGC args 4 then Some (s, Inl ReplySyntaxerr)
      else do {
        key \<leftarrow> arg args 1;
        if \<not> CHECK_CONTAINER_TYPE s key OBJ_ZSET then Some (s, Inl ReplyWrongtypeerr)
        else do {
          x \<leftarrow> arg args 3;
          if \<not> CHECK_ARG_TYPE_DOUBLE x then Some (s, Inl (ReplyError ''value is not a valid float''))
          else do {
            ele \<leftarrow> arg args 2;
            (s1, eo) \<leftarrow> GET_RZE s key ele False;
            case eo of
              None \<Rightarrow> Some (s1, Inl ReplyEleNexist)
            | Some e \<Rightarrow>
                (if \<not> rz_LOOKUP e then Some (s1, Inl ReplyEleNexist)
                 else do { t \<leftarrow> vc_now (rze_current e); Some (s1, Inr [t]) })
          }
        }
      })"

definition rzincrby_effect :: "rze effect" where
  "rzincrby_effect s ra =
     do {
       x \<leftarrow> arg ra 3;
       v \<leftarrow> getDoubleFromObject x;
       tx \<leftarrow> arg ra 4;
       t \<leftarrow> sdsToVC tx;
       key \<leftarrow> arg ra 1;
       ele \<leftarrow> arg ra 2;
       rz_receive s key ele (rz_cmdNew RZINCBY v t)
     }"

definition rzincrbyCommand :: "rze command" where
  "rzincrbyCommand = crdt_command rzincrby_prepare rzincrby_effect"

definition rzrem_prepare :: "rze prepare" where
  "rzrem_prepare s args =
     (if \<not> CHECK_ARGC args 3 then Some (s, Inl ReplySyntaxerr)
      else do {
        key \<leftarrow> arg args 1;
        if \<not> CHECK_CONTAINER_TYPE s key OBJ_ZSET then Some (s, Inl ReplyWrongtypeerr)
        else do {
          ele \<leftarrow> arg args 2;
          (s1, eo) \<leftarrow> GET_RZE s key ele False;
          case eo of
            None \<Rightarrow> Some (s1, Inl ReplyEleNexist)
          | Some e \<Rightarrow>
              (if \<not> rz_LOOKUP e then Some (s1, Inl ReplyEleNexist)
               else do { t \<leftarrow> vc_now (rze_current e); Some (s1, Inr [t]) })
        }
      })"

definition rzrem_effect :: "rze effect" where
  "rzrem_effect s ra =
     do {
       tx \<leftarrow> arg ra 3;
       t \<leftarrow> sdsToVC tx;
       key \<leftarrow> arg ra 1;
       ele \<leftarrow> arg ra 2;
       rz_receive s key ele (rz_cmdNew RZREM dzero t)
     }"

definition rzremCommand :: "rze command" where
  "rzremCommand = crdt_command rzrem_prepare rzrem_effect"

definition rzscoreCommand :: "rze command" where
  "rzscoreCommand = zset_scoreCommand"

definition rzmaxCommand :: "rze command" where
  "rzmaxCommand = zset_maxCommand"

text \<open>
  The status query prints the entry \<open>value\<close> points to, without a check for NULL, which is a fault for
  an element all of whose adds have been removed.
\<close>

definition sds_replies :: "sds option list \<Rightarrow> reply list option" where
  "sds_replies xs = (if None \<in> set xs then None else Some (map (\<lambda>x. ReplyBulk (the x)) xs))"

definition rzestatusCommand :: "rze command" where
  "rzestatusCommand s c =
     do {
       key \<leftarrow> arg (argv c) 1;
       ele \<leftarrow> arg (argv c) 2;
       (s1, eo) \<leftarrow> GET_RZE s key ele False;
       case eo of
         None \<Rightarrow> Some (s1, addReply c ReplyEmptyarray)
       | Some e \<Rightarrow>
           do {
             let entry = do { p \<leftarrow> rze_value e; a \<leftarrow> rze_deref e p; rz_aseToSds a };
             rs \<leftarrow> sds_replies ([Some ''current:'', vcToSds (rze_current e), Some ''value:'', entry, Some ''Add Set:''] @
               map rz_aseToSds (rze_aset e) @ [Some ''Remove Set:''] @ map vcToSds (rze_rset e) @
               [Some ''unready commands:''] @ map rz_cmdToSds (rze_ops e));
             Some (s1, addReplies c
               (ReplyArrayLen (7 + length (rze_aset e) + length (rze_rset e) + length (rze_ops e)) # rs))
           }
     }"

end
