(* ===== verification/RWFSet.thy ===== *)
theory RWFSet
  imports RWFramework
begin

text \<open>
  The set of t_rwfset.c in the remove-win framework. The commands \<open>rwfsadd\<close>, \<open>rwfsrem\<close>,
  \<open>rwfscontains\<close>, \<open>rwfssize\<close> are also bound to the names \<open>rsadd\<close>, \<open>rsrem\<close>, \<open>rscontains\<close>,
  \<open>rssize\<close> in the command table.
\<close>

section \<open>Definitions\<close>

abbreviation (input) RWF_SET_TABLE_SUFFIX :: sds where
  "RWF_SET_TABLE_SUFFIX \<equiv> ''_rwfsets_''"

record rwfse = reh +
  rwfs_value :: "int option"

definition rwfseNew :: "rwfse server \<Rightarrow> rwfse" where
  "rwfseNew s = \<lparr>PID = PID_NEXIST, CURRENT = server_vc s, rwfs_value = None\<rparr>"

definition GET_RWFSE :: "rwfse server \<Rightarrow> sds \<Rightarrow> sds \<Rightarrow> bool \<Rightarrow> (rwfse server \<times> rwfse option) option" where
  "GET_RWFSE s key ele create = rehHTGet s key RWF_SET_TABLE_SUFFIX ele create (rwfseNew s)"

definition PUT_RWFSE :: "rwfse server \<Rightarrow> sds \<Rightarrow> sds \<Rightarrow> rwfse \<Rightarrow> rwfse server option" where
  "PUT_RWFSE s key ele e = rehHTPut s key RWF_SET_TABLE_SUFFIX ele e"

definition rwfs_removeFunc ::
    "rwfse server \<Rightarrow> sds \<Rightarrow> sds \<Rightarrow> rwfse \<Rightarrow> vc \<Rightarrow> (rwfse server \<times> rwfse) option" where
  "rwfs_removeFunc s key ele e t =
     do {
       (e1, removed) \<leftarrow> removeCheck e t;
       if removed
       then do {
         s1 \<leftarrow> PUT_RWFSE s key ele e1;
         s2 \<leftarrow> server_zsetDel s1 key ele;
         Some (s2\<lparr>dirty := dirty s2 + 1\<rparr>, e1)
       }
       else Some (s, e1)
     }"

definition rwfsadd_prepare :: "rwfse prepare" where
  "rwfsadd_prepare s args =
     (if \<not> CHECK_ARGC args 3 then Some (s, Inl ReplySyntaxerr)
      else do {
        key \<leftarrow> arg args 1;
        if \<not> CHECK_CONTAINER_TYPE s key OBJ_ZSET then Some (s, Inl ReplyWrongtypeerr)
        else do {
          ele \<leftarrow> arg args 2;
          if \<not> CHECK_ARG_TYPE_INT ele then Some (s, Inl (ReplyError ''value is not an integer''))
          else do {
            (s1, eo) \<leftarrow> GET_RWFSE s key ele True;
            e \<leftarrow> eo;
            if \<not> PREPARE_PRECOND_ADD e then Some (s1, Inl ReplyEleExist)
            else do { t \<leftarrow> ADD_CR_NON_RMV e; Some (s1, Inr [t]) }
          }
        }
      })"

definition rwfsadd_effect :: "rwfse effect" where
  "rwfsadd_effect s ra =
     do {
       key \<leftarrow> arg ra 1;
       ele \<leftarrow> arg ra 2;
       let v = (case getLongLongFromObject ele of None \<Rightarrow> 0 | Some v \<Rightarrow> v);
       t \<leftarrow> CR_GET_LAST ra;
       (s1, eo) \<leftarrow> GET_RWFSE s key ele True;
       e \<leftarrow> eo;
       (s2, e1) \<leftarrow> rwfs_removeFunc s1 key ele e t;
       let (e2, added) = addCheck e1 t;
       if added
       then do {
         s3 \<leftarrow> PUT_RWFSE s2 key ele (e2\<lparr>rwfs_value := Some (int32 v)\<rparr>);
         s4 \<leftarrow> server_zsetAdd s3 key ele (double_of_int (int32 v));
         Some (s4\<lparr>dirty := dirty s4 + 1\<rparr>)
       }
       else Some s2
     }"

definition rwfsaddCommand :: "rwfse command" where
  "rwfsaddCommand = crdt_command rwfsadd_prepare rwfsadd_effect"

definition rwfsrem_prepare :: "rwfse prepare" where
  "rwfsrem_prepare s args =
     (if \<not> CHECK_ARGC args 3 then Some (s, Inl ReplySyntaxerr)
      else do {
        key \<leftarrow> arg args 1;
        if \<not> CHECK_CONTAINER_TYPE s key OBJ_ZSET then Some (s, Inl ReplyWrongtypeerr)
        else do {
          ele \<leftarrow> arg args 2;
          (s1, eo) \<leftarrow> GET_RWFSE s key ele False;
          if \<not> PREPARE_PRECOND_NON_ADD eo then Some (s1, Inl ReplyEleNexist)
          else do { e \<leftarrow> eo; t \<leftarrow> ADD_CR_RMV e; Some (s1, Inr [t]) }
        }
      })"

definition rwfsrem_effect :: "rwfse effect" where
  "rwfsrem_effect s ra =
     do {
       key \<leftarrow> arg ra 1;
       ele \<leftarrow> arg ra 2;
       (s1, eo) \<leftarrow> GET_RWFSE s key ele True;
       e \<leftarrow> eo;
       t \<leftarrow> CR_GET_LAST ra;
       (s2, e1) \<leftarrow> rwfs_removeFunc s1 key ele e t;
       Some s2
     }"

definition rwfsremCommand :: "rwfse command" where
  "rwfsremCommand = crdt_command rwfsrem_prepare rwfsrem_effect"

definition rwfscontainsCommand :: "rwfse command" where
  "rwfscontainsCommand = zset_containsCommand"

definition rwfssizeCommand :: "rwfse command" where
  "rwfssizeCommand = zset_sizeCommand"

text \<open>
  \<open>rwfsestatusCommand\<close> announces an array of five elements and sends four; \<open>value\<close> is read
  although \<open>rwfseNew\<close> leaves it uninitialised.
\<close>

definition rwfsestatusCommand :: "rwfse command" where
  "rwfsestatusCommand s c =
     do {
       key \<leftarrow> arg (argv c) 1;
       ele \<leftarrow> arg (argv c) 2;
       (s1, eo) \<leftarrow> GET_RWFSE s key ele False;
       case eo of
         None \<Rightarrow> Some (s1, addReply c ReplyEmptyarray)
       | Some e \<Rightarrow>
           do {
             t \<leftarrow> vcToSds (CURRENT e);
             v \<leftarrow> rwfs_value e;
             Some (s1, addReplies c [ReplyArrayLen 5, ReplyBulk (''add id:'' @ print_d (PID e)),
               ReplyBulk ''current:'', ReplyBulk t, ReplyBulk (''value:'' @ print_d v)])
           }
     }"

section \<open>Invariant and view\<close>

definition rwfs_inv :: "rwfse server \<Rightarrow> sds \<Rightarrow> rwfse option \<Rightarrow> double option \<Rightarrow> bool" where
  "rwfs_inv s x eo z =
     (case eo of
        None \<Rightarrow> z = None
      | Some e \<Rightarrow> vc_wf (nat (p2p_count s)) (CURRENT e) \<and> vc_id (CURRENT e) = p2p_id s \<and>
          (\<forall>v \<in> set (vector (CURRENT e)). 0 \<le> v) \<and> PID_NEXIST \<le> PID e \<and>
          (if EXISTS e then rwfs_value e \<noteq> None \<and> rwfs_value e = map_option int32 (getLongLongFromObject x) \<and>
             z = map_option double_of_int (rwfs_value e)
           else z = None))"

definition rwfset_inv :: "nat \<Rightarrow> sds set \<Rightarrow> rwfse server \<Rightarrow> bool" where
  "rwfset_inv n K s \<longleftrightarrow> store_inv RWF_SET_TABLE_SUFFIX K s \<and> replica_ok n s \<and>
     (\<forall>k \<in> K. \<forall>x. rwfs_inv s x (elem RWF_SET_TABLE_SUFFIX s k x) (zscore s k x))"

definition rwfset_view :: "nat \<Rightarrow> sds \<times> sds \<Rightarrow> rwfse server \<Rightarrow> int list \<times> int" where
  "rwfset_view n q s =
     (case elem RWF_SET_TABLE_SUFFIX s (fst q) (snd q) of
        None \<Rightarrow> (replicate n 0, PID_NEXIST)
      | Some e \<Rightarrow> (vector (CURRENT e), PID e))"

definition rwfs_msg_ok :: "nat \<Rightarrow> sds set \<Rightarrow> sds list \<Rightarrow> bool" where
  "rwfs_msg_ok n K m \<longleftrightarrow> length m = 4 \<and> m ! 1 \<in> K \<and> vc_text n (last m) \<and>
     (if m ! 0 = ''rwfsadd'' then getLongLongFromObject (m ! 2) \<noteq> None else m ! 0 = ''rwfsrem'')"

definition rwfs_act :: "sds list \<Rightarrow> int \<Rightarrow> int" where
  "rwfs_act m pid = (if m ! 0 = ''rwfsadd'' then max pid (vc_id (last_vc m)) else pid)"

definition rwfs_astep :: "sds list \<Rightarrow> int list \<times> int \<Rightarrow> int list \<times> int" where
  "rwfs_astep = stamped_step vle vjoin msg_stamp rwfs_act PID_NEXIST"

definition rwfs_deliver :: "rwfse server \<Rightarrow> sds list \<Rightarrow> rwfse server option" where
  "rwfs_deliver s m = deliver (if m ! 0 = ''rwfsadd'' then rwfsaddCommand else rwfsremCommand) s m"

section \<open>Effects\<close>

lemma rwfs_removeFunc_spec:
  assumes upd: "store_upd RWF_SET_TABLE_SUFFIX K s k x e z s1" and k: "k \<in> K"
    and sz: "vc_size t = vc_size (CURRENT e)"
  shows "\<exists>s2 e1 z1. rwfs_removeFunc s1 k x e t = Some (s2, e1) \<and>
    store_upd RWF_SET_TABLE_SUFFIX K s k x e1 z1 s2 \<and>
    (if vle (vector t) (vector (CURRENT e)) then e1 = e \<and> z1 = z else e1 = REH_RMV_FUNC e t \<and> z1 = None)"
proof (cases "vle (vector t) (vector (CURRENT e))")
  case True
  then show ?thesis using upd by (simp add: rwfs_removeFunc_def removeCheck_spec[OF sz])
next
  case False
  obtain s2 where s2: "rehHTPut s1 k RWF_SET_TABLE_SUFFIX x (REH_RMV_FUNC e t) = Some s2"
    "store_upd RWF_SET_TABLE_SUFFIX K s k x (REH_RMV_FUNC e t) z s2"
    using store_upd_put[OF upd k] by blast
  obtain s3 where "server_zsetDel s2 k x = Some s3"
    "store_upd RWF_SET_TABLE_SUFFIX K s k x (REH_RMV_FUNC e t) None s3"
    using store_upd_zdel[OF s2(2) k] by blast
  then show ?thesis
    using False s2(1) by (simp add: rwfs_removeFunc_def removeCheck_spec[OF sz] PUT_RWFSE_def)
qed

lemma rwfs_inv_env: "p2p_count s' = p2p_count s \<Longrightarrow> p2p_id s' = p2p_id s \<Longrightarrow> rwfs_inv s' = rwfs_inv s"
  by (intro ext) (simp add: rwfs_inv_def split: option.split)

lemma rwfset_inv_update:
  assumes inv: "rwfset_inv n K s" and k: "k \<in> K"
    and upd: "store_upd RWF_SET_TABLE_SUFFIX K s k x e z s'" and e: "rwfs_inv s x (Some e) z"
  shows "rwfset_inv n K s' \<and> senv s' = senv s \<and>
    (\<forall>q. rwfset_view n q s' = (if q = (k, x) then (vector (CURRENT e), PID e) else rwfset_view n q s))"
proof -
  have env: "p2p_id s' = p2p_id s" "p2p_count s' = p2p_count s"
    using upd by (simp_all add: store_upd_def senv_def)
  then have same: "rwfs_inv s' = rwfs_inv s" by (rule rwfs_inv_env[rotated])
  have "rwfset_inv n K s'" using inv upd e env
    by (simp add: rwfset_inv_def store_upd_def replica_ok_def same)
  then show ?thesis using upd by (simp add: rwfset_view_def store_upd_def prod_eq_iff)
qed

lemma rwfs_elem:
  assumes inv: "rwfset_inv n K s" and k: "k \<in> K"
    and e_def: "e = (case elem RWF_SET_TABLE_SUFFIX s k x of None \<Rightarrow> rwfseNew s | Some e \<Rightarrow> e)"
  shows "rwfs_inv s x (Some e) (zscore s k x)" "vc_size (CURRENT e) = n"
    "rwfset_view n (k, x) s = (vector (CURRENT e), PID e)"
proof -
  have i: "rwfs_inv s x (elem RWF_SET_TABLE_SUFFIX s k x) (zscore s k x)" and r: "replica_ok n s"
    using inv k by (simp_all add: rwfset_inv_def)
  show "rwfs_inv s x (Some e) (zscore s k x)"
    using i r by (auto simp: e_def rwfs_inv_def rwfseNew_def server_vc_def vc_wf_def vc_new_def vc_size_def
        replica_ok_def EXISTS_def is_int32_def split: option.splits)
  then show "vc_size (CURRENT e) = n" using r by (simp add: rwfs_inv_def vc_wf_def replica_ok_def)
  show "rwfset_view n (k, x) s = (vector (CURRENT e), PID e)" using r
    by (simp add: e_def rwfset_view_def rwfseNew_def server_vc_def vc_new_def replica_ok_def split: option.split)
qed

lemma rwfs_RMV_inv:
  assumes "rwfs_inv s x (Some e) z" "vc_size t = vc_size (CURRENT e)" "\<forall>v \<in> set (vector t). 0 \<le> v \<and> is_int32 v"
  shows "rwfs_inv s x (Some (REH_RMV_FUNC e t)) None"
proof -
  have "set (vjoin (vector (CURRENT e)) (vector t)) \<subseteq> set (vector (CURRENT e)) \<union> set (vector t)"
    by (rule vjoin_set)
  then show ?thesis using assms
    by (auto simp: rwfs_inv_def EXISTS_def vc_wf_def vc_update_vjoin vc_size_def[symmetric])
qed

text \<open>Up to the remove history, both effects begin in the same way.\<close>

lemma rwfs_effect_begin:
  assumes inv: "rwfset_inv n K s" and k: "k \<in> K" and tx: "vc_text n tx" and m: "m = [c, k, x, tx]"
  obtains s1 e s2 e1 z1 where "GET_RWFSE s k x True = Some (s1, Some e)" "CR_GET_LAST m = Some (last_vc m)"
    "rwfs_removeFunc s1 k x e (last_vc m) = Some (s2, e1)"
    "store_upd RWF_SET_TABLE_SUFFIX K s k x e1 z1 s2" "rwfs_inv s x (Some e1) z1"
    "(vector (CURRENT e1), PID e1) = (if vle (msg_stamp m) (fst (rwfset_view n (k, x) s)) then rwfset_view n (k, x) s
       else (vjoin (fst (rwfset_view n (k, x) s)) (msg_stamp m), PID_NEXIST))"
proof -
  define e where "e = (case elem RWF_SET_TABLE_SUFFIX s k x of None \<Rightarrow> rwfseNew s | Some e \<Rightarrow> e)"
  note el = rwfs_elem[OF inv k e_def]
  have st: "store_inv RWF_SET_TABLE_SUFFIX K s" using inv by (simp add: rwfset_inv_def)
  obtain s1 where s1: "rehHTGet s k RWF_SET_TABLE_SUFFIX x True (rwfseNew s) = Some (s1, Some e)"
    "put_ok RWF_SET_TABLE_SUFFIX K s s1 k x (zscore s k x)" "senv s1 = senv s"
    "store_upd RWF_SET_TABLE_SUFFIX K s k x e (zscore s k x) s1"
    using store_modify[OF st k, of x "rwfseNew s", folded e_def] .
  have t: "vc_text n (last m)" "m \<noteq> []" using tx m by simp_all
  note vt = vc_text_last[OF t]
  have sz: "vc_size (last_vc m) = vc_size (CURRENT e)" using vt(2) el(2) by simp
  have nn: "\<forall>v \<in> set (vector (last_vc m)). 0 \<le> v \<and> is_int32 v"
    by (rule vc_text_entries[OF t(1)])
  obtain s2 e1 z1 where r: "rwfs_removeFunc s1 k x e (last_vc m) = Some (s2, e1)"
    "store_upd RWF_SET_TABLE_SUFFIX K s k x e1 z1 s2"
    "if vle (vector (last_vc m)) (vector (CURRENT e)) then e1 = e \<and> z1 = zscore s k x
     else e1 = REH_RMV_FUNC e (last_vc m) \<and> z1 = None"
    using rwfs_removeFunc_spec[OF s1(4) k sz] by blast
  have "rwfs_inv s x (Some e1) z1"
    using r(3) el(1) rwfs_RMV_inv[OF el(1) sz nn] by (simp split: if_splits)
  moreover have "(vector (CURRENT e1), PID e1) = (if vle (msg_stamp m) (fst (rwfset_view n (k, x) s)) then rwfset_view n (k, x) s
       else (vjoin (fst (rwfset_view n (k, x) s)) (msg_stamp m), PID_NEXIST))"
    using r(3) el(3) sz by (auto simp: msg_stamp_def vc_update_vjoin)
  ultimately show ?thesis using that s1(1) vt(1) r(1,2) by (simp add: GET_RWFSE_def)
qed

lemma rwfsadd_effect_spec:
  assumes inv: "rwfset_inv n K s" and k: "k \<in> K" and tx: "vc_text n tx" and v: "getLongLongFromObject x \<noteq> None"
    and m: "m = [''rwfsadd'', k, x, tx]"
  shows "\<exists>s'. rwfsadd_effect s m = Some s' \<and> rwfset_inv n K s' \<and> senv s' = senv s \<and>
    (\<forall>q. rwfset_view n q s' = (if q = (k, x) then rwfs_astep m (rwfset_view n q s) else rwfset_view n q s))"
proof -
  obtain s1 e s2 e1 z1 where b: "GET_RWFSE s k x True = Some (s1, Some e)" "CR_GET_LAST m = Some (last_vc m)"
    "rwfs_removeFunc s1 k x e (last_vc m) = Some (s2, e1)"
    "store_upd RWF_SET_TABLE_SUFFIX K s k x e1 z1 s2" "rwfs_inv s x (Some e1) z1"
    "(vector (CURRENT e1), PID e1) = (if vle (msg_stamp m) (fst (rwfset_view n (k, x) s)) then rwfset_view n (k, x) s
       else (vjoin (fst (rwfset_view n (k, x) s)) (msg_stamp m), PID_NEXIST))"
    using rwfs_effect_begin[OF inv k tx m] .
  obtain v where v: "getLongLongFromObject x = Some v" using v by blast
  have id: "0 \<le> vc_id (last_vc m)" using vc_text_last(4)[of n m] tx m by simp
  have step: "rwfs_astep m (rwfset_view n (k, x) s) = (vector (CURRENT e1),
      if msg_stamp m = vector (CURRENT e1) then max (PID e1) (vc_id (last_vc m)) else PID e1)"
    unfolding rwfs_astep_def rwf_stepI[OF b(6)] by (simp add: rwfs_act_def m)
  show ?thesis
  proof (cases "snd (addCheck e1 (last_vc m))")
    case False
    then have "rwfsadd_effect s m = Some s2"
      using b(1-3) m by (simp add: rwfsadd_effect_def arg_def Let_def split_beta)
    moreover have "rwfs_astep m (rwfset_view n (k, x) s) = (vector (CURRENT e1), PID e1)"
      using False step by (auto simp: addCheck_spec msg_stamp_def split: if_splits)
    ultimately show ?thesis using rwfset_inv_update[OF inv k b(4,5)] by simp
  next
    case True
    then have ac: "msg_stamp m = vector (CURRENT e1)" "PID e1 < vc_id (last_vc m)"
      "fst (addCheck e1 (last_vc m)) = e1\<lparr>PID := vc_id (last_vc m)\<rparr>"
      by (auto simp: addCheck_spec msg_stamp_def split: if_splits)
    define e2 where "e2 = e1\<lparr>PID := vc_id (last_vc m), rwfs_value := Some (int32 v)\<rparr>"
    obtain s3 where s3: "rehHTPut s2 k RWF_SET_TABLE_SUFFIX x e2 = Some s3"
      "store_upd RWF_SET_TABLE_SUFFIX K s k x e2 z1 s3"
      using store_upd_put[OF b(4) k] by blast
    obtain s4 where s4: "server_zsetAdd s3 k x (double_of_int (int32 v)) = Some s4"
      "store_upd RWF_SET_TABLE_SUFFIX K s k x e2 (Some (double_of_int (int32 v))) s4"
      using store_upd_zadd[OF s3(2) k, of "double_of_int (int32 v)"] by auto
    have "rwfsadd_effect s m = Some (s4\<lparr>dirty := dirty s4 + 1\<rparr>)"
      using b(1-3) m True ac(3) s3(1) s4(1) v
      by (simp add: rwfsadd_effect_def arg_def Let_def split_beta PUT_RWFSE_def e2_def)
    moreover have "rwfs_inv s x (Some e2) (Some (double_of_int (int32 v)))"
      using b(5) v id by (auto simp: rwfs_inv_def e2_def EXISTS_def)
    moreover have "rwfs_astep m (rwfset_view n (k, x) s) = (vector (CURRENT e2), PID e2)"
      using step ac by (simp add: e2_def)
    ultimately show ?thesis
      using rwfset_inv_update[OF inv k, of x e2 _ "s4\<lparr>dirty := dirty s4 + 1\<rparr>"] s4(2) by simp
  qed
qed

lemma rwfsrem_effect_spec:
  assumes inv: "rwfset_inv n K s" and k: "k \<in> K" and tx: "vc_text n tx" and m: "m = [''rwfsrem'', k, x, tx]"
  shows "\<exists>s'. rwfsrem_effect s m = Some s' \<and> rwfset_inv n K s' \<and> senv s' = senv s \<and>
    (\<forall>q. rwfset_view n q s' = (if q = (k, x) then rwfs_astep m (rwfset_view n q s) else rwfset_view n q s))"
proof -
  obtain s1 e s2 e1 z1 where b: "GET_RWFSE s k x True = Some (s1, Some e)" "CR_GET_LAST m = Some (last_vc m)"
    "rwfs_removeFunc s1 k x e (last_vc m) = Some (s2, e1)"
    "store_upd RWF_SET_TABLE_SUFFIX K s k x e1 z1 s2" "rwfs_inv s x (Some e1) z1"
    "(vector (CURRENT e1), PID e1) = (if vle (msg_stamp m) (fst (rwfset_view n (k, x) s)) then rwfset_view n (k, x) s
       else (vjoin (fst (rwfset_view n (k, x) s)) (msg_stamp m), PID_NEXIST))"
    using rwfs_effect_begin[OF inv k tx m] .
  have "rwfsrem_effect s m = Some s2"
    using b(1-3) m by (simp add: rwfsrem_effect_def arg_def)
  moreover have "rwfs_astep m (rwfset_view n (k, x) s) = (vector (CURRENT e1), PID e1)"
    unfolding rwfs_astep_def rwf_stepI[OF b(6)] by (simp add: rwfs_act_def m)
  ultimately show ?thesis using rwfset_inv_update[OF inv k b(4,5)] by simp
qed

section \<open>Delivery\<close>

lemma rwfs_deliver_law:
  assumes inv: "rwfset_inv n K s" and ok: "rwfs_msg_ok n K m"
  shows "\<exists>s'. rwfs_deliver s m = Some s' \<and> rwfset_inv n K s' \<and>
    (\<forall>q. rwfset_view n q s' = (if q = key_ele m then rwfs_astep m (rwfset_view n q s) else rwfset_view n q s))"
proof -
  obtain c k x tx where m: "m = [c, k, x, tx]" using ok list4E[of m] unfolding rwfs_msg_ok_def by blast
  have mode: "REPLICATION_MODE s" using inv replica_ok_mode by (auto simp: rwfset_inv_def)
  have k: "k \<in> K" "vc_text n tx" using ok by (simp_all add: rwfs_msg_ok_def m)
  have q: "key_ele m = (k, x)" by (simp add: key_ele_def m)
  show ?thesis
  proof (cases "c = ''rwfsadd''")
    case True
    then have "rwfs_deliver s m = rwfsadd_effect s m" "getLongLongFromObject x \<noteq> None"
      using crdt_command_replica[OF mode] ok by (simp_all add: rwfs_deliver_def rwfsaddCommand_def rwfs_msg_ok_def m)
    then show ?thesis using rwfsadd_effect_spec[OF inv k, of x m] True m unfolding q by auto
  next
    case False
    then have "rwfs_deliver s m = rwfsrem_effect s m" "c = ''rwfsrem''"
      using crdt_command_replica[OF mode] ok by (simp_all add: rwfs_deliver_def rwfsremCommand_def rwfs_msg_ok_def m)
    then show ?thesis using rwfsrem_effect_spec[OF inv k, of m x] m unfolding q by auto
  qed
qed

interpretation rwfs: commuting_stamped_effects rwfs_deliver "rwfset_inv n K" "rwfs_msg_ok n K" key_ele
  "rwfset_view n" msg_stamp rwfs_act PID_NEXIST n "\<lambda>q. fst q \<in> K" "\<lambda>_ _. True" "\<lambda>_. True" for n K
proof unfold_locales
  show "\<exists>s'. rwfs_deliver s m = Some s' \<and> rwfset_inv n K s' \<and> (\<forall>k. rwfset_view n k s' =
      (if k = key_ele m then stamped_step vle vjoin msg_stamp rwfs_act PID_NEXIST m (rwfset_view n k s)
       else rwfset_view n k s))" if "rwfset_inv n K s" "rwfs_msg_ok n K m" for s m
    using rwfs_deliver_law[OF that] unfolding rwfs_astep_def .
  show "length (msg_stamp m) = n" if "rwfs_msg_ok n K m" for m
    using that vc_text_last(3)[of n m] by (force simp: rwfs_msg_ok_def)
  show "length (fst (rwfset_view n q s)) = n" if "rwfset_inv n K s" "fst q \<in> K" for q s
    using rwfs_elem(2,3)[OF that refl, of "snd q"] by (simp add: vc_size_def)
  show "rwfs_act m (rwfs_act m' p) = rwfs_act m' (rwfs_act m p)" for m m' p
    by (simp add: rwfs_act_def max_def)
qed simp_all

section \<open>Views and queries\<close>

definition rwfs_score :: "sds \<Rightarrow> bool \<Rightarrow> double option" where
  "rwfs_score x present =
     (if present then map_option (double_of_int \<circ> int32) (getLongLongFromObject x) else None)"

lemma rwfset_member:
  assumes "rwfset_inv n K s" "k \<in> K"
  shows "zscore s k x = rwfs_score x (snd (rwfset_view n (k, x) s) \<noteq> PID_NEXIST)"
    and "zscore s k x = None \<longleftrightarrow> snd (rwfset_view n (k, x) s) = PID_NEXIST"
proof -
  have "rwfs_inv s x (elem RWF_SET_TABLE_SUFFIX s k x) (zscore s k x)" using assms by (simp add: rwfset_inv_def)
  then show "zscore s k x = rwfs_score x (snd (rwfset_view n (k, x) s) \<noteq> PID_NEXIST)"
    "zscore s k x = None \<longleftrightarrow> snd (rwfset_view n (k, x) s) = PID_NEXIST"
    by (auto simp: rwfs_inv_def rwfset_view_def rwfs_score_def EXISTS_def option.map_comp
        split: option.splits if_splits)
qed

lemma fresh_rwfset_inv:
  assumes "fresh_server RWF_SET_TABLE_SUFFIX K s" "replica_ok n s"
  shows "rwfset_inv n K s" "k \<in> K \<Longrightarrow> rwfset_view n (k, x) s = (replicate n 0, PID_NEXIST)"
  using assms
  by (auto simp: fresh_server_def rwfset_inv_def store_inv_def zset_slot_def hash_slot_def rwfs_inv_def
      elem_def zscore_def rwfset_view_def)

lemma rwfs_act_fold:
  assumes "PID_NEXIST \<le> p" "\<forall>m \<in> set ms. 0 \<le> vc_id (last_vc m)"
  shows "fold rwfs_act ms p \<noteq> PID_NEXIST \<longleftrightarrow> p \<noteq> PID_NEXIST \<or> (\<exists>m \<in> set ms. m ! 0 = ''rwfsadd'')"
  using assms
proof (induction ms arbitrary: p)
  case (Cons m ms)
  then show ?case using Cons.IH[of "rwfs_act m p"] by (auto simp: rwfs_act_def)
qed simp

text \<open>Broadcasting does not touch the views.\<close>

lemma broadcast_rwfset:
  "rwfset_inv n K (s\<lparr>replicas := replicationBroadcast (replicas s) m\<rparr>) = rwfset_inv n K s"
  "rwfset_view n q (s\<lparr>replicas := r\<rparr>) = rwfset_view n q s"
  by (simp_all add: rwfset_inv_def rwfset_view_def replica_ok_def
      rwfs_inv_env[of "s\<lparr>replicas := replicationBroadcast (replicas s) m\<rparr>" s])

lemma rwfsadd_prepare_new:
  assumes inv: "rwfset_inv n K s" and k: "k \<in> K" and v: "getLongLongFromObject x \<noteq> None"
    and new: "snd (rwfset_view n (k, x) s) = PID_NEXIST"
  shows "\<exists>s1 t. rwfsadd_prepare s [c, k, x] = Some (s1, Inr [t]) \<and> rwfset_inv n K s1 \<and> senv s1 = senv s \<and>
    (\<forall>q. rwfset_view n q s1 = rwfset_view n q s) \<and> vc_text n t \<and>
    vector (the (sdsToVC t)) = fst (rwfset_view n (k, x) s)"
proof -
  define e where "e = (case elem RWF_SET_TABLE_SUFFIX s k x of None \<Rightarrow> rwfseNew s | Some e \<Rightarrow> e)"
  note el = rwfs_elem[OF inv k e_def]
  have st: "store_inv RWF_SET_TABLE_SUFFIX K s" and rep: "replica_ok n s" using inv by (simp_all add: rwfset_inv_def)
  obtain s1 where s1: "rehHTGet s k RWF_SET_TABLE_SUFFIX x True (rwfseNew s) = Some (s1, Some e)"
    "senv s1 = senv s" "store_upd RWF_SET_TABLE_SUFFIX K s k x e (zscore s k x) s1"
    using store_modify[OF st k, of x "rwfseNew s", folded e_def] by blast
  obtain t where t: "vcToSds (CURRENT e) = Some t" "vc_text n t" "sdsToVC t = Some (CURRENT e)"
    using vc_print_text[of n "CURRENT e"] el(1) rep by (auto simp: rwfs_inv_def replica_ok_def)
  have "rwfsadd_prepare s [c, k, x] = Some (s1, Inr [t])"
    using store_container_type[OF st k] s1(1) t(1) el(3) new v
    by (simp add: rwfsadd_prepare_def CHECK_ARGC_def arg_def GET_RWFSE_def PREPARE_PRECOND_ADD_def EXISTS_def
        ADD_CR_NON_RMV_def CHECK_ARG_TYPE_INT_def)
  moreover note rwfset_inv_update[OF inv k s1(3) el(1)]
  ultimately show ?thesis using s1(2) t el(3) by auto
qed

text \<open>The next clock of this replica for an element.\<close>

definition rwfs_next :: "nat \<Rightarrow> sds \<times> sds \<Rightarrow> rwfse server \<Rightarrow> int list" where
  "rwfs_next n q s = (let v = fst (rwfset_view n q s); i = nat (p2p_id s) in v[i := v ! i + 1])"

lemma rwfsrem_prepare_present:
  assumes inv: "rwfset_inv n K s" and k: "k \<in> K" and old: "snd (rwfset_view n (k, x) s) \<noteq> PID_NEXIST"
    and room: "fst (rwfset_view n (k, x) s) ! nat (p2p_id s) < 2 ^ 31 - 1"
  shows "\<exists>t. rwfsrem_prepare s [c, k, x] = Some (s, Inr [t]) \<and> vc_text n t \<and>
    vector (the (sdsToVC t)) = rwfs_next n (k, x) s \<and> \<not> vle (vector (the (sdsToVC t))) (fst (rwfset_view n (k, x) s))"
proof -
  obtain e where e: "elem RWF_SET_TABLE_SUFFIX s k x = Some e" "PID e \<noteq> PID_NEXIST"
    using old by (auto simp: rwfset_view_def split: option.splits)
  note el = rwfs_elem[OF inv k, of e x]
  have st: "store_inv RWF_SET_TABLE_SUFFIX K s" and rep: "replica_ok n s" using inv by (simp_all add: rwfset_inv_def)
  have "vc_wf n (CURRENT e)" "\<forall>v \<in> set (vector (CURRENT e)). 0 \<le> v" "n \<le> 100"
    "vector (CURRENT e) ! nat (vc_id (CURRENT e)) < 2 ^ 31 - 1"
    using el rep room e by (auto simp: rwfs_inv_def replica_ok_def rwfset_view_def)
  note now = vc_now_text[OF this]
  have id: "vc_id (CURRENT e) = p2p_id s" using el(1) e(1) by (simp add: rwfs_inv_def)
  have "rwfs_next n (k, x) s = (vector (CURRENT e))[nat (p2p_id s) := vector (CURRENT e) ! nat (p2p_id s) + 1]"
    using e(1) by (simp add: rwfs_next_def rwfset_view_def Let_def)
  then obtain t where "vc_now (CURRENT e) = Some t" "vc_text n t" "\<not> vle (vector (the (sdsToVC t))) (vector (CURRENT e))"
    "vector (the (sdsToVC t)) = rwfs_next n (k, x) s"
    using now unfolding id by force
  then show ?thesis
    using store_container_type[OF st k] rehHTGet_read[OF st k, of x "rwfseNew s"] e
    by (auto simp: rwfsrem_prepare_def CHECK_ARGC_def arg_def GET_RWFSE_def PREPARE_PRECOND_NON_ADD_def EXISTS_def
        ADD_CR_RMV_def rwfset_view_def)
qed

section \<open>Properties\<close>

text \<open>
  C7 (convergence): two replicas that hold the same remove-win set and receive the same add and
  remove messages, in any two orders, both process them without a fault and hold the same
  elements. No causal delivery is needed: every message carries the remove history of its origin.
\<close>

theorem rwfset_convergence:
  assumes "rwfset_inv n K s" "rwfset_inv n K t" "\<forall>q. fst q \<in> K \<longrightarrow> rwfset_view n q s = rwfset_view n q t"
    "mset ms = mset ns" "\<forall>m \<in> set ms. rwfs_msg_ok n K m"
  shows "\<exists>s' t'. run rwfs_deliver s ms = Some s' \<and> run rwfs_deliver t ns = Some t' \<and>
    (\<forall>k \<in> K. \<forall>x. zscore s' k x = zscore t' k x)"
proof -
  obtain s' t' where r: "run rwfs_deliver s ms = Some s'" "run rwfs_deliver t ns = Some t'"
    "rwfset_inv n K s'" "rwfset_inv n K t'" "\<forall>q. fst q \<in> K \<longrightarrow> rwfset_view n q s' = rwfset_view n q t'"
    using rwfs.stamped_converge[OF assms] by auto
  then have "zscore s' k x = zscore t' k x" if "k \<in> K" for k x
    using that by (simp add: rwfset_member(1)[OF r(3) that] rwfset_member(1)[OF r(4) that])
  with r show ?thesis by blast
qed

text \<open>
  C23 (remove wins): after any sequence of messages on a fresh replica, an element is in the set
  iff some add of it has seen every remove of it: its stamp is above the stamps of all messages for
  the element. A remove that is concurrent with the adds is not below their stamps and wins.
\<close>

theorem rwfset_remove_wins:
  assumes "fresh_server RWF_SET_TABLE_SUFFIX K s" "replica_ok n s" "\<forall>m \<in> set ms. rwfs_msg_ok n K m"
  shows "\<exists>s'. run rwfs_deliver s ms = Some s' \<and> (\<forall>k \<in> K. \<forall>x. zscore s' k x = rwfs_score x
    (let ns = filter (\<lambda>m. key_ele m = (k, x)) ms
     in \<exists>m \<in> set ns. m ! 0 = ''rwfsadd'' \<and> (\<forall>m' \<in> set ns. vle (msg_stamp m') (msg_stamp m))))"
proof -
  note inv = fresh_rwfset_inv[OF assms(1,2)]
  obtain s' where s': "run rwfs_deliver s ms = Some s'" "rwfset_inv n K s'"
    "\<forall>q. fst q \<in> K \<longrightarrow> rwfset_view n q s' = (let ns = filter (\<lambda>m. key_ele m = q) ms;
       (c, p) = rwfset_view n q s; J = fold (\<lambda>m c. vjoin c (msg_stamp m)) ns c
       in (J, fold rwfs_act (filter (\<lambda>m. msg_stamp m = J) ns) (if J = c then p else PID_NEXIST)))"
    using rwfs.run_stamped[OF inv(1) assms(3)] by blast
  have "zscore s' k x = rwfs_score x (let ns = filter (\<lambda>m. key_ele m = (k, x)) ms
     in \<exists>m \<in> set ns. m ! 0 = ''rwfsadd'' \<and> (\<forall>m' \<in> set ns. vle (msg_stamp m') (msg_stamp m)))"
    if k: "k \<in> K" for k x
  proof -
    let ?ns = "filter (\<lambda>m. key_ele m = (k, x)) ms"
    let ?J = "fold (\<lambda>m c. vjoin c (msg_stamp m)) ?ns (replicate n 0)"
    have t: "vc_text n (last m) \<and> m \<noteq> []" if "m \<in> set ms" for m
      using assms(3) that by (auto simp: rwfs_msg_ok_def)
    have ids: "\<forall>m \<in> set ms. 0 \<le> vc_id (last_vc m)" using t vc_text_last(4) by blast
    have st: "\<forall>m \<in> set ?ns. length (msg_stamp m) = n \<and> (\<forall>v \<in> set (msg_stamp m). 0 \<le> v)"
      using t vc_text_last(3,6) by force
    have "snd (rwfset_view n (k, x) s') = fold rwfs_act (filter (\<lambda>m. msg_stamp m = ?J) ?ns) PID_NEXIST"
      using s'(3)[rule_format, of "(k, x)"] k inv(2)[OF k] by (simp add: Let_def split: if_splits)
    moreover have "fold rwfs_act (filter (\<lambda>m. msg_stamp m = ?J) ?ns) PID_NEXIST \<noteq> PID_NEXIST \<longleftrightarrow>
        (\<exists>m \<in> set (filter (\<lambda>m. msg_stamp m = ?J) ?ns). m ! 0 = ''rwfsadd'')"
      by (subst rwfs_act_fold) (use ids in auto)
    moreover have "\<dots> \<longleftrightarrow> (\<exists>m \<in> set ?ns. m ! 0 = ''rwfsadd'' \<and> (\<forall>m' \<in> set ?ns. vle (msg_stamp m') (msg_stamp m)))"
      using stamp_is_join[OF st] by (subst bex_filter_set) blast
    ultimately show ?thesis using rwfset_member(1)[OF s'(2) k, of x] by (simp add: Let_def)
  qed
  with s' show ?thesis by blast
qed

text \<open>
  C28 (a local add takes effect): an \<open>rwfsadd\<close> of an absent integer element is acknowledged,
  broadcasts its arguments followed by the text of the remove history of the element (its vector clock), and puts the
  element into the set.
\<close>

theorem rwfsadd_user:
  assumes inv: "rwfset_inv n K s" and k: "k \<in> K" and v: "getLongLongFromObject x \<noteq> None"
    and absent: "zscore s k x = None"
  shows "\<exists>s' c' t. call rwfsaddCommand s (user_client [''rwfsadd'', k, x]) = Some (s', c') \<and>
    replies c' = [ReplyOk] \<and> replicas s' = replicationBroadcast (replicas s) [''rwfsadd'', k, x, t] \<and>
    vc_text n t \<and> vector (the (sdsToVC t)) = fst (rwfset_view n (k, x) s) \<and> rwfset_inv n K s' \<and> zscore s' k x = rwfs_score x True"
proof -
  have mode: "REPLICATION_MODE s" using inv replica_ok_mode by (auto simp: rwfset_inv_def)
  have new: "snd (rwfset_view n (k, x) s) = PID_NEXIST" using absent rwfset_member(2)[OF inv k] by simp
  obtain s1 t where s1: "rwfsadd_prepare s [''rwfsadd'', k, x] = Some (s1, Inr [t])" "rwfset_inv n K s1"
    "senv s1 = senv s" "\<forall>q. rwfset_view n q s1 = rwfset_view n q s" "vc_text n t"
    "vector (the (sdsToVC t)) = fst (rwfset_view n (k, x) s)"
    using rwfsadd_prepare_new[OF inv k v new] by blast
  obtain s2 where s2: "rwfsadd_effect s1 [''rwfsadd'', k, x, t] = Some s2" "rwfset_inv n K s2" "senv s2 = senv s1"
    "\<forall>q. rwfset_view n q s2 = (if q = (k, x) then rwfs_astep [''rwfsadd'', k, x, t] (rwfset_view n q s1)
       else rwfset_view n q s1)"
    using rwfsadd_effect_spec[OF s1(2) k s1(5) v refl] by blast
  let ?s' = "s2\<lparr>replicas := replicationBroadcast (replicas s2) ([''rwfsadd'', k, x] @ [t])\<rparr>"
  let ?c' = "(user_client [''rwfsadd'', k, x])\<lparr>rargv := Some ([''rwfsadd'', k, x] @ [t]), replies := [ReplyOk]\<rparr>"
  have call: "call rwfsaddCommand s (user_client [''rwfsadd'', k, x]) = Some (?s', ?c')"
    unfolding rwfsaddCommand_def using s1(1) s2(1) by (intro crdt_command_user[OF mode]) simp_all
  have "0 \<le> vc_id (last_vc [''rwfsadd'', k, x, t])" using vc_text_last(4)[of n "[''rwfsadd'', k, x, t]"] s1(5) by simp
  then have "snd (rwfset_view n (k, x) s2) \<noteq> PID_NEXIST"
    using s1(4,6) s2(4) new
    by (simp add: rwfs_astep_def stamped_step_def msg_stamp_def last_vc_def rwfs_act_def split_beta)
  then have "zscore ?s' k x = rwfs_score x True" using rwfset_member(1)[OF s2(2) k, of x] by simp
  moreover have "replicas s2 = replicas s" using s1(3) s2(3) by (simp add: senv_def)
  moreover have "rwfset_inv n K ?s'" using s2(2) by (simp add: broadcast_rwfset)
  ultimately show ?thesis using call s1(5,6) by (intro exI[of _ ?s'] exI[of _ ?c'] exI[of _ t]) simp
qed

text \<open>
  C29 (a local remove takes effect): an \<open>rwfsrem\<close> of a present element is acknowledged, broadcasts
  its arguments followed by the text of the next clock, which is the history of the element with the component of
  this replica incremented and therefore not below it, and takes the element out of the set. The component is below
  the largest \<open>int\<close>.
\<close>

theorem rwfsrem_user:
  assumes inv: "rwfset_inv n K s" and k: "k \<in> K" and present: "zscore s k x \<noteq> None"
    and room: "fst (rwfset_view n (k, x) s) ! nat (p2p_id s) < 2 ^ 31 - 1"
  shows "\<exists>s' c' t. call rwfsremCommand s (user_client [''rwfsrem'', k, x]) = Some (s', c') \<and>
    replies c' = [ReplyOk] \<and> replicas s' = replicationBroadcast (replicas s) [''rwfsrem'', k, x, t] \<and>
    vc_text n t \<and> vector (the (sdsToVC t)) = rwfs_next n (k, x) s \<and> \<not> vle (vector (the (sdsToVC t))) (fst (rwfset_view n (k, x) s)) \<and>
    rwfset_inv n K s' \<and> zscore s' k x = None"
proof -
  have mode: "REPLICATION_MODE s" using inv replica_ok_mode by (auto simp: rwfset_inv_def)
  have old: "snd (rwfset_view n (k, x) s) \<noteq> PID_NEXIST" using present rwfset_member(2)[OF inv k] by simp
  obtain t where t: "rwfsrem_prepare s [''rwfsrem'', k, x] = Some (s, Inr [t])" "vc_text n t"
    "\<not> vle (vector (the (sdsToVC t))) (fst (rwfset_view n (k, x) s))" "vector (the (sdsToVC t)) = rwfs_next n (k, x) s"
    using rwfsrem_prepare_present[OF inv k old room] by blast
  obtain s2 where s2: "rwfsrem_effect s [''rwfsrem'', k, x, t] = Some s2" "rwfset_inv n K s2" "senv s2 = senv s"
    "\<forall>q. rwfset_view n q s2 = (if q = (k, x) then rwfs_astep [''rwfsrem'', k, x, t] (rwfset_view n q s)
       else rwfset_view n q s)"
    using rwfsrem_effect_spec[OF inv k t(2) refl] by blast
  let ?s' = "s2\<lparr>replicas := replicationBroadcast (replicas s2) ([''rwfsrem'', k, x] @ [t])\<rparr>"
  let ?c' = "(user_client [''rwfsrem'', k, x])\<lparr>rargv := Some ([''rwfsrem'', k, x] @ [t]), replies := [ReplyOk]\<rparr>"
  have call: "call rwfsremCommand s (user_client [''rwfsrem'', k, x]) = Some (?s', ?c')"
    unfolding rwfsremCommand_def using t(1) s2(1) by (intro crdt_command_user[OF mode]) simp_all
  have "snd (rwfset_view n (k, x) s2) = PID_NEXIST"
    using s2(4) t(3) by (simp add: rwfs_astep_def stamped_step_def msg_stamp_def last_vc_def rwfs_act_def)
  then have "zscore ?s' k x = None" using rwfset_member(2)[OF s2(2) k, of x] by simp
  moreover have "replicas s2 = replicas s" using s2(3) by (simp add: senv_def)
  moreover have "rwfset_inv n K ?s'" using s2(2) by (simp add: broadcast_rwfset)
  ultimately show ?thesis using call t by (intro exI[of _ ?s'] exI[of _ ?c'] exI[of _ t]) simp
qed

lemma rwfs_prepare_reject:
  assumes inv: "rwfset_inv n K s" and k: "k \<in> K"
  shows "getLongLongFromObject x = None \<Longrightarrow>
      rwfsadd_prepare s [c, k, x] = Some (s, Inl (ReplyError ''value is not an integer''))"
    "zscore s k x = None \<Longrightarrow> rwfsrem_prepare s [c, k, x] = Some (s, Inl ReplyEleNexist)"
    "getLongLongFromObject x \<noteq> None \<Longrightarrow> zscore s k x \<noteq> None \<Longrightarrow>
      rwfsadd_prepare s [c, k, x] = Some (s, Inl ReplyEleExist)"
proof -
  have st: "store_inv RWF_SET_TABLE_SUFFIX K s" using inv by (simp add: rwfset_inv_def)
  note ct = store_container_type[OF st k]
  show "rwfsadd_prepare s [c, k, x] = Some (s, Inl (ReplyError ''value is not an integer''))"
    if "getLongLongFromObject x = None"
    using that ct by (simp add: rwfsadd_prepare_def CHECK_ARGC_def arg_def CHECK_ARG_TYPE_INT_def)
  show "rwfsrem_prepare s [c, k, x] = Some (s, Inl ReplyEleNexist)" if "zscore s k x = None"
    using that ct rehHTGet_read[OF st k, of x "rwfseNew s"] rwfset_member(2)[OF inv k, of x]
    by (auto simp: rwfsrem_prepare_def CHECK_ARGC_def arg_def GET_RWFSE_def PREPARE_PRECOND_NON_ADD_def
        EXISTS_def rwfset_view_def split: option.splits)
  show "rwfsadd_prepare s [c, k, x] = Some (s, Inl ReplyEleExist)"
    if v: "getLongLongFromObject x \<noteq> None" and z: "zscore s k x \<noteq> None"
  proof -
    obtain e where e: "elem RWF_SET_TABLE_SUFFIX s k x = Some e" "PID e \<noteq> PID_NEXIST"
      using z rwfset_member(2)[OF inv k, of x] by (auto simp: rwfset_view_def split: option.splits)
    then show ?thesis using ct v rehHTGet_present[OF e(1)]
      by (auto simp: rwfsadd_prepare_def CHECK_ARGC_def arg_def GET_RWFSE_def PREPARE_PRECOND_ADD_def EXISTS_def
          CHECK_ARG_TYPE_INT_def)
  qed
qed

text \<open>
  C40 (rejected commands): adding a present element, removing an absent one and adding a non-integer
  only send the error to the user; the whole server state, including what is broadcast, is unchanged.
\<close>

theorem rwfset_reject:
  assumes inv: "rwfset_inv n K s" and k: "k \<in> K"
  shows "(zscore s k x = None \<longrightarrow>
      call rwfsremCommand s (user_client [c, k, x]) = Some (s, (user_client [c, k, x])\<lparr>replies := [ReplyEleNexist]\<rparr>)) \<and>
    (if getLongLongFromObject x = None
     then call rwfsaddCommand s (user_client [c, k, x]) =
      Some (s, (user_client [c, k, x])\<lparr>replies := [ReplyError ''value is not an integer'']\<rparr>)
     else zscore s k x \<noteq> None \<longrightarrow>
       call rwfsaddCommand s (user_client [c, k, x]) = Some (s, (user_client [c, k, x])\<lparr>replies := [ReplyEleExist]\<rparr>))"
proof -
  have "REPLICATION_MODE s" using inv replica_ok_mode by (auto simp: rwfset_inv_def)
  note rej = crdt_command_reject[OF this]
  show ?thesis using rwfs_prepare_reject[OF inv k, of x c] rej[of rwfsadd_prepare] rej[of rwfsrem_prepare]
    by (auto simp: rwfsaddCommand_def rwfsremCommand_def)
qed

text \<open>
  Malformed status reply: for an element of the set the status query announces five array
  elements and sends four.
\<close>

theorem rwfsestatus_malformed:
  assumes inv: "rwfset_inv n K s" and k: "k \<in> K" and present: "zscore s k x \<noteq> None"
  shows "\<exists>bs. rwfsestatusCommand s (user_client [c, k, x]) =
      Some (s, (user_client [c, k, x])\<lparr>replies := ReplyArrayLen 5 # map ReplyBulk bs\<rparr>) \<and> length bs = 4"
proof -
  obtain e where e: "elem RWF_SET_TABLE_SUFFIX s k x = Some e" "PID e \<noteq> PID_NEXIST"
    using rwfset_member(2)[OF inv k, of x] present by (auto simp: rwfset_view_def split: option.splits)
  have "rwfs_inv s x (Some e) (zscore s k x)" using inv k e(1) by (simp add: rwfset_inv_def flip: e(1))
  then obtain v where v: "rwfs_value e = Some v" using e(2) by (auto simp: rwfs_inv_def EXISTS_def)
  have "vc_size (CURRENT e) = n" "0 < n"
    using rwfs_elem(2)[OF inv k, of e x] e(1) inv by (simp_all add: rwfset_inv_def replica_ok_def)
  then obtain t where "vcToSds (CURRENT e) = Some t" by (auto simp: vcToSds_def vc_size_def)
  then show ?thesis using v rehHTGet_present[OF e(1)]
    by (intro exI[of _ "[''add id:'' @ print_d (PID e), ''current:'', t, ''value:'' @ print_d v]"])
      (simp add: rwfsestatusCommand_def arg_def user_client_def GET_RWFSE_def addReplies_def addReply_def)
qed

section \<open>Witnesses\<close>

lemma sample_rwfs_separated: "separated RWF_SET_TABLE_SUFFIX {''k''}"
  by (simp add: separated_def)

lemma sample_rwfs_fresh: "fresh_server RWF_SET_TABLE_SUFFIX {''k''} (started_server 2 i)"
  by (rule started_fresh) (simp_all add: sample_rwfs_separated)

lemma sample_rwfs_ok: 
  "rwfs_msg_ok 2 {''k''} [''rwfsadd'', ''k'', ''5'', ''0,0|0'']"
  "rwfs_msg_ok 2 {''k''} [''rwfsrem'', ''k'', ''5'', ''0,1|1'']"
  by (simp_all add: rwfs_msg_ok_def sample_vc_text sample_value)

lemmas sample_rwfs_inv = fresh_rwfset_inv(1)[OF sample_rwfs_fresh sample_replica]

lemma sample_rwfs_views:
  "zscore (started_server n i) k x = None" "rwfset_view m q (started_server n i) = (replicate m 0, PID_NEXIST)"
  by (simp_all add: zscore_def rwfset_view_def elem_def started_server_def)

theorem rwfset_convergence_witness:
  "\<exists>s' t'. run rwfs_deliver (started_server 2 0)
      [[''rwfsadd'', ''k'', ''5'', ''0,0|0''], [''rwfsrem'', ''k'', ''5'', ''0,1|1'']] = Some s' \<and>
    run rwfs_deliver (started_server 2 1)
      [[''rwfsrem'', ''k'', ''5'', ''0,1|1''], [''rwfsadd'', ''k'', ''5'', ''0,0|0'']] = Some t' \<and>
    (\<forall>k \<in> {''k''}. \<forall>x. zscore s' k x = zscore t' k x)"
  by (rule rwfset_convergence[where n = 2])
    (simp_all add: sample_rwfs_inv sample_rwfs_views sample_rwfs_ok add_mset_commute)

theorem rwfset_remove_wins_witness:
  "\<exists>s'. run rwfs_deliver (started_server 2 0)
      [[''rwfsadd'', ''k'', ''5'', ''0,0|0''], [''rwfsrem'', ''k'', ''5'', ''0,1|1'']] = Some s' \<and>
    (\<forall>k \<in> {''k''}. \<forall>x. zscore s' k x = rwfs_score x
      (let ns = filter (\<lambda>m. key_ele m = (k, x)) [[''rwfsadd'', ''k'', ''5'', ''0,0|0''], [''rwfsrem'', ''k'', ''5'', ''0,1|1'']]
       in \<exists>m \<in> set ns. m ! 0 = ''rwfsadd'' \<and> (\<forall>m' \<in> set ns. vle (msg_stamp m') (msg_stamp m))))"
  by (rule rwfset_remove_wins[OF sample_rwfs_fresh sample_replica]) (simp_all add: sample_rwfs_ok)

theorem rwfsadd_user_witness:
  "\<exists>s' c' t. call rwfsaddCommand (started_server 2 0) (user_client [''rwfsadd'', ''k'', ''5'']) = Some (s', c') \<and>
    replies c' = [ReplyOk] \<and> replicas s' = replicationBroadcast (replicas (started_server 2 0 :: rwfse server))
      [''rwfsadd'', ''k'', ''5'', t] \<and>
    vc_text 2 t \<and> vector (the (sdsToVC t)) = fst (rwfset_view 2 (''k'', ''5'') (started_server 2 0)) \<and>
    rwfset_inv 2 {''k''} s' \<and> zscore s' ''k'' ''5'' = rwfs_score ''5'' True"
  by (rule rwfsadd_user) (simp_all add: sample_rwfs_inv sample_rwfs_views sample_value)

text \<open>A server on which the element has been added, for the commands that need one.\<close>

lemma sample_rwfs_present:
  obtains s :: "rwfse server" where "rwfset_inv 2 {''k''} s" "zscore s ''k'' ''5'' \<noteq> None"
    "fst (rwfset_view 2 (''k'', ''5'') s) ! nat (p2p_id s) < 2 ^ 31 - 1"
proof -
  let ?m = "[''rwfsadd'', ''k'', ''5'', ''0,0|0'']"
  have "\<exists>s'. rwfsadd_effect (started_server 2 0) ?m = Some s' \<and> rwfset_inv 2 {''k''} s' \<and>
      senv s' = senv (started_server 2 0 :: rwfse server) \<and>
      (\<forall>q. rwfset_view 2 q s' = (if q = (''k'', ''5'') then rwfs_astep ?m (rwfset_view 2 q (started_server 2 0))
        else rwfset_view 2 q (started_server 2 0)))"
    by (rule rwfsadd_effect_spec) (simp_all add: sample_rwfs_inv sample_vc_text sample_value)
  then obtain s' where s': "rwfset_inv 2 {''k''} s'" "senv s' = senv (started_server 2 0 :: rwfse server)"
    "rwfset_view 2 (''k'', ''5'') s' = rwfs_astep ?m (rwfset_view 2 (''k'', ''5'') (started_server 2 0))" by auto
  have v: "rwfset_view 2 (''k'', ''5'') s' = ([0, 0], 0)"
    using s'(3) by (simp add: rwfs_astep_def stamped_step_def sample_rwfs_views msg_stamp_def last_vc_def sample_vc
        rwfs_act_def numeral_2_eq_2)
  moreover have "p2p_id s' = 0" using s'(2) by (simp add: senv_def started_server_def)
  ultimately show ?thesis using that[OF s'(1)] rwfset_member(2)[OF s'(1), of "''k''" "''5''"] by simp
qed

theorem rwfsrem_user_witness:
  "\<exists>s s' c' t. rwfset_inv 2 {''k''} s \<and> zscore s ''k'' ''5'' \<noteq> None \<and>
    call rwfsremCommand s (user_client [''rwfsrem'', ''k'', ''5'']) = Some (s', c') \<and>
    replies c' = [ReplyOk] \<and> replicas s' = replicationBroadcast (replicas s) [''rwfsrem'', ''k'', ''5'', t] \<and>
    vc_text 2 t \<and> vector (the (sdsToVC t)) = rwfs_next 2 (''k'', ''5'') s \<and> \<not> vle (vector (the (sdsToVC t))) (fst (rwfset_view 2 (''k'', ''5'') s)) \<and>
    rwfset_inv 2 {''k''} s' \<and> zscore s' ''k'' ''5'' = None"
proof -
  obtain s :: "rwfse server" where s: "rwfset_inv 2 {''k''} s" "zscore s ''k'' ''5'' \<noteq> None"
    "fst (rwfset_view 2 (''k'', ''5'') s) ! nat (p2p_id s) < 2 ^ 31 - 1"
    using sample_rwfs_present .
  then show ?thesis using rwfsrem_user[OF s(1) _ s(2,3)] by blast
qed

theorem rwfset_reject_witness:
  "call rwfsremCommand (started_server 2 0) (user_client [''rwfsrem'', ''k'', ''5'']) =
      Some (started_server 2 0, (user_client [''rwfsrem'', ''k'', ''5''])\<lparr>replies := [ReplyEleNexist]\<rparr>) \<and>
   (\<exists>s. zscore s ''k'' ''5'' \<noteq> None \<and> call rwfsaddCommand s (user_client [''rwfsadd'', ''k'', ''5'']) =
      Some (s, (user_client [''rwfsadd'', ''k'', ''5''])\<lparr>replies := [ReplyEleExist]\<rparr>))"
proof -
  have "rwfset_inv 2 {''k''} (started_server 2 0)" by (rule sample_rwfs_inv) simp_all
  note absent = rwfset_reject[OF this, of "''k''" "''5''" "''rwfsrem''"]
  obtain s :: "rwfse server" where s: "rwfset_inv 2 {''k''} s" "zscore s ''k'' ''5'' \<noteq> None" using sample_rwfs_present by blast
  show ?thesis using absent rwfset_reject[OF s(1), of "''k''" "''5''" "''rwfsadd''"] s(2)
    by (auto simp: sample_rwfs_views sample_value)
qed

theorem rwfsestatus_malformed_witness:
  "\<exists>s bs. zscore s ''k'' ''5'' \<noteq> None \<and> rwfsestatusCommand s (user_client [''rwfsestatus'', ''k'', ''5'']) =
      Some (s, (user_client [''rwfsestatus'', ''k'', ''5''])\<lparr>replies := ReplyArrayLen 5 # map ReplyBulk bs\<rparr>) \<and>
    length bs = 4"
proof -
  obtain s :: "rwfse server" where s: "rwfset_inv 2 {''k''} s" "zscore s ''k'' ''5'' \<noteq> None"
    using sample_rwfs_present by blast
  then show ?thesis using rwfsestatus_malformed[OF s(1) _ s(2), of "''rwfsestatus''"] by blast
qed

end
