(* ===== verification/RWFZset.thy ===== *)
theory RWFZset
  imports RWFramework
begin

text \<open>
  The sorted set of t_rwfzset.c in the remove-win framework: an element has an innate value, set
  by the add in force, and an acquired value, the sum of the increments since; its score in the
  sorted set under the key is their sum.
\<close>

section \<open>Definitions\<close>

abbreviation (input) RWF_RPQ_TABLE_SUFFIX :: sds where
  "RWF_RPQ_TABLE_SUFFIX \<equiv> ''_rwfzsets_''"

record rwfze = reh +
  rwfz_innate :: double
  rwfz_acquired :: double

definition rwfzeNew :: "rwfze server \<Rightarrow> rwfze" where
  "rwfzeNew s = \<lparr>PID = PID_NEXIST, CURRENT = server_vc s, rwfz_innate = dzero, rwfz_acquired = dzero\<rparr>"

definition rwfz_SCORE :: "rwfze \<Rightarrow> double" where
  "rwfz_SCORE e = dadd (rwfz_innate e) (rwfz_acquired e)"

definition GET_RWFZE :: "rwfze server \<Rightarrow> sds \<Rightarrow> sds \<Rightarrow> bool \<Rightarrow> (rwfze server \<times> rwfze option) option" where
  "GET_RWFZE s key ele create = rehHTGet s key RWF_RPQ_TABLE_SUFFIX ele create (rwfzeNew s)"

definition PUT_RWFZE :: "rwfze server \<Rightarrow> sds \<Rightarrow> sds \<Rightarrow> rwfze \<Rightarrow> rwfze server option" where
  "PUT_RWFZE s key ele e = rehHTPut s key RWF_RPQ_TABLE_SUFFIX ele e"

definition rwfz_removeFunc ::
    "rwfze server \<Rightarrow> sds \<Rightarrow> sds \<Rightarrow> rwfze \<Rightarrow> vc \<Rightarrow> (rwfze server \<times> rwfze) option" where
  "rwfz_removeFunc s key ele e t =
     do {
       (e1, removed) \<leftarrow> removeCheck e t;
       if removed
       then do {
         let e2 = e1\<lparr>rwfz_acquired := dzero, rwfz_innate := dzero\<rparr>;
         s1 \<leftarrow> PUT_RWFZE s key ele e2;
         s2 \<leftarrow> server_zsetDel s1 key ele;
         Some (s2\<lparr>dirty := dirty s2 + 1\<rparr>, e2)
       }
       else Some (s, e1)
     }"

definition rwfzadd_prepare :: "rwfze prepare" where
  "rwfzadd_prepare s args =
     (if \<not> CHECK_ARGC args 4 then Some (s, Inl ReplySyntaxerr)
      else do {
        key \<leftarrow> arg args 1;
        if \<not> CHECK_CONTAINER_TYPE s key OBJ_ZSET then Some (s, Inl ReplyWrongtypeerr)
        else do {
          x \<leftarrow> arg args 3;
          if \<not> CHECK_ARG_TYPE_DOUBLE x then Some (s, Inl (ReplyError ''value is not a valid float''))
          else do {
            ele \<leftarrow> arg args 2;
            (s1, eo) \<leftarrow> GET_RWFZE s key ele True;
            e \<leftarrow> eo;
            if \<not> PREPARE_PRECOND_ADD e then Some (s1, Inl ReplyEleExist)
            else do { t \<leftarrow> ADD_CR_NON_RMV e; Some (s1, Inr [t]) }
          }
        }
      })"

text \<open>
  The value argument of an effect: the prepare phase of the origin has checked it, and
  \<open>getDoubleFromObject\<close> leaves the variable uninitialised otherwise.
\<close>

definition rwfzadd_effect :: "rwfze effect" where
  "rwfzadd_effect s ra =
     do {
       x \<leftarrow> arg ra 3;
       v \<leftarrow> getDoubleFromObject x;
       t \<leftarrow> CR_GET_LAST ra;
       key \<leftarrow> arg ra 1;
       ele \<leftarrow> arg ra 2;
       (s1, eo) \<leftarrow> GET_RWFZE s key ele True;
       e \<leftarrow> eo;
       (s2, e1) \<leftarrow> rwfz_removeFunc s1 key ele e t;
       let (e2, added) = addCheck e1 t;
       if added
       then do {
         let e3 = e2\<lparr>rwfz_innate := v\<rparr>;
         s3 \<leftarrow> PUT_RWFZE s2 key ele e3;
         s4 \<leftarrow> server_zsetAdd s3 key ele (rwfz_SCORE e3);
         Some (s4\<lparr>dirty := dirty s4 + 1\<rparr>)
       }
       else Some s2
     }"

definition rwfzaddCommand :: "rwfze command" where
  "rwfzaddCommand = crdt_command rwfzadd_prepare rwfzadd_effect"

definition rwfzincrby_prepare :: "rwfze prepare" where
  "rwfzincrby_prepare s args =
     (if \<not> CHECK_ARGC args 4 then Some (s, Inl ReplySyntaxerr)
      else do {
        key \<leftarrow> arg args 1;
        if \<not> CHECK_CONTAINER_TYPE s key OBJ_ZSET then Some (s, Inl ReplyWrongtypeerr)
        else do {
          x \<leftarrow> arg args 3;
          if \<not> CHECK_ARG_TYPE_DOUBLE x then Some (s, Inl (ReplyError ''value is not a valid float''))
          else do {
            ele \<leftarrow> arg args 2;
            (s1, eo) \<leftarrow> GET_RWFZE s key ele False;
            if \<not> PREPARE_PRECOND_NON_ADD eo then Some (s1, Inl ReplyEleNexist)
            else do { e \<leftarrow> eo; t \<leftarrow> ADD_CR_NON_RMV e; Some (s1, Inr [t]) }
          }
        }
      })"

definition rwfzincrby_effect :: "rwfze effect" where
  "rwfzincrby_effect s ra =
     do {
       x \<leftarrow> arg ra 3;
       v \<leftarrow> getDoubleFromObject x;
       t \<leftarrow> CR_GET_LAST ra;
       key \<leftarrow> arg ra 1;
       ele \<leftarrow> arg ra 2;
       (s1, eo) \<leftarrow> GET_RWFZE s key ele True;
       e \<leftarrow> eo;
       (s2, e1) \<leftarrow> rwfz_removeFunc s1 key ele e t;
       let (e2, updated) = updateCheck e1 t;
       if updated
       then do {
         let e3 = e2\<lparr>rwfz_acquired := dadd (rwfz_acquired e2) v\<rparr>;
         s3 \<leftarrow> PUT_RWFZE s2 key ele e3;
         s4 \<leftarrow> server_zsetAdd s3 key ele (rwfz_SCORE e3);
         Some (s4\<lparr>dirty := dirty s4 + 1\<rparr>)
       }
       else Some s2
     }"

definition rwfzincrbyCommand :: "rwfze command" where
  "rwfzincrbyCommand = crdt_command rwfzincrby_prepare rwfzincrby_effect"

definition rwfzrem_prepare :: "rwfze prepare" where
  "rwfzrem_prepare s args =
     (if \<not> CHECK_ARGC args 3 then Some (s, Inl ReplySyntaxerr)
      else do {
        key \<leftarrow> arg args 1;
        if \<not> CHECK_CONTAINER_TYPE s key OBJ_ZSET then Some (s, Inl ReplyWrongtypeerr)
        else do {
          ele \<leftarrow> arg args 2;
          (s1, eo) \<leftarrow> GET_RWFZE s key ele False;
          if \<not> PREPARE_PRECOND_NON_ADD eo then Some (s1, Inl ReplyEleNexist)
          else do { e \<leftarrow> eo; t \<leftarrow> ADD_CR_RMV e; Some (s1, Inr [t]) }
        }
      })"

definition rwfzrem_effect :: "rwfze effect" where
  "rwfzrem_effect s ra =
     do {
       key \<leftarrow> arg ra 1;
       ele \<leftarrow> arg ra 2;
       (s1, eo) \<leftarrow> GET_RWFZE s key ele True;
       e \<leftarrow> eo;
       t \<leftarrow> CR_GET_LAST ra;
       (s2, e1) \<leftarrow> rwfz_removeFunc s1 key ele e t;
       Some s2
     }"

definition rwfzremCommand :: "rwfze command" where
  "rwfzremCommand = crdt_command rwfzrem_prepare rwfzrem_effect"

definition rwfzscoreCommand :: "rwfze command" where
  "rwfzscoreCommand = zset_scoreCommand"

definition rwfzmaxCommand :: "rwfze command" where
  "rwfzmaxCommand = zset_maxCommand"

definition rwfzestatusCommand :: "rwfze command" where
  "rwfzestatusCommand s c =
     do {
       key \<leftarrow> arg (argv c) 1;
       ele \<leftarrow> arg (argv c) 2;
       (s1, eo) \<leftarrow> GET_RWFZE s key ele False;
       case eo of
         None \<Rightarrow> Some (s1, addReply c ReplyEmptyarray)
       | Some e \<Rightarrow>
           do {
             t \<leftarrow> vcToSds (CURRENT e);
             Some (s1, addReplies c [ReplyArrayLen 5, ReplyBulk (''add id:'' @ print_d (PID e)),
               ReplyBulk ''current:'', ReplyBulk t,
               ReplyBulk (''innate:'' @ print_f (rwfz_innate e)),
               ReplyBulk (''acquired:'' @ print_f (rwfz_acquired e))])
           }
     }"

section \<open>Invariant and view\<close>

text \<open>
  The score of an existing element is the sum of its two values; \<open>zsetAdd\<close> refuses a sum that is
  not a number, and the sorted set keeps the old score then.
\<close>

definition rwfz_inv :: "rwfze server \<Rightarrow> rwfze option \<Rightarrow> double option \<Rightarrow> bool" where
  "rwfz_inv s eo z =
     (case eo of
        None \<Rightarrow> z = None
      | Some e \<Rightarrow> vc_wf (nat (p2p_count s)) (CURRENT e) \<and> vc_id (CURRENT e) = p2p_id s \<and>
          (\<forall>v \<in> set (vector (CURRENT e)). 0 \<le> v) \<and> PID_WAIT_INNATE \<le> PID e \<and>
          (if EXISTS e then rwfz_SCORE e \<noteq> NaN \<longrightarrow> z = Some (rwfz_SCORE e)
           else z = None \<and> rwfz_innate e = dzero \<and> rwfz_acquired e = dzero))"

definition rwfzset_inv :: "nat \<Rightarrow> sds set \<Rightarrow> rwfze server \<Rightarrow> bool" where
  "rwfzset_inv n K s \<longleftrightarrow> store_inv RWF_RPQ_TABLE_SUFFIX K s \<and> replica_ok n s \<and>
     (\<forall>k \<in> K. \<forall>x. rwfz_inv s (elem RWF_RPQ_TABLE_SUFFIX s k x) (zscore s k x))"

type_synonym rwfz_payload = "int \<times> double \<times> double"

definition rwfz_new :: rwfz_payload where
  "rwfz_new = (PID_NEXIST, dzero, dzero)"

definition rwfz_payload :: "rwfze \<Rightarrow> rwfz_payload" where
  "rwfz_payload e = (PID e, rwfz_innate e, rwfz_acquired e)"

definition rwfzset_view :: "nat \<Rightarrow> sds \<times> sds \<Rightarrow> rwfze server \<Rightarrow> int list \<times> rwfz_payload" where
  "rwfzset_view n q s =
     (case elem RWF_RPQ_TABLE_SUFFIX s (fst q) (snd q) of
        None \<Rightarrow> (replicate n 0, rwfz_new)
      | Some e \<Rightarrow> (vector (CURRENT e), rwfz_payload e))"

definition rwfz_msg_ok :: "nat \<Rightarrow> sds set \<Rightarrow> sds list \<Rightarrow> bool" where
  "rwfz_msg_ok n K m \<longleftrightarrow> m \<noteq> [] \<and> vc_text n (last m) \<and>
     (if m ! 0 = ''rwfzadd'' \<or> m ! 0 = ''rwfzincrby''
      then length m = 5 \<and> getDoubleFromObject (m ! 3) \<noteq> None
      else m ! 0 = ''rwfzrem'' \<and> length m = 4) \<and> m ! 1 \<in> K"

definition rwfz_value :: "sds list \<Rightarrow> double" where
  "rwfz_value m = the (getDoubleFromObject (m ! 3))"

definition rwfz_act :: "sds list \<Rightarrow> rwfz_payload \<Rightarrow> rwfz_payload" where
  "rwfz_act m p =
     (case p of (pid, inn, acq) \<Rightarrow>
        if m ! 0 = ''rwfzadd''
        then if pid < vc_id (last_vc m) then (vc_id (last_vc m), rwfz_value m, acq) else p
        else if m ! 0 = ''rwfzincrby''
        then (if pid = PID_NEXIST then PID_WAIT_INNATE else pid, inn, dadd acq (rwfz_value m))
        else p)"

definition rwfz_astep :: "sds list \<Rightarrow> int list \<times> rwfz_payload \<Rightarrow> int list \<times> rwfz_payload" where
  "rwfz_astep = stamped_step vle vjoin msg_stamp rwfz_act rwfz_new"

definition rwfz_deliver :: "rwfze server \<Rightarrow> sds list \<Rightarrow> rwfze server option" where
  "rwfz_deliver s m =
     deliver (if m ! 0 = ''rwfzadd'' then rwfzaddCommand
              else if m ! 0 = ''rwfzincrby'' then rwfzincrbyCommand else rwfzremCommand) s m"

section \<open>Effects\<close>

definition rwfz_reset :: "rwfze \<Rightarrow> vc \<Rightarrow> rwfze" where
  "rwfz_reset e t = (REH_RMV_FUNC e t)\<lparr>rwfz_acquired := dzero, rwfz_innate := dzero\<rparr>"

lemma rwfz_reset_simps [simp]:
  "CURRENT (rwfz_reset e t) = vc_update (CURRENT e) t" "rwfz_payload (rwfz_reset e t) = rwfz_new"
  "PID (rwfz_reset e t) = PID_NEXIST" "rwfz_innate (rwfz_reset e t) = dzero"
  "rwfz_acquired (rwfz_reset e t) = dzero"
  by (simp_all add: rwfz_reset_def REH_RMV_FUNC_def rwfz_payload_def rwfz_new_def)

lemma rwfz_removeFunc_spec:
  assumes upd: "store_upd RWF_RPQ_TABLE_SUFFIX K s k x e z s1" and k: "k \<in> K"
    and sz: "vc_size t = vc_size (CURRENT e)"
  shows "\<exists>s2 e1 z1. rwfz_removeFunc s1 k x e t = Some (s2, e1) \<and>
    store_upd RWF_RPQ_TABLE_SUFFIX K s k x e1 z1 s2 \<and>
    (if vle (vector t) (vector (CURRENT e)) then e1 = e \<and> z1 = z else e1 = rwfz_reset e t \<and> z1 = None)"
proof (cases "vle (vector t) (vector (CURRENT e))")
  case True
  then show ?thesis using upd by (simp add: rwfz_removeFunc_def removeCheck_spec[OF sz])
next
  case False
  obtain s2 where s2: "rehHTPut s1 k RWF_RPQ_TABLE_SUFFIX x (rwfz_reset e t) = Some s2"
    "store_upd RWF_RPQ_TABLE_SUFFIX K s k x (rwfz_reset e t) z s2"
    using store_upd_put[OF upd k] by blast
  obtain s3 where "server_zsetDel s2 k x = Some s3"
    "store_upd RWF_RPQ_TABLE_SUFFIX K s k x (rwfz_reset e t) None s3"
    using store_upd_zdel[OF s2(2) k] by blast
  then show ?thesis
    using False s2(1) by (simp add: rwfz_removeFunc_def removeCheck_spec[OF sz] PUT_RWFZE_def rwfz_reset_def)
qed

lemma rwfz_inv_env: "p2p_count s' = p2p_count s \<Longrightarrow> p2p_id s' = p2p_id s \<Longrightarrow> rwfz_inv s' = rwfz_inv s"
  by (intro ext) (simp add: rwfz_inv_def split: option.split)

lemma rwfzset_inv_update:
  assumes inv: "rwfzset_inv n K s" and k: "k \<in> K"
    and upd: "store_upd RWF_RPQ_TABLE_SUFFIX K s k x e z s'" and e: "rwfz_inv s (Some e) z"
  shows "rwfzset_inv n K s' \<and> senv s' = senv s \<and>
    (\<forall>q. rwfzset_view n q s' = (if q = (k, x) then (vector (CURRENT e), rwfz_payload e) else rwfzset_view n q s))"
proof -
  have env: "p2p_id s' = p2p_id s" "p2p_count s' = p2p_count s"
    using upd by (simp_all add: store_upd_def senv_def)
  then have same: "rwfz_inv s' = rwfz_inv s" by (rule rwfz_inv_env[rotated])
  have "rwfzset_inv n K s'" using inv upd e env
    by (simp add: rwfzset_inv_def store_upd_def replica_ok_def same)
  then show ?thesis using upd by (simp add: rwfzset_view_def store_upd_def prod_eq_iff)
qed

lemma rwfz_elem:
  assumes inv: "rwfzset_inv n K s" and k: "k \<in> K"
    and e_def: "e = (case elem RWF_RPQ_TABLE_SUFFIX s k x of None \<Rightarrow> rwfzeNew s | Some e \<Rightarrow> e)"
  shows "rwfz_inv s (Some e) (zscore s k x)" "vc_size (CURRENT e) = n"
    "rwfzset_view n (k, x) s = (vector (CURRENT e), rwfz_payload e)"
proof -
  have i: "rwfz_inv s (elem RWF_RPQ_TABLE_SUFFIX s k x) (zscore s k x)" and r: "replica_ok n s"
    using inv k by (simp_all add: rwfzset_inv_def)
  show "rwfz_inv s (Some e) (zscore s k x)"
    using i r replica_ok_vc[OF r]
    by (auto simp: e_def rwfz_inv_def rwfzeNew_def EXISTS_def replica_ok_def split: option.splits)
  then show "vc_size (CURRENT e) = n" using r by (simp add: rwfz_inv_def vc_wf_def replica_ok_def)
  show "rwfzset_view n (k, x) s = (vector (CURRENT e), rwfz_payload e)" using replica_ok_vc[OF r]
    by (simp add: e_def rwfzset_view_def rwfzeNew_def rwfz_payload_def rwfz_new_def split: option.split)
qed

lemma rwfz_reset_inv:
  assumes "rwfz_inv s (Some e) z" "vc_size t = vc_size (CURRENT e)" "\<forall>v \<in> set (vector t). 0 \<le> v \<and> is_int32 v"
  shows "rwfz_inv s (Some (rwfz_reset e t)) None"
proof -
  have "set (vjoin (vector (CURRENT e)) (vector t)) \<subseteq> set (vector (CURRENT e)) \<union> set (vector t)"
    by (rule vjoin_set)
  then show ?thesis using assms
    by (auto simp: rwfz_inv_def EXISTS_def vc_wf_def vc_update_vjoin vc_size_def[symmetric])
qed

text \<open>Up to the remove history, all effects begin in the same way.\<close>

lemma rwfz_effect_begin:
  assumes inv: "rwfzset_inv n K s" and k: "k \<in> K" and tx: "vc_text n (last m)" "m \<noteq> []"
  obtains s1 e s2 e1 z1 where "GET_RWFZE s k x True = Some (s1, Some e)" "CR_GET_LAST m = Some (last_vc m)"
    "rwfz_removeFunc s1 k x e (last_vc m) = Some (s2, e1)"
    "store_upd RWF_RPQ_TABLE_SUFFIX K s k x e1 z1 s2" "rwfz_inv s (Some e1) z1"
    "(vector (CURRENT e1), rwfz_payload e1) =
       (if vle (msg_stamp m) (fst (rwfzset_view n (k, x) s)) then rwfzset_view n (k, x) s
        else (vjoin (fst (rwfzset_view n (k, x) s)) (msg_stamp m), rwfz_new))"
proof -
  define e where "e = (case elem RWF_RPQ_TABLE_SUFFIX s k x of None \<Rightarrow> rwfzeNew s | Some e \<Rightarrow> e)"
  note el = rwfz_elem[OF inv k e_def]
  have st: "store_inv RWF_RPQ_TABLE_SUFFIX K s" using inv by (simp add: rwfzset_inv_def)
  obtain s1 where s1: "rehHTGet s k RWF_RPQ_TABLE_SUFFIX x True (rwfzeNew s) = Some (s1, Some e)"
    "put_ok RWF_RPQ_TABLE_SUFFIX K s s1 k x (zscore s k x)" "senv s1 = senv s"
    "store_upd RWF_RPQ_TABLE_SUFFIX K s k x e (zscore s k x) s1"
    using store_modify[OF st k, of x "rwfzeNew s", folded e_def] .
  note vt = vc_text_last[OF tx]
  have sz: "vc_size (last_vc m) = vc_size (CURRENT e)" using vt(2) el(2) by simp
  have nn: "\<forall>v \<in> set (vector (last_vc m)). 0 \<le> v \<and> is_int32 v" by (rule vc_text_entries[OF tx(1)])
  obtain s2 e1 z1 where r: "rwfz_removeFunc s1 k x e (last_vc m) = Some (s2, e1)"
    "store_upd RWF_RPQ_TABLE_SUFFIX K s k x e1 z1 s2"
    "if vle (vector (last_vc m)) (vector (CURRENT e)) then e1 = e \<and> z1 = zscore s k x
     else e1 = rwfz_reset e (last_vc m) \<and> z1 = None"
    using rwfz_removeFunc_spec[OF s1(4) k sz] by blast
  have "rwfz_inv s (Some e1) z1"
    using r(3) el(1) rwfz_reset_inv[OF el(1) sz nn] by (simp split: if_splits)
  moreover have "(vector (CURRENT e1), rwfz_payload e1) =
       (if vle (msg_stamp m) (fst (rwfzset_view n (k, x) s)) then rwfzset_view n (k, x) s
        else (vjoin (fst (rwfzset_view n (k, x) s)) (msg_stamp m), rwfz_new))"
    using r(3) el(3) sz by (auto simp: msg_stamp_def vc_update_vjoin)
  ultimately show ?thesis using that s1(1) vt(1) r(1,2) by (simp add: GET_RWFZE_def)
qed

text \<open>The end of an effect that changes the values: the element and its score are stored.\<close>

lemma rwfz_write:
  assumes inv: "rwfzset_inv n K s" and k: "k \<in> K"
    and upd: "store_upd RWF_RPQ_TABLE_SUFFIX K s k x e1 z1 s2" and e1: "rwfz_inv s (Some e1) z1"
    and e3: "CURRENT e3 = CURRENT e1" "PID e3 \<noteq> PID_NEXIST" "PID_WAIT_INNATE \<le> PID e3"
  obtains s3 s4 where "PUT_RWFZE s2 k x e3 = Some s3" "server_zsetAdd s3 k x (rwfz_SCORE e3) = Some s4"
    "rwfzset_inv n K (s4\<lparr>dirty := dirty s4 + 1\<rparr>)" "senv (s4\<lparr>dirty := dirty s4 + 1\<rparr>) = senv s"
    "\<forall>q. rwfzset_view n q (s4\<lparr>dirty := dirty s4 + 1\<rparr>) =
       (if q = (k, x) then (vector (CURRENT e3), rwfz_payload e3) else rwfzset_view n q s)"
proof -
  obtain s3 where s3: "rehHTPut s2 k RWF_RPQ_TABLE_SUFFIX x e3 = Some s3"
    "store_upd RWF_RPQ_TABLE_SUFFIX K s k x e3 z1 s3"
    using store_upd_put[OF upd k] by blast
  obtain s4 where s4: "server_zsetAdd s3 k x (rwfz_SCORE e3) = Some s4"
    "store_upd RWF_RPQ_TABLE_SUFFIX K s k x e3 (if rwfz_SCORE e3 = NaN then z1 else Some (rwfz_SCORE e3)) s4"
    using store_upd_zadd[OF s3(2) k, of "rwfz_SCORE e3"] by blast
  have i: "rwfz_inv s (Some e3) (if rwfz_SCORE e3 = NaN then z1 else Some (rwfz_SCORE e3))"
    using e1 e3 by (simp add: rwfz_inv_def EXISTS_def)
  have u: "store_upd RWF_RPQ_TABLE_SUFFIX K s k x e3 (if rwfz_SCORE e3 = NaN then z1 else Some (rwfz_SCORE e3))
      (s4\<lparr>dirty := dirty s4 + 1\<rparr>)" using s4(2) by simp
  show ?thesis using that s3(1) s4(1) rwfzset_inv_update[OF inv k u i] by (simp add: PUT_RWFZE_def)
qed

lemma rwfzadd_effect_spec:
  assumes inv: "rwfzset_inv n K s" and k: "k \<in> K" and tx: "vc_text n tx" and v: "getDoubleFromObject y = Some v"
    and m: "m = [''rwfzadd'', k, x, y, tx]"
  shows "\<exists>s'. rwfzadd_effect s m = Some s' \<and> rwfzset_inv n K s' \<and> senv s' = senv s \<and>
    (\<forall>q. rwfzset_view n q s' = (if q = (k, x) then rwfz_astep m (rwfzset_view n q s) else rwfzset_view n q s))"
proof -
  have lt: "vc_text n (last m)" "m \<noteq> []" using tx m by simp_all
  obtain s1 e s2 e1 z1 where b: "GET_RWFZE s k x True = Some (s1, Some e)" "CR_GET_LAST m = Some (last_vc m)"
    "rwfz_removeFunc s1 k x e (last_vc m) = Some (s2, e1)"
    "store_upd RWF_RPQ_TABLE_SUFFIX K s k x e1 z1 s2" "rwfz_inv s (Some e1) z1"
    "(vector (CURRENT e1), rwfz_payload e1) =
       (if vle (msg_stamp m) (fst (rwfzset_view n (k, x) s)) then rwfzset_view n (k, x) s
        else (vjoin (fst (rwfzset_view n (k, x) s)) (msg_stamp m), rwfz_new))"
    using rwfz_effect_begin[OF inv k lt] .
  have id: "0 \<le> vc_id (last_vc m)" by (rule vc_text_last(4)[OF lt])
  have step: "rwfz_astep m (rwfzset_view n (k, x) s) = (vector (CURRENT e1),
      if msg_stamp m = vector (CURRENT e1) then rwfz_act m (rwfz_payload e1) else rwfz_payload e1)"
    unfolding rwfz_astep_def rwf_stepI[OF b(6)] ..
  show ?thesis
  proof (cases "snd (addCheck e1 (last_vc m))")
    case False
    then have "rwfzadd_effect s m = Some s2"
      using b(1-3) m v by (simp add: rwfzadd_effect_def arg_def Let_def split_beta)
    moreover have "rwfz_astep m (rwfzset_view n (k, x) s) = (vector (CURRENT e1), rwfz_payload e1)"
      using False step m by (auto simp: addCheck_spec msg_stamp_def rwfz_act_def rwfz_payload_def split: if_splits)
    ultimately show ?thesis using rwfzset_inv_update[OF inv k b(4,5)] by simp
  next
    case True
    then have ac: "msg_stamp m = vector (CURRENT e1)" "PID e1 < vc_id (last_vc m)"
      "fst (addCheck e1 (last_vc m)) = e1\<lparr>PID := vc_id (last_vc m)\<rparr>"
      by (auto simp: addCheck_spec msg_stamp_def split: if_splits)
    let ?e3 = "e1\<lparr>PID := vc_id (last_vc m), rwfz_innate := v\<rparr>"
    have c: "CURRENT ?e3 = CURRENT e1" "PID ?e3 \<noteq> PID_NEXIST" "PID_WAIT_INNATE \<le> PID ?e3" using id by simp_all
    obtain s3 s4 where w: "PUT_RWFZE s2 k x ?e3 = Some s3" "server_zsetAdd s3 k x (rwfz_SCORE ?e3) = Some s4"
      "rwfzset_inv n K (s4\<lparr>dirty := dirty s4 + 1\<rparr>)" "senv (s4\<lparr>dirty := dirty s4 + 1\<rparr>) = senv s"
      "\<forall>q. rwfzset_view n q (s4\<lparr>dirty := dirty s4 + 1\<rparr>) =
         (if q = (k, x) then (vector (CURRENT ?e3), rwfz_payload ?e3) else rwfzset_view n q s)"
      using rwfz_write[OF inv k b(4,5) c] .
    have "rwfzadd_effect s m = Some (s4\<lparr>dirty := dirty s4 + 1\<rparr>)"
      using b(1-3) m True ac(3) w(1,2) v by (simp add: rwfzadd_effect_def arg_def Let_def split_beta)
    moreover have "rwfz_astep m (rwfzset_view n (k, x) s) = (vector (CURRENT ?e3), rwfz_payload ?e3)"
      using step ac v m by (simp add: rwfz_act_def rwfz_payload_def rwfz_value_def)
    ultimately show ?thesis using w(3,4,5) by auto
  qed
qed

lemma rwfzincrby_effect_spec:
  assumes inv: "rwfzset_inv n K s" and k: "k \<in> K" and tx: "vc_text n tx" and v: "getDoubleFromObject y = Some v"
    and m: "m = [''rwfzincrby'', k, x, y, tx]"
  shows "\<exists>s'. rwfzincrby_effect s m = Some s' \<and> rwfzset_inv n K s' \<and> senv s' = senv s \<and>
    (\<forall>q. rwfzset_view n q s' = (if q = (k, x) then rwfz_astep m (rwfzset_view n q s) else rwfzset_view n q s))"
proof -
  have lt: "vc_text n (last m)" "m \<noteq> []" using tx m by simp_all
  obtain s1 e s2 e1 z1 where b: "GET_RWFZE s k x True = Some (s1, Some e)" "CR_GET_LAST m = Some (last_vc m)"
    "rwfz_removeFunc s1 k x e (last_vc m) = Some (s2, e1)"
    "store_upd RWF_RPQ_TABLE_SUFFIX K s k x e1 z1 s2" "rwfz_inv s (Some e1) z1"
    "(vector (CURRENT e1), rwfz_payload e1) =
       (if vle (msg_stamp m) (fst (rwfzset_view n (k, x) s)) then rwfzset_view n (k, x) s
        else (vjoin (fst (rwfzset_view n (k, x) s)) (msg_stamp m), rwfz_new))"
    using rwfz_effect_begin[OF inv k lt] .
  have step: "rwfz_astep m (rwfzset_view n (k, x) s) = (vector (CURRENT e1),
      if msg_stamp m = vector (CURRENT e1) then rwfz_act m (rwfz_payload e1) else rwfz_payload e1)"
    unfolding rwfz_astep_def rwf_stepI[OF b(6)] ..
  show ?thesis
  proof (cases "msg_stamp m = vector (CURRENT e1)")
    case False
    then have "rwfzincrby_effect s m = Some s2"
      using b(1-3) m v by (simp add: rwfzincrby_effect_def arg_def Let_def split_beta updateCheck_spec msg_stamp_def)
    then show ?thesis using rwfzset_inv_update[OF inv k b(4,5)] False step by simp
  next
    case True
    let ?e3 = "e1\<lparr>PID := if EXISTS e1 then PID e1 else PID_WAIT_INNATE, rwfz_acquired := dadd (rwfz_acquired e1) v\<rparr>"
    have c: "CURRENT ?e3 = CURRENT e1" "PID ?e3 \<noteq> PID_NEXIST" "PID_WAIT_INNATE \<le> PID ?e3"
      using b(5) by (simp_all add: EXISTS_def rwfz_inv_def)
    obtain s3 s4 where w: "PUT_RWFZE s2 k x ?e3 = Some s3" "server_zsetAdd s3 k x (rwfz_SCORE ?e3) = Some s4"
      "rwfzset_inv n K (s4\<lparr>dirty := dirty s4 + 1\<rparr>)" "senv (s4\<lparr>dirty := dirty s4 + 1\<rparr>) = senv s"
      "\<forall>q. rwfzset_view n q (s4\<lparr>dirty := dirty s4 + 1\<rparr>) =
         (if q = (k, x) then (vector (CURRENT ?e3), rwfz_payload ?e3) else rwfzset_view n q s)"
      using rwfz_write[OF inv k b(4,5) c] .
    have "rwfzincrby_effect s m = Some (s4\<lparr>dirty := dirty s4 + 1\<rparr>)"
      using b(1-3) m True w(1,2) v
      by (simp add: rwfzincrby_effect_def arg_def Let_def split_beta updateCheck_spec msg_stamp_def)
    moreover have "rwfz_astep m (rwfzset_view n (k, x) s) = (vector (CURRENT ?e3), rwfz_payload ?e3)"
      using step True v m by (simp add: rwfz_act_def rwfz_payload_def rwfz_value_def EXISTS_def)
    ultimately show ?thesis using w(3,4,5) by auto
  qed
qed

lemma rwfzrem_effect_spec:
  assumes inv: "rwfzset_inv n K s" and k: "k \<in> K" and tx: "vc_text n tx" and m: "m = [''rwfzrem'', k, x, tx]"
  shows "\<exists>s'. rwfzrem_effect s m = Some s' \<and> rwfzset_inv n K s' \<and> senv s' = senv s \<and>
    (\<forall>q. rwfzset_view n q s' = (if q = (k, x) then rwfz_astep m (rwfzset_view n q s) else rwfzset_view n q s))"
proof -
  have lt: "vc_text n (last m)" "m \<noteq> []" using tx m by simp_all
  obtain s1 e s2 e1 z1 where b: "GET_RWFZE s k x True = Some (s1, Some e)" "CR_GET_LAST m = Some (last_vc m)"
    "rwfz_removeFunc s1 k x e (last_vc m) = Some (s2, e1)"
    "store_upd RWF_RPQ_TABLE_SUFFIX K s k x e1 z1 s2" "rwfz_inv s (Some e1) z1"
    "(vector (CURRENT e1), rwfz_payload e1) =
       (if vle (msg_stamp m) (fst (rwfzset_view n (k, x) s)) then rwfzset_view n (k, x) s
        else (vjoin (fst (rwfzset_view n (k, x) s)) (msg_stamp m), rwfz_new))"
    using rwfz_effect_begin[OF inv k lt] .
  have "rwfzrem_effect s m = Some s2" using b(1-3) m by (simp add: rwfzrem_effect_def arg_def)
  moreover have "rwfz_astep m (rwfzset_view n (k, x) s) = (vector (CURRENT e1), rwfz_payload e1)"
    unfolding rwfz_astep_def rwf_stepI[OF b(6)] by (simp add: rwfz_act_def m split_beta)
  ultimately show ?thesis using rwfzset_inv_update[OF inv k b(4,5)] by simp
qed

lemma rwfz_msg_cases:
  assumes "rwfz_msg_ok n K m"
  obtains (add) k x y tx v where "m = [''rwfzadd'', k, x, y, tx]" "k \<in> K" "vc_text n tx" "getDoubleFromObject y = Some v"
  | (incrby) k x y tx v where "m = [''rwfzincrby'', k, x, y, tx]" "k \<in> K" "vc_text n tx" "getDoubleFromObject y = Some v"
  | (rem) k x tx where "m = [''rwfzrem'', k, x, tx]" "k \<in> K" "vc_text n tx"
proof (cases "m ! 0 = ''rwfzadd'' \<or> m ! 0 = ''rwfzincrby''")
  case True
  then obtain c k x y tx where m: "m = [c, k, x, y, tx]" using assms list5E[of m] unfolding rwfz_msg_ok_def by metis
  then show thesis using True assms add[of k x y tx] incrby[of k x y tx] by (auto simp: rwfz_msg_ok_def)
next
  case False
  then obtain c k x tx where m: "m = [c, k, x, tx]" using assms list4E[of m] unfolding rwfz_msg_ok_def by metis
  then show thesis using False assms rem[of k x tx] by (simp add: rwfz_msg_ok_def)
qed

lemma rwfz_deliver_law:
  assumes inv: "rwfzset_inv n K s" and ok: "rwfz_msg_ok n K m"
  shows "\<exists>s'. rwfz_deliver s m = Some s' \<and> rwfzset_inv n K s' \<and>
    (\<forall>q. rwfzset_view n q s' = (if q = key_ele m then rwfz_astep m (rwfzset_view n q s) else rwfzset_view n q s))"
proof -
  have "REPLICATION_MODE s" using inv replica_ok_mode by (auto simp: rwfzset_inv_def)
  note dl = crdt_command_replica[OF this]
  from ok show ?thesis
  proof (cases rule: rwfz_msg_cases)
    case (add k x y tx v)
    then have "rwfz_deliver s m = rwfzadd_effect s m" "key_ele m = (k, x)"
      using dl by (simp_all add: rwfz_deliver_def rwfzaddCommand_def key_ele_def)
    then show ?thesis using rwfzadd_effect_spec[OF inv add(2,3,4,1)] by (simp only:) blast
  next
    case (incrby k x y tx v)
    then have "rwfz_deliver s m = rwfzincrby_effect s m" "key_ele m = (k, x)"
      using dl by (simp_all add: rwfz_deliver_def rwfzincrbyCommand_def key_ele_def)
    then show ?thesis using rwfzincrby_effect_spec[OF inv incrby(2,3,4,1)] by (simp only:) blast
  next
    case (rem k x tx)
    then have "rwfz_deliver s m = rwfzrem_effect s m" "key_ele m = (k, x)"
      using dl by (simp_all add: rwfz_deliver_def rwfzremCommand_def key_ele_def)
    then show ?thesis using rwfzrem_effect_spec[OF inv rem(2,3,1)] by (simp only:) blast
  qed
qed

interpretation rwfz: stamped_effects rwfz_deliver "rwfzset_inv n K" "rwfz_msg_ok n K" key_ele
  "rwfzset_view n" msg_stamp rwfz_act rwfz_new n "\<lambda>q. fst q \<in> K" for n K
proof unfold_locales
  show "\<exists>s'. rwfz_deliver s m = Some s' \<and> rwfzset_inv n K s' \<and> (\<forall>k. rwfzset_view n k s' =
      (if k = key_ele m then stamped_step vle vjoin msg_stamp rwfz_act rwfz_new m (rwfzset_view n k s)
       else rwfzset_view n k s))" if "rwfzset_inv n K s" "rwfz_msg_ok n K m" for s m
    using rwfz_deliver_law[OF that] unfolding rwfz_astep_def .
  show "length (msg_stamp m) = n" if "rwfz_msg_ok n K m" for m
    using that vc_text_last(3)[of n m] by (simp add: rwfz_msg_ok_def)
  show "length (fst (rwfzset_view n q s)) = n" if "rwfzset_inv n K s" "fst q \<in> K" for q s
    using rwfz_elem(2,3)[OF that refl, of "snd q"] by (simp add: vc_size_def)
qed

section \<open>Scores\<close>

lemma rwfzset_member:
  assumes "rwfzset_inv n K s" "k \<in> K"
  shows "snd (rwfzset_view n (k, x) s) = (PID_NEXIST, i, a) \<Longrightarrow> zscore s k x = None"
    and "snd (rwfzset_view n (k, x) s) = (p, i, a) \<Longrightarrow> p \<noteq> PID_NEXIST \<Longrightarrow> dadd i a \<noteq> NaN \<Longrightarrow>
      zscore s k x = Some (dadd i a)"
proof -
  have inv: "rwfz_inv s (elem RWF_RPQ_TABLE_SUFFIX s k x) (zscore s k x)" using assms by (simp add: rwfzset_inv_def)
  show "zscore s k x = None" if "snd (rwfzset_view n (k, x) s) = (PID_NEXIST, i, a)"
    using inv that by (auto simp: rwfz_inv_def rwfzset_view_def rwfz_payload_def EXISTS_def split: option.splits)
  show "zscore s k x = Some (dadd i a)"
    if "snd (rwfzset_view n (k, x) s) = (p, i, a)" "p \<noteq> PID_NEXIST" "dadd i a \<noteq> NaN"
    using inv that by (auto simp: rwfz_inv_def rwfzset_view_def rwfz_payload_def EXISTS_def rwfz_SCORE_def rwfz_new_def
        split: option.splits)
qed

lemma fresh_rwfzset_inv:
  assumes "fresh_server RWF_RPQ_TABLE_SUFFIX K s" "replica_ok n s"
  shows "rwfzset_inv n K s" "k \<in> K \<Longrightarrow> rwfzset_view n (k, x) s = (replicate n 0, rwfz_new)"
  using assms
  by (auto simp: fresh_server_def rwfzset_inv_def store_inv_def zset_slot_def hash_slot_def rwfz_inv_def
      elem_def zscore_def rwfzset_view_def)

text \<open>
  Messages whose values are whole numbers. The winners are the messages of an element that carry
  a stamp above all others, that is, have seen all removes of it.
\<close>

definition rwfz_is_add :: "sds list \<Rightarrow> bool" where
  "rwfz_is_add m \<longleftrightarrow> m ! 0 = ''rwfzadd''"

definition rwfz_is_incr :: "sds list \<Rightarrow> bool" where
  "rwfz_is_incr m \<longleftrightarrow> m ! 0 = ''rwfzincrby''"

definition rwfz_int :: "sds list \<Rightarrow> int" where
  "rwfz_int m = (case rwfz_value m of Fin r \<Rightarrow> \<lfloor>r\<rfloor> | _ \<Rightarrow> 0)"

definition rwfz_whole :: "sds list \<Rightarrow> bool" where
  "rwfz_whole m \<longleftrightarrow> (rwfz_is_add m \<or> rwfz_is_incr m \<longrightarrow> rwfz_value m = Fin (of_int (rwfz_int m)))"

definition rwfz_weight :: "sds list list \<Rightarrow> int" where
  "rwfz_weight ms = sum_list (map (\<lambda>m. if rwfz_is_add m \<or> rwfz_is_incr m then \<bar>rwfz_int m\<bar> else 0) ms)"

definition rwfz_sum :: "sds list list \<Rightarrow> int" where
  "rwfz_sum ms = sum_list (map (\<lambda>m. if rwfz_is_incr m then rwfz_int m else 0) ms)"

definition rwfz_winners :: "sds list list \<Rightarrow> sds list list" where
  "rwfz_winners ms = filter (\<lambda>m. \<forall>m' \<in> set ms. vle (msg_stamp m') (msg_stamp m)) ms"

text \<open>The innate value: of the winning add from the replica with the greatest id, 0 without one.\<close>

definition rwfz_innate_is :: "sds list list \<Rightarrow> int \<Rightarrow> bool" where
  "rwfz_innate_is ms i \<longleftrightarrow>
     (if list_ex rwfz_is_add ms
      then \<exists>m \<in> set ms. rwfz_is_add m \<and> i = rwfz_int m \<and>
        (\<forall>m' \<in> set ms. rwfz_is_add m' \<longrightarrow> vc_id (last_vc m') \<le> vc_id (last_vc m))
      else i = 0)"

lemma rwfz_act_acquired:
  "snd (snd (rwfz_act m p)) = (if rwfz_is_incr m then dadd (snd (snd p)) (rwfz_value m) else snd (snd p))"
  by (auto simp: rwfz_act_def rwfz_is_incr_def split: prod.splits)

lemma rwfz_acquired:
  assumes "\<forall>m \<in> set ms. rwfz_whole m" "\<bar>a\<bar> + rwfz_weight ms < 2 ^ 53" "snd (snd p) = Fin (of_int a)"
  shows "snd (snd (fold rwfz_act ms p)) = Fin (of_int (a + rwfz_sum ms))"
  using assms
proof (induction ms arbitrary: a p)
  case (Cons m ms)
  have w: "0 \<le> rwfz_weight ms" by (auto simp: rwfz_weight_def intro!: sum_list_nonneg)
  show ?case
  proof (cases "rwfz_is_incr m")
    case True
    have "\<bar>a + rwfz_int m\<bar> + rwfz_weight ms < 2 ^ 53" using Cons.prems(2) True by (simp add: rwfz_weight_def)
    moreover from this have "snd (snd (rwfz_act m p)) = Fin (of_int (a + rwfz_int m))"
      using Cons.prems(1,3) True w dadd_int_exact[of a "rwfz_int m"] by (simp add: rwfz_act_acquired rwfz_whole_def)
    ultimately show ?thesis
      using Cons.IH[of "a + rwfz_int m" "rwfz_act m p"] Cons.prems(1) True by (simp add: rwfz_sum_def add.assoc)
  next
    case False
    then have "\<bar>a\<bar> + rwfz_weight ms < 2 ^ 53" using Cons.prems(2) by (simp add: rwfz_weight_def split: if_splits)
    then show ?thesis using Cons.IH[of a "rwfz_act m p"] Cons.prems(1,3) False
      by (simp add: rwfz_act_acquired rwfz_sum_def)
  qed
qed (simp add: rwfz_sum_def)

lemma rwfz_pid_innate:
  assumes "\<forall>m \<in> set ms. 0 \<le> vc_id (last_vc m)"
  shows "case fold rwfz_act ms rwfz_new of (p, i, a) \<Rightarrow>
    (if list_ex rwfz_is_add ms
     then \<exists>m \<in> set ms. rwfz_is_add m \<and> p = vc_id (last_vc m) \<and> i = rwfz_value m \<and>
       (\<forall>m' \<in> set ms. rwfz_is_add m' \<longrightarrow> vc_id (last_vc m') \<le> p)
     else i = dzero \<and> p = (if list_ex rwfz_is_incr ms then PID_WAIT_INNATE else PID_NEXIST))"
  using assms
proof (induction ms rule: rev_induct)
  case Nil
  then show ?case by (simp add: rwfz_new_def)
next
  case (snoc m ms)
  obtain p i a where f: "fold rwfz_act ms rwfz_new = (p, i, a)" by (cases "fold rwfz_act ms rwfz_new")
  have id: "0 \<le> vc_id (last_vc m)" using snoc.prems by simp
  have IH: "if list_ex rwfz_is_add ms
     then \<exists>m \<in> set ms. rwfz_is_add m \<and> p = vc_id (last_vc m) \<and> i = rwfz_value m \<and>
       (\<forall>m' \<in> set ms. rwfz_is_add m' \<longrightarrow> vc_id (last_vc m') \<le> p)
     else i = dzero \<and> p = (if list_ex rwfz_is_incr ms then PID_WAIT_INNATE else PID_NEXIST)"
    using snoc f by simp
  have g: "fold rwfz_act (ms @ [m]) rwfz_new = rwfz_act m (p, i, a)" using f by simp
  show ?case
  proof (cases "rwfz_is_add m")
    case True
    then have "rwfz_act m (p, i, a) = (if p < vc_id (last_vc m) then (vc_id (last_vc m), rwfz_value m, a) else (p, i, a))"
      by (simp add: rwfz_act_def rwfz_is_add_def)
    then show ?thesis unfolding g using IH id True by (auto simp: list_ex_iff split: if_splits)
  next
    case False
    then have "rwfz_act m (p, i, a) = (if rwfz_is_incr m
        then (if p = PID_NEXIST then PID_WAIT_INNATE else p, i, dadd a (rwfz_value m)) else (p, i, a))"
      by (simp add: rwfz_act_def rwfz_is_add_def rwfz_is_incr_def)
    moreover have "list_ex rwfz_is_add ms \<Longrightarrow> p \<noteq> PID_NEXIST" using IH snoc.prems by fastforce
    ultimately show ?thesis unfolding g using IH False by (auto simp: list_ex_iff split: if_splits)
  qed
qed

lemma rwfz_winners_join:
  assumes "\<forall>m \<in> set ms. length (msg_stamp m) = n \<and> (\<forall>v \<in> set (msg_stamp m). 0 \<le> v)"
  shows "filter (\<lambda>m. msg_stamp m = fold (\<lambda>m c. vjoin c (msg_stamp m)) ms (replicate n 0)) ms = rwfz_winners ms"
  unfolding rwfz_winners_def by (rule filter_cong[OF refl]) (rule stamp_is_join[OF assms])

lemma rwfz_weight_mono: "rwfz_weight (filter P ms) \<le> rwfz_weight ms"
  by (induction ms) (auto simp: rwfz_weight_def)

lemma rwfz_innate_weight:
  assumes "rwfz_innate_is ms i"
  shows "\<bar>i\<bar> + \<bar>rwfz_sum ms\<bar> \<le> rwfz_weight ms"
proof (cases "list_ex rwfz_is_add ms")
  case False
  then have "i = 0" using assms by (simp add: rwfz_innate_is_def)
  moreover have "\<bar>rwfz_sum ms\<bar> \<le> rwfz_weight ms" by (induction ms) (auto simp: rwfz_sum_def rwfz_weight_def)
  ultimately show ?thesis by simp
next
  case True
  then obtain m where m: "m \<in> set ms" "rwfz_is_add m" "i = rwfz_int m" using assms by (auto simp: rwfz_innate_is_def)
  then obtain us vs where "ms = us @ m # vs" by (meson split_list)
  moreover have "\<bar>rwfz_sum xs\<bar> \<le> rwfz_weight xs" for xs by (induction xs) (auto simp: rwfz_sum_def rwfz_weight_def)
  from this[of us] this[of vs] have "\<bar>rwfz_sum us + rwfz_sum vs\<bar> \<le> rwfz_weight us + rwfz_weight vs" by linarith
  moreover have "\<not> rwfz_is_incr m" using m(2) by (simp add: rwfz_is_add_def rwfz_is_incr_def)
  ultimately show ?thesis using m(2,3) by (simp add: rwfz_sum_def rwfz_weight_def)
qed

text \<open>The payload that the winners produce, and the score that follows.\<close>

lemma rwfz_winning_payload:
  assumes "\<forall>m \<in> set ws. rwfz_whole m \<and> 0 \<le> vc_id (last_vc m)" "rwfz_weight ws < 2 ^ 53"
  shows "\<exists>p i. fold rwfz_act ws rwfz_new = (p, Fin (of_int i), Fin (of_int (rwfz_sum ws))) \<and>
    rwfz_innate_is ws i \<and> (p = PID_NEXIST \<longleftrightarrow> \<not> list_ex rwfz_is_add ws \<and> \<not> list_ex rwfz_is_incr ws)"
proof -
  obtain p i a where f: "fold rwfz_act ws rwfz_new = (p, i, a)" by (cases "fold rwfz_act ws rwfz_new")
  have a: "a = Fin (of_int (rwfz_sum ws))" using rwfz_acquired[of ws 0 rwfz_new] assms f by (simp add: rwfz_new_def)
  have "\<forall>m \<in> set ws. 0 \<le> vc_id (last_vc m)" using assms(1) by blast
  then have pi: "if list_ex rwfz_is_add ws
     then \<exists>m \<in> set ws. rwfz_is_add m \<and> p = vc_id (last_vc m) \<and> i = rwfz_value m \<and>
       (\<forall>m' \<in> set ws. rwfz_is_add m' \<longrightarrow> vc_id (last_vc m') \<le> p)
     else i = dzero \<and> p = (if list_ex rwfz_is_incr ws then PID_WAIT_INNATE else PID_NEXIST)"
    using rwfz_pid_innate[of ws] f by simp
  show ?thesis
  proof (cases "list_ex rwfz_is_add ws")
    case True
    then obtain m where m: "m \<in> set ws" "rwfz_is_add m" "p = vc_id (last_vc m)" "i = rwfz_value m"
      "\<forall>m' \<in> set ws. rwfz_is_add m' \<longrightarrow> vc_id (last_vc m') \<le> p" using pi by auto
    then have "i = Fin (of_int (rwfz_int m))" "p \<noteq> PID_NEXIST" using assms(1) by (auto simp: rwfz_whole_def)
    then show ?thesis using f a m True by (auto simp: rwfz_innate_is_def)
  next
    case False
    then show ?thesis using f a pi by (auto simp: rwfz_innate_is_def)
  qed
qed

definition rwfz_score_of :: "sds list list \<Rightarrow> double option \<Rightarrow> bool" where
  "rwfz_score_of ws z \<longleftrightarrow>
     (if list_ex rwfz_is_add ws \<or> list_ex rwfz_is_incr ws
      then \<exists>i. rwfz_innate_is ws i \<and> z = Some (Fin (of_int (i + rwfz_sum ws)))
      else z = None)"

lemma rwfz_run_score:
  assumes fresh: "fresh_server RWF_RPQ_TABLE_SUFFIX K s" "replica_ok n s"
    and ok: "\<forall>m \<in> set ms. rwfz_msg_ok n K m \<and> rwfz_whole m" and small: "rwfz_weight ms < 2 ^ 53"
  shows "\<exists>s'. run rwfz_deliver s ms = Some s' \<and> (\<forall>k \<in> K. \<forall>x.
    rwfz_score_of (rwfz_winners (filter (\<lambda>m. key_ele m = (k, x)) ms)) (zscore s' k x))"
proof -
  note inv = fresh_rwfzset_inv[OF fresh]
  have ok1: "\<forall>m \<in> set ms. rwfz_msg_ok n K m" using ok by blast
  obtain s' where s': "run rwfz_deliver s ms = Some s'" "rwfzset_inv n K s'"
    "\<forall>q. fst q \<in> K \<longrightarrow> rwfzset_view n q s' = (let ns = filter (\<lambda>m. key_ele m = q) ms;
       (c, p) = rwfzset_view n q s; J = fold (\<lambda>m c. vjoin c (msg_stamp m)) ns c
       in (J, fold rwfz_act (filter (\<lambda>m. msg_stamp m = J) ns) (if J = c then p else rwfz_new)))"
    using rwfz.run_stamped[OF inv(1) ok1] by blast
  have "rwfz_score_of (rwfz_winners (filter (\<lambda>m. key_ele m = (k, x)) ms)) (zscore s' k x)" if k: "k \<in> K" for k x
  proof -
    let ?ns = "filter (\<lambda>m. key_ele m = (k, x)) ms"
    let ?ws = "rwfz_winners ?ns"
    have t: "vc_text n (last m) \<and> m \<noteq> []" if "m \<in> set ms" for m using ok1 that by (auto simp: rwfz_msg_ok_def)
    have ids: "\<forall>m \<in> set ?ws. rwfz_whole m \<and> 0 \<le> vc_id (last_vc m)"
      using t vc_text_last(4) ok by (auto simp: rwfz_winners_def)
    have st: "\<forall>m \<in> set ?ns. length (msg_stamp m) = n \<and> (\<forall>v \<in> set (msg_stamp m). 0 \<le> v)"
      using t vc_text_last(3,6) by force
    have w: "rwfz_weight ?ws < 2 ^ 53"
      using small rwfz_weight_mono[of _ ms] rwfz_weight_mono[of _ ?ns] unfolding rwfz_winners_def
      by (meson order_le_less_trans)
    have "snd (rwfzset_view n (k, x) s') = fold rwfz_act ?ws rwfz_new"
      using s'(3)[rule_format, of "(k, x)"] k inv(2)[OF k] rwfz_winners_join[OF st] by (simp add: Let_def)
    then obtain p i where pi: "snd (rwfzset_view n (k, x) s') = (p, Fin (of_int i), Fin (of_int (rwfz_sum ?ws)))"
      "rwfz_innate_is ?ws i" "p = PID_NEXIST \<longleftrightarrow> \<not> list_ex rwfz_is_add ?ws \<and> \<not> list_ex rwfz_is_incr ?ws"
      using rwfz_winning_payload[OF ids w] by auto
    have "\<bar>i + rwfz_sum ?ws\<bar> < 2 ^ 53" using rwfz_innate_weight[OF pi(2)] w by linarith
    then have sc: "dadd (Fin (of_int i)) (Fin (of_int (rwfz_sum ?ws))) = Fin (of_int (i + rwfz_sum ?ws))"
      by (rule dadd_int_exact)
    show ?thesis
    proof (cases "p = PID_NEXIST")
      case True
      then show ?thesis using pi rwfzset_member(1)[OF s'(2) k] by (simp add: rwfz_score_of_def)
    next
      case False
      then have "zscore s' k x = Some (Fin (of_int (i + rwfz_sum ?ws)))"
        using rwfzset_member(2)[OF s'(2) k pi(1)] sc by simp
      then show ?thesis using pi(2,3) False by (auto simp: rwfz_score_of_def)
    qed
  qed
  with s'(1) show ?thesis by blast
qed

text \<open>The score does not depend on the order of the messages.\<close>

definition rwfz_adds_unique :: "sds list list \<Rightarrow> bool" where
  "rwfz_adds_unique ms \<longleftrightarrow> (\<forall>m \<in> set ms. \<forall>m' \<in> set ms. rwfz_is_add m \<longrightarrow> rwfz_is_add m' \<longrightarrow>
     key_ele m = key_ele m' \<longrightarrow> last_vc m = last_vc m' \<longrightarrow> m = m')"

lemma rwfz_weight_perm: "mset ms = mset ns \<Longrightarrow> rwfz_weight ms = rwfz_weight ns"
  unfolding rwfz_weight_def sum_mset_sum_list[symmetric] mset_map by simp

lemma rwfz_sum_perm: "mset ms = mset ns \<Longrightarrow> rwfz_sum ms = rwfz_sum ns"
  unfolding rwfz_sum_def sum_mset_sum_list[symmetric] mset_map by simp

lemma rwfz_winners_perm: "mset ms = mset ns \<Longrightarrow> mset (rwfz_winners ms) = mset (rwfz_winners ns)"
proof -
  assume p: "mset ms = mset ns"
  have "set ns = set ms" using mset_eq_setD[OF p] by simp
  then show ?thesis using p by (simp only: rwfz_winners_def mset_filter)
qed

lemma rwfz_score_unique:
  assumes perm: "mset ms = mset ns" and uniq: "rwfz_adds_unique ms"
    and same: "\<forall>m \<in> set ms. \<forall>m' \<in> set ms. msg_stamp m = msg_stamp m' \<and> key_ele m = key_ele m'"
    and y: "rwfz_score_of ms y" and z: "rwfz_score_of ns z"
  shows "y = z"
proof -
  have set: "set ns = set ms" using mset_eq_setD[OF perm] by simp
  have sum: "rwfz_sum ns = rwfz_sum ms" by (rule rwfz_sum_perm[OF perm[symmetric]])
  have "i = j" if i: "rwfz_innate_is ms i" and j: "rwfz_innate_is ns j" for i j
  proof (cases "list_ex rwfz_is_add ms")
    case True
    then obtain m where m: "m \<in> set ms" "rwfz_is_add m" "i = rwfz_int m"
      "\<forall>m' \<in> set ms. rwfz_is_add m' \<longrightarrow> vc_id (last_vc m') \<le> vc_id (last_vc m)"
      using i by (auto simp: rwfz_innate_is_def)
    obtain m' where m': "m' \<in> set ms" "rwfz_is_add m'" "j = rwfz_int m'"
      "\<forall>m \<in> set ms. rwfz_is_add m \<longrightarrow> vc_id (last_vc m) \<le> vc_id (last_vc m')"
      using j True by (auto simp: rwfz_innate_is_def set list_ex_iff)
    have "vc_id (last_vc m) = vc_id (last_vc m')"
      using m(4)[rule_format, OF m'(1,2)] m'(4)[rule_format, OF m(1,2)] by (rule order_antisym[rotated])
    moreover have st: "msg_stamp m = msg_stamp m' \<and> key_ele m = key_ele m'" by (rule same[rule_format, OF m(1) m'(1)])
    ultimately have "last_vc m = last_vc m'" by (intro vc_eqI) (simp_all add: msg_stamp_def)
    then have "m = m'" using uniq m(1,2) m'(1,2) st unfolding rwfz_adds_unique_def by blast
    then show ?thesis using m(3) m'(3) by simp
  next
    case False
    then show ?thesis using i j by (simp add: rwfz_innate_is_def list_ex_iff set)
  qed
  then show ?thesis using y z sum by (auto simp: rwfz_score_of_def list_ex_iff set split: if_splits)
qed

section \<open>Properties\<close>

text \<open>
  C13 (the outcome of the remove-win sorted set): after any sequence of messages with whole values on
  a fresh replica, an element is present iff one of the winners, the messages that have seen all
  removes of it, is an add or an increment, and then its score is the innate value (of the
  winning add with the greatest replica id) plus the sum of the winning increments. The values are whole numbers whose
  absolute values sum up to less than \<open>2 ^ 53\<close>, so that sums in \<open>double\<close> are exact.
\<close>

theorem rwfzset_outcome:
  assumes "fresh_server RWF_RPQ_TABLE_SUFFIX K s" "replica_ok n s"
    and "\<forall>m \<in> set ms. rwfz_msg_ok n K m \<and> rwfz_whole m" and "rwfz_weight ms < 2 ^ 53"
  shows "\<exists>s'. run rwfz_deliver s ms = Some s' \<and> (\<forall>k \<in> K. \<forall>x.
    let ws = rwfz_winners (filter (\<lambda>m. key_ele m = (k, x)) ms)
    in if list_ex rwfz_is_add ws \<or> list_ex rwfz_is_incr ws
       then \<exists>i. rwfz_innate_is ws i \<and> zscore s' k x = Some (Fin (of_int (i + rwfz_sum ws)))
       else zscore s' k x = None)"
  using rwfz_run_score[OF assms] by (simp only: rwfz_score_of_def Let_def)

text \<open>
  C14 (convergence of the remove-win sorted set): two fresh replicas that receive the same messages
  with whole values, whose absolute values sum up to less than \<open>2 ^ 53\<close>, in any two orders end with the same scores,
  if two adds of an element with the same clock are the same message.
\<close>

theorem rwfzset_convergence:
  assumes s: "fresh_server RWF_RPQ_TABLE_SUFFIX K s" "replica_ok n s"
    and t: "fresh_server RWF_RPQ_TABLE_SUFFIX K t" "replica_ok n t"
    and ok: "\<forall>m \<in> set ms. rwfz_msg_ok n K m \<and> rwfz_whole m" and small: "rwfz_weight ms < 2 ^ 53"
    and perm: "mset ms = mset ns" and uniq: "rwfz_adds_unique ms"
  shows "\<exists>s' t'. run rwfz_deliver s ms = Some s' \<and> run rwfz_deliver t ns = Some t' \<and>
    (\<forall>k \<in> K. \<forall>x. zscore s' k x = zscore t' k x)"
proof -
  have ok': "\<forall>m \<in> set ns. rwfz_msg_ok n K m \<and> rwfz_whole m" using ok perm by (metis set_mset_mset)
  have small': "rwfz_weight ns < 2 ^ 53" using small rwfz_weight_perm[OF perm] by simp
  obtain s' where s': "run rwfz_deliver s ms = Some s'" "\<forall>k \<in> K. \<forall>x.
    rwfz_score_of (rwfz_winners (filter (\<lambda>m. key_ele m = (k, x)) ms)) (zscore s' k x)"
    using rwfz_run_score[OF s ok small] by blast
  obtain t' where t': "run rwfz_deliver t ns = Some t'" "\<forall>k \<in> K. \<forall>x.
    rwfz_score_of (rwfz_winners (filter (\<lambda>m. key_ele m = (k, x)) ns)) (zscore t' k x)"
    using rwfz_run_score[OF t ok' small'] by blast
  have "zscore s' k x = zscore t' k x" if "k \<in> K" for k x
  proof (rule rwfz_score_unique)
    show "mset (rwfz_winners (filter (\<lambda>m. key_ele m = (k, x)) ms)) =
        mset (rwfz_winners (filter (\<lambda>m. key_ele m = (k, x)) ns))"
      by (rule rwfz_winners_perm) (simp add: perm mset_filter)
    show "rwfz_adds_unique (rwfz_winners (filter (\<lambda>m. key_ele m = (k, x)) ms))"
      using uniq by (simp add: rwfz_winners_def rwfz_adds_unique_def)
    show "\<forall>m \<in> set (rwfz_winners (filter (\<lambda>m. key_ele m = (k, x)) ms)).
        \<forall>m' \<in> set (rwfz_winners (filter (\<lambda>m. key_ele m = (k, x)) ms)). msg_stamp m = msg_stamp m' \<and> key_ele m = key_ele m'"
      by (auto simp: rwfz_winners_def intro!: vle_antisym)
  qed (use s'(2) t'(2) that in blast)+
  with s'(1) t'(1) show ?thesis by blast
qed

section \<open>Witnesses\<close>

lemma sample_rwfz_fresh: "fresh_server RWF_RPQ_TABLE_SUFFIX {''k''} (started_server 2 i)"
  by (rule started_fresh) (simp_all add: separated_def)

lemma sample_double: "getDoubleFromObject ''5'' = Some (Fin 5)" "getDoubleFromObject ''3'' = Some (Fin 3)"
  using string2d_text[of 5] string2d_text[of 3] by (simp_all add: getDoubleFromObject_def text_eval)

abbreviation (input) sample_rwfz_msgs :: "sds list list" where
  "sample_rwfz_msgs \<equiv> [[''rwfzadd'', ''k'', ''x'', ''5'', ''0,0|0''], [''rwfzincrby'', ''k'', ''x'', ''3'', ''0,0|0''],
     [''rwfzrem'', ''k'', ''x'', ''0,1|1'']]"

lemma sample_rwfz_ok:
  "\<forall>m \<in> set sample_rwfz_msgs. rwfz_msg_ok 2 {''k''} m \<and> rwfz_whole m" "rwfz_weight sample_rwfz_msgs < 2 ^ 53"
  "rwfz_adds_unique sample_rwfz_msgs"
  by (simp_all add: rwfz_msg_ok_def sample_vc_text sample_double rwfz_whole_def rwfz_value_def rwfz_int_def
      rwfz_is_add_def rwfz_is_incr_def rwfz_weight_def rwfz_adds_unique_def)

theorem rwfzset_outcome_witness:
  "\<exists>s'. run rwfz_deliver (started_server 2 0) sample_rwfz_msgs = Some s' \<and> (\<forall>k \<in> {''k''}. \<forall>x.
    let ws = rwfz_winners (filter (\<lambda>m. key_ele m = (k, x)) sample_rwfz_msgs)
    in if list_ex rwfz_is_add ws \<or> list_ex rwfz_is_incr ws
       then \<exists>i. rwfz_innate_is ws i \<and> zscore s' k x = Some (Fin (of_int (i + rwfz_sum ws)))
       else zscore s' k x = None)"
  by (rule rwfzset_outcome[OF sample_rwfz_fresh sample_replica _ sample_rwfz_ok(2)])
    (use sample_rwfz_ok(1) in simp_all)

theorem rwfzset_convergence_witness:
  "\<exists>s' t'. run rwfz_deliver (started_server 2 0) sample_rwfz_msgs = Some s' \<and>
    run rwfz_deliver (started_server 2 1) (rev sample_rwfz_msgs) = Some t' \<and>
    (\<forall>k \<in> {''k''}. \<forall>x. zscore s' k x = zscore t' k x)"
  by (rule rwfzset_convergence[OF sample_rwfz_fresh sample_replica sample_rwfz_fresh sample_replica
        sample_rwfz_ok(1,2) _ sample_rwfz_ok(3)]) (simp_all add: add_mset_commute)

end
