(* ===== verification/ListBasics.thy ===== *)
theory ListBasics
  imports RWFramework "HOL-Library.List_Lexorder"
begin

text \<open>
  The position identifiers and the container fields that the two list types share
  (list_basics.h, list_basics.c). A \<open>leid\<close>, an array of positions with its length, is a list; a
  list of the key space is a hash whose entries are the elements, under their ids, and the fields
  \<open>head\<close>, \<open>current\<close>, \<open>length\<close> and \<open>ops\<close>.
\<close>

section \<open>Position identifiers\<close>

record position =
  p_pos :: int
  p_pid :: int
  p_count :: int

type_synonym leid = "position list"

abbreviation (input) leid_BASE :: int where "leid_BASE \<equiv> 2 ^ 24"

definition pos_cmp :: "position \<Rightarrow> position \<Rightarrow> int" where
  "pos_cmp p1 p2 =
     (if p_pos p1 \<noteq> p_pos p2 then int32 (p_pos p1 - p_pos p2)
      else if p_pid p1 \<noteq> p_pid p2 then int32 (p_pid p1 - p_pid p2)
      else int32 (p_count p1 - p_count p2))"

definition position_text :: "position \<Rightarrow> sds" where
  "position_text p = print_d (p_pos p) @ '','' @ print_d (p_pid p) @ '','' @ print_d (p_count p)"

text \<open>\<open>leidToSds\<close> reads \<open>p[0]\<close> even when there are no positions: an access outside the array.\<close>

definition leidToSds :: "leid \<Rightarrow> sds option" where
  "leidToSds p =
     (if p = [] then None
      else Some (concat (map (\<lambda>x. position_text x @ ''|'') (butlast p)) @ position_text (last p)))"

text \<open>
  \<open>sdsToLeid\<close> fills the global \<open>leid_buf[1024]\<close> without a bound check, and its search for a comma
  does not stop at the end of the text; both are faults here.
\<close>

function sdsToLeid_loop :: "sds \<Rightarrow> leid \<Rightarrow> leid option" where
  "sdsToLeid_loop p buf =
     (if length buf \<ge> 1024 then None
      else case dropWhile (\<lambda>c. c \<noteq> CHR '','') p of
        [] \<Rightarrow> None
      | _ # p1 \<Rightarrow>
          (case dropWhile (\<lambda>c. c \<noteq> CHR '','') p1 of
             [] \<Rightarrow> None
           | _ # p2 \<Rightarrow>
               (let buf' = buf @ [\<lparr>p_pos = atoi p, p_pid = atoi p1, p_count = atoi p2\<rparr>]
                in case dropWhile (\<lambda>c. c \<noteq> CHR ''|'' \<and> c \<noteq> CHR 0x00) p2 of
                     [] \<Rightarrow> Some buf'
                   | c # p3 \<Rightarrow> if c = CHR ''|'' then sdsToLeid_loop p3 buf' else Some buf')))"
  by pat_completeness auto
termination
  by (relation "measure (\<lambda>(p, buf). 1024 - length buf)") auto

declare sdsToLeid_loop.simps [simp del]

definition sdsToLeid :: "sds \<Rightarrow> leid option" where
  "sdsToLeid s = sdsToLeid_loop s []"

fun leid_cmp_loop :: "leid \<Rightarrow> leid \<Rightarrow> int option" where
  "leid_cmp_loop (a # as) (b # bs) = (if pos_cmp a b \<noteq> 0 then Some (pos_cmp a b) else leid_cmp_loop as bs)"
| "leid_cmp_loop _ _ = None"

definition leid_cmp :: "leid \<Rightarrow> leid \<Rightarrow> int" where
  "leid_cmp id1 id2 =
     (case leid_cmp_loop id1 id2 of
        Some d \<Rightarrow> d
      | None \<Rightarrow> int32 (int (length id1) - int (length id2)))"

definition lprefix :: "leid option \<Rightarrow> nat \<Rightarrow> int" where
  "lprefix p i =
     (case p of None \<Rightarrow> 0 | Some xs \<Rightarrow> if i \<ge> length xs then 0 else p_pos (xs ! i))"

definition rprefix :: "leid option \<Rightarrow> nat \<Rightarrow> int" where
  "rprefix p i =
     (case p of None \<Rightarrow> leid_BASE | Some xs \<Rightarrow> if i \<ge> length xs then leid_BASE else p_pos (xs ! i))"

text \<open>The loop \<open>while (rprefix(q, index) - lprefix(p, index) < 2) index++\<close> ends behind both ids.\<close>

definition leid_num :: "leid option \<Rightarrow> nat" where
  "leid_num p = (case p of None \<Rightarrow> 0 | Some xs \<Rightarrow> length xs)"

function leid_index :: "leid option \<Rightarrow> leid option \<Rightarrow> nat \<Rightarrow> nat" where
  "leid_index p q i = (if int32 (rprefix q i - lprefix p i) < 2 then leid_index p q (Suc i) else i)"
  by pat_completeness auto
termination
proof (relation "measure (\<lambda>(p, q, i). max (leid_num p) (leid_num q) - i)", goal_cases)
  case (2 p q i)
  then have "i < leid_num p \<or> i < leid_num q"
    by (auto simp: rprefix_def lprefix_def leid_num_def int32_def not_less split: option.splits if_splits)
  then show ?case by auto
qed simp

declare leid_index.simps [simp del]

text \<open>
  \<open>constructLeid\<close> in the configuration of the source, in which \<open>CRDT_ELE_STATUS\<close> is defined: the new
  position is \<open>left + 1\<close>.
\<close>

definition leid_sum :: "vc \<Rightarrow> int" where
  "leid_sum t = foldl (\<lambda>a v. int32 (a + v)) 0 (vector t)"

definition constructLeid :: "leid option \<Rightarrow> leid option \<Rightarrow> vc \<Rightarrow> leid" where
  "constructLeid p q t =
     (let count = leid_sum t; index = leid_index p q 0; left = lprefix p index;
          pre = (case p of
                   Some xs \<Rightarrow>
                     take index xs @
                     map (\<lambda>i. case q of
                                Some ys \<Rightarrow> if i < length ys then ys ! i
                                           else \<lparr>p_pos = 0, p_pid = vc_id t, p_count = count\<rparr>
                              | None \<Rightarrow> \<lparr>p_pos = 0, p_pid = vc_id t, p_count = count\<rparr>)
                       [length xs..<index]
                 | None \<Rightarrow> replicate index \<lparr>p_pos = 0, p_pid = 0, p_count = 0\<rparr>)
      in pre @ [\<lparr>p_pos = int32 (left + 1), p_pid = vc_id t, p_count = count\<rparr>])"

section \<open>The container\<close>

text \<open>
  A field of the hash: an element, or one of the fields with a reserved name. A pointer to an
  element is the name under which the hash holds it. An element with a reserved name, or another
  hash under the key, makes the code read a field at the wrong type, which is a fault.
\<close>

datatype ('e, 'c) list_field = LElem 'e | LHead sds | LCurrent vc | LLength int | LOps "'c list"

type_synonym ('e, 'c) list_ht = "sds \<Rightarrow> ('e, 'c) list_field option"

definition getHead :: "('e, 'c) list_ht \<Rightarrow> sds option option" where
  "getHead ht = (case ht ''head'' of None \<Rightarrow> Some None | Some (LHead p) \<Rightarrow> Some (Some p) | _ \<Rightarrow> None)"

definition setHead :: "('e, 'c) list_ht \<Rightarrow> sds \<Rightarrow> ('e, 'c) list_ht" where
  "setHead ht p = ht(''head'' \<mapsto> LHead p)"

definition getCurrent :: "vc \<Rightarrow> ('e, 'c) list_ht \<Rightarrow> (('e, 'c) list_ht \<times> vc) option" where
  "getCurrent new ht =
     (case ht ''current'' of
        None \<Rightarrow> Some (ht(''current'' \<mapsto> LCurrent new), new)
      | Some (LCurrent c) \<Rightarrow> Some (ht, c)
      | _ \<Rightarrow> None)"

definition putCurrent :: "('e, 'c) list_ht \<Rightarrow> vc \<Rightarrow> ('e, 'c) list_ht" where
  "putCurrent ht c = ht(''current'' \<mapsto> LCurrent c)"

definition getLen :: "('e, 'c) list_ht \<Rightarrow> int option" where
  "getLen ht = (case ht ''length'' of None \<Rightarrow> Some 0 | Some (LLength n) \<Rightarrow> Some n | _ \<Rightarrow> None)"

definition incrLen :: "('e, 'c) list_ht \<Rightarrow> int \<Rightarrow> ('e, 'c) list_ht option" where
  "incrLen ht inc =
     (if inc = 0 then Some ht
      else do { n \<leftarrow> getLen ht; Some (ht(''length'' \<mapsto> LLength (int32 (n + inc)))) })"

text \<open>\<open>GET_LIST_HT\<close>, and the hash after its modification in place.\<close>

definition getListHT ::
    "('e, 'c) list_field server \<Rightarrow> sds \<Rightarrow> bool \<Rightarrow>
      (('e, 'c) list_field server \<times> ('e, 'c) list_ht option) option" where
  "getListHT s key create =
     do {
       (s1, ht) \<leftarrow> getInnerHT s key [] create;
       case ht of
         None \<Rightarrow> Some (s1, None)
       | Some (ObjHash h) \<Rightarrow> Some (s1, Some h)
       | Some _ \<Rightarrow> None
     }"

definition putListHT ::
    "('e, 'c) list_field server \<Rightarrow> sds \<Rightarrow> ('e, 'c) list_ht \<Rightarrow> ('e, 'c) list_field server" where
  "putListHT s key h = dbSet s key (ObjHash h)"

text \<open>An element of the hash by its name, as \<open>rehHTGet\<close> without and with creation returns it.\<close>

definition le_find :: "('e, 'c) list_ht \<Rightarrow> sds \<Rightarrow> 'e option option" where
  "le_find ht x = (case ht x of None \<Rightarrow> Some None | Some (LElem e) \<Rightarrow> Some (Some e) | _ \<Rightarrow> None)"

definition le_create :: "'e \<Rightarrow> ('e, 'c) list_ht \<Rightarrow> sds \<Rightarrow> (('e, 'c) list_ht \<times> 'e) option" where
  "le_create new ht x =
     do {
       eo \<leftarrow> le_find ht x;
       case eo of None \<Rightarrow> Some (ht(x \<mapsto> LElem new), new) | Some e \<Rightarrow> Some (ht, e)
     }"

definition le_deref :: "('e, 'c) list_ht \<Rightarrow> sds \<Rightarrow> 'e option" where
  "le_deref ht p = (case ht p of Some (LElem e) \<Rightarrow> Some e | _ \<Rightarrow> None)"

definition le_put :: "('e, 'c) list_ht \<Rightarrow> sds \<Rightarrow> 'e \<Rightarrow> ('e, 'c) list_ht" where
  "le_put ht x e = ht(x \<mapsto> LElem e)"

section \<open>The linked list\<close>

text \<open>
  The parts of \<open>rwflinsertCommand\<close> and \<open>insertFunc\<close> of t_rlist.c that link a new element into the list;
  \<open>ps\<close> and \<open>nx\<close> are the fields \<open>pos_id\<close> and \<open>next\<close> of the element type, \<open>setnx\<close> the assignment to
  \<open>next\<close>. The walk follows \<open>next\<close> while the new position is behind the next element.
\<close>

partial_function (option) list_walk ::
    "('e \<Rightarrow> leid option) \<Rightarrow> ('e \<Rightarrow> sds option) \<Rightarrow> ('e, 'c) list_ht \<Rightarrow> leid \<Rightarrow> sds \<Rightarrow> (sds \<times> sds option) option" where
  "list_walk ps nx ht pos p =
     Option.bind (le_deref ht p) (\<lambda>pe.
       case nx pe of
         None \<Rightarrow> Some (p, None)
       | Some q \<Rightarrow>
           Option.bind (le_deref ht q) (\<lambda>qe.
             Option.bind (ps qe) (\<lambda>qp.
               if leid_cmp pos qp > 0 then list_walk ps nx ht pos q else Some (p, Some q))))"

definition list_set_next ::
    "(sds option \<Rightarrow> 'e \<Rightarrow> 'e) \<Rightarrow> ('e, 'c) list_ht \<Rightarrow> sds \<Rightarrow> sds option \<Rightarrow> ('e, 'c) list_ht option" where
  "list_set_next setnx ht p q = do { e \<leftarrow> le_deref ht p; Some (le_put ht p (setnx q e)) }"

definition list_link ::
    "('e \<Rightarrow> leid option) \<Rightarrow> ('e \<Rightarrow> sds option) \<Rightarrow> (sds option \<Rightarrow> 'e \<Rightarrow> 'e) \<Rightarrow> ('e, 'c) list_ht \<Rightarrow>
      sds \<Rightarrow> leid \<Rightarrow> sds \<Rightarrow> ('e, 'c) list_ht option" where
  "list_link ps nx setnx ht x pos pre_name =
     do {
       head \<leftarrow> getHead ht;
       case head of
         None \<Rightarrow> Some (setHead ht x)
       | Some h \<Rightarrow>
           do {
             he \<leftarrow> le_deref ht h;
             hp \<leftarrow> ps he;
             if leid_cmp pos hp < 0 then list_set_next setnx (setHead ht x) x (Some h)
             else do {
               pre \<leftarrow> le_find ht pre_name;
               let p0 = (case pre of Some e \<Rightarrow> if ps e \<noteq> None then pre_name else h | None \<Rightarrow> h);
               (p, q) \<leftarrow> list_walk ps nx ht pos p0;
               ht1 \<leftarrow> list_set_next setnx ht p (Some x);
               list_set_next setnx ht1 x q
             }
           }
     }"

text \<open>The elements from \<open>p\<close> on, as the list queries visit them.\<close>

partial_function (option) list_nodes ::
    "('e \<Rightarrow> sds option) \<Rightarrow> ('e, 'c) list_ht \<Rightarrow> sds option \<Rightarrow> 'e list option" where
  "list_nodes nx ht po =
     (case po of
        None \<Rightarrow> Some []
      | Some p \<Rightarrow>
          Option.bind (le_deref ht p) (\<lambda>e.
            Option.bind (list_nodes nx ht (nx e)) (\<lambda>es. Some (e # es))))"

text \<open>The properties of a list element; the last three are bits of the field \<open>property\<close>.\<close>

datatype list_prop = Font | Size | Color | Bold | Italic | Underline

definition prop_of_name :: "sds \<Rightarrow> list_prop option" where
  "prop_of_name x =
     (if x = ''font'' then Some Font else if x = ''size'' then Some Size else if x = ''color'' then Some Color
      else if x = ''bold'' then Some Bold else if x = ''italic'' then Some Italic
      else if x = ''underline'' then Some Underline else None)"

fun prop_bit :: "list_prop \<Rightarrow> nat option" where
  "prop_bit Bold = Some 0"
| "prop_bit Italic = Some 1"
| "prop_bit Underline = Some 2"
| "prop_bit _ = None"

definition sdstolower :: "sds \<Rightarrow> sds" where
  "sdstolower x = map tolower x"

end
