(* ===== verification/RList.thy ===== *)
theory RList
  imports ListBasics CausalBuffer
begin

text \<open>
  The remove-win list of t_rlist.c with causal delivery: one vector clock and one list of waiting
  commands for the whole list. An element holds the inserts that no later operation has overwritten
  (\<open>aset\<close>), each with its properties and the clocks of their last updates, and the removes that no
  later insert has overwritten (\<open>rset\<close>).
\<close>

section \<open>Elements and commands\<close>

record rl_ase =
  ra_addr :: nat
  ra_t :: vc
  ra_ts :: "list_prop \<Rightarrow> vc"
  ra_normal :: "list_prop \<Rightarrow> int"
  ra_property :: int

definition rl_aseNew :: "nat \<Rightarrow> vc \<Rightarrow> (list_prop \<Rightarrow> int) \<Rightarrow> int \<Rightarrow> rl_ase" where
  "rl_aseNew p t vs property =
     \<lparr>ra_addr = p, ra_t = vc_dup t, ra_ts = (\<lambda>_. vc_dup t), ra_normal = vs, ra_property = property\<rparr>"

datatype rl_cmd_type = RLADD | RLUPDATE | RLREM

record rl_cmd =
  rl_type :: rl_cmd_type
  rl_argv :: "sds list"
  rl_ct :: vc

text \<open>The command keeps the arguments without the command name and the clock.\<close>

definition rl_cmdNew :: "rl_cmd_type \<Rightarrow> sds list \<Rightarrow> vc \<Rightarrow> rl_cmd" where
  "rl_cmdNew ty ra t = \<lparr>rl_type = ty, rl_argv = butlast (tl ra), rl_ct = t\<rparr>"

record rle =
  rl_oid :: "sds option"
  rl_pos_id :: "leid option"
  rl_content :: "sds option"
  rl_value :: "nat option"
  rl_aset :: "rl_ase list"
  rl_rset :: "vc list"
  rl_next :: "sds option"
  rl_fresh :: nat

type_synonym rl_field = "(rle, rl_cmd) list_field"
type_synonym rl_ht = "(rle, rl_cmd) list_ht"

definition getOps :: "rl_ht \<Rightarrow> (rl_ht \<times> rl_cmd list) option" where
  "getOps ht =
     (case ht ''ops'' of
        None \<Rightarrow> Some (ht(''ops'' \<mapsto> LOps []), [])
      | Some (LOps ops) \<Rightarrow> Some (ht, ops)
      | _ \<Rightarrow> None)"

definition putOps :: "rl_ht \<Rightarrow> rl_cmd list \<Rightarrow> rl_ht" where
  "putOps ht ops = ht(''ops'' \<mapsto> LOps ops)"

definition rl_LOOKUP :: "rle \<Rightarrow> bool" where
  "rl_LOOKUP e \<longleftrightarrow> length (rl_aset e) \<noteq> 0 \<and> length (rl_rset e) = 0"

definition rleNew :: rle where
  "rleNew =
     \<lparr>rl_oid = None, rl_pos_id = None, rl_content = None, rl_value = None, rl_aset = [], rl_rset = [],
      rl_next = None, rl_fresh = 0\<rparr>"

definition rle_deref :: "rle \<Rightarrow> nat \<Rightarrow> rl_ase option" where
  "rle_deref e p = find (\<lambda>a. ra_addr a = p) (rl_aset e)"

definition rl_below :: "vc \<Rightarrow> rl_ase \<Rightarrow> bool" where
  "rl_below t a \<longleftrightarrow> vc_cmp (ra_t a) t = VC_LESS"

definition rl_delete_below :: "vc \<Rightarrow> rle \<Rightarrow> rle \<times> bool" where
  "rl_delete_below t e =
     (let dead = filter (rl_below t) (rl_aset e)
      in (e\<lparr>rl_aset := filter (\<lambda>a. \<not> rl_below t a) (rl_aset e),
            rl_value := (case rl_value e of
                           None \<Rightarrow> None
                         | Some p \<Rightarrow> if list_ex (\<lambda>a. ra_addr a = p) dead then None else Some p)\<rparr>,
          dead \<noteq> []))"

definition rl_id_less :: "rle \<Rightarrow> int \<Rightarrow> bool option" where
  "rl_id_less e i =
     (case rl_value e of
        None \<Rightarrow> Some True
      | Some p \<Rightarrow> do { x \<leftarrow> rle_deref e p; Some (vc_id (ra_t x) < i) })"

fun rl_pick :: "rl_ase list \<Rightarrow> rle \<Rightarrow> rle option" where
  "rl_pick [] e = Some e"
| "rl_pick (a # as) e =
     do {
       b \<leftarrow> rl_id_less e (vc_id (ra_t a));
       rl_pick as (if b then e\<lparr>rl_value := Some (ra_addr a)\<rparr> else e)
     }"

section \<open>The operations\<close>

text \<open>The first lines of all three functions: the clock of the list joins \<open>t\<close>.\<close>

definition rl_advance :: "vc \<Rightarrow> rl_field server \<times> rl_ht \<Rightarrow> (rl_field server \<times> rl_ht) option" where
  "rl_advance t sh =
     do {
       (ht1, c) \<leftarrow> getCurrent (server_vc (fst sh)) (snd sh);
       Some ((fst sh)\<lparr>dirty := dirty (fst sh) + 1\<rparr>, putCurrent ht1 (vc_update c t))
     }"

definition rl_link :: "rl_ht \<Rightarrow> sds \<Rightarrow> sds list \<Rightarrow> rle \<Rightarrow> rl_ht option" where
  "rl_link ht x av e =
     do {
       content \<leftarrow> arg av 3;
       tx \<leftarrow> arg av 8;
       pos \<leftarrow> sdsToLeid tx;
       pre_name \<leftarrow> arg av 1;
       let e1 = e\<lparr>rl_oid := Some x, rl_content := Some content, rl_pos_id := Some pos\<rparr>;
       list_link rl_pos_id rl_next (\<lambda>q e. e\<lparr>rl_next := q\<rparr>) (le_put ht x e1) x pos pre_name
     }"

text \<open>The entry for an insert and the entries it overwrites.\<close>

definition rl_add_entry :: "vc \<Rightarrow> (list_prop \<Rightarrow> int) \<Rightarrow> int \<Rightarrow> rle \<Rightarrow> rle option" where
  "rl_add_entry t vs property e =
     (let a = rl_aseNew (rl_fresh e) t vs property;
          e1 = e\<lparr>rl_aset := rl_aset e @ [a], rl_fresh := Suc (rl_fresh e)\<rparr>;
          (e2, removed) = rl_delete_below t e1;
          e3 = e2\<lparr>rl_rset := filter (\<lambda>r. vc_cmp r t \<noteq> VC_LESS) (rl_rset e2)\<rparr>
      in do {
        e4 \<leftarrow> (if removed \<and> rl_value e3 = None then rl_pick (rl_aset e3) e3 else Some e3);
        b \<leftarrow> rl_id_less e4 (vc_id t);
        Some (if b then e4\<lparr>rl_value := Some (ra_addr a)\<rparr> else e4)
      })"

definition rl_insertFunc ::
    "sds list \<Rightarrow> vc \<Rightarrow> rl_field server \<times> rl_ht \<Rightarrow> (rl_field server \<times> rl_ht) option" where
  "rl_insertFunc av t sh =
     do {
       (s1, ht1) \<leftarrow> rl_advance t sh;
       x \<leftarrow> arg av 2;
       (ht2, e) \<leftarrow> le_create rleNew ht1 x;
       ht3 \<leftarrow> (if rl_oid e = None then rl_link ht2 x av e else Some ht2);
       e3 \<leftarrow> le_deref ht3 x;
       fo \<leftarrow> arg av 4; si \<leftarrow> arg av 5; co \<leftarrow> arg av 6; pr \<leftarrow> arg av 7;
       font \<leftarrow> getLongLongFromObject fo;
       sz \<leftarrow> getLongLongFromObject si;
       color \<leftarrow> getLongLongFromObject co;
       property \<leftarrow> getLongLongFromObject pr;
       let vs = (\<lambda>p. if p = Font then int32 font else if p = Size then int32 sz else int32 color);
       e4 \<leftarrow> rl_add_entry t vs (int32 property) e3;
       let ht4 = le_put ht3 x e4;
       ht5 \<leftarrow> (if \<not> rl_LOOKUP e \<and> rl_LOOKUP e4 then incrLen ht4 1 else Some ht4);
       Some (s1, ht5)
     }"

text \<open>An update of a property wins over the updates that \<open>vc_cmp\<close> puts before it.\<close>

definition rl_update_entry :: "list_prop \<Rightarrow> vc \<Rightarrow> int \<Rightarrow> rl_ase \<Rightarrow> rl_ase" where
  "rl_update_entry p t v a =
     (if vc_cmp (ra_ts a p) t < 0
      then let a1 = a\<lparr>ra_ts := (ra_ts a)(p := (vc_update (ra_ts a p) t)\<lparr>vc_id := vc_id t\<rparr>)\<rparr>
           in case prop_bit p of
                None \<Rightarrow> a1\<lparr>ra_normal := (ra_normal a1)(p := int32 v)\<rparr>
              | Some i \<Rightarrow> a1\<lparr>ra_property := (if v = 0 then unset_bit i (ra_property a1) else set_bit i (ra_property a1))\<rparr>
      else a)"

definition rl_updateFunc ::
    "sds list \<Rightarrow> vc \<Rightarrow> rl_field server \<times> rl_ht \<Rightarrow> (rl_field server \<times> rl_ht) option" where
  "rl_updateFunc av t sh =
     do {
       (s1, ht1) \<leftarrow> rl_advance t sh;
       x \<leftarrow> arg av 1;
       (ht2, e) \<leftarrow> le_create rleNew ht1 x;
       ty \<leftarrow> arg av 2;
       vx \<leftarrow> arg av 3;
       v \<leftarrow> getLongLongFromObject vx;
       let upd = (case prop_of_name (c_text (sdstolower ty)) of
                    None \<Rightarrow> (\<lambda>a. a)
                  | Some p \<Rightarrow> (\<lambda>a. if rl_below t a then rl_update_entry p t v a else a));
       Some (s1, le_put ht2 x (e\<lparr>rl_aset := map upd (rl_aset e)\<rparr>))
     }"

definition rl_removeFunc ::
    "sds list \<Rightarrow> vc \<Rightarrow> rl_field server \<times> rl_ht \<Rightarrow> (rl_field server \<times> rl_ht) option" where
  "rl_removeFunc av t sh =
     do {
       (s1, ht1) \<leftarrow> rl_advance t sh;
       x \<leftarrow> arg av 1;
       (ht2, e) \<leftarrow> le_create rleNew ht1 x;
       let e1 = fst (rl_delete_below t (e\<lparr>rl_rset := rl_rset e @ [vc_dup t]\<rparr>));
       e2 \<leftarrow> (if rl_value e1 = None then rl_pick (rl_aset e1) e1 else Some e1);
       let ht3 = le_put ht2 x e2;
       ht4 \<leftarrow> (if rl_LOOKUP e \<and> \<not> rl_LOOKUP e2 then incrLen ht3 (- 1) else Some ht3);
       Some (s1, ht4)
     }"

definition rl_apply :: "rl_cmd \<Rightarrow> rl_field server \<times> rl_ht \<Rightarrow> (rl_field server \<times> rl_ht) option" where
  "rl_apply cmd sh =
     (case rl_type cmd of
        RLADD \<Rightarrow> rl_insertFunc (rl_argv cmd) (rl_ct cmd) sh
      | RLUPDATE \<Rightarrow> rl_updateFunc (rl_argv cmd) (rl_ct cmd) sh
      | RLREM \<Rightarrow> rl_removeFunc (rl_argv cmd) (rl_ct cmd) sh)"

definition rl_current :: "rl_field server \<times> rl_ht \<Rightarrow> vc" where
  "rl_current sh = (case snd sh ''current'' of Some (LCurrent c) \<Rightarrow> c | _ \<Rightarrow> server_vc (fst sh))"

definition rl_notifyLoop ::
    "rl_field server \<times> rl_ht \<Rightarrow> rl_cmd list \<Rightarrow> ((rl_field server \<times> rl_ht) \<times> rl_cmd list) option" where
  "rl_notifyLoop = notify_loop rl_current rl_ct rl_apply"

text \<open>The common effect phase of the three commands.\<close>

definition rl_receive :: "rl_cmd_type \<Rightarrow> rl_field effect" where
  "rl_receive ty s ra =
     do {
       t \<leftarrow> CR_GET_LAST ra;
       key \<leftarrow> arg ra 1;
       (s1, hto) \<leftarrow> getListHT s key True;
       ht \<leftarrow> hto;
       (ht1, current) \<leftarrow> getCurrent (server_vc s1) ht;
       ready \<leftarrow> vc_causally_ready current t;
       if ready
       then do {
         sh \<leftarrow> rl_apply \<lparr>rl_type = ty, rl_argv = tl ra, rl_ct = t\<rparr> (s1, ht1);
         (ht3, ops3) \<leftarrow> getOps (snd sh);
         ((s2, ht4), ops') \<leftarrow> rl_notifyLoop (fst sh, ht3) ops3;
         Some (putListHT s2 key (putOps ht4 ops'))
       }
       else do {
         (ht2, ops) \<leftarrow> getOps ht1;
         Some (putListHT s1 key (putOps ht2 (ops @ [rl_cmdNew ty ra t])))
       }
     }"

section \<open>Commands\<close>

definition rl_no_pre_error :: "sds \<Rightarrow> reply" where
  "rl_no_pre_error x = ReplyRaw (''-No pre element '' @ x @ '' in the list.'' @ crlf)"

definition rl_not_added_error :: "sds \<Rightarrow> reply" where
  "rl_not_added_error x = ReplyRaw (''-Element '' @ x @ '' hasn't been added, can't be readded.'' @ crlf)"

definition rl_has_position_error :: "sds \<Rightarrow> reply" where
  "rl_has_position_error x = ReplyRaw (''-Element '' @ x @ '' has set its position, can only be readded.'' @ crlf)"

definition rl_lookup :: "rl_field server \<Rightarrow> sds \<Rightarrow> sds \<Rightarrow> rle option option" where
  "rl_lookup s key x =
     do { (s1, hto) \<leftarrow> getListHT s key False; case hto of None \<Rightarrow> Some None | Some ht \<Rightarrow> le_find ht x }"

definition rl_position :: "rl_field server \<Rightarrow> rl_ht \<Rightarrow> rle option \<Rightarrow> (rl_ht \<times> sds) option" where
  "rl_position s ht pre =
     do {
       let left = (case pre of None \<Rightarrow> None | Some p \<Rightarrow> rl_pos_id p);
       right \<leftarrow> (case (case pre of None \<Rightarrow> getHead ht | Some p \<Rightarrow> Some (rl_next p)) of
                   None \<Rightarrow> None
                 | Some None \<Rightarrow> Some None
                 | Some (Some q) \<Rightarrow> map_option rl_pos_id (le_deref ht q));
       (ht1, cur) \<leftarrow> getCurrent (server_vc s) ht;
       tx \<leftarrow> leidToSds (constructLeid left right cur);
       Some (ht1, tx)
     }"

definition rlinsert_prepare :: "rl_field prepare" where
  "rlinsert_prepare s args =
     (if \<not> CHECK_ARGC args 9 then Some (s, Inl ReplySyntaxerr)
      else do {
        key \<leftarrow> arg args 1;
        if \<not> CHECK_CONTAINER_TYPE s key OBJ_HASH then Some (s, Inl ReplyWrongtypeerr)
        else if length args < 9 then None
        else if list_ex (\<lambda>i. \<not> CHECK_ARG_TYPE_INT (args ! i)) [5..<9]
        then Some (s, Inl (ReplyError ''value is not an integer''))
        else do {
          argv2 \<leftarrow> arg args 2;
          x \<leftarrow> arg args 3;
          pre \<leftarrow> rl_lookup s key argv2;
          let pre_name = (if pre = None then sdstolower argv2 else argv2);
          if pre = None \<and> c_text pre_name \<noteq> ''null'' \<and> c_text pre_name \<noteq> ''readd''
          then Some (s, Inl (rl_no_pre_error pre_name))
          else if (case pre of None \<Rightarrow> False | Some p \<Rightarrow> \<not> rl_LOOKUP p \<or> rl_pos_id p = None)
          then Some (s, Inl (rl_no_pre_error pre_name))
          else do {
            (s1, hto) \<leftarrow> getListHT s key True;
            ht \<leftarrow> hto;
            (ht1, e) \<leftarrow> le_create rleNew ht x;
            let s2 = putListHT s1 key ht1;
            if rl_LOOKUP e then Some (s2, Inl ReplyEleExist)
            else if rl_oid e = None \<and> c_text pre_name = ''readd'' then Some (s2, Inl (rl_not_added_error x))
            else if rl_oid e \<noteq> None \<and> c_text pre_name \<noteq> ''readd'' then Some (s2, Inl (rl_has_position_error x))
            else do {
              (ht2, tx) \<leftarrow> (case rl_oid e of
                  None \<Rightarrow> rl_position s ht1 pre
                | Some _ \<Rightarrow> do { pos \<leftarrow> rl_pos_id e; tx \<leftarrow> leidToSds pos; Some (ht1, tx) });
              (ht3, cur) \<leftarrow> getCurrent (server_vc s) ht2;
              t \<leftarrow> vc_now cur;
              Some (putListHT s2 key ht3, Inr [tx, t])
            }
          }
        }
      })"

text \<open>
  The lookup of the predecessor reads \<open>argv[2]\<close> as the user wrote it. If there is no such element, \<open>sdstolower\<close>
  changes the argument in place, also in the broadcast message, which is built from \<open>argv\<close> later.
\<close>

definition rl_lower_pre :: "rl_field server \<Rightarrow> sds list \<Rightarrow> sds list" where
  "rl_lower_pre s args =
     (if length args = 9 \<and> CHECK_CONTAINER_TYPE s (args ! 1) OBJ_HASH \<and>
        \<not> list_ex (\<lambda>i. \<not> CHECK_ARG_TYPE_INT (args ! i)) [5..<9] \<and> rl_lookup s (args ! 1) (args ! 2) = Some None
      then args[2 := sdstolower (args ! 2)] else args)"

definition rlinsertCommand :: "rl_field command" where
  "rlinsertCommand s c =
     (if is_replica c then crdt_command rlinsert_prepare (rl_receive RLADD) s c
      else crdt_command (\<lambda>s1 _. rlinsert_prepare s1 (argv c)) (rl_receive RLADD) s (c\<lparr>argv := rl_lower_pre s (argv c)\<rparr>))"

text \<open>The check and the clock that updates and removes share.\<close>

definition rl_existing :: "rl_field server \<Rightarrow> sds \<Rightarrow> sds \<Rightarrow> (rl_field server \<times> (reply + sds list)) option" where
  "rl_existing s key x =
     do {
       eo \<leftarrow> rl_lookup s key x;
       if (case eo of None \<Rightarrow> True | Some e \<Rightarrow> \<not> rl_LOOKUP e) then Some (s, Inl ReplyEleNexist)
       else do {
         (s1, hto) \<leftarrow> getListHT s key True;
         ht \<leftarrow> hto;
         (ht1, cur) \<leftarrow> getCurrent (server_vc s) ht;
         t \<leftarrow> vc_now cur;
         Some (putListHT s1 key ht1, Inr [t])
       }
     }"

definition rlupdate_prepare :: "rl_field prepare" where
  "rlupdate_prepare s args =
     (if \<not> CHECK_ARGC args 5 then Some (s, Inl ReplySyntaxerr)
      else do {
        key \<leftarrow> arg args 1;
        if \<not> CHECK_CONTAINER_TYPE s key OBJ_HASH then Some (s, Inl ReplyWrongtypeerr)
        else do {
          v \<leftarrow> arg args 4;
          if \<not> CHECK_ARG_TYPE_INT v then Some (s, Inl (ReplyError ''value is not an integer''))
          else do { x \<leftarrow> arg args 2; rl_existing s key x }
        }
      })"

text \<open>\<open>updateFunc\<close> changes the property name in place if the command is ready, as it is at its origin.\<close>

definition rlupdateCommand :: "rl_field command" where
  "rlupdateCommand s c =
     crdt_command rlupdate_prepare (rl_receive RLUPDATE) s
       (if is_replica c \<or> length (argv c) \<le> 3 then c
        else c\<lparr>argv := (argv c)[3 := sdstolower (argv c ! 3)]\<rparr>)"

definition rlrem_prepare :: "rl_field prepare" where
  "rlrem_prepare s args =
     (if \<not> CHECK_ARGC args 3 then Some (s, Inl ReplySyntaxerr)
      else do {
        key \<leftarrow> arg args 1;
        if \<not> CHECK_CONTAINER_TYPE s key OBJ_HASH then Some (s, Inl ReplyWrongtypeerr)
        else do { x \<leftarrow> arg args 2; rl_existing s key x }
      })"

definition rlremCommand :: "rl_field command" where
  "rlremCommand = crdt_command rlrem_prepare (rl_receive RLREM)"

section \<open>Queries\<close>

definition rllenCommand :: "rl_field command" where
  "rllenCommand s c =
     do {
       key \<leftarrow> arg (argv c) 1;
       case lookupKey s key of
         None \<Rightarrow> Some (s, addReply c (ReplyLongLong 0))
       | Some (ObjHash h) \<Rightarrow> do { n \<leftarrow> getLen h; Some (s, addReply c (ReplyLongLong n)) }
       | Some _ \<Rightarrow> Some (s, addReply c ReplyWrongtypeerr)
     }"

definition rl_item :: "rle \<Rightarrow> reply list option" where
  "rl_item e =
     (if rl_LOOKUP e
      then do {
        oid \<leftarrow> rl_oid e;
        content \<leftarrow> rl_content e;
        p \<leftarrow> rl_value e;
        a \<leftarrow> rle_deref e p;
        Some [ReplyArrayLen 6, ReplyBulk oid, ReplyBulk content, ReplyBulk (print_d (ra_normal a Font)),
          ReplyBulk (print_d (ra_normal a Size)), ReplyBulk (print_d (ra_normal a Color)),
          ReplyBulk (print_d (ra_property a))]
      }
      else Some [])"

fun rl_items :: "rle list \<Rightarrow> reply list option" where
  "rl_items [] = Some []"
| "rl_items (e # es) = do { r \<leftarrow> rl_item e; rs \<leftarrow> rl_items es; Some (r @ rs) }"

definition rllistCommand :: "rl_field command" where
  "rllistCommand s c =
     do {
       key \<leftarrow> arg (argv c) 1;
       case lookupKey s key of
         None \<Rightarrow> Some (s, addReply c ReplyEmptyarray)
       | Some (ObjHash h) \<Rightarrow>
           do {
             n \<leftarrow> getLen h;
             n \<leftarrow> (if n < 0 then None else Some n);
             head \<leftarrow> getHead h;
             es \<leftarrow> list_nodes rl_next h head;
             rs \<leftarrow> rl_items es;
             Some (s, addReplies c (ReplyArrayLen (nat n) # rs))
           }
       | Some _ \<Rightarrow> Some (s, addReply c ReplyWrongtypeerr)
     }"

end
