(* ===== verification/RWFList.thy ===== *)
theory RWFList
  imports ListBasics
begin

text \<open>
  The list of t_rwflist.c in the remove-win framework. The elements of a list are linked by
  \<open>next\<close> in the order of their positions and stay linked when they are removed; the properties of an
  element carry the Lamport clocks of their last updates.
\<close>

section \<open>Elements\<close>

text \<open>\<open>rwfleNew\<close> leaves \<open>font\<close>, \<open>size\<close> and \<open>color\<close> uninitialised (\<open>None\<close> in \<open>rwfl_normal\<close>).\<close>

record rwfle = reh +
  rwfl_oid :: "sds option"
  rwfl_pos_id :: "leid option"
  rwfl_current :: lc
  rwfl_content :: "sds option"
  rwfl_ts :: "list_prop \<Rightarrow> lc option"
  rwfl_normal :: "list_prop \<Rightarrow> int option"
  rwfl_property :: int
  rwfl_next :: "sds option"

type_synonym rwfl_ht = "(rwfle, unit) list_ht"
type_synonym rwfl_server = "(rwfle, unit) list_field server"

definition rwfleNew :: "rwfl_server \<Rightarrow> rwfle" where
  "rwfleNew s =
     \<lparr>PID = PID_NEXIST, CURRENT = server_vc s, rwfl_oid = None, rwfl_pos_id = None,
      rwfl_current = lc_new 0 (p2p_id s), rwfl_content = None, rwfl_ts = Map.empty, rwfl_normal = Map.empty,
      rwfl_property = 0, rwfl_next = None\<rparr>"

text \<open>The assignment of a property: a field of its own, or a bit of \<open>property\<close>.\<close>

definition set_prop :: "list_prop \<Rightarrow> int \<Rightarrow> bool \<Rightarrow> rwfle \<Rightarrow> rwfle" where
  "set_prop p v on e =
     (case prop_bit p of
        None \<Rightarrow> e\<lparr>rwfl_normal := (rwfl_normal e)(p \<mapsto> int32 v)\<rparr>
      | Some i \<Rightarrow> e\<lparr>rwfl_property := (if on then set_bit i (rwfl_property e) else unset_bit i (rwfl_property e))\<rparr>)"

definition acquired_update :: "rwfle \<Rightarrow> sds \<Rightarrow> lc \<Rightarrow> int \<Rightarrow> rwfle" where
  "acquired_update e ty t v =
     (case prop_of_name (c_text (sdstolower ty)) of
        None \<Rightarrow> e
      | Some p \<Rightarrow>
          if (case rwfl_ts e p of None \<Rightarrow> True | Some u \<Rightarrow> lc_cmp u t \<le> 0)
          then (set_prop p v (v \<noteq> 0) (e\<lparr>rwfl_ts := (rwfl_ts e)(p := lc_copy (rwfl_ts e p) t)\<rparr>))
                 \<lparr>rwfl_current := lc_update (rwfl_current e) t\<rparr>
          else e)"

text \<open>The flag says whether the history of the element was changed, which counts in \<open>server.dirty\<close>.\<close>

definition rwfl_removeFunc :: "rwfl_ht \<Rightarrow> sds \<Rightarrow> rwfle \<Rightarrow> vc \<Rightarrow> (rwfl_ht \<times> rwfle \<times> bool) option" where
  "rwfl_removeFunc ht x e t =
     do {
       (e1, removed) \<leftarrow> removeCheck e t;
       if removed
       then do {
         ht1 \<leftarrow> (if EXISTS e then incrLen ht (- 1) else Some ht);
         let e2 = e1\<lparr>rwfl_ts := Map.empty, rwfl_current := (rwfl_current e1)\<lparr>lc_x := 0\<rparr>\<rparr>;
         Some (le_put ht1 x e2, e2, True)
       }
       else Some (le_put ht x e1, e1, False)
     }"

section \<open>Insertion\<close>

definition no_pre_error :: "sds \<Rightarrow> reply" where
  "no_pre_error x = ReplyRaw (''-No pre element '' @ x @ '' in the list.'' @ crlf)"

definition not_added_error :: "sds \<Rightarrow> reply" where
  "not_added_error x = ReplyRaw (''-Element '' @ x @ '' hasn't been added, can't be readded.'' @ crlf)"

definition has_position_error :: "sds \<Rightarrow> reply" where
  "has_position_error x = ReplyRaw (''-Element '' @ x @ '' has set its position, can only be readded.'' @ crlf)"

text \<open>The element that \<open>GET_RWFLE(arg_t, 0)\<close> returns.\<close>

definition rwfl_lookup :: "rwfl_server \<Rightarrow> sds \<Rightarrow> sds \<Rightarrow> rwfle option option" where
  "rwfl_lookup s key x =
     do { (s1, hto) \<leftarrow> getListHT s key False; case hto of None \<Rightarrow> Some None | Some ht \<Rightarrow> le_find ht x }"

text \<open>The position of a new element, behind \<open>pre\<close> or at the front of the list.\<close>

definition rwfl_position ::
    "rwfl_server \<Rightarrow> rwfl_ht \<Rightarrow> rwfle option \<Rightarrow> (rwfl_ht \<times> sds) option" where
  "rwfl_position s ht pre =
     do {
       let left = (case pre of None \<Rightarrow> None | Some p \<Rightarrow> rwfl_pos_id p);
       right \<leftarrow> (case (case pre of None \<Rightarrow> getHead ht | Some p \<Rightarrow> Some (rwfl_next p)) of
                   None \<Rightarrow> None
                 | Some None \<Rightarrow> Some None
                 | Some (Some q) \<Rightarrow> map_option rwfl_pos_id (le_deref ht q));
       (ht1, cur) \<leftarrow> getCurrent (server_vc s) ht;
       cur' \<leftarrow> vc_inc cur (p2p_id s);
       tx \<leftarrow> leidToSds (constructLeid left right cur);
       Some (putCurrent ht1 cur', tx)
     }"

definition rwflinsert_prepare :: "(rwfle, unit) list_field prepare" where
  "rwflinsert_prepare s args =
     (if \<not> CHECK_ARGC args 9 then Some (s, Inl ReplySyntaxerr)
      else do {
        key \<leftarrow> arg args 1;
        if \<not> CHECK_CONTAINER_TYPE s key OBJ_HASH then Some (s, Inl ReplyWrongtypeerr)
        else if length args < 9 then None
        else if list_ex (\<lambda>i. \<not> CHECK_ARG_TYPE_INT (args ! i)) [5..<9]
        then Some (s, Inl (ReplyError ''value is not an integer''))
        else do {
          argv2 \<leftarrow> arg args 2;
          x \<leftarrow> arg args 3;
          pre \<leftarrow> rwfl_lookup s key argv2;
          let pre_name = (if pre = None then sdstolower argv2 else argv2);
          if pre = None \<and> c_text pre_name \<noteq> ''null'' \<and> c_text pre_name \<noteq> ''readd''
          then Some (s, Inl (no_pre_error pre_name))
          else if (case pre of None \<Rightarrow> False | Some p \<Rightarrow> \<not> EXISTS p \<or> rwfl_pos_id p = None)
          then Some (s, Inl (no_pre_error pre_name))
          else do {
            (s1, hto) \<leftarrow> getListHT s key True;
            ht \<leftarrow> hto;
            (ht1, e) \<leftarrow> le_create (rwfleNew s) ht x;
            let s2 = putListHT s1 key ht1;
            if \<not> PREPARE_PRECOND_ADD e then Some (s2, Inl ReplyEleExist)
            else case rwfl_oid e of
              None \<Rightarrow>
                (if c_text pre_name = ''readd'' then Some (s2, Inl (not_added_error x))
                 else do {
                   (ht2, tx) \<leftarrow> rwfl_position s ht1 pre;
                   t \<leftarrow> ADD_CR_NON_RMV e;
                   Some (putListHT s2 key ht2, Inr [tx, t])
                 })
            | Some _ \<Rightarrow>
                (if c_text pre_name \<noteq> ''readd'' then Some (s2, Inl (has_position_error x))
                 else do {
                   pos \<leftarrow> rwfl_pos_id e;
                   tx \<leftarrow> leidToSds pos;
                   t \<leftarrow> ADD_CR_NON_RMV e;
                   Some (s2, Inr [tx, t])
                 })
          }
        }
      })"

text \<open>A property of an insert applies unless an update of it has arrived before.\<close>

definition insert_prop :: "list_prop \<Rightarrow> int \<Rightarrow> bool \<Rightarrow> rwfle \<Rightarrow> rwfle" where
  "insert_prop p v on e = (if rwfl_ts e p = None then set_prop p v on e else e)"

definition rwfl_insert_props :: "int \<Rightarrow> int \<Rightarrow> int \<Rightarrow> int \<Rightarrow> rwfle \<Rightarrow> rwfle" where
  "rwfl_insert_props font sz color property e =
     insert_prop Underline 0 (bit property 2) (insert_prop Italic 0 (bit property 1)
       (insert_prop Bold 0 (bit property 0)
         (insert_prop Color color True (insert_prop Size sz True (insert_prop Font font True e)))))"

definition rwfl_link :: "rwfl_ht \<Rightarrow> sds \<Rightarrow> sds list \<Rightarrow> rwfle \<Rightarrow> rwfl_ht option" where
  "rwfl_link ht x ra e =
     do {
       content \<leftarrow> arg ra 4;
       tx \<leftarrow> arg ra 9;
       pos \<leftarrow> sdsToLeid tx;
       pre_name \<leftarrow> arg ra 2;
       let e1 = e\<lparr>rwfl_oid := Some x, rwfl_content := Some content, rwfl_pos_id := Some pos\<rparr>;
       list_link rwfl_pos_id rwfl_next (\<lambda>q e. e\<lparr>rwfl_next := q\<rparr>) (le_put ht x e1) x pos pre_name
     }"

definition rwflinsert_effect :: "(rwfle, unit) list_field effect" where
  "rwflinsert_effect s ra =
     do {
       t \<leftarrow> CR_GET_LAST ra;
       key \<leftarrow> arg ra 1;
       x \<leftarrow> arg ra 3;
       (s1, hto) \<leftarrow> getListHT s key True;
       ht \<leftarrow> hto;
       (ht1, e) \<leftarrow> le_create (rwfleNew s) ht x;
       (ht2, e1, removed) \<leftarrow> rwfl_removeFunc ht1 x e t;
       ht3 \<leftarrow> (if rwfl_oid e1 = None then rwfl_link ht2 x ra e1 else Some ht2);
       e3 \<leftarrow> le_deref ht3 x;
       let (e4, added) = addCheck e3 t;
       ht4 \<leftarrow> (if added
         then do {
           ht4 \<leftarrow> (if \<not> EXISTS e3 then incrLen ht3 1 else Some ht3);
           fo \<leftarrow> arg ra 5; si \<leftarrow> arg ra 6; co \<leftarrow> arg ra 7; pr \<leftarrow> arg ra 8;
           font \<leftarrow> getLongLongFromObject fo;
           sz \<leftarrow> getLongLongFromObject si;
           color \<leftarrow> getLongLongFromObject co;
           property \<leftarrow> getLongLongFromObject pr;
           Some (le_put ht4 x (rwfl_insert_props font sz color property e4))
         }
         else Some ht3);
       Some ((putListHT s1 key ht4)\<lparr>dirty := dirty s1 + of_bool removed + of_bool added\<rparr>)
     }"

text \<open>
  The lookup of the predecessor reads \<open>argv[2]\<close> as the user wrote it. If there is no such element, \<open>sdstolower\<close>
  changes the argument in place, also in the broadcast message, which is built from \<open>argv\<close> later.
\<close>

definition rwfl_lower_pre :: "rwfl_server \<Rightarrow> sds list \<Rightarrow> sds list" where
  "rwfl_lower_pre s args =
     (if length args = 9 \<and> CHECK_CONTAINER_TYPE s (args ! 1) OBJ_HASH \<and>
        \<not> list_ex (\<lambda>i. \<not> CHECK_ARG_TYPE_INT (args ! i)) [5..<9] \<and> rwfl_lookup s (args ! 1) (args ! 2) = Some None
      then args[2 := sdstolower (args ! 2)] else args)"

definition rwflinsertCommand :: "(rwfle, unit) list_field command" where
  "rwflinsertCommand s c =
     (if is_replica c then crdt_command rwflinsert_prepare rwflinsert_effect s c
      else crdt_command (\<lambda>s1 _. rwflinsert_prepare s1 (argv c)) rwflinsert_effect s (c\<lparr>argv := rwfl_lower_pre s (argv c)\<rparr>))"

section \<open>Update and removal\<close>

definition rwflupdate_prepare :: "(rwfle, unit) list_field prepare" where
  "rwflupdate_prepare s args =
     (if \<not> CHECK_ARGC args 5 then Some (s, Inl ReplySyntaxerr)
      else do {
        key \<leftarrow> arg args 1;
        if \<not> CHECK_CONTAINER_TYPE s key OBJ_HASH then Some (s, Inl ReplyWrongtypeerr)
        else do {
          v \<leftarrow> arg args 4;
          if \<not> CHECK_ARG_TYPE_INT v then Some (s, Inl (ReplyError ''value is not an integer''))
          else do {
            x \<leftarrow> arg args 2;
            eo \<leftarrow> rwfl_lookup s key x;
            if \<not> PREPARE_PRECOND_NON_ADD eo then Some (s, Inl ReplyEleNexist)
            else do {
              e \<leftarrow> eo;
              t \<leftarrow> ADD_CR_NON_RMV e;
              Some (s, Inr [lc_now (rwfl_current e), t])
            }
          }
        }
      })"

definition rwflupdate_effect :: "(rwfle, unit) list_field effect" where
  "rwflupdate_effect s ra =
     do {
       t \<leftarrow> CR_GET_LAST ra;
       key \<leftarrow> arg ra 1;
       x \<leftarrow> arg ra 2;
       (s1, hto) \<leftarrow> getListHT s key True;
       ht \<leftarrow> hto;
       (ht1, e) \<leftarrow> le_create (rwfleNew s) ht x;
       lx \<leftarrow> arg ra 5;
       lt \<leftarrow> sdsToLc lx;
       vx \<leftarrow> arg ra 4;
       value \<leftarrow> getLongLongFromObject vx;
       (ht2, e1, removed) \<leftarrow> rwfl_removeFunc ht1 x e t;
       let (e2, updated) = updateCheck e1 t;
       ht3 \<leftarrow> (if updated
         then do { ty \<leftarrow> arg ra 3; Some (le_put ht2 x (acquired_update e2 ty lt (int32 value))) }
         else Some ht2);
       Some ((putListHT s1 key ht3)\<lparr>dirty := dirty s1 + of_bool removed + of_bool updated\<rparr>)
     }"

text \<open>\<open>acquired_update\<close> changes the property name in place, also in the broadcast message.\<close>

definition rwflupdateCommand :: "(rwfle, unit) list_field command" where
  "rwflupdateCommand s c =
     crdt_command rwflupdate_prepare rwflupdate_effect s
       (if is_replica c \<or> length (argv c) \<le> 3 then c
        else c\<lparr>argv := (argv c)[3 := sdstolower (argv c ! 3)]\<rparr>)"

definition rwflrem_prepare :: "(rwfle, unit) list_field prepare" where
  "rwflrem_prepare s args =
     (if \<not> CHECK_ARGC args 3 then Some (s, Inl ReplySyntaxerr)
      else do {
        key \<leftarrow> arg args 1;
        if \<not> CHECK_CONTAINER_TYPE s key OBJ_HASH then Some (s, Inl ReplyWrongtypeerr)
        else do {
          x \<leftarrow> arg args 2;
          eo \<leftarrow> rwfl_lookup s key x;
          if \<not> PREPARE_PRECOND_NON_ADD eo then Some (s, Inl ReplyEleNexist)
          else do { e \<leftarrow> eo; t \<leftarrow> ADD_CR_RMV e; Some (s, Inr [t]) }
        }
      })"

definition rwflrem_effect :: "(rwfle, unit) list_field effect" where
  "rwflrem_effect s ra =
     do {
       key \<leftarrow> arg ra 1;
       x \<leftarrow> arg ra 2;
       (s1, hto) \<leftarrow> getListHT s key True;
       ht \<leftarrow> hto;
       (ht1, e) \<leftarrow> le_create (rwfleNew s) ht x;
       t \<leftarrow> CR_GET_LAST ra;
       (ht2, e1, removed) \<leftarrow> rwfl_removeFunc ht1 x e t;
       Some ((putListHT s1 key ht2)\<lparr>dirty := dirty s1 + of_bool removed\<rparr>)
     }"

definition rwflremCommand :: "(rwfle, unit) list_field command" where
  "rwflremCommand = crdt_command rwflrem_prepare rwflrem_effect"

section \<open>Queries\<close>

definition rwfllenCommand :: "(rwfle, unit) list_field command" where
  "rwfllenCommand s c =
     do {
       key \<leftarrow> arg (argv c) 1;
       case lookupKey s key of
         None \<Rightarrow> Some (s, addReply c (ReplyLongLong 0))
       | Some (ObjHash h) \<Rightarrow> do { n \<leftarrow> getLen h; Some (s, addReply c (ReplyLongLong n)) }
       | Some _ \<Rightarrow> Some (s, addReply c ReplyWrongtypeerr)
     }"

definition rwfl_item :: "rwfle \<Rightarrow> reply list option" where
  "rwfl_item e =
     (if EXISTS e
      then do {
        oid \<leftarrow> rwfl_oid e;
        content \<leftarrow> rwfl_content e;
        font \<leftarrow> rwfl_normal e Font;
        sz \<leftarrow> rwfl_normal e Size;
        color \<leftarrow> rwfl_normal e Color;
        Some [ReplyArrayLen 6, ReplyBulk oid, ReplyBulk content, ReplyBulk (print_d font), ReplyBulk (print_d sz),
          ReplyBulk (print_d color), ReplyBulk (print_d (rwfl_property e))]
      }
      else Some [])"

fun reply_items :: "('e \<Rightarrow> reply list option) \<Rightarrow> 'e list \<Rightarrow> reply list option" where
  "reply_items f [] = Some []"
| "reply_items f (e # es) = do { r \<leftarrow> f e; rs \<leftarrow> reply_items f es; Some (r @ rs) }"

definition rwfllistCommand :: "(rwfle, unit) list_field command" where
  "rwfllistCommand s c =
     do {
       key \<leftarrow> arg (argv c) 1;
       case lookupKey s key of
         None \<Rightarrow> Some (s, addReply c ReplyEmptyarray)
       | Some (ObjHash h) \<Rightarrow>
           do {
             n \<leftarrow> getLen h;
             n \<leftarrow> (if n < 0 then None else Some n);
             head \<leftarrow> getHead h;
             es \<leftarrow> list_nodes rwfl_next h head;
             rs \<leftarrow> reply_items rwfl_item es;
             Some (s, addReplies c (ReplyArrayLen (nat n) # rs))
           }
       | Some _ \<Rightarrow> Some (s, addReply c ReplyWrongtypeerr)
     }"

definition rwfl_status :: "rwfle \<Rightarrow> reply list option" where
  "rwfl_status e =
     do {
       t \<leftarrow> vcToSds (CURRENT e);
       oid \<leftarrow> rwfl_oid e;
       font \<leftarrow> rwfl_normal e Font;
       pos \<leftarrow> rwfl_pos_id e;
       px \<leftarrow> leidToSds pos;
       Some [ReplyArrayLen 7, ReplyBulk (''add id:'' @ print_d (PID e)), ReplyBulk ''current:'', ReplyBulk t,
         ReplyBulk oid, ReplyBulk (print_d font),
         ReplyBulk (case rwfl_ts e Font of None \<Rightarrow> ''null'' | Some u \<Rightarrow> lcToSds u), ReplyBulk px]
     }"

definition rwflestatusall :: "(rwfle, unit) list_field command" where
  "rwflestatusall s c =
     do {
       key \<leftarrow> arg (argv c) 1;
       case lookupKey s key of
         None \<Rightarrow> Some (s, addReply c ReplyEmptyarray)
       | Some (ObjHash h) \<Rightarrow>
           do {
             head \<leftarrow> getHead h;
             es \<leftarrow> list_nodes rwfl_next h head;
             rs \<leftarrow> reply_items rwfl_status es;
             Some (s, addReplies c (ReplyArrayLen (length es) # rs))
           }
       | Some _ \<Rightarrow> Some (s, addReply c ReplyWrongtypeerr)
     }"

end
