(* ===== verification/CommandTable.thy ===== *)
theory CommandTable
  imports OSet OZset RZset RWFSet RWFZset RList RWFList
begin

text \<open>
  The part of the command table of server.c that the fork adds, and the first checks of
  \<open>processCommand\<close>: the lookup of the command and the number of its arguments. The handlers of
  the replicated types are attached to the table per type of the element metadata.
\<close>

section \<open>The table\<close>

datatype redisCommandProc =
    ReplicateCommand | RepltestCommand
  | OzaddCommand | OzincrbyCommand | OzremCommand | OzscoreCommand | OzmaxCommand
  | RzaddCommand | RzincrbyCommand | RzremCommand | RzscoreCommand | RzmaxCommand
  | RwfzaddCommand | RwfzincrbyCommand | RwfzremCommand | RwfzscoreCommand | RwfzmaxCommand
  | RwfsaddCommand | RwfsremCommand | RwfscontainsCommand | RwfssizeCommand
  | OsaddCommand | OsremCommand | OscontainsCommand | OssizeCommand
  | RlinsertCommand | RlupdateCommand | RlremCommand | RllenCommand | RllistCommand
  | RwflinsertCommand | RwflupdateCommand | RwflremCommand | RwfllenCommand | RwfllistCommand
  | OzestatusCommand | RzestatusCommand | RwfzestatusCommand

record redisCommand =
  cmd_name :: sds
  cmd_proc :: redisCommandProc
  cmd_arity :: int
  cmd_flags :: sds

definition cmd :: "sds \<Rightarrow> redisCommandProc \<Rightarrow> int \<Rightarrow> sds \<Rightarrow> redisCommand" where
  "cmd n p a f = \<lparr>cmd_name = n, cmd_proc = p, cmd_arity = a, cmd_flags = f\<rparr>"

definition redisCommandTable :: "redisCommand list" where
  "redisCommandTable =
   [cmd ''replicate'' ReplicateCommand (-3) ''admin no-script ok-stale'',
    cmd ''repltest'' RepltestCommand (-1) ''admin no-script ok-stale fast'',
    cmd ''ozadd'' OzaddCommand (-4) ''write use-memory fast'',
    cmd ''ozincrby'' OzincrbyCommand (-4) ''write use-memory fast'',
    cmd ''ozrem'' OzremCommand (-3) ''write fast'',
    cmd ''ozscore'' OzscoreCommand 3 ''read-only fast'',
    cmd ''ozmax'' OzmaxCommand 2 ''read-only fast'',
    cmd ''rzadd'' RzaddCommand (-4) ''write use-memory fast'',
    cmd ''rzincrby'' RzincrbyCommand (-4) ''write use-memory fast'',
    cmd ''rzrem'' RzremCommand (-3) ''write fast'',
    cmd ''rzscore'' RzscoreCommand 3 ''read-only fast'',
    cmd ''rzmax'' RzmaxCommand 2 ''read-only fast'',
    cmd ''rwfzadd'' RwfzaddCommand (-4) ''write use-memory fast'',
    cmd ''rwfzincrby'' RwfzincrbyCommand (-4) ''write use-memory fast'',
    cmd ''rwfzrem'' RwfzremCommand (-3) ''write fast'',
    cmd ''rwfzscore'' RwfzscoreCommand 3 ''read-only fast'',
    cmd ''rwfzmax'' RwfzmaxCommand 2 ''read-only fast'',
    cmd ''rwfsadd'' RwfsaddCommand (-3) ''write use-memory fast'',
    cmd ''rwfsrem'' RwfsremCommand (-3) ''write fast'',
    cmd ''rwfscontains'' RwfscontainsCommand 3 ''read-only fast'',
    cmd ''rwfssize'' RwfssizeCommand 2 ''read-only fast'',
    cmd ''osadd'' OsaddCommand (-3) ''write use-memory fast'',
    cmd ''osrem'' OsremCommand (-3) ''write fast'',
    cmd ''oscontains'' OscontainsCommand 3 ''read-only fast'',
    cmd ''ossize'' OssizeCommand 2 ''read-only fast'',
    cmd ''rsadd'' RwfsaddCommand (-3) ''write use-memory fast'',
    cmd ''rsrem'' RwfsremCommand (-3) ''write fast'',
    cmd ''rscontains'' RwfscontainsCommand 3 ''read-only fast'',
    cmd ''rssize'' RwfssizeCommand 2 ''read-only fast'',
    cmd ''rlinsert'' RlinsertCommand (-9) ''write use-memory fast'',
    cmd ''rlupdate'' RlupdateCommand (-5) ''write use-memory fast'',
    cmd ''rlrem'' RlremCommand (-3) ''write fast'',
    cmd ''rllen'' RllenCommand 2 ''read-only fast'',
    cmd ''rllist'' RllistCommand 2 ''read-only fast'',
    cmd ''rwflinsert'' RwflinsertCommand (-9) ''write use-memory fast'',
    cmd ''rwflupdate'' RwflupdateCommand (-5) ''write use-memory fast'',
    cmd ''rwflrem'' RwflremCommand (-3) ''write fast'',
    cmd ''rwfllen'' RwfllenCommand 2 ''read-only fast'',
    cmd ''rwfllist'' RwfllistCommand 2 ''read-only fast'',
    cmd ''ozestatus'' OzestatusCommand 3 ''read-only fast'',
    cmd ''rzestatus'' RzestatusCommand 3 ''read-only fast'',
    cmd ''rwfzestatus'' RwfzestatusCommand 3 ''read-only fast'']"

text \<open>The keys of the command dictionary are compared without regard to case.\<close>

definition lookupCommand :: "sds \<Rightarrow> redisCommand option" where
  "lookupCommand name = find (\<lambda>c. map tolower name = cmd_name c) redisCommandTable"

definition arity_ok :: "redisCommand \<Rightarrow> nat \<Rightarrow> bool" where
  "arity_ok c argc \<longleftrightarrow>
     \<not> ((cmd_arity c > 0 \<and> cmd_arity c \<noteq> int argc) \<or> int argc < - cmd_arity c)"

text \<open>
  The beginning of \<open>processCommand\<close>: \<open>None\<close> is a name outside this part of the table, \<open>Inl\<close> the
  error reply, \<open>Inr\<close> the handler that \<open>call\<close> executes.
\<close>

definition dispatch :: "sds list \<Rightarrow> (reply + redisCommandProc) option" where
  "dispatch args =
     (case args of
        [] \<Rightarrow> None
      | name # _ \<Rightarrow>
          (case lookupCommand name of
             None \<Rightarrow> None
           | Some c \<Rightarrow>
               Some (if arity_ok c (length args) then Inr (cmd_proc c)
                     else Inl (ReplyError (''wrong number of arguments for '' @ [CHR 0x27] @ cmd_name c @
                            [CHR 0x27] @ '' command'')))))"

text \<open>The handlers of one replicated type; \<open>None\<close> for a handler of another type.\<close>

type_synonym 'v handlers = "redisCommandProc \<Rightarrow> 'v command option"

definition processCommand :: "'v handlers \<Rightarrow> 'v command" where
  "processCommand h s c =
     (case dispatch (argv c) of
        None \<Rightarrow> None
      | Some (Inl e) \<Rightarrow> Some (s, addReply c e)
      | Some (Inr p) \<Rightarrow> (case h p of None \<Rightarrow> None | Some proc \<Rightarrow> call proc s c))"

definition oset_handlers :: "ose handlers" where
  "oset_handlers p =
     (case p of
        OsaddCommand \<Rightarrow> Some osaddCommand | OsremCommand \<Rightarrow> Some osremCommand
      | OscontainsCommand \<Rightarrow> Some oscontainsCommand | OssizeCommand \<Rightarrow> Some ossizeCommand | _ \<Rightarrow> None)"

definition ozset_handlers :: "oze handlers" where
  "ozset_handlers p =
     (case p of
        OzaddCommand \<Rightarrow> Some ozaddCommand | OzincrbyCommand \<Rightarrow> Some ozincrbyCommand
      | OzremCommand \<Rightarrow> Some ozremCommand | OzscoreCommand \<Rightarrow> Some ozscoreCommand
      | OzmaxCommand \<Rightarrow> Some ozmaxCommand | OzestatusCommand \<Rightarrow> Some ozestatusCommand | _ \<Rightarrow> None)"

definition rzset_handlers :: "rze handlers" where
  "rzset_handlers p =
     (case p of
        RzaddCommand \<Rightarrow> Some rzaddCommand | RzincrbyCommand \<Rightarrow> Some rzincrbyCommand
      | RzremCommand \<Rightarrow> Some rzremCommand | RzscoreCommand \<Rightarrow> Some rzscoreCommand
      | RzmaxCommand \<Rightarrow> Some rzmaxCommand | RzestatusCommand \<Rightarrow> Some rzestatusCommand | _ \<Rightarrow> None)"

definition rwfset_handlers :: "rwfse handlers" where
  "rwfset_handlers p =
     (case p of
        RwfsaddCommand \<Rightarrow> Some rwfsaddCommand | RwfsremCommand \<Rightarrow> Some rwfsremCommand
      | RwfscontainsCommand \<Rightarrow> Some rwfscontainsCommand | RwfssizeCommand \<Rightarrow> Some rwfssizeCommand | _ \<Rightarrow> None)"

definition rwfzset_handlers :: "rwfze handlers" where
  "rwfzset_handlers p =
     (case p of
        RwfzaddCommand \<Rightarrow> Some rwfzaddCommand | RwfzincrbyCommand \<Rightarrow> Some rwfzincrbyCommand
      | RwfzremCommand \<Rightarrow> Some rwfzremCommand | RwfzscoreCommand \<Rightarrow> Some rwfzscoreCommand
      | RwfzmaxCommand \<Rightarrow> Some rwfzmaxCommand | RwfzestatusCommand \<Rightarrow> Some rwfzestatusCommand | _ \<Rightarrow> None)"

definition rlist_handlers :: "rl_field handlers" where
  "rlist_handlers p =
     (case p of
        RlinsertCommand \<Rightarrow> Some rlinsertCommand | RlupdateCommand \<Rightarrow> Some rlupdateCommand
      | RlremCommand \<Rightarrow> Some rlremCommand | RllenCommand \<Rightarrow> Some rllenCommand
      | RllistCommand \<Rightarrow> Some rllistCommand | _ \<Rightarrow> None)"

definition rwflist_handlers :: "(rwfle, unit) list_field handlers" where
  "rwflist_handlers p =
     (case p of
        RwflinsertCommand \<Rightarrow> Some rwflinsertCommand | RwflupdateCommand \<Rightarrow> Some rwflupdateCommand
      | RwflremCommand \<Rightarrow> Some rwflremCommand | RwfllenCommand \<Rightarrow> Some rwfllenCommand
      | RwfllistCommand \<Rightarrow> Some rwfllistCommand | _ \<Rightarrow> None)"

section \<open>Which handlers are reached\<close>

text \<open>
  The names of the remove-win set without the framework are bound to the handlers of the framework set,
  and the status query of the framework set has no name.
\<close>

lemma rs_names_reach_rwfset:
  "dispatch [''rsadd'', k, x] = Some (Inr RwfsaddCommand)" "dispatch [''rsrem'', k, x] = Some (Inr RwfsremCommand)"
  "dispatch [''rscontains'', k, x] = Some (Inr RwfscontainsCommand)" "dispatch [''rssize'', k] = Some (Inr RwfssizeCommand)"
  "lookupCommand ''rwfsestatus'' = None"
  by (simp_all add: dispatch_def lookupCommand_def redisCommandTable_def cmd_def arity_ok_def tolower_def)

end
