(* ===== verification/OutputBuffer.thy ===== *)
theory OutputBuffer
  imports Delivery
begin

text \<open>
  The output buffers of a client (networking.c): a static buffer, followed by a list of reply
  blocks once the static buffer has overflowed, and \<open>writeToClient\<close>, which hands their bytes to
  the socket, as many as the socket accepts. They implement a first-in first-out byte queue.
\<close>

section \<open>The code\<close>

text \<open>The flags and the type of a client, as far as the output buffers depend on them.\<close>

datatype client_flag =
    CLIENT_SLAVE | CLIENT_MASTER | CLIENT_MONITOR | CLIENT_CLOSE_AFTER_REPLY | CLIENT_LUA | CLIENT_CLOSE_ASAP
  | CLIENT_MASTER_FORCE_REPLY | CLIENT_PUBSUB | CLIENT_PENDING_WRITE | CLIENT_REPLY_OFF | CLIENT_REPLY_SKIP
  | CLIENT_MODULE | CLIENT_PROTECTED | CLIENT_REPLICA | CLIENT_REPLICA_MESSAGE

datatype client_type = CLIENT_TYPE_NORMAL | CLIENT_TYPE_SLAVE | CLIENT_TYPE_PUBSUB | CLIENT_TYPE_MASTER

text \<open>
  \<open>obuf\<close> are the first \<open>bufpos\<close> bytes of \<open>c->buf\<close>; a block holds its capacity and the used
  bytes, and a node of the list may be \<open>NULL\<close>, the place of a length that is not known yet. \<open>oconn\<close>: the client
  has a connection; \<open>can_receive\<close>: it is not a slave that is not online yet (\<open>replstate\<close> and
  \<open>repl_put_online_on_ack\<close>). The flag \<open>CLIENT_PENDING_WRITE\<close> also stands for the place of the client in
  \<open>server.clients_pending_write\<close>, \<open>CLIENT_CLOSE_ASAP\<close> for that in \<open>server.clients_to_close\<close>. Sizes are
  unbounded numbers.
\<close>

record reply_block =
  blk_size :: nat
  blk_used :: sds

record outbuf =
  oflags :: "client_flag set"
  oconn :: bool
  can_receive :: bool
  write_handler :: bool
  obuf :: sds
  oreply :: "reply_block option list"
  sentlen :: nat
  reply_bytes :: int
  obuf_soft_limit_reached_time :: int

text \<open>
  The configuration: the limits per type of client, and \<open>usable n\<close>, the usable size of an allocation for \<open>n\<close> bytes
  of block data, a property of the allocator.
\<close>

record obuf_limit =
  hard_limit_bytes :: int
  soft_limit_bytes :: int
  soft_limit_seconds :: int

record out_config =
  client_obuf_limits :: "client_type \<Rightarrow> obuf_limit"
  usable :: "nat \<Rightarrow> nat"

abbreviation (input) PROTO_REPLY_CHUNK_BYTES :: nat where
  "PROTO_REPLY_CHUNK_BYTES \<equiv> 16384"

abbreviation (input) NET_MAX_WRITES_PER_EVENT :: nat where
  "NET_MAX_WRITES_PER_EVENT \<equiv> 65536"

definition clientHasPendingReplies :: "outbuf \<Rightarrow> bool" where
  "clientHasPendingReplies o' \<longleftrightarrow> obuf o' \<noteq> [] \<or> oreply o' \<noteq> []"

definition clientInstallWriteHandler :: "outbuf \<Rightarrow> outbuf" where
  "clientInstallWriteHandler o' =
     (if CLIENT_PENDING_WRITE \<notin> oflags o' \<and> can_receive o'
      then o'\<lparr>oflags := insert CLIENT_PENDING_WRITE (oflags o')\<rparr> else o')"

text \<open>The result \<open>None\<close> stands for \<open>C_ERR\<close>: the client does not receive the reply.\<close>

definition prepareClientToWrite :: "outbuf \<Rightarrow> outbuf option" where
  "prepareClientToWrite o' =
     (if CLIENT_LUA \<in> oflags o' \<or> CLIENT_MODULE \<in> oflags o' then Some o'
      else if CLIENT_REPLY_OFF \<in> oflags o' \<or> CLIENT_REPLY_SKIP \<in> oflags o' then None
      else if CLIENT_MASTER \<in> oflags o' \<and> CLIENT_MASTER_FORCE_REPLY \<notin> oflags o' then None
      else if CLIENT_REPLICA \<in> oflags o' \<and> CLIENT_REPLICA_MESSAGE \<notin> oflags o' then None
      else if \<not> oconn o' then None
      else Some (if \<not> clientHasPendingReplies o' then clientInstallWriteHandler o' else o'))"

text \<open>Limits on the size of the buffers. \<open>now\<close> is \<open>server.unixtime\<close>.\<close>

definition getClientOutputBufferMemoryUsage :: "outbuf \<Rightarrow> int" where
  "getClientOutputBufferMemoryUsage o' = reply_bytes o' + 40 * int (length (oreply o'))"

definition getClientType :: "outbuf \<Rightarrow> client_type" where
  "getClientType o' =
     (if CLIENT_MASTER \<in> oflags o' then CLIENT_TYPE_MASTER
      else if CLIENT_SLAVE \<in> oflags o' \<and> CLIENT_MONITOR \<notin> oflags o' then CLIENT_TYPE_SLAVE
      else if CLIENT_PUBSUB \<in> oflags o' then CLIENT_TYPE_PUBSUB else CLIENT_TYPE_NORMAL)"

definition checkClientOutputBufferLimits :: "out_config \<Rightarrow> int \<Rightarrow> outbuf \<Rightarrow> outbuf \<times> bool" where
  "checkClientOutputBufferLimits cfg now o' =
     (let used_mem = getClientOutputBufferMemoryUsage o';
          class0 = getClientType o';
          lim = client_obuf_limits cfg (if class0 = CLIENT_TYPE_MASTER then CLIENT_TYPE_NORMAL else class0);
          hard = (hard_limit_bytes lim \<noteq> 0 \<and> used_mem \<ge> hard_limit_bytes lim);
          soft = (soft_limit_bytes lim \<noteq> 0 \<and> used_mem \<ge> soft_limit_bytes lim)
      in if soft then
           if obuf_soft_limit_reached_time o' = 0 then (o'\<lparr>obuf_soft_limit_reached_time := now\<rparr>, hard)
           else (o', now - obuf_soft_limit_reached_time o' > soft_limit_seconds lim \<or> hard)
         else (o'\<lparr>obuf_soft_limit_reached_time := 0\<rparr>, hard))"

definition freeClientAsync :: "outbuf \<Rightarrow> outbuf" where
  "freeClientAsync o' =
     (if CLIENT_CLOSE_ASAP \<in> oflags o' \<or> CLIENT_LUA \<in> oflags o' then o'
      else o'\<lparr>oflags := insert CLIENT_CLOSE_ASAP (oflags o')\<rparr>)"

definition asyncCloseClientOnOutputBufferLimitReached :: "out_config \<Rightarrow> int \<Rightarrow> outbuf \<Rightarrow> outbuf" where
  "asyncCloseClientOnOutputBufferLimitReached cfg now o' =
     (if \<not> oconn o' then o'
      else if reply_bytes o' = 0 \<or> CLIENT_CLOSE_ASAP \<in> oflags o' then o'
      else let (o1, reached) = checkClientOutputBufferLimits cfg now o' in if reached then freeClientAsync o1 else o1)"

text \<open>The result \<open>None\<close> stands for \<open>C_ERR\<close>: the caller has to use the list.\<close>

definition addReplyToBuffer :: "outbuf \<Rightarrow> sds \<Rightarrow> outbuf option" where
  "addReplyToBuffer o' s =
     (if CLIENT_CLOSE_AFTER_REPLY \<in> oflags o' then Some o'
      else if length (oreply o') > 0 then None
      else if length s > PROTO_REPLY_CHUNK_BYTES - length (obuf o') then None
      else Some (o'\<lparr>obuf := obuf o' @ s\<rparr>))"

definition addReplyProtoToList :: "out_config \<Rightarrow> int \<Rightarrow> outbuf \<Rightarrow> sds \<Rightarrow> outbuf" where
  "addReplyProtoToList cfg now o' s =
     (if CLIENT_CLOSE_AFTER_REPLY \<in> oflags o' then o'
      else
        let (bs, s1) =
          (case (if oreply o' = [] then None else last (oreply o')) of
             None \<Rightarrow> (oreply o', s)
           | Some tail \<Rightarrow>
               let avail = blk_size tail - length (blk_used tail);
                   copy = (if avail \<ge> length s then length s else avail)
               in (butlast (oreply o') @ [Some (tail\<lparr>blk_used := blk_used tail @ take copy s\<rparr>)], drop copy s))
        in asyncCloseClientOnOutputBufferLimitReached cfg now
             (if s1 = [] then o'\<lparr>oreply := bs\<rparr>
              else let sz = (if length s1 < PROTO_REPLY_CHUNK_BYTES then PROTO_REPLY_CHUNK_BYTES else length s1);
                       b = \<lparr>blk_size = usable cfg sz, blk_used = s1\<rparr>
                   in o'\<lparr>oreply := bs @ [Some b], reply_bytes := reply_bytes o' + int (blk_size b)\<rparr>))"

definition addReplyProto :: "out_config \<Rightarrow> int \<Rightarrow> outbuf \<Rightarrow> sds \<Rightarrow> outbuf" where
  "addReplyProto cfg now o' s =
     (case prepareClientToWrite o' of
        None \<Rightarrow> o'
      | Some o1 \<Rightarrow> (case addReplyToBuffer o1 s of Some o2 \<Rightarrow> o2 | None \<Rightarrow> addReplyProtoToList cfg now o1 s))"

text \<open>
  The socket during a call of \<open>writeToClient\<close>: for each \<open>connWrite\<close> the number of bytes it has room for, or a
  number that is not positive (\<open>-1\<close> is an error) if it takes none, and whether the server then is above its limit of
  memory; without an entry it takes none. \<open>conn_connected\<close>: the connection is still established at the end.
\<close>

record write_env =
  conn_writes :: "(int \<times> bool) list"
  conn_connected :: bool

text \<open>
  The loop of \<open>writeToClient\<close>. The result has the bytes that were written and the last \<open>nwritten\<close>. \<open>None\<close> is
  the failed assertion on \<open>reply_bytes\<close>, or a \<open>NULL\<close> node at the head of the list.
\<close>

definition write_buf :: "outbuf \<Rightarrow> nat \<Rightarrow> outbuf \<times> sds" where
  "write_buf o' w =
     (let out = take w (drop (sentlen o') (obuf o')); n = sentlen o' + length out
      in (if n = length (obuf o') then o'\<lparr>obuf := [], sentlen := 0\<rparr> else o'\<lparr>sentlen := n\<rparr>, out))"

definition write_block :: "outbuf \<Rightarrow> reply_block \<Rightarrow> nat \<Rightarrow> (outbuf \<times> sds) option" where
  "write_block o' b w =
     (let out = take w (drop (sentlen o') (blk_used b)); n = sentlen o' + length out
      in if n = length (blk_used b)
         then let o1 = o'\<lparr>reply_bytes := reply_bytes o' - int (blk_size b), oreply := tl (oreply o'), sentlen := 0\<rparr>
              in if oreply o1 = [] \<and> reply_bytes o1 \<noteq> 0 then None else Some (o1, out)
         else Some (o'\<lparr>sentlen := n\<rparr>, out))"

definition write_more :: "outbuf \<Rightarrow> sds \<Rightarrow> bool \<Rightarrow> bool" where
  "write_more o' sent over \<longleftrightarrow> \<not> (length sent > NET_MAX_WRITES_PER_EVENT \<and> \<not> over \<and> CLIENT_SLAVE \<notin> oflags o')"

fun first_write :: "(int \<times> bool) list \<Rightarrow> int \<times> bool" where
  "first_write [] = (0, False)"
| "first_write (w # _) = w"

lemma first_write_pos: "(w, over) = first_write ws \<Longrightarrow> \<not> w \<le> 0 \<Longrightarrow> ws \<noteq> []"
  by (cases ws) auto

function write_loop :: "outbuf \<Rightarrow> (int \<times> bool) list \<Rightarrow> sds \<Rightarrow> int \<Rightarrow> (outbuf \<times> sds \<times> int) option" where
  "write_loop o' ws sent nw =
     (if \<not> clientHasPendingReplies o' then Some (o', sent, nw)
      else if obuf o' = [] \<and> hd (oreply o') = None then None
      else if obuf o' = [] \<and> blk_used (the (hd (oreply o'))) = [] then
        write_loop (o'\<lparr>reply_bytes := reply_bytes o' - int (blk_size (the (hd (oreply o')))), oreply := tl (oreply o')\<rparr>) ws sent nw
      else let (w, over) = first_write ws
        in if w \<le> 0 then Some (o', sent, w)
           else case (if obuf o' \<noteq> [] then Some (write_buf o' (nat w)) else write_block o' (the (hd (oreply o'))) (nat w)) of
             None \<Rightarrow> None
           | Some (o1, out) \<Rightarrow>
               if write_more o1 (sent @ out) over then write_loop o1 (tl ws) (sent @ out) (int (length out))
               else Some (o1, sent @ out, int (length out)))"
  by pat_completeness auto
termination
  by (relation "measures [\<lambda>(o', ws, _). length ws, \<lambda>(o', ws, _). length (oreply o')]")
    (auto simp: clientHasPendingReplies_def dest: first_write_pos)

declare write_loop.simps [simp del]

text \<open>The result has the client, the bytes written, and whether \<open>C_OK\<close> is returned.\<close>

definition writeToClient :: "outbuf \<Rightarrow> bool \<Rightarrow> write_env \<Rightarrow> (outbuf \<times> sds \<times> bool) option" where
  "writeToClient o' handler_installed e =
     do {
       (o1, sent, nwritten) \<leftarrow> write_loop o' (conn_writes e) [] 0;
       if nwritten = - 1 \<and> \<not> conn_connected e then Some (freeClientAsync o1, sent, False)
       else if \<not> clientHasPendingReplies o1 then
         let o2 = o1\<lparr>sentlen := 0\<rparr>;
             o3 = (if handler_installed then o2\<lparr>write_handler := False\<rparr> else o2)
         in if CLIENT_CLOSE_AFTER_REPLY \<in> oflags o3 then Some (freeClientAsync o3, sent, False) else Some (o3, sent, True)
       else Some (o1, sent, True)
     }"

definition sendReplyToClient :: "outbuf \<Rightarrow> write_env \<Rightarrow> (outbuf \<times> sds) option" where
  "sendReplyToClient o' e = do { (o1, sent, ok) \<leftarrow> writeToClient o' True e; Some (o1, sent) }"

text \<open>The turn of a client in \<open>handleClientsWithPendingWrites\<close>; \<open>set_ok\<close>: installing the write handler succeeds.\<close>

definition handlePendingWrite :: "outbuf \<Rightarrow> write_env \<Rightarrow> bool \<Rightarrow> (outbuf \<times> sds) option" where
  "handlePendingWrite o' e set_ok =
     (let o0 = o'\<lparr>oflags := oflags o' - {CLIENT_PENDING_WRITE}\<rparr>
      in if CLIENT_PROTECTED \<in> oflags o0 then Some (o0, [])
         else do {
           (o1, sent, ok) \<leftarrow> writeToClient o0 False e;
           Some (if ok \<and> clientHasPendingReplies o1
                 then if set_ok then o1\<lparr>write_handler := True\<rparr> else freeClientAsync o1
                 else o1, sent)
         })"

datatype write_event = WriteHandler write_env | PendingWrite write_env bool

fun write_event_step :: "outbuf \<Rightarrow> write_event \<Rightarrow> (outbuf \<times> sds) option" where
  "write_event_step o' (WriteHandler e) = sendReplyToClient o' e"
| "write_event_step o' (PendingWrite e set_ok) = handlePendingWrite o' e set_ok"

section \<open>The queue\<close>

definition blk_bytes :: "reply_block option \<Rightarrow> sds" where
  "blk_bytes b = (case b of None \<Rightarrow> [] | Some b' \<Rightarrow> blk_used b')"

definition blk_room :: "reply_block option \<Rightarrow> nat" where
  "blk_room b = (case b of None \<Rightarrow> 0 | Some b' \<Rightarrow> blk_size b')"

lemma blk_simps [simp]: "blk_bytes (Some b) = blk_used b" "blk_room (Some b) = blk_size b"
  by (simp_all add: blk_bytes_def blk_room_def)

definition pending :: "outbuf \<Rightarrow> sds" where
  "pending o' = drop (sentlen o') (obuf o' @ concat (map blk_bytes (oreply o')))"

text \<open>A client that receives replies: it has a connection, and none of the flags that suppress or end the output.\<close>

definition receives :: "outbuf \<Rightarrow> bool" where
  "receives o' \<longleftrightarrow> CLIENT_CLOSE_AFTER_REPLY \<notin> oflags o' \<and> CLIENT_PROTECTED \<notin> oflags o' \<and> oconn o' \<and>
     CLIENT_REPLY_OFF \<notin> oflags o' \<and> CLIENT_REPLY_SKIP \<notin> oflags o' \<and>
     (CLIENT_MASTER \<in> oflags o' \<longrightarrow> CLIENT_MASTER_FORCE_REPLY \<in> oflags o') \<and>
     (CLIENT_REPLICA \<in> oflags o' \<longrightarrow> CLIENT_REPLICA_MESSAGE \<in> oflags o')"

definition out_inv :: "outbuf \<Rightarrow> bool" where
  "out_inv o' \<longleftrightarrow> receives o' \<and> length (obuf o') \<le> PROTO_REPLY_CHUNK_BYTES \<and>
     reply_bytes o' = int (sum_list (map blk_room (oreply o'))) \<and>
     (\<forall>b \<in> set (oreply o'). length (blk_bytes b) \<le> blk_room b \<and> blk_bytes b \<noteq> []) \<and>
     (if obuf o' \<noteq> [] then sentlen o' < length (obuf o')
      else if oreply o' \<noteq> [] then sentlen o' < length (blk_bytes (hd (oreply o'))) else sentlen o' = 0)"

definition new_outbuf :: "client_flag set \<Rightarrow> outbuf" where
  "new_outbuf flags = \<lparr>oflags = flags, oconn = True, can_receive = True, write_handler = False, obuf = [], oreply = [], sentlen = 0,
     reply_bytes = 0, obuf_soft_limit_reached_time = 0\<rparr>"

lemma receives_fields [simp]:
  "receives (o'\<lparr>obuf := b\<rparr>) = receives o'" "receives (o'\<lparr>oreply := r\<rparr>) = receives o'" "receives (o'\<lparr>sentlen := n\<rparr>) = receives o'"
  "receives (o'\<lparr>reply_bytes := i\<rparr>) = receives o'" "receives (o'\<lparr>write_handler := h\<rparr>) = receives o'"
  by (simp_all add: receives_def)

lemma new_outbuf_inv: "out_inv (new_outbuf {})" "pending (new_outbuf {}) = []"
  by (simp_all add: out_inv_def receives_def pending_def new_outbuf_def)

lemma sentlen_bound: "out_inv o' \<Longrightarrow> sentlen o' \<le> length (obuf o' @ concat (map blk_bytes (oreply o')))"
  by (cases "oreply o'") (auto simp: out_inv_def split: if_splits)

text \<open>The buffers of a client; the other fields do not matter to the queue as long as the client receives replies.\<close>

definition out_data :: "outbuf \<Rightarrow> sds \<times> reply_block option list \<times> nat \<times> int" where
  "out_data o' = (obuf o', oreply o', sentlen o', reply_bytes o')"

lemma out_data_eq: "out_data a = out_data b \<Longrightarrow> receives a = receives b \<Longrightarrow> out_inv a = out_inv b \<and> pending a = pending b"
  by (simp add: out_data_def out_inv_def pending_def)

lemma out_data_close [simp]:
  "out_data (freeClientAsync o') = out_data o'" "receives (freeClientAsync o') = receives o'"
  "out_data (asyncCloseClientOnOutputBufferLimitReached cfg now o') = out_data o'"
  "receives (asyncCloseClientOnOutputBufferLimitReached cfg now o') = receives o'"
  by (simp_all add: out_data_def receives_def freeClientAsync_def asyncCloseClientOnOutputBufferLimitReached_def
      checkClientOutputBufferLimits_def Let_def)

lemma prepare_receives:
  assumes "out_inv o'"
  shows "\<exists>o1. prepareClientToWrite o' = Some o1 \<and> out_inv o1 \<and> pending o1 = pending o'"
proof -
  let ?i = "clientInstallWriteHandler o'"
  have "out_data ?i = out_data o'" "receives ?i = receives o'" by (simp_all add: clientInstallWriteHandler_def out_data_def receives_def)
  then have "out_inv ?i" "pending ?i = pending o'" using out_data_eq[of ?i o'] assms by blast+
  moreover have "receives o'" using assms by (simp add: out_inv_def)
  then have "prepareClientToWrite o' = Some o' \<or> prepareClientToWrite o' = Some ?i" by (auto simp: prepareClientToWrite_def receives_def)
  ultimately show ?thesis using assms by auto
qed

lemma addReplyToBuffer_spec:
  assumes "out_inv o'" "addReplyToBuffer o' s = Some o1"
  shows "out_inv o1 \<and> pending o1 = pending o' @ s"
  using assms sentlen_bound[OF assms(1)]
  by (auto simp: addReplyToBuffer_def out_inv_def receives_def pending_def split: if_splits)

text \<open>Filling the last block, and adding a new one.\<close>

lemma addReplyProtoToList_spec:
  assumes inv: "out_inv o'" and us: "\<forall>n. n \<le> usable cfg n" and full: "addReplyToBuffer o' s = None"
  shows "out_inv (addReplyProtoToList cfg now o' s) \<and> pending (addReplyProtoToList cfg now o' s) = pending o' @ s"
proof -
  have cl: "CLIENT_CLOSE_AFTER_REPLY \<notin> oflags o'" and rc: "receives o'" using inv by (simp_all add: out_inv_def receives_def)
  note sb = sentlen_bound[OF inv]
  let ?new = "\<lambda>s1. Some \<lparr>blk_size = usable cfg (if length s1 < PROTO_REPLY_CHUNK_BYTES then PROTO_REPLY_CHUNK_BYTES else length s1),
    blk_used = s1\<rparr>"
  have fits: "length s1 \<le> usable cfg (if length s1 < PROTO_REPLY_CHUNK_BYTES then PROTO_REPLY_CHUNK_BYTES else length s1)"
    for s1 :: sds using us[THEN spec, of PROTO_REPLY_CHUNK_BYTES] us[THEN spec, of "length s1"] by simp
  obtain o1 where eq: "addReplyProtoToList cfg now o' s = asyncCloseClientOnOutputBufferLimitReached cfg now o1"
    and o1: "out_inv o1 \<and> pending o1 = pending o' @ s"
  proof (cases "oreply o'" rule: rev_cases)
    case Nil
    then have snz: "s \<noteq> []" using full inv by (auto simp: addReplyToBuffer_def out_inv_def receives_def split: if_splits)
    let ?o = "o'\<lparr>oreply := [?new s], reply_bytes := reply_bytes o' + int (blk_room (?new s))\<rparr>"
    have "addReplyProtoToList cfg now o' s = asyncCloseClientOnOutputBufferLimitReached cfg now ?o"
      using Nil cl snz by (simp add: addReplyProtoToList_def Let_def)
    moreover have "out_inv ?o \<and> pending ?o = pending o' @ s"
      using inv Nil snz fits[of s] sb by (auto simp: out_inv_def receives_def pending_def)
    ultimately show ?thesis by (rule that)
  next
    case (snoc bs b0)
    then obtain b where b0: "b0 = Some b" using inv by (cases b0) (auto simp: out_inv_def blk_bytes_def)
    define c where "c = (if blk_size b - length (blk_used b) \<ge> length s then length s else blk_size b - length (blk_used b))"
    define b1 where "b1 = b\<lparr>blk_used := blk_used b @ take c s\<rparr>"
    have b1: "length (blk_used b1) \<le> blk_size b1" "blk_used b1 \<noteq> []" "blk_size b1 = blk_size b"
      "blk_used b1 = blk_used b @ take c s"
      using inv snoc b0 by (auto simp: b1_def c_def out_inv_def)
    define ys where "ys = (if drop c s = [] then [] else [?new (drop c s)])"
    have ys: "\<forall>y \<in> set ys. length (blk_bytes y) \<le> blk_room y \<and> blk_bytes y \<noteq> []" "concat (map blk_bytes ys) = drop c s"
      using fits[of "drop c s"] by (simp_all add: ys_def)
    define o1 where "o1 = o'\<lparr>oreply := bs @ Some b1 # ys, reply_bytes := reply_bytes o' + int (sum_list (map blk_room ys))\<rparr>"
    have "addReplyProtoToList cfg now o' s = asyncCloseClientOnOutputBufferLimitReached cfg now o1"
      using cl snoc b0 by (simp add: addReplyProtoToList_def Let_def c_def b1_def ys_def o1_def)
    moreover have "length (blk_bytes (hd (bs @ [b0]))) \<le> length (blk_bytes (hd (bs @ Some b1 # ys)))"
      using b1(4) b0 by (cases bs) simp_all
    then have "obuf o' = [] \<Longrightarrow> sentlen o' < length (blk_bytes (hd (bs @ Some b1 # ys)))"
      using inv snoc by (simp add: out_inv_def)
    then have "out_inv o1" using inv snoc b0 b1(1-3) ys(1) rc by (simp add: out_inv_def ball_Un o1_def receives_def)
    moreover have "pending o1 = pending o' @ take c s @ drop c s" using snoc sb b0 b1(4) ys(2) by (simp add: pending_def o1_def)
    ultimately show ?thesis using that by simp
  qed
  show ?thesis unfolding eq using o1 out_data_eq[OF out_data_close(3,4)] by simp
qed

definition put_reply :: "out_config \<Rightarrow> outbuf \<Rightarrow> int \<times> sds \<Rightarrow> outbuf" where
  "put_reply cfg o' p = addReplyProto cfg (fst p) o' (snd p)"

lemma addReplyProto_spec:
  assumes "out_inv o'" "\<forall>n. n \<le> usable cfg n"
  shows "out_inv (addReplyProto cfg now o' s) \<and> pending (addReplyProto cfg now o' s) = pending o' @ s"
proof -
  obtain o1 where o1: "prepareClientToWrite o' = Some o1" "out_inv o1" "pending o1 = pending o'" using prepare_receives[OF assms(1)] by blast
  show ?thesis using o1(1,3) addReplyToBuffer_spec[OF o1(2), of s] addReplyProtoToList_spec[OF o1(2) assms(2), of s]
    by (cases "addReplyToBuffer o1 s") (simp_all add: addReplyProto_def)
qed

lemma write_buf_spec:
  assumes "out_inv o'" "obuf o' \<noteq> []" "0 < w" "write_buf o' w = (o1, out)"
  shows "out_inv o1 \<and> out @ pending o1 = pending o' \<and> out \<noteq> []"
proof -
  let ?d = "drop (sentlen o') (obuf o')"
  have s: "sentlen o' < length (obuf o')" using assms(1,2) by (simp add: out_inv_def)
  have out: "out = take w ?d" using assms(4) by (simp add: write_buf_def Let_def)
  have o1: "o1 = (if w \<ge> length ?d then o'\<lparr>obuf := [], sentlen := 0\<rparr> else o'\<lparr>sentlen := sentlen o' + w\<rparr>)"
    using assms(4) s by (auto simp: write_buf_def Let_def min_def)
  show ?thesis
  proof (cases "w \<ge> length ?d")
    case True
    then show ?thesis using assms(1) s out o1
      by (cases "oreply o'") (auto simp: out_inv_def pending_def)
  next
    case False
    then have "take w ?d @ drop (sentlen o' + w) (obuf o') = ?d"
      using append_take_drop_id[of w ?d] by (simp add: add.commute)
    then show ?thesis using assms(1-3) s out o1 False by (auto simp: out_inv_def pending_def)
  qed
qed

lemma write_block_spec:
  assumes "out_inv o'" "obuf o' = []" "oreply o' = Some b # bs" "0 < w"
  shows "\<exists>o1 out. write_block o' b w = Some (o1, out) \<and> out_inv o1 \<and> out @ pending o1 = pending o' \<and> out \<noteq> []"
proof -
  let ?d = "drop (sentlen o') (blk_used b)"
  have s: "sentlen o' < length (blk_used b)" using assms(1-3) by (simp add: out_inv_def)
  show ?thesis
  proof (cases "w \<ge> length ?d")
    case True
    then show ?thesis using assms s by (cases bs) (auto simp: write_block_def Let_def out_inv_def pending_def)
  next
    case False
    then have "take w ?d @ drop (sentlen o' + w) (blk_used b) = ?d"
      using append_take_drop_id[of w ?d] by (simp add: add.commute)
    then show ?thesis using assms s False by (auto simp: write_block_def Let_def out_inv_def pending_def)
  qed
qed

lemma write_loop_spec:
  "out_inv o' \<Longrightarrow> \<exists>o1 out nw'. write_loop o' ws sent nw = Some (o1, sent @ out, nw') \<and> out_inv o1 \<and>
     out @ pending o1 = pending o' \<and> (pending o' \<noteq> [] \<and> 0 < fst (first_write ws) \<longrightarrow> out \<noteq> [])"
proof (induction ws arbitrary: o' sent nw)
  case Nil
  have "\<forall>b \<in> set (oreply o'). b \<noteq> None \<and> blk_used (the b) \<noteq> []" using Nil by (auto simp: out_inv_def blk_bytes_def split: option.splits)
  then show ?case using Nil
    by (subst write_loop.simps) (cases "oreply o'"; auto simp: clientHasPendingReplies_def)
next
  case (Cons v ws)
  obtain w over where v: "v = (w, over)" by fastforce
  have bl: "\<forall>b \<in> set (oreply o'). b \<noteq> None \<and> blk_used (the b) \<noteq> []" using Cons.prems by (auto simp: out_inv_def blk_bytes_def split: option.splits)
  show ?case
  proof (cases "clientHasPendingReplies o' \<and> 0 < w")
    case False
    moreover have "pending o' = []" if "\<not> clientHasPendingReplies o'"
      using that by (simp add: pending_def clientHasPendingReplies_def)
    ultimately show ?thesis using Cons.prems bl v
      by (subst write_loop.simps) (cases "oreply o'"; auto simp: clientHasPendingReplies_def)
  next
    case True
    obtain o1 out where o1: "(if obuf o' \<noteq> [] then Some (write_buf o' (nat w)) else write_block o' (the (hd (oreply o'))) (nat w)) = Some (o1, out)"
      "out_inv o1" "out @ pending o1 = pending o'" "out \<noteq> []"
    proof (cases "obuf o' = []")
      case e: True
      then obtain b bs where "oreply o' = Some b # bs" using True bl by (cases "oreply o'") (auto simp: clientHasPendingReplies_def)
      then show ?thesis using that write_block_spec[OF Cons.prems e, of b bs "nat w"] True e by auto
    next
      case e: False
      then show ?thesis using that write_buf_spec[OF Cons.prems e, of "nat w"] True by (cases "write_buf o' (nat w)") auto
    qed
    have ne: "\<not> (obuf o' = [] \<and> hd (oreply o') = None)" "\<not> (obuf o' = [] \<and> blk_used (the (hd (oreply o'))) = [])"
      using True bl by (cases "oreply o'"; auto simp: clientHasPendingReplies_def)+
    obtain o2 out2 nw2 where o2: "write_loop o1 ws (sent @ out) (int (length out)) = Some (o2, (sent @ out) @ out2, nw2)" "out_inv o2"
      "out2 @ pending o2 = pending o1" using Cons.IH[OF o1(2)] by blast
    have "write_loop o' (v # ws) sent nw = (if write_more o1 (sent @ out) over then write_loop o1 ws (sent @ out) (int (length out))
        else Some (o1, sent @ out, int (length out)))"
      using True ne o1(1) not_le[of w 0]
      by (subst write_loop.simps) (simp only: v first_write.simps Let_def if_False list.sel option.case prod.case simp_thms)
    then show ?thesis using o1 o2 by (cases "write_more o1 (sent @ out) over") (auto intro!: exI[of _ out] exI[of _ "out @ out2"])
  qed
qed

section \<open>The interface of a byte queue\<close>

text \<open>
  Bytes are put into the queue and sent from it, as the environment permits. An operation is
  \<open>Inl (t, s)\<close>, put the bytes \<open>s\<close> at the time \<open>t\<close>, or \<open>Inr e\<close>, send in the environment \<open>e\<close>; the trace collects
  the bytes that were sent.
\<close>

fun queue_step ::
    "('q \<Rightarrow> 't \<times> sds \<Rightarrow> 'q) \<Rightarrow> ('q \<Rightarrow> 'e \<Rightarrow> ('q \<times> sds) option) \<Rightarrow> 'q \<times> sds \<Rightarrow> 't \<times> sds + 'e \<Rightarrow> ('q \<times> sds) option" where
  "queue_step put send (q, sent) (Inl s) = Some (put q s, sent)"
| "queue_step put send (q, sent) (Inr e) = map_option (\<lambda>(q', out). (q', sent @ out)) (send q e)"

definition puts :: "('t \<times> sds + 'e) list \<Rightarrow> sds" where
  "puts ops = concat (map (\<lambda>x. case x of Inl p \<Rightarrow> snd p | Inr _ \<Rightarrow> []) ops)"

locale byte_queue =
  fixes put :: "'q \<Rightarrow> 't \<times> sds \<Rightarrow> 'q"
    and send :: "'q \<Rightarrow> 'e \<Rightarrow> ('q \<times> sds) option"
    and pend :: "'q \<Rightarrow> sds"
    and qinv :: "'q \<Rightarrow> bool"
    and live :: "'e \<Rightarrow> bool"
  assumes put_law: "qinv q \<Longrightarrow> qinv (put q p) \<and> pend (put q p) = pend q @ snd p"
    and send_law: "qinv q \<Longrightarrow> \<exists>q' out. send q e = Some (q', out) \<and> qinv q' \<and> out @ pend q' = pend q \<and>
      (live e \<and> pend q \<noteq> [] \<longrightarrow> out \<noteq> [])"
begin

lemma fifo:
  assumes "qinv q"
  shows "\<exists>q' sent'. run (queue_step put send) (q, sent) ops = Some (q', sent @ sent') \<and> qinv q' \<and>
    sent' @ pend q' = pend q @ puts ops"
  using assms
proof (induction ops arbitrary: q sent)
  case (Cons x ops)
  show ?case
  proof (cases x)
    case (Inl p)
    then show ?thesis using Cons.IH[of "put q p" sent] put_law[OF Cons.prems, of p] by (auto simp: puts_def)
  next
    case (Inr e)
    obtain q1 out where q1: "send q e = Some (q1, out)" "qinv q1" "out @ pend q1 = pend q"
      using send_law[OF Cons.prems, of e] by blast
    obtain q2 s2 where q2: "run (queue_step put send) (q1, sent @ out) ops = Some (q2, (sent @ out) @ s2)" "qinv q2"
      "s2 @ pend q2 = pend q1 @ puts ops" using Cons.IH[OF q1(2)] by blast
    have "(out @ s2) @ pend q2 = pend q @ puts (x # ops)" using q2(3) Inr by (simp add: puts_def flip: q1(3))
    then show ?thesis using q1(1) q2(1,2) Inr by (intro exI[of _ q2] exI[of _ "out @ s2"]) simp
  qed
qed (simp add: puts_def)

text \<open>A queue that gets enough opportunities is emptied.\<close>

lemma flush:
  assumes "qinv q" "\<forall>e \<in> set es. live e" "length (pend q) \<le> length es"
  shows "\<exists>q'. run (queue_step put send) (q, sent) (map Inr es) = Some (q', sent @ pend q) \<and> qinv q' \<and> pend q' = []"
  using assms
proof (induction es arbitrary: q sent)
  case (Cons e es)
  obtain q1 out where q1: "send q e = Some (q1, out)" "qinv q1" "out @ pend q1 = pend q" "pend q \<noteq> [] \<longrightarrow> out \<noteq> []"
    using send_law[OF Cons.prems(1), of e] Cons.prems(2) by auto
  have "length (pend q1) \<le> length es"
    using q1(3,4) Cons.prems(3) by (cases out; cases "pend q") (auto dest: arg_cong[where f = length])
  then obtain q2 where "run (queue_step put send) (q1, sent @ out) (map Inr es) = Some (q2, (sent @ out) @ pend q1)"
    "qinv q2" "pend q2 = []" using Cons.IH[OF q1(2), of "sent @ out"] Cons.prems(2) by auto
  then show ?case using q1(1) by (simp flip: q1(3))
qed simp

end

text \<open>A write event in which the socket has room for at least one byte.\<close>

fun writable :: "write_event \<Rightarrow> bool" where
  "writable (WriteHandler e) \<longleftrightarrow> 0 < fst (first_write (conn_writes e))"
| "writable (PendingWrite e _) \<longleftrightarrow> 0 < fst (first_write (conn_writes e))"

lemma writeToClient_spec:
  assumes "out_inv o'"
  shows "\<exists>o1 out ok. writeToClient o' hi e = Some (o1, out, ok) \<and> out_inv o1 \<and> out @ pending o1 = pending o' \<and>
    (0 < fst (first_write (conn_writes e)) \<and> pending o' \<noteq> [] \<longrightarrow> out \<noteq> [])"
proof -
  obtain o1 out nw where o1: "write_loop o' (conn_writes e) [] 0 = Some (o1, out, nw)" "out_inv o1" "out @ pending o1 = pending o'"
    "pending o' \<noteq> [] \<and> 0 < fst (first_write (conn_writes e)) \<longrightarrow> out \<noteq> []"
    using write_loop_spec[OF assms, of "conn_writes e" "[]" 0] by auto
  have "\<exists>o2 ok. writeToClient o' hi e = Some (o2, out, ok) \<and> out_data o2 = out_data o1 \<and> receives o2 = receives o1"
  proof (cases "clientHasPendingReplies o1")
    case False
    then have "sentlen o1 = 0" using o1(2) by (simp add: clientHasPendingReplies_def out_inv_def)
    then show ?thesis using o1(1) False by (simp add: writeToClient_def Let_def) (auto simp: out_data_def)
  qed (use o1(1) in \<open>auto simp: writeToClient_def\<close>)
  then obtain o2 ok where o2: "writeToClient o' hi e = Some (o2, out, ok)" "out_data o2 = out_data o1" "receives o2 = receives o1" by blast
  show ?thesis using o2(1) out_data_eq[OF o2(2,3)] o1(2-4) by auto
qed

lemma write_event_spec:
  assumes "out_inv o'"
  shows "\<exists>o1 out. write_event_step o' ev = Some (o1, out) \<and> out_inv o1 \<and> out @ pending o1 = pending o' \<and>
    (writable ev \<and> pending o' \<noteq> [] \<longrightarrow> out \<noteq> [])"
proof (cases ev)
  case (WriteHandler e)
  then show ?thesis using writeToClient_spec[OF assms, of True e] by (auto simp: sendReplyToClient_def)
next
  case (PendingWrite e set_ok)
  let ?o = "o'\<lparr>oflags := oflags o' - {CLIENT_PENDING_WRITE}\<rparr>"
  have "receives ?o = receives o'" "out_data ?o = out_data o'" by (simp_all add: receives_def out_data_def)
  then have o0: "out_inv ?o" "pending ?o = pending o'" using out_data_eq[of ?o o'] assms by blast+
  obtain o1 out ok where o1: "writeToClient ?o False e = Some (o1, out, ok)" "out_inv o1" "out @ pending o1 = pending o'"
    "0 < fst (first_write (conn_writes e)) \<and> pending o' \<noteq> [] \<longrightarrow> out \<noteq> []"
    using writeToClient_spec[OF o0(1), of False e] unfolding o0(2) by blast
  have p: "CLIENT_PROTECTED \<notin> oflags ?o" using assms by (simp add: out_inv_def receives_def)
  let ?o2 = "if ok \<and> clientHasPendingReplies o1 then if set_ok then o1\<lparr>write_handler := True\<rparr> else freeClientAsync o1 else o1"
  have "out_data ?o2 = out_data o1" "receives ?o2 = receives o1" by (simp_all add: out_data_def[of "o1\<lparr>write_handler := True\<rparr>"]) (simp add: out_data_def)
  then have "out_inv ?o2 \<and> pending ?o2 = pending o1" using out_data_eq o1(2) by blast
  moreover have "write_event_step o' ev = Some (?o2, out)" using o1(1) p PendingWrite by (simp add: handlePendingWrite_def Let_def)
  ultimately show ?thesis using o1(3,4) PendingWrite by simp
qed

interpretation out: byte_queue "put_reply (cfg\<lparr>usable := \<lambda>n. n + slack n\<rparr>)" write_event_step pending out_inv writable
  for cfg :: out_config and slack :: "nat \<Rightarrow> nat"
  by (unfold_locales, simp add: put_reply_def addReplyProto_spec, erule write_event_spec)

lemma usable_slack: "\<forall>n. n \<le> usable cfg n \<Longrightarrow> cfg = cfg\<lparr>usable := \<lambda>n. n + (usable cfg n - n :: nat)\<rparr>"
  by (cases cfg) simp

section \<open>Properties\<close>

text \<open>
  C21 (the output buffers are a queue): for a client that receives replies, over any interleaving of replies and
  partial writes, by the write handler or before the event loop, with write errors and whether or not limits of the
  buffer size are reached, the bytes that reached the socket followed by the bytes still buffered are exactly the
  bytes that were added, in order; the accounting of the block sizes never trips its assertion.
\<close>

theorem output_fifo:
  assumes "\<forall>n. n \<le> usable cfg n" "out_inv o'"
  shows "\<exists>o1 sent. run (queue_step (put_reply cfg) write_event_step) (o', []) ops = Some (o1, sent) \<and>
    out_inv o1 \<and> sent @ pending o1 = pending o' @ puts ops"
  by (subst usable_slack[OF assms(1)])
    (use out.fifo[OF assms(2), of "\<lambda>n. usable cfg n - n" cfg "[]" ops] in simp)

text \<open>
  C31 (the buffers drain): if no more replies are added, as many write events as there are bytes,
  each with room for at least one byte, send everything.
\<close>

theorem output_drains:
  assumes "out_inv o'" "\<forall>ev \<in> set es. writable ev" "length (pending o') \<le> length es"
  shows "\<exists>o1. run (queue_step (put_reply cfg) write_event_step) (o', []) (map Inr es) = Some (o1, pending o') \<and>
    pending o1 = []"
proof -
  have "run (queue_step f write_event_step) q (map Inr es) = run (queue_step g write_event_step) q (map Inr es)" for f g :: "outbuf \<Rightarrow> int \<times> sds \<Rightarrow> outbuf" and q
    by (induction es arbitrary: q) (auto split: bind_splits)
  then show ?thesis using out.flush[OF assms, of "\<lambda>n. 0" cfg "[]"] by (metis append_Nil)
qed

abbreviation (input) sample_out_config :: out_config where
  "sample_out_config \<equiv> \<lparr>client_obuf_limits = (\<lambda>_. \<lparr>hard_limit_bytes = 0, soft_limit_bytes = 0, soft_limit_seconds = 0\<rparr>), usable = (\<lambda>n. n + 8)\<rparr>"

abbreviation (input) sample_write :: write_event where
  "sample_write \<equiv> WriteHandler \<lparr>conn_writes = [(1, False)], conn_connected = True\<rparr>"

theorem output_fifo_witness:
  "\<exists>o1 sent. run (queue_step (put_reply sample_out_config) write_event_step) (new_outbuf {}, [])
      [Inl (1, ''*1''), Inr sample_write, Inl (2, ''x'')] = Some (o1, sent) \<and>
    out_inv o1 \<and> sent @ pending o1 = pending (new_outbuf {}) @ puts [Inl (1 :: int, ''*1''), Inr sample_write, Inl (2, ''x'')]"
  by (rule output_fifo) (simp_all add: new_outbuf_inv)

theorem output_drains_witness:
  "\<exists>o1. run (queue_step (put_reply sample_out_config) write_event_step) (put_reply sample_out_config (new_outbuf {}) (1, ''ab''), [])
      (map Inr [sample_write, sample_write]) = Some (o1, pending (put_reply sample_out_config (new_outbuf {}) (1, ''ab''))) \<and> pending o1 = []"
  by (rule output_drains) (simp_all add: put_reply_def addReplyProto_spec new_outbuf_inv)

end
