(* ===== verification/LLString.thy ===== *)
theory LLString
  imports CFormat "HOL-Library.Word"
begin

text \<open>
  \<open>digits10\<close> and \<open>ll2string\<close> (util.c): the conversion of a \<open>long long\<close> into decimal text in a
  caller's buffer, two digits at a time from a table. The value is a 64 bit machine word; a
  write outside the buffer is a fault. The reference is \<open>print_d\<close>, the \<open>%d\<close> conversion.
\<close>

section \<open>The code\<close>

function digits10 :: "64 word \<Rightarrow> nat" where
  "digits10 v =
     (if v < 10 then 1 else if v < 100 then 2 else if v < 1000 then 3
      else if v < 1000000000000 then
        if v < 100000000 then
          if v < 1000000 then
            if v < 10000 then 4 else 5 + (if v \<ge> 100000 then 1 else 0)
          else 7 + (if v \<ge> 10000000 then 1 else 0)
        else if v < 10000000000 then 9 + (if v \<ge> 1000000000 then 1 else 0)
        else 11 + (if v \<ge> 100000000000 then 1 else 0)
      else 12 + digits10 (v div 1000000000000))"
  by pat_completeness auto
termination
  by (relation "measure unat") (auto simp: word_less_nat_alt unat_div)

declare digits10.simps [simp del]

definition digits :: sds where
  "digits =
     ''0001020304050607080910111213141516171819'' @
     ''2021222324252627282930313233343536373839'' @
     ''4041424344454647484950515253545556575859'' @
     ''6061626364656667686970717273747576777879'' @
     ''8081828384858687888990919293949596979899''"

definition store :: "sds \<Rightarrow> int \<Rightarrow> char \<Rightarrow> sds option" where
  "store dst i c = (if 0 \<le> i \<and> i < int (length dst) then Some (dst[nat i := c]) else None)"

function ll2string_loop :: "sds \<Rightarrow> int \<Rightarrow> 64 word \<Rightarrow> (sds \<times> int \<times> 64 word) option" where
  "ll2string_loop dst nxt v =
     (if v \<ge> 100 then
        do {
          let i = unat (v mod 100) * 2;
          d1 \<leftarrow> store dst nxt (digits ! (i + 1));
          d2 \<leftarrow> store d1 (nxt - 1) (digits ! i);
          ll2string_loop d2 (nxt - 2) (v div 100)
        }
      else Some (dst, nxt, v))"
  by pat_completeness auto
termination
  by (relation "measure (\<lambda>(_, _, v). unat v)") (auto simp: word_le_nat_alt unat_div)

declare ll2string_loop.simps [simp del]

definition ll2string_last :: "sds \<Rightarrow> int \<Rightarrow> 64 word \<Rightarrow> sds option" where
  "ll2string_last dst nxt v =
     (if v < 10 then store dst nxt (char_of (48 + unat v))
      else do { let i = unat v * 2; d1 \<leftarrow> store dst nxt (digits ! (i + 1)); store d1 (nxt - 1) (digits ! i) })"

text \<open>The magnitude of the value, \<open>LLONG_MIN\<close> separately.\<close>

definition ll2string_abs :: "int \<Rightarrow> 64 word" where
  "ll2string_abs sv =
     (if sv < 0 then if sv \<noteq> - (2 ^ 63) then word_of_int (- sv) else word_of_int (2 ^ 63 - 1) + 1
      else word_of_int sv)"

text \<open>The result is the returned length and the buffer.\<close>

definition ll2string :: "sds \<Rightarrow> int \<Rightarrow> (nat \<times> sds) option" where
  "ll2string dst sv =
     (let v = ll2string_abs sv; len = digits10 v + (if sv < 0 then 1 else 0)
      in if len \<ge> length dst then Some (0, dst)
         else do {
           d0 \<leftarrow> store dst (int len) (CHR 0x00);
           (d1, nxt, w) \<leftarrow> ll2string_loop d0 (int len - 1) v;
           d2 \<leftarrow> ll2string_last d1 nxt w;
           d3 \<leftarrow> (if sv < 0 then store d2 0 (CHR ''-'') else Some d2);
           Some (len, d3)
         })"

section \<open>The number of digits\<close>

lemma dec_of_nat_split: "10 \<le> n \<Longrightarrow> dec_of_nat n = dec_of_nat (n div 10) @ [digit_char (n mod 10)]"
  by (simp add: dec_of_nat.simps[of n])

lemma ten_le_power: "10 ^ Suc k \<le> n \<Longrightarrow> 10 \<le> (n :: nat)"
  by (rule order_trans[of _ "10 ^ Suc k"]) simp_all

lemma length_dec_of_nat_bounds:
  "10 ^ k \<le> n \<Longrightarrow> n < 10 ^ Suc k \<Longrightarrow> length (dec_of_nat n) = Suc k"
proof (induction k arbitrary: n)
  case 0
  then show ?case by (simp add: dec_of_nat_small)
next
  case (Suc k)
  have "10 ^ k \<le> n div 10" "n div 10 < 10 ^ Suc k" using Suc.prems by auto
  then have "length (dec_of_nat (n div 10)) = Suc k" by (rule Suc.IH)
  then show ?case using ten_le_power[OF Suc.prems(1)] by (simp add: dec_of_nat_split)
qed

lemma length_dec_of_nat_div:
  "10 ^ k \<le> n \<Longrightarrow> length (dec_of_nat n) = k + length (dec_of_nat (n div 10 ^ k))"
proof (induction k arbitrary: n)
  case (Suc k)
  have n: "10 \<le> n" "10 ^ k \<le> n div 10" using ten_le_power[OF Suc.prems] Suc.prems by auto
  have "length (dec_of_nat n) = Suc (length (dec_of_nat (n div 10)))"
    using n(1) by (simp add: dec_of_nat_split)
  then show ?case using Suc.IH[OF n(2)] by (simp add: div_mult2_eq)
qed simp

lemma digits10_correct: "digits10 v = length (dec_of_nat (unat v))"
proof (induction v rule: digits10.induct)
  case (1 v)
  have range: "length (dec_of_nat n) = d" if "10 ^ (d - 1) \<le> n" "n < 10 ^ d" "0 < d" for n d
    using length_dec_of_nat_bounds[of "d - 1" n] that by simp
  have IH: "digits10 (v div 1000000000000) = length (dec_of_nat (unat v div 1000000000000))"
    if "1000000000000 \<le> unat v"
    using 1 that by (simp add: word_less_nat_alt unat_div)
  have big: "length (dec_of_nat (unat v)) = 12 + length (dec_of_nat (unat v div 1000000000000))"
    if "1000000000000 \<le> unat v"
    using length_dec_of_nat_div[of 12 "unat v"] that by simp
  show ?case
    by (subst digits10.simps)
      (auto simp: word_less_nat_alt word_le_nat_alt IH big dec_of_nat_small not_less
        intro!: range)
qed

section \<open>The digits\<close>

lemma digits_pairs: "digits = concat (map (\<lambda>i. [digit_char (i div 10), digit_char (i mod 10)]) [0..<100])"
  by (simp add: digits_def upt_rec flip: numeral_2_eq_2)

lemma nth_pairs:
  "i < length xs \<Longrightarrow> concat (map (\<lambda>x. [f x, g x]) xs) ! (i * 2) = f (xs ! i)"
  "i < length xs \<Longrightarrow> concat (map (\<lambda>x. [f x, g x]) xs) ! Suc (i * 2) = g (xs ! i)"
  by (induction xs arbitrary: i) (auto simp: nth_Cons' less_Suc_eq_0_disj)

lemma digits_nth:
  "i < 100 \<Longrightarrow> digits ! (i * 2) = digit_char (i div 10)"
  "i < 100 \<Longrightarrow> digits ! Suc (i * 2) = digit_char (i mod 10)"
  unfolding digits_pairs by (subst nth_pairs, simp_all)+

lemma store_at:
  "store (p @ x # q) (int (length p)) c = Some (p @ c # q)"
  by (simp add: store_def)

lemma store_split: "i < length dst \<Longrightarrow> store dst (int i) c = Some (take i dst @ c # drop (Suc i) dst)"
  by (simp add: store_def upd_conv_take_nth_drop)

lemma store_pair:
  "do { d1 \<leftarrow> store (p @ x # y # q) (int (length p) + 1) d; store d1 (int (length p)) c } =
   Some (p @ c # d # q)"
  using store_at[of "p @ [x]" y q d] store_at[of p x "d # q" c] by (simp add: add.commute)

lemma dec_of_nat_last2:
  assumes "100 \<le> n"
  shows "dec_of_nat n =
    dec_of_nat (n div 100) @ [digit_char (n mod 100 div 10), digit_char (n mod 100 mod 10)]"
proof -
  have "n mod 100 = 10 * (n div 10 mod 10) + n mod 10" using mod_mult2_eq[of n 10 10] by simp
  then have "n div 10 mod 10 = n mod 100 div 10" "n mod 10 = n mod 100 mod 10" by simp_all
  moreover have "n div 10 div 10 = n div 100" by (simp flip: div_mult2_eq)
  ultimately show ?thesis
    using assms dec_of_nat_split[of n] dec_of_nat_split[of "n div 10"] div_le_mono[of 100 n 10] by simp
qed

lemma last_two:
  assumes "length gap = Suc (Suc m)"
  obtains g x y where "gap = g @ [x, y]" "length g = m"
  using assms by (cases gap rule: rev_cases; cases "butlast gap" rule: rev_cases) auto

lemma unat_mod_100: "unat (v mod 100 :: 64 word) = unat v mod 100"
  unfolding unat_mod by simp

lemma unat_div_100: "unat (v div 100 :: 64 word) = unat v div 100"
  unfolding unat_div by simp

text \<open>
  The loop and the last digits fill exactly the cells of the number, from the right.
\<close>

lemma ll2string_fill:
  assumes "length gap = length (dec_of_nat (unat v))"
  shows "do { (d1, nxt, w) \<leftarrow> ll2string_loop (p @ gap @ q) (int (length p + length gap) - 1) v;
              ll2string_last d1 nxt w } = Some (p @ dec_of_nat (unat v) @ q)"
  using assms
proof (induction "unat v" arbitrary: v gap q rule: less_induct)
  case less
  show ?case
  proof (cases "v \<ge> 100")
    case True
    then have n: "100 \<le> unat v" by (simp add: word_le_nat_alt)
    note d = dec_of_nat_last2[OF n]
    then obtain g x y where g: "gap = g @ [x, y]" "length g = length (dec_of_nat (unat (v div 100)))"
      using less.prems last_two[of gap "length (dec_of_nat (unat v div 100))"] by (auto simp: unat_div_100)
    let ?i = "unat v mod 100"
    have pair: "do { d1 \<leftarrow> store (p @ gap @ q) (int (length p + length gap) - 1) (digits ! (unat (v mod 100) * 2 + 1));
          store d1 (int (length p + length gap) - 1 - 1) (digits ! (unat (v mod 100) * 2)) } =
        Some (p @ g @ digit_char (?i div 10) # digit_char (?i mod 10) # q)"
      unfolding unat_mod_100
      using store_pair[of "p @ g" x y q "digits ! (?i * 2 + 1)" "digits ! (?i * 2)"] digits_nth[of ?i] g(1)
      by (simp add: algebra_simps)
    have "ll2string_loop (p @ gap @ q) (int (length p + length gap) - 1) v =
        ll2string_loop (p @ g @ digit_char (?i div 10) # digit_char (?i mod 10) # q)
          (int (length p + length g) - 1) (v div 100)"
      using True pair g(1) by (subst ll2string_loop.simps) (auto simp: Let_def split: bind_splits)
    moreover have "unat (v div 100) < unat v" using n by (simp add: unat_div_100)
    note less.hyps[OF this g(2), of "digit_char (?i div 10) # digit_char (?i mod 10) # q"]
    ultimately show ?thesis using d by (simp add: unat_div_100)
  next
    case False
    then have loop: "ll2string_loop b nx v = Some (b, nx, v)" for b nx
      by (subst ll2string_loop.simps) simp
    show ?thesis
    proof (cases "v < 10")
      case True
      then have d: "dec_of_nat (unat v) = [digit_char (unat v)]"
        by (simp add: dec_of_nat_small word_less_nat_alt)
      then obtain x where "gap = [x]" using less.prems by (auto simp: length_Suc_conv)
      then show ?thesis using True loop store_at[of p x q] d
        by (simp add: ll2string_last_def digit_char_def)
    next
      case big: False
      with False have n: "10 \<le> unat v" "unat v < 100" by (simp_all add: word_less_nat_alt word_le_nat_alt)
      then have d: "dec_of_nat (unat v) = [digit_char (unat v div 10), digit_char (unat v mod 10)]"
        using dec_of_nat_split[of "unat v"] by (simp add: dec_of_nat_small)
      then obtain x y where "gap = [x, y]" using less.prems by (auto simp: length_Suc_conv numeral_2_eq_2)
      then show ?thesis using big loop store_pair[of p x y q] d digits_nth[OF n(2)]
        by (simp add: ll2string_last_def add.commute)
    qed
  qed
qed

lemma ll2string_abs_unat: "is_int64 sv \<Longrightarrow> unat (ll2string_abs sv) = nat \<bar>sv\<bar>"
proof -
  assume "is_int64 sv"
  then have b: "- (2 ^ 63) \<le> sv" "sv < 2 ^ 63" by (simp_all add: is_int64_def)
  have "ll2string_abs sv = word_of_int \<bar>sv\<bar>"
    by (auto simp: ll2string_abs_def)
  moreover have "unat (word_of_int x :: 64 word) = nat x" if "0 \<le> x" "x \<le> 2 ^ 63" for x :: int
    using that by (simp add: unsigned_of_int take_bit_int_eq_self)
  ultimately show ?thesis using b by simp
qed

lemma ll2string_text:
  assumes "is_int64 sv"
  shows "ll2string dst sv =
    (if length (print_d sv) < length dst
     then Some (length (print_d sv), print_d sv @ CHR 0x00 # drop (Suc (length (print_d sv))) dst)
     else Some (0, dst))"
proof -
  let ?n = "nat \<bar>sv\<bar>" and ?s = "if sv < 0 then 1 else 0 :: nat"
  have v: "unat (ll2string_abs sv) = ?n" by (rule ll2string_abs_unat[OF assms])
  have p: "print_d sv = (if sv < 0 then ''-'' else []) @ dec_of_nat ?n" by (simp add: print_d_def)
  have len: "digits10 (ll2string_abs sv) + ?s = length (print_d sv)" by (simp add: p digits10_correct v)
  show ?thesis
  proof (cases "length (print_d sv) < length dst")
    case True
    let ?L = "length (print_d sv)"
    define gap where "gap = drop ?s (take ?L dst)"
    have d0: "store dst (int ?L) (CHR 0x00) = Some (take ?s dst @ gap @ CHR 0x00 # drop (Suc ?L) dst)"
      using store_split[OF True] append_take_drop_id[of ?s "take ?L dst"] p
      by (auto simp: gap_def min_def)
    have gl: "length gap = length (dec_of_nat (unat (ll2string_abs sv)))"
      using True by (simp add: gap_def v p)
    have sl: "length (take ?s dst) = ?s" using True p by auto
    have "int (length (take ?s dst) + length gap) - 1 = int ?L - 1" using gl sl by (simp add: v p)
    note fill = ll2string_fill[OF gl, of "take ?s dst" "CHR 0x00 # drop (Suc ?L) dst", unfolded this]
    have sign: "store (take ?s dst @ xs) 0 (CHR ''-'') = Some (CHR ''-'' # xs)" if "sv < 0" for xs
      using that sl store_at[of "[]"] by (cases dst) auto
    obtain d1 nx w where loop: "ll2string_loop (take ?s dst @ gap @ CHR 0x00 # drop (Suc ?L) dst)
        (int ?L - 1) (ll2string_abs sv) = Some (d1, nx, w)"
      and lst: "ll2string_last d1 nx w = Some (take ?s dst @ dec_of_nat ?n @ CHR 0x00 # drop (Suc ?L) dst)"
      using fill by (auto simp: v split: bind_splits)
    have "(if sv < 0 then store (take ?s dst @ dec_of_nat ?n @ xs) 0 (CHR ''-'')
        else Some (take ?s dst @ dec_of_nat ?n @ xs)) = Some (print_d sv @ xs)" for xs
      using sign p by simp
    then show ?thesis using True d0 loop lst unfolding ll2string_def Let_def len by simp
  qed (simp add: ll2string_def len)
qed

text \<open>
  C30 (the table-driven conversion is the \<open>%d\<close> conversion): for every \<open>long long\<close>, including
  \<open>LLONG_MIN\<close>, \<open>ll2string\<close> never writes outside the buffer; it writes the decimal text and a
  terminating zero byte and returns the length of the text if that fits, and returns 0 and
  leaves the buffer alone otherwise.
\<close>

theorem ll2string_correct:
  assumes "is_int64 sv"
  shows "ll2string dst sv =
    (if length (print_d sv) < length dst
     then Some (length (print_d sv), print_d sv @ CHR 0x00 # drop (Suc (length (print_d sv))) dst)
     else Some (0, dst))"
  by (rule ll2string_text[OF assms])

theorem ll2string_correct_witness:
  "ll2string (replicate 21 CHR ''x'') (-9223372036854775808) =
    Some (20, ''-9223372036854775808'' @ [CHR 0x00])"
proof -
  have p: "print_d (-9223372036854775808) = ''-9223372036854775808''" by (simp add: text_eval)
  show ?thesis
    using ll2string_correct[of "-9223372036854775808" "replicate 21 CHR ''x''"]
    by (simp add: p is_int64_def)
qed

end
