(* ===== verification/SdsArgs.thy ===== *)
theory SdsArgs
  imports CFormat
begin

text \<open>
  Quoting and splitting of argument lines (sds.c): \<open>sdscatrepr\<close> writes a byte string as a
  quoted token, \<open>sdssplitargs\<close> splits a line of an inline request into its arguments. A C
  string is the list of its characters up to the terminating zero, so that reading the zero is
  reaching the end of the list.
\<close>

section \<open>The code\<close>

definition is_hex_digit :: "char \<Rightarrow> bool" where
  "is_hex_digit c \<longleftrightarrow>
     (let n = of_char c :: nat in (48 \<le> n \<and> n \<le> 57) \<or> (97 \<le> n \<and> n \<le> 102) \<or> (65 \<le> n \<and> n \<le> 70))"

definition hex_digit_to_int :: "char \<Rightarrow> nat" where
  "hex_digit_to_int c =
     (let n = of_char c :: nat in
      if 48 \<le> n \<and> n \<le> 57 then n - 48
      else if 97 \<le> n \<and> n \<le> 102 then n - 87
      else if 65 \<le> n \<and> n \<le> 70 then n - 55 else 0)"

definition isprint :: "char \<Rightarrow> bool" where
  "isprint c \<longleftrightarrow> 32 \<le> (of_char c :: nat) \<and> (of_char c :: nat) \<le> 126"

definition hex_char :: "nat \<Rightarrow> char" where
  "hex_char d = char_of (if d < 10 then 48 + d else 87 + d)"

text \<open>The representation of one character inside the quotes.\<close>

definition repr_char :: "char \<Rightarrow> sds" where
  "repr_char c =
     (if c = CHR 0x5C \<or> c = CHR 0x22 then [CHR 0x5C, c]
      else if c = CHR 0x0A then [CHR 0x5C, CHR ''n'']
      else if c = CHR 0x0D then [CHR 0x5C, CHR ''r'']
      else if c = CHR 0x09 then [CHR 0x5C, CHR ''t'']
      else if c = CHR 0x07 then [CHR 0x5C, CHR ''a'']
      else if c = CHR 0x08 then [CHR 0x5C, CHR ''b'']
      else if isprint c then [c]
      else [CHR 0x5C, CHR ''x'', hex_char (of_char c div 16), hex_char (of_char c mod 16)])"

definition sdscatrepr :: "sds \<Rightarrow> sds \<Rightarrow> sds" where
  "sdscatrepr s p = s @ [CHR 0x22] @ concat (map repr_char p) @ [CHR 0x22]"

definition unescape :: "char \<Rightarrow> char" where
  "unescape c =
     (if c = CHR ''n'' then CHR 0x0A else if c = CHR ''r'' then CHR 0x0D
      else if c = CHR ''t'' then CHR 0x09 else if c = CHR ''b'' then CHR 0x08
      else if c = CHR ''a'' then CHR 0x07 else c)"

text \<open>
  The body of the token loop, for the state of the two quote flags. The result is the token
  and the rest of the line; \<open>None\<close> is the jump to \<open>err\<close>.
\<close>

datatype quoting = Unquoted | Inq | Insq

fun split_token :: "quoting \<Rightarrow> sds \<Rightarrow> sds \<Rightarrow> (sds \<times> sds) option" where
  "split_token Inq cur [] = None"
| "split_token Inq cur (c # r) =
     (if c = CHR 0x5C \<and> 3 \<le> length r \<and> r ! 0 = CHR ''x'' \<and> is_hex_digit (r ! 1) \<and> is_hex_digit (r ! 2)
      then split_token Inq (cur @ [char_of (hex_digit_to_int (r ! 1) * 16 + hex_digit_to_int (r ! 2))]) (drop 3 r)
      else if c = CHR 0x5C \<and> r \<noteq> [] then split_token Inq (cur @ [unescape (r ! 0)]) (drop 1 r)
      else if c = CHR 0x22 then if r \<noteq> [] \<and> \<not> isspace (r ! 0) then None else Some (cur, r)
      else split_token Inq (cur @ [c]) r)"
| "split_token Insq cur [] = None"
| "split_token Insq cur (c # r) =
     (if c = CHR 0x5C \<and> r \<noteq> [] \<and> r ! 0 = CHR 0x27 then split_token Insq (cur @ [CHR 0x27]) (drop 1 r)
      else if c = CHR 0x27 then if r \<noteq> [] \<and> \<not> isspace (r ! 0) then None else Some (cur, r)
      else split_token Insq (cur @ [c]) r)"
| "split_token Unquoted cur [] = Some (cur, [])"
| "split_token Unquoted cur (c # r) =
     (if c = CHR 0x20 \<or> c = CHR 0x0A \<or> c = CHR 0x0D \<or> c = CHR 0x09 then Some (cur, r)
      else if c = CHR 0x22 then split_token Inq cur r
      else if c = CHR 0x27 then split_token Insq cur r
      else split_token Unquoted (cur @ [c]) r)"

lemma split_token_consumes: "split_token q cur p = Some (t, r) \<Longrightarrow> p \<noteq> [] \<Longrightarrow> length r < length p"
proof (induction q cur p rule: split_token.induct)
  case (2 cur c r')
  then show ?case by (cases "r' = []") (force split: if_splits)+
next
  case (4 cur c r')
  then show ?case by (cases "r' = []") (force split: if_splits)+
next
  case (6 cur c r')
  then show ?case by (cases "r' = []") (force split: if_splits)+
qed auto

function sdssplitargs_loop :: "sds \<Rightarrow> sds list option" where
  "sdssplitargs_loop p =
     (case dropWhile isspace p of
        [] \<Rightarrow> Some []
      | c # p' \<Rightarrow>
          (case split_token Unquoted [] (c # p') of
             None \<Rightarrow> None
           | Some (t, r) \<Rightarrow> map_option (Cons t) (sdssplitargs_loop r)))"
  by pat_completeness auto
termination
proof (relation "measure length")
  fix p c p' t r and x :: "sds \<times> sds"
  assume "dropWhile isspace p = c # p'" "split_token Unquoted [] (c # p') = Some x" "(t, r) = x"
  then show "(r, p) \<in> measure length"
    using split_token_consumes[of Unquoted "[]" "c # p'" t r] length_dropWhile_le[of isspace p] by auto
qed simp

declare sdssplitargs_loop.simps [simp del]

definition sdssplitargs :: "sds \<Rightarrow> sds list option" where
  "sdssplitargs line = sdssplitargs_loop (takeWhile (\<lambda>c. c \<noteq> CHR 0x00) line)"

section \<open>Quoting and splitting\<close>

lemma of_char_less [simp]: "(of_char c :: nat) < 256"
  by simp

lemma hex_char_code: "d < 16 \<Longrightarrow> (of_char (hex_char d) :: nat) = (if d < 10 then 48 + d else 87 + d)"
  by (simp add: hex_char_def)

lemma hex_char_ok: "d < 16 \<Longrightarrow> is_hex_digit (hex_char d) \<and> hex_digit_to_int (hex_char d) = d"
  by (auto simp: is_hex_digit_def hex_digit_to_int_def hex_char_code Let_def)

lemma split_hex:
  "a < 16 \<Longrightarrow> b < 16 \<Longrightarrow>
   split_token Inq cur (CHR 0x5C # CHR ''x'' # hex_char a # hex_char b # r) =
     split_token Inq (cur @ [char_of (a * 16 + b)]) r"
  by (simp add: hex_char_ok numeral_2_eq_2 numeral_3_eq_3)

lemma split_escape:
  "e \<noteq> CHR ''x'' \<Longrightarrow> split_token Inq cur (CHR 0x5C # e # r) = split_token Inq (cur @ [unescape e]) r"
  by simp

lemma split_repr_char: "split_token Inq cur (repr_char c @ r) = split_token Inq (cur @ [c]) r"
proof -
  have "(of_char c :: nat) div 16 < 16" by (simp add: less_mult_imp_div_less)
  moreover have "char_of ((of_char c :: nat) div 16 * 16 + of_char c mod 16) = c" by simp
  ultimately have hex: "split_token Inq cur (CHR 0x5C # CHR ''x'' # hex_char (of_char c div 16) #
      hex_char (of_char c mod 16) # r) = split_token Inq (cur @ [c]) r"
    by (subst split_hex) simp_all
  show ?thesis
    unfolding repr_char_def
    by (auto simp: split_escape unescape_def hex simp del: split_token.simps(2)) simp
qed

lemma split_repr:
  "r = [] \<or> isspace (hd r) \<Longrightarrow>
   split_token Inq cur (concat (map repr_char s) @ CHR 0x22 # r) = Some (cur @ s, r)"
proof (induction s arbitrary: cur)
  case Nil
  then show ?case by (cases r) auto
next
  case (Cons c s)
  then show ?case by (simp add: split_repr_char del: split_token.simps)
qed

lemma split_quoted:
  "r = [] \<or> isspace (hd r) \<Longrightarrow> sdssplitargs_loop (sdscatrepr [] s @ r) = map_option (Cons s) (sdssplitargs_loop r)"
  by (subst sdssplitargs_loop.simps)
    (simp add: sdscatrepr_def isspace_def split_repr del: split_token.simps(2))

lemma hex_char_no_zero: "d < 16 \<Longrightarrow> CHR 0x00 \<noteq> hex_char d"
  using hex_char_code[of d] by (cases "hex_char d = CHR 0x00") (auto split: if_splits)

lemma repr_char_no_zero: "CHR 0x00 \<notin> set (repr_char c)"
  using hex_char_no_zero[of "of_char c div 16"] hex_char_no_zero[of "of_char c mod 16"]
  by (auto simp: repr_char_def isprint_def less_mult_imp_div_less)

lemma sdscatrepr_no_zero: "CHR 0x00 \<notin> set (sdscatrepr [] s)"
  using repr_char_no_zero by (auto simp: sdscatrepr_def)

text \<open>A line of quoted arguments, each followed by a blank.\<close>

definition repr_line :: "sds list \<Rightarrow> sds" where
  "repr_line args = concat (map (\<lambda>a. sdscatrepr [] a @ '' '') args)"

lemma split_repr_line: "sdssplitargs_loop (repr_line args) = Some args"
proof (induction args)
  case Nil
  show ?case by (subst sdssplitargs_loop.simps) (simp add: repr_line_def)
next
  case (Cons a args)
  have blank: "sdssplitargs_loop (CHR '' '' # r) = sdssplitargs_loop r" for r
    by (subst (1 2) sdssplitargs_loop.simps) (simp add: isspace_def)
  show ?case
    using split_quoted[of "CHR '' '' # repr_line args" a] Cons.IH
    by (simp add: repr_line_def blank isspace_def)
qed

text \<open>
  C32 (quoting round trip): splitting a line of arguments written by \<open>sdscatrepr\<close> gives back the
  arguments, whatever bytes they contain: quotes, backslashes, line ends and zero bytes.
\<close>

theorem sdssplitargs_repr: "sdssplitargs (repr_line args) = Some args"
proof -
  have "CHR 0x00 \<notin> set (repr_line args)" using sdscatrepr_no_zero by (auto simp: repr_line_def)
  then have "takeWhile (\<lambda>c. c \<noteq> CHR 0x00) (repr_line args) = repr_line args"
    unfolding takeWhile_eq_all_conv by blast
  then show ?thesis unfolding sdssplitargs_def by (simp only: split_repr_line)
qed

end
