(* ===== verification/Protocol.thy ===== *)
theory Protocol
  imports Server LLString SdsArgs
begin

text \<open>
  The wire protocol (networking.c). Replies and broadcast commands become bytes with the
  \<open>addReply\<close> family; a receiver collects bytes in the query buffer of the client and takes
  commands out of it with \<open>processInputBuffer\<close>, \<open>processMultibulkBuffer\<close> and
  \<open>processInlineBuffer\<close>, resuming in the middle of a command when more bytes arrive.
\<close>

section \<open>Output\<close>

abbreviation (input) OBJ_SHARED_BULKHDR_LEN :: int where
  "OBJ_SHARED_BULKHDR_LEN \<equiv> 32"

definition shared_hdr :: "char \<Rightarrow> int \<Rightarrow> sds" where
  "shared_hdr pre j = pre # print_d j @ crlf"

definition addReplyLongLongWithPrefix :: "int \<Rightarrow> char \<Rightarrow> sds option" where
  "addReplyLongLongWithPrefix ll pre =
     (if pre = CHR ''*'' \<and> ll < OBJ_SHARED_BULKHDR_LEN \<and> ll \<ge> 0 then Some (shared_hdr pre ll)
      else if pre = CHR ''$'' \<and> ll < OBJ_SHARED_BULKHDR_LEN \<and> ll \<ge> 0 then Some (shared_hdr pre ll)
      else do {
        (len, buf) \<leftarrow> ll2string (replicate 127 (CHR 0x00)) ll;
        Some (pre # take len buf @ crlf)
      })"

definition addReplyLongLong :: "int \<Rightarrow> sds option" where
  "addReplyLongLong ll =
     (if ll = 0 then Some ('':0'' @ crlf) else if ll = 1 then Some ('':1'' @ crlf)
      else addReplyLongLongWithPrefix ll CHR '':'')"

definition addReplyAggregateLen :: "int \<Rightarrow> char \<Rightarrow> sds option" where
  "addReplyAggregateLen len pre =
     (if pre = CHR ''*'' \<and> len < OBJ_SHARED_BULKHDR_LEN
      then if 0 \<le> len then Some (shared_hdr pre len) else None
      else addReplyLongLongWithPrefix len pre)"

definition addReplyArrayLen :: "int \<Rightarrow> sds option" where
  "addReplyArrayLen len = addReplyAggregateLen len CHR ''*''"

definition addReplyBulkLen :: "sds \<Rightarrow> sds option" where
  "addReplyBulkLen x =
     (if int (length x) < OBJ_SHARED_BULKHDR_LEN then Some (shared_hdr CHR ''$'' (int (length x)))
      else addReplyLongLongWithPrefix (int (length x)) CHR ''$'')"

definition addReplyBulk :: "sds \<Rightarrow> sds option" where
  "addReplyBulk x = do { h \<leftarrow> addReplyBulkLen x; Some (h @ x @ crlf) }"

definition addReplyBool :: "bool \<Rightarrow> sds" where
  "addReplyBool b = (if b then '':1'' else '':0'') @ crlf"

definition addReplyErrorLength :: "sds \<Rightarrow> sds" where
  "addReplyErrorLength s =
     (if s = [] \<or> s ! 0 \<noteq> CHR ''-'' then ''-ERR '' else []) @ s @ crlf"

definition addReplyErrorFormat :: "sds \<Rightarrow> sds" where
  "addReplyErrorFormat s =
     addReplyErrorLength (map (\<lambda>c. if c = CHR 0x0D \<or> c = CHR 0x0A then CHR '' '' else c) s)"

text \<open>The broadcast of a command: the loop body of \<open>replicationBroadcast\<close> for one replica.\<close>

fun broadcast_bulks :: "sds list \<Rightarrow> sds option" where
  "broadcast_bulks [] = Some []"
| "broadcast_bulks (x # xs) = do { b \<leftarrow> addReplyBulk x; bs \<leftarrow> broadcast_bulks xs; Some (b @ bs) }"

definition broadcast_bytes :: "sds list \<Rightarrow> sds option" where
  "broadcast_bytes args =
     do { h \<leftarrow> addReplyArrayLen (int (length args)); bs \<leftarrow> broadcast_bulks args; Some (h @ bs) }"

definition replhandshake :: sds where
  "replhandshake =
     ''*3'' @ crlf @ ''$9'' @ crlf @ ''REPLICATE'' @ crlf @ ''$7'' @ crlf @ ''replica'' @ crlf @
     ''$9'' @ crlf @ ''handshake'' @ crlf"

section \<open>Input\<close>

text \<open>
  The part of the client structure that belongs to parsing. \<open>bulklen\<close> is \<open>None\<close> for the C value
  -1; \<open>closing\<close> stands for the flags \<open>CLIENT_CLOSE_AFTER_REPLY\<close> and \<open>CLIENT_CLOSE_ASAP\<close>.
\<close>

datatype reqtype = REQ_NONE | PROTO_REQ_INLINE | PROTO_REQ_MULTIBULK

record query =
  querybuf :: sds
  qb_pos :: nat
  reqtype :: reqtype
  multibulklen :: nat
  bulklen :: "nat option"
  qargv :: "sds list"
  errors :: "sds list"
  closing :: bool

record proto_config =
  proto_max_bulk_len :: int
  client_max_querybuf_len :: nat

abbreviation (input) PROTO_INLINE_MAX_SIZE :: nat where
  "PROTO_INLINE_MAX_SIZE \<equiv> 65536"

abbreviation (input) PROTO_MBULK_BIG_ARG :: nat where
  "PROTO_MBULK_BIG_ARG \<equiv> 32768"

definition new_query :: query where
  "new_query =
     \<lparr>querybuf = [], qb_pos = 0, reqtype = REQ_NONE, multibulklen = 0, bulklen = None, qargv = [],
      errors = [], closing = False\<rparr>"

definition rest :: "query \<Rightarrow> sds" where
  "rest q = drop (qb_pos q) (querybuf q)"

fun strchr :: "sds \<Rightarrow> char \<Rightarrow> nat option" where
  "strchr [] c = None"
| "strchr (x # xs) c =
     (if x = c then Some 0 else if x = CHR 0x00 then None else map_option Suc (strchr xs c))"

definition protocol_error :: "sds \<Rightarrow> query \<Rightarrow> query" where
  "protocol_error msg q = q\<lparr>errors := errors q @ [msg], closing := True\<rparr>"

definition resetClient :: "query \<Rightarrow> query" where
  "resetClient q = q\<lparr>qargv := [], reqtype := REQ_NONE, multibulklen := 0, bulklen := None\<rparr>"

definition processInlineBuffer :: "query \<Rightarrow> query \<times> bool" where
  "processInlineBuffer q =
     (case strchr (rest q) (CHR 0x0A) of
        None \<Rightarrow>
          (if length (rest q) > PROTO_INLINE_MAX_SIZE
           then protocol_error (addReplyErrorLength ''Protocol error: too big inline request'') q else q, False)
      | Some nl \<Rightarrow>
          let line = take (if nl \<noteq> 0 \<and> rest q ! (nl - 1) = CHR 0x0D then nl - 1 else nl) (rest q)
          in (case sdssplitargs line of
               None \<Rightarrow>
                 (protocol_error (addReplyErrorLength ''Protocol error: unbalanced quotes in request'') q, False)
             | Some args \<Rightarrow> (q\<lparr>qb_pos := qb_pos q + nl + 1, qargv := args\<rparr>, True)))"

text \<open>
  The first part of \<open>processMultibulkBuffer\<close>, up to the loop: \<open>Inl\<close> is a return of the whole
  function with the given result (\<open>True\<close> is \<open>C_OK\<close>).
\<close>

definition mb_start :: "query \<Rightarrow> (query \<times> bool + query) option" where
  "mb_start q =
     (if multibulklen q \<noteq> 0 then Some (Inr q)
      else if qargv q \<noteq> [] then None
      else case strchr (rest q) (CHR 0x0D) of
        None \<Rightarrow>
          Some (Inl (if length (rest q) > PROTO_INLINE_MAX_SIZE
                     then protocol_error (addReplyErrorLength ''Protocol error: too big mbulk count string'') q
                     else q, False))
      | Some nl \<Rightarrow>
          if int nl > int (length (rest q)) - 2 then Some (Inl (q, False))
          else if rest q ! 0 \<noteq> CHR ''*'' then None
          else (case string2ll (take (nl - 1) (drop 1 (rest q))) of
                 None \<Rightarrow>
                   Some (Inl (protocol_error (addReplyErrorLength ''Protocol error: invalid multibulk length'') q, False))
               | Some ll \<Rightarrow>
                   if ll > 1024 * 1024
                   then Some (Inl (protocol_error (addReplyErrorLength ''Protocol error: invalid multibulk length'') q, False))
                   else let q1 = q\<lparr>qb_pos := qb_pos q + nl + 2\<rparr>
                        in if ll \<le> 0 then Some (Inl (q1, True)) else Some (Inr (q1\<lparr>multibulklen := nat ll\<rparr>))))"

text \<open>
  The two parts of the loop body, the length of the next argument (\<open>None\<close> is a break or a return
  with \<open>C_ERR\<close>) and the argument (\<open>False\<close> is a break).
\<close>

definition mb_read_len :: "proto_config \<Rightarrow> query \<Rightarrow> query \<times> nat option" where
  "mb_read_len cfg q =
     (if bulklen q \<noteq> None then (q, bulklen q)
      else case strchr (rest q) (CHR 0x0D) of
        None \<Rightarrow>
          (if length (rest q) > PROTO_INLINE_MAX_SIZE
           then protocol_error (addReplyErrorLength ''Protocol error: too big bulk count string'') q else q, None)
      | Some nl \<Rightarrow>
          if int nl > int (length (rest q)) - 2 then (q, None)
          else if rest q ! 0 \<noteq> CHR ''$''
          then (protocol_error (addReplyErrorFormat (''Protocol error: expected '' @ [CHR 0x27, CHR ''$'', CHR 0x27] @
                  '', got '' @ [CHR 0x27, rest q ! 0, CHR 0x27])) q, None)
          else (case string2ll (take (nl - 1) (drop 1 (rest q))) of
                 None \<Rightarrow> (protocol_error (addReplyErrorLength ''Protocol error: invalid bulk length'') q, None)
               | Some ll \<Rightarrow>
                   if ll < 0 \<or> ll > proto_max_bulk_len cfg
                   then (protocol_error (addReplyErrorLength ''Protocol error: invalid bulk length'') q, None)
                   else let q1 = q\<lparr>qb_pos := qb_pos q + nl + 2\<rparr>;
                            q2 = (if ll \<ge> int PROTO_MBULK_BIG_ARG \<and> int (length (rest q1)) \<le> ll + 2
                                  then q1\<lparr>querybuf := rest q1, qb_pos := 0\<rparr> else q1)
                        in (q2\<lparr>bulklen := Some (nat ll)\<rparr>, Some (nat ll))))"

definition mb_read_bulk :: "query \<Rightarrow> nat \<Rightarrow> query \<times> bool" where
  "mb_read_bulk q n =
     (if length (rest q) < n + 2 then (q, False)
      else let q1 = (if qb_pos q = 0 \<and> n \<ge> PROTO_MBULK_BIG_ARG \<and> length (querybuf q) = n + 2
                     then q\<lparr>qargv := qargv q @ [take n (querybuf q)], querybuf := []\<rparr>
                     else q\<lparr>qargv := qargv q @ [take n (rest q)], qb_pos := qb_pos q + n + 2\<rparr>)
           in (q1\<lparr>bulklen := None, multibulklen := multibulklen q - 1\<rparr>, True))"

lemma mb_read_len_same: "mb_read_len cfg q = (q1, r) \<Longrightarrow> multibulklen q1 = multibulklen q"
  by (auto simp: mb_read_len_def protocol_error_def Let_def split: option.splits if_splits)

lemma mb_read_bulk_less:
  "mb_read_bulk q n = (q', True) \<Longrightarrow> multibulklen q' = multibulklen q - 1"
  by (auto simp: mb_read_bulk_def Let_def split: if_splits)

function mb_loop :: "proto_config \<Rightarrow> query \<Rightarrow> query \<times> bool" where
  "mb_loop cfg q =
     (if multibulklen q = 0 then (q, True)
      else case mb_read_len cfg q of
        (q1, None) \<Rightarrow> (q1, False)
      | (q1, Some n) \<Rightarrow>
          (case mb_read_bulk q1 n of
             (q2, False) \<Rightarrow> (q2, False)
           | (q2, True) \<Rightarrow> mb_loop cfg q2))"
  by pat_completeness auto
termination
  by (relation "measure (\<lambda>(_, q). multibulklen q)")
    (auto dest!: mb_read_len_same[OF sym] mb_read_bulk_less[OF sym])

declare mb_loop.simps [simp del]

definition processMultibulkBuffer :: "proto_config \<Rightarrow> query \<Rightarrow> (query \<times> bool) option" where
  "processMultibulkBuffer cfg q =
     do {
       r \<leftarrow> mb_start q;
       case r of Inl res \<Rightarrow> Some res | Inr q1 \<Rightarrow> Some (mb_loop cfg q1)
     }"

text \<open>
  The main loop. \<open>exec\<close> executes one command; its flag says that the client asked to be
  disconnected. Paused or blocked clients and threaded reads are not modelled.
\<close>

definition take_command :: "proto_config \<Rightarrow> query \<Rightarrow> (query \<times> bool) option" where
  "take_command cfg q =
     (let q1 = (if reqtype q = REQ_NONE
                then q\<lparr>reqtype := if rest q ! 0 = CHR ''*'' then PROTO_REQ_MULTIBULK else PROTO_REQ_INLINE\<rparr>
                else q)
      in if reqtype q1 = PROTO_REQ_INLINE then Some (processInlineBuffer q1) else processMultibulkBuffer cfg q1)"

definition trim :: "query \<Rightarrow> query" where
  "trim q = (if qb_pos q \<noteq> 0 then q\<lparr>querybuf := rest q, qb_pos := 0\<rparr> else q)"

lemma rest_reset [simp]:
  "rest (resetClient q) = rest q" "rest (q\<lparr>closing := b\<rparr>) = rest q" "rest (q\<lparr>reqtype := t\<rparr>) = rest q"
  "rest (trim q) = rest q"
  by (simp_all add: resetClient_def rest_def trim_def)

lemma strchr_bound: "strchr xs c = Some i \<Longrightarrow> i < length xs"
  by (induction xs arbitrary: i) (auto split: if_splits)

lemma mb_read_len_shorter: "mb_read_len cfg q = (q1, r) \<Longrightarrow> length (rest q1) \<le> length (rest q)"
  by (auto simp: mb_read_len_def protocol_error_def Let_def rest_def split: option.splits if_splits)

lemma mb_read_bulk_shorter: "mb_read_bulk q n = (q1, True) \<Longrightarrow> length (rest q1) < length (rest q)"
  by (auto simp: mb_read_bulk_def Let_def rest_def split: if_splits)

lemma mb_loop_shorter:
  "mb_loop cfg q = (q1, True) \<Longrightarrow> multibulklen q \<noteq> 0 \<longrightarrow> length (rest q1) < length (rest q)"
proof (induction cfg q rule: mb_loop.induct)
  case (1 cfg q)
  show ?case
  proof
    assume nz: "multibulklen q \<noteq> 0"
    then obtain qa n qb where s: "mb_read_len cfg q = (qa, Some n)" "mb_read_bulk qa n = (qb, True)"
      "mb_loop cfg qb = (q1, True)"
      using 1(2) by (subst (asm) mb_loop.simps) (auto split: prod.splits option.splits bool.splits)
    have "length (rest qb) < length (rest q)"
      using mb_read_len_shorter[OF s(1)] mb_read_bulk_shorter[OF s(2)] by simp
    moreover have "length (rest q1) \<le> length (rest qb)"
    proof (cases "multibulklen qb = 0")
      case True
      then show ?thesis using s(3) by (subst (asm) mb_loop.simps) simp
    next
      case False
      then show ?thesis using 1(1)[OF nz s(1)[symmetric] refl s(2)[symmetric] refl s(3)] by simp
    qed
    ultimately show "length (rest q1) < length (rest q)" by simp
  qed
qed

lemma inline_shorter:
  assumes "processInlineBuffer q = (q1, True)"
  shows "length (rest q1) < length (rest q)"
proof -
  obtain nl args where nl: "strchr (rest q) (CHR 0x0A) = Some nl"
    "q1 = q\<lparr>qb_pos := qb_pos q + nl + 1, qargv := args\<rparr>"
    using assms by (auto simp: processInlineBuffer_def Let_def split: option.splits)
  then show ?thesis using strchr_bound[OF nl(1)] by (simp add: rest_def)
qed

lemma mb_start_shorter:
  assumes "mb_start q = Some r"
  shows "case r of Inl (q1, b) \<Rightarrow> b \<longrightarrow> length (rest q1) < length (rest q)
    | Inr q1 \<Rightarrow> multibulklen q1 \<noteq> 0 \<and> length (rest q1) \<le> length (rest q)"
proof (cases "strchr (rest q) (CHR 0x0D)")
  case (Some nl)
  then show ?thesis using assms strchr_bound[OF Some]
    by (auto simp: mb_start_def Let_def rest_def split: option.splits if_splits)
qed (use assms in \<open>auto simp: mb_start_def split: if_splits\<close>)

lemma take_command_shorter:
  assumes "take_command cfg q = Some (q1, True)"
  shows "length (rest q1) < length (rest q)"
proof -
  obtain qa where qa: "rest qa = rest q"
    "processInlineBuffer qa = (q1, True) \<or> processMultibulkBuffer cfg qa = Some (q1, True)"
    using assms that[of q] that[of "q\<lparr>reqtype := PROTO_REQ_INLINE\<rparr>"]
      that[of "q\<lparr>reqtype := PROTO_REQ_MULTIBULK\<rparr>"]
    by (auto simp: take_command_def Let_def split: if_splits)
  from qa(2) show ?thesis
  proof
    assume "processInlineBuffer qa = (q1, True)"
    then show ?thesis using inline_shorter qa(1) by fastforce
  next
    assume "processMultibulkBuffer cfg qa = Some (q1, True)"
    then obtain r where r: "mb_start qa = Some r"
      "(case r of Inl res \<Rightarrow> res = (q1, True) | Inr qb \<Rightarrow> mb_loop cfg qb = (q1, True))"
      by (auto simp: processMultibulkBuffer_def split: bind_splits sum.splits)
    then show ?thesis using mb_start_shorter[OF r(1)] mb_loop_shorter qa(1)
      by (auto split: sum.splits) fastforce
  qed
qed

function process_loop ::
    "proto_config \<Rightarrow> ('s \<Rightarrow> sds list \<Rightarrow> ('s \<times> bool) option) \<Rightarrow> 's \<Rightarrow> query \<Rightarrow> ('s \<times> query) option" where
  "process_loop cfg exec s q =
     (if rest q = [] \<or> closing q then Some (s, q)
      else case take_command cfg q of
        None \<Rightarrow> None
      | Some (q1, False) \<Rightarrow> Some (s, q1)
      | Some (q1, True) \<Rightarrow>
          (if qargv q1 = [] then process_loop cfg exec s (resetClient q1)
           else case exec s (qargv q1) of
             None \<Rightarrow> None
           | Some (s1, quit) \<Rightarrow>
               process_loop cfg exec s1 (if quit then q1\<lparr>closing := True\<rparr> else resetClient q1)))"
  by pat_completeness auto
termination
  by (relation "measure (\<lambda>(_, _, _, q). length (rest q))")
    (auto simp: rest_reset dest!: take_command_shorter)

declare process_loop.simps [simp del]

definition processInputBuffer ::
    "proto_config \<Rightarrow> ('s \<Rightarrow> sds list \<Rightarrow> ('s \<times> bool) option) \<Rightarrow> 's \<Rightarrow> query \<Rightarrow> ('s \<times> query) option" where
  "processInputBuffer cfg exec s q = map_option (\<lambda>(s', q'). (s', trim q')) (process_loop cfg exec s q)"

text \<open>\<open>readQueryFromClient\<close> with the bytes that one \<open>read\<close> of the socket returned.\<close>

definition readQueryFromClient ::
    "proto_config \<Rightarrow> ('s \<Rightarrow> sds list \<Rightarrow> ('s \<times> bool) option) \<Rightarrow> 's \<times> query \<Rightarrow> sds \<Rightarrow> ('s \<times> query) option" where
  "readQueryFromClient cfg exec sq chunk =
     (let (s, q) = sq; q1 = q\<lparr>querybuf := querybuf q @ chunk\<rparr>
      in if length (querybuf q1) > client_max_querybuf_len cfg then Some (s, q1\<lparr>closing := True\<rparr>)
         else processInputBuffer cfg exec s q1)"

end
