(* ===== verification/ProtocolStream.thy ===== *)
theory ProtocolStream
  imports Protocol Delivery
begin

text \<open>
  What the two ends of a connection do together: the bytes that one server writes for a
  broadcast command, cut into pieces by the network in any way, are taken apart by the other
  server into exactly the commands that were sent.
\<close>

section \<open>The bytes of a command\<close>

definition encode_bulk :: "sds \<Rightarrow> sds" where
  "encode_bulk x = CHR ''$'' # print_d (int (length x)) @ crlf @ x @ crlf"

definition encode_command :: "sds list \<Rightarrow> sds" where
  "encode_command args = CHR ''*'' # print_d (int (length args)) @ crlf @ concat (map encode_bulk args)"

lemma length_dec_of_nat_le: "n < 10 ^ Suc k \<Longrightarrow> length (dec_of_nat n) \<le> Suc k"
proof (induction k arbitrary: n)
  case 0
  then show ?case by (simp add: dec_of_nat_small)
next
  case (Suc k)
  show ?case
  proof (cases "n < 10")
    case False
    have "n div 10 < 10 ^ Suc k" using Suc.prems by auto
    then have "length (dec_of_nat (n div 10)) \<le> Suc k" by (rule Suc.IH)
    with False show ?thesis by (simp add: dec_of_nat_split)
  qed (simp add: dec_of_nat_small)
qed

lemma length_print_d: "is_int64 n \<Longrightarrow> length (print_d n) \<le> 20"
proof -
  assume "is_int64 n"
  then have "nat \<bar>n\<bar> < 10 ^ Suc 18" by (auto simp: is_int64_def nat_less_iff)
  then show ?thesis using length_dec_of_nat_le[of "nat \<bar>n\<bar>" 18] by (cases "n < 0") (simp_all add: print_d_def)
qed

lemma prefix_line_correct:
  "is_int64 ll \<Longrightarrow> addReplyLongLongWithPrefix ll c = Some (c # print_d ll @ crlf)"
  using length_print_d[of ll] ll2string_text[of ll "replicate 127 (CHR 0x00)"]
  by (auto simp: addReplyLongLongWithPrefix_def shared_hdr_def)

lemma is_int64_nat: "int n < 2 ^ 63 \<Longrightarrow> is_int64 (int n)"
  by (simp add: is_int64_def)

lemma addReplyBulk_correct: "int (length x) < 2 ^ 63 \<Longrightarrow> addReplyBulk x = Some (encode_bulk x)"
  using prefix_line_correct[OF is_int64_nat, of "length x"]
  by (simp add: addReplyBulk_def addReplyBulkLen_def encode_bulk_def shared_hdr_def)

lemma broadcast_bulks_correct:
  "\<forall>x \<in> set args. int (length x) < 2 ^ 63 \<Longrightarrow> broadcast_bulks args = Some (concat (map encode_bulk args))"
  by (induction args) (simp_all add: addReplyBulk_correct)

lemma broadcast_bytes_eq:
  "int (length args) < 2 ^ 63 \<Longrightarrow> \<forall>x \<in> set args. int (length x) < 2 ^ 63 \<Longrightarrow>
   broadcast_bytes args = Some (encode_command args)"
  using prefix_line_correct[OF is_int64_nat, of "length args"]
  by (simp add: broadcast_bytes_def broadcast_bulks_correct addReplyArrayLen_def addReplyAggregateLen_def
      encode_command_def shared_hdr_def)

section \<open>Lines\<close>

definition plain :: "sds \<Rightarrow> bool" where
  "plain l \<longleftrightarrow> CHR 0x0D \<notin> set l \<and> CHR 0x00 \<notin> set l"

lemma plain_print_d [simp]: "plain (print_d n)"
  using print_d_chars[of "CHR 0x0D" n] print_d_chars[of "CHR 0x00" n] by (auto simp: plain_def isdigit_def)

lemma strchr_plain: "plain l \<Longrightarrow> strchr l (CHR 0x0D) = None"
  "plain l \<Longrightarrow> strchr (l @ CHR 0x0D # r) (CHR 0x0D) = Some (length l)"
  by (induction l) (auto simp: plain_def)

text \<open>How much of a line has arrived.\<close>

lemma line_cases:
  assumes "r @ u = l @ crlf @ x" "plain l"
  obtains (part) "strchr r (CHR 0x0D) = None" "length r \<le> length l" "u \<noteq> []"
  | (cr) "strchr r (CHR 0x0D) = Some (length l)" "length r = Suc (length l)" "u \<noteq> []"
  | (whole) r' where "strchr r (CHR 0x0D) = Some (length l)" "r = l @ crlf @ r'" "r' @ u = x"
proof (cases "length r \<le> length l")
  case True
  then have "r = take (length r) l" "u \<noteq> []" using assms(1) by (auto simp: append_eq_append_conv_if)
  moreover have "plain (take n l)" for n using assms(2) by (auto simp: plain_def dest: in_set_takeD)
  ultimately show ?thesis using part True strchr_plain(1) by metis
next
  case False
  then obtain r1 where r1: "r = l @ r1" "r1 \<noteq> []" "r1 @ u = crlf @ x"
    using assms(1) by (auto simp: append_eq_append_conv2)
  then obtain r2 where r2: "r1 = CHR 0x0D # r2" "r2 @ u = CHR 0x0A # x" by (cases r1) auto
  have s: "strchr r (CHR 0x0D) = Some (length l)" using strchr_plain(2)[OF assms(2)] r1 r2 by simp
  show ?thesis
  proof (cases r2)
    case Nil
    then show ?thesis using cr s r1 r2 by simp
  next
    case (Cons a r3)
    then show ?thesis using whole[of r3] s r1 r2 by simp
  qed
qed

section \<open>The state of a receiver\<close>

definition wire_ok :: "proto_config \<Rightarrow> sds list \<Rightarrow> bool" where
  "wire_ok cfg m \<longleftrightarrow> m \<noteq> [] \<and> length m \<le> 1024 * 1024 \<and>
     (\<forall>x \<in> set m. int (length x) \<le> proto_max_bulk_len cfg)"

definition cfg_ok :: "proto_config \<Rightarrow> bool" where
  "cfg_ok cfg \<longleftrightarrow> proto_max_bulk_len cfg < 2 ^ 63"

definition stream :: "sds list list \<Rightarrow> sds" where
  "stream ms = concat (map encode_command ms)"

text \<open>
  A receiver inside a command has read the arguments \<open>done\<close> and waits for \<open>todo\<close>; \<open>u\<close> are the
  bytes still under way, \<open>x\<close> the bytes that follow the command.
\<close>

definition inside :: "query \<Rightarrow> sds list \<Rightarrow> sds list \<Rightarrow> sds \<Rightarrow> sds \<Rightarrow> bool" where
  "inside q don todo u x \<longleftrightarrow>
     multibulklen q = length todo \<and> qargv q = don \<and>
     (bulklen q = None \<and> rest q @ u = concat (map encode_bulk todo) @ x \<or>
      (\<exists>a as. todo = a # as \<and> bulklen q = Some (length a) \<and>
         rest q @ u = a @ crlf @ concat (map encode_bulk as) @ x))"

text \<open>The fields that parsing one command does not touch.\<close>

definition same_rest :: "query \<Rightarrow> query \<Rightarrow> bool" where
  "same_rest q q1 \<longleftrightarrow> reqtype q1 = reqtype q \<and> errors q1 = errors q \<and> closing q1 = closing q"

lemma same_rest_refl [simp]: "same_rest q q"
  by (simp add: same_rest_def)

lemma same_rest_trans: "same_rest q q1 \<Longrightarrow> same_rest q1 q2 \<Longrightarrow> same_rest q q2"
  by (simp add: same_rest_def)

lemma mb_read_len_spec:
  assumes "cfg_ok cfg" "\<forall>x \<in> set todo. int (length x) \<le> proto_max_bulk_len cfg"
    "inside q don todo u x" "todo \<noteq> []"
  obtains (wait) "mb_read_len cfg q = (q, None)" "u \<noteq> []" "length (rest q) \<le> length (encode_bulk (hd todo))"
  | (go) q1 a as where "mb_read_len cfg q = (q1, Some (length a))" "todo = a # as"
      "inside q1 don todo u x" "bulklen q1 = Some (length a)" "same_rest q q1"
      "rest q1 @ u = a @ crlf @ concat (map encode_bulk as) @ x"
proof -
  obtain a as where t: "todo = a # as" using assms(4) by (cases todo) auto
  let ?n = "int (length a)" and ?y = "a @ crlf @ concat (map encode_bulk as) @ x"
  show ?thesis
  proof (cases "bulklen q")
    case (Some n)
    then have "n = length a" "rest q @ u = ?y" using assms(3) t by (auto simp: inside_def)
    then show ?thesis using go[of q a as] Some assms(3) t by (simp add: mb_read_len_def)
  next
    case None
    have i64: "is_int64 ?n" and max: "?n \<le> proto_max_bulk_len cfg"
      using assms(1,2) t by (auto simp: cfg_ok_def intro!: is_int64_nat)
    have eq: "rest q @ u = (CHR ''$'' # print_d ?n) @ crlf @ ?y"
      using assms(3) None t by (auto simp: inside_def encode_bulk_def)
    have pl: "plain (CHR ''$'' # print_d ?n)" using plain_print_d[of ?n] by (simp add: plain_def)
    from eq pl show ?thesis
    proof (cases rule: line_cases)
      case part
      then show ?thesis using wait None length_print_d[OF i64] t by (simp add: mb_read_len_def encode_bulk_def)
    next
      case cr
      then show ?thesis using wait None t by (simp add: mb_read_len_def encode_bulk_def)
    next
      case (whole r')
      define q1 where "q1 = q\<lparr>qb_pos := qb_pos q + length (CHR ''$'' # print_d ?n) + 2\<rparr>"
      define q2 where "q2 = (if ?n \<ge> int PROTO_MBULK_BIG_ARG \<and> int (length (rest q1)) \<le> ?n + 2
         then q1\<lparr>querybuf := rest q1, qb_pos := 0\<rparr> else q1)"
      have "rest q1 = drop (length (CHR ''$'' # print_d ?n) + 2) (rest q)"
        by (simp add: q1_def rest_def add.commute)
      then have r1: "rest q1 = r'" using whole(2) by simp
      then have r2: "rest q2 = r'" by (auto simp: q2_def rest_def)
      have "string2ll (print_d ?n) = Some ?n" using i64 by (simp add: string2ll_exact)
      then have "mb_read_len cfg q = (q2\<lparr>bulklen := Some (length a)\<rparr>, Some (length a))"
        using None whole(1,2) max by (simp add: mb_read_len_def q1_def q2_def Let_def)
      moreover have "rest (q2\<lparr>bulklen := Some (length a)\<rparr>) = r'" using r2 by (simp add: rest_def)
      moreover have "same_rest q q2" "multibulklen q2 = multibulklen q" "qargv q2 = qargv q"
        by (auto simp: same_rest_def q2_def q1_def)
      ultimately show ?thesis
        using go[of "q2\<lparr>bulklen := Some (length a)\<rparr>" a as] assms(3) t whole(3)
        by (simp add: inside_def same_rest_def)
    qed
  qed
qed

lemma append_longer:
  assumes "r @ u = l @ y" "length l \<le> length r"
  obtains r' where "r = l @ r'" "r' @ u = y"
  using assms by (auto simp: append_eq_append_conv2)

lemma mb_read_bulk_spec:
  assumes "inside q don (a # as) u x" "bulklen q = Some (length a)"
    "rest q @ u = a @ crlf @ concat (map encode_bulk as) @ x"
  obtains (wait) "mb_read_bulk q (length a) = (q, False)" "u \<noteq> []" "length (rest q) \<le> length (encode_bulk a)"
  | (go) q1 where "mb_read_bulk q (length a) = (q1, True)" "inside q1 (don @ [a]) as u x" "same_rest q q1"
      "bulklen q1 = None"
proof (cases "length (rest q) < length a + 2")
  case True
  then have "u \<noteq> []" using assms(3) by (cases u) auto
  then show ?thesis using wait True by (simp add: mb_read_bulk_def encode_bulk_def)
next
  case False
  let ?y = "concat (map encode_bulk as) @ x"
  obtain r' where r: "rest q = a @ crlf @ r'" "r' @ u = ?y"
    by (rule append_longer[of "rest q" u "a @ crlf" ?y]) (use False assms(3) in simp_all)
  define q1 where "q1 = (if qb_pos q = 0 \<and> length a \<ge> PROTO_MBULK_BIG_ARG \<and> length (querybuf q) = length a + 2
      then q\<lparr>qargv := qargv q @ [take (length a) (querybuf q)], querybuf := []\<rparr>
      else q\<lparr>qargv := qargv q @ [take (length a) (rest q)], qb_pos := qb_pos q + length a + 2\<rparr>)"
  have d: "drop (length a + 2) (rest q) = r'" "take (length a) (rest q) = a" "qargv q = don"
    using r assms(1) by (simp_all add: inside_def)
  have "rest q1 = r' \<and> qargv q1 = don @ [a]"
  proof (cases "qb_pos q = 0 \<and> length a \<ge> PROTO_MBULK_BIG_ARG \<and> length (querybuf q) = length a + 2")
    case True
    then have "rest q = querybuf q" by (simp add: rest_def)
    with True r(1) d show ?thesis by (simp add: q1_def rest_def)
  next
    case big: False
    then have q1: "q1 = q\<lparr>qargv := qargv q @ [take (length a) (rest q)], qb_pos := qb_pos q + length a + 2\<rparr>"
      unfolding q1_def by (rule if_not_P)
    have "rest q1 = drop (length a + 2) (rest q)"
      unfolding q1 by (simp add: rest_def add.commute add.left_commute)
    with d show ?thesis unfolding q1 by simp
  qed
  then have "rest q1 = r'" "qargv q1 = don @ [a]" by simp_all
  moreover have "mb_read_bulk q (length a) = (q1\<lparr>bulklen := None, multibulklen := multibulklen q - 1\<rparr>, True)"
    using False by (simp add: mb_read_bulk_def q1_def Let_def)
  moreover have "rest (q1\<lparr>bulklen := None, multibulklen := multibulklen q - 1\<rparr>) = rest q1" by (simp add: rest_def)
  moreover have "same_rest q q1" by (auto simp: same_rest_def q1_def)
  ultimately show ?thesis
    using go[of "q1\<lparr>bulklen := None, multibulklen := multibulklen q - 1\<rparr>"] assms(1) r(2)
    by (auto simp: inside_def same_rest_def)
qed

lemma mb_loop_spec:
  assumes "cfg_ok cfg" "\<forall>x \<in> set todo. int (length x) \<le> proto_max_bulk_len cfg" "inside q don todo u x"
  obtains (complete) q1 where "mb_loop cfg q = (q1, True)" "qargv q1 = don @ todo" "rest q1 @ u = x" "same_rest q q1"
  | (wait) q1 d t where "mb_loop cfg q = (q1, False)" "inside q1 d t u x" "d @ t = don @ todo" "t \<noteq> []"
      "same_rest q q1" "u \<noteq> []" "length (rest q1) \<le> length (concat (map encode_bulk t))"
  using assms
proof (induction todo arbitrary: q don thesis)
  case Nil
  then have "mb_loop cfg q = (q, True)" by (subst mb_loop.simps) (simp add: inside_def)
  then show ?case using Nil.prems(1)[of q] Nil.prems(5) by (simp add: inside_def)
next
  case (Cons a as)
  have nz: "multibulklen q \<noteq> 0" using Cons.prems(5) by (simp add: inside_def)
  have ne: "a # as \<noteq> []" by simp
  from Cons.prems(3,4,5) ne show ?case
  proof (cases rule: mb_read_len_spec)
    case wait
    then have "mb_loop cfg q = (q, False)" using nz wait(1) by (simp add: mb_loop.simps[of cfg q])
    then show ?thesis using Cons.prems(2)[of q don "a # as"] Cons.prems(5) wait(2,3) by simp
  next
    case (go q1 a' as')
    then have q1: "mb_read_len cfg q = (q1, Some (length a))" "inside q1 don (a # as) u x"
      "bulklen q1 = Some (length a)" "rest q1 @ u = a @ crlf @ concat (map encode_bulk as) @ x" by simp_all
    from q1(2,3,4) show ?thesis
    proof (cases rule: mb_read_bulk_spec)
      case wait
      then have "mb_loop cfg q = (q1, False)" using nz q1(1) wait(1) by (simp add: mb_loop.simps[of cfg q])
      then show ?thesis using Cons.prems(2)[of q1 don "a # as"] q1(2) go(5) wait(2,3) by simp
    next
      case step: (go q2)
      have eq: "mb_loop cfg q = mb_loop cfg q2" using nz q1(1) step(1) by (simp add: mb_loop.simps[of cfg q])
      have sr: "same_rest q q2" using same_rest_trans go(5) step(3) by blast
      have small: "\<forall>x \<in> set as. int (length x) \<le> proto_max_bulk_len cfg" using Cons.prems(4) by simp
      show ?thesis
      proof (rule Cons.IH[OF _ _ Cons.prems(3) small step(2)])
        fix q' assume "mb_loop cfg q2 = (q', True)" "qargv q' = (don @ [a]) @ as" "rest q' @ u = x" "same_rest q2 q'"
        then show ?thesis using Cons.prems(1)[of q'] eq same_rest_trans[OF sr] by simp
      next
        fix q' d t assume "mb_loop cfg q2 = (q', False)" "inside q' d t u x" "d @ t = (don @ [a]) @ as" "t \<noteq> []"
          "same_rest q2 q'" "u \<noteq> []" "length (rest q') \<le> length (concat (map encode_bulk t))"
        then show ?thesis using Cons.prems(2)[of q' d t] eq same_rest_trans[OF sr] by simp
      qed
    qed
  qed
qed

section \<open>Commands\<close>

text \<open>
  A receiver that waits for the commands \<open>P\<close>, of which the first may have arrived in part.
\<close>

definition idle :: "query \<Rightarrow> sds list list \<Rightarrow> sds \<Rightarrow> bool" where
  "idle q P u \<longleftrightarrow> multibulklen q = 0 \<and> bulklen q = None \<and> qargv q = [] \<and>
     (reqtype q = REQ_NONE \<or> reqtype q = PROTO_REQ_MULTIBULK \<and> P \<noteq> []) \<and> rest q @ u = stream P"

definition busy :: "query \<Rightarrow> sds list list \<Rightarrow> sds \<Rightarrow> bool" where
  "busy q P u \<longleftrightarrow> reqtype q = PROTO_REQ_MULTIBULK \<and>
     (\<exists>don todo ms. P = (don @ todo) # ms \<and> todo \<noteq> [] \<and> inside q don todo u (stream ms))"

definition waiting :: "query \<Rightarrow> sds list list \<Rightarrow> sds \<Rightarrow> bool" where
  "waiting q P u \<longleftrightarrow> \<not> closing q \<and> errors q = [] \<and> (idle q P u \<or> busy q P u)"

definition partial :: "query \<Rightarrow> sds list list \<Rightarrow> bool" where
  "partial q P \<longleftrightarrow> length (rest q) \<le> (case P of [] \<Rightarrow> 0 | m # _ \<Rightarrow> length (encode_command m))"

lemma stream_simps [simp]: "stream [] = []" "stream (m # ms) = encode_command m @ stream ms"
  by (simp_all add: stream_def)

lemma inside_pending: "inside q don todo u x \<Longrightarrow> todo \<noteq> [] \<Longrightarrow> rest q @ u \<noteq> []"
  by (cases todo) (auto simp: inside_def encode_bulk_def)

lemma wire_ok_lengths:
  "wire_ok cfg m \<Longrightarrow> \<forall>x \<in> set m. int (length x) \<le> proto_max_bulk_len cfg"
  by (simp add: wire_ok_def)

lemma mb_start_spec:
  assumes "wire_ok cfg m" "multibulklen q = 0" "bulklen q = None" "qargv q = []"
    "rest q @ u = encode_command m @ x"
  obtains (wait) "mb_start q = Some (Inl (q, False))" "u \<noteq> []" "length (rest q) \<le> length (encode_command m)"
  | (go) q1 where "mb_start q = Some (Inr q1)" "inside q1 [] m u x" "same_rest q q1"
proof -
  let ?n = "int (length m)"
  have n: "is_int64 ?n" "0 < ?n" "?n \<le> 1024 * 1024"
    using assms(1) by (auto simp: wire_ok_def is_int64_def)
  have eq: "rest q @ u = (CHR ''*'' # print_d ?n) @ crlf @ concat (map encode_bulk m) @ x"
    using assms(5) by (simp add: encode_command_def)
  have pl: "plain (CHR ''*'' # print_d ?n)" using plain_print_d[of ?n] by (simp add: plain_def)
  from eq pl show ?thesis
  proof (cases rule: line_cases)
    case part
    then show ?thesis using wait assms(2,4) length_print_d[OF n(1)] by (simp add: mb_start_def encode_command_def)
  next
    case cr
    then show ?thesis using wait assms(2,4) by (simp add: mb_start_def encode_command_def)
  next
    case (whole r')
    define q1 where "q1 = q\<lparr>qb_pos := qb_pos q + length (CHR ''*'' # print_d ?n) + 2, multibulklen := length m\<rparr>"
    have "rest q1 = drop (length (CHR ''*'' # print_d ?n) + 2) (rest q)"
      by (simp add: q1_def rest_def add.commute)
    then have r1: "rest q1 = r'" using whole(2) by simp
    have "string2ll (print_d ?n) = Some ?n" using n(1) by (simp add: string2ll_exact)
    then have "mb_start q = Some (Inr q1)"
      using whole(1,2) n assms(2,4) by (simp add: mb_start_def q1_def Let_def)
    moreover have "inside q1 [] m u x" using r1 whole(3) assms(3,4) by (simp add: inside_def q1_def)
    moreover have "same_rest q q1" by (simp add: same_rest_def q1_def)
    ultimately show ?thesis using go by blast
  qed
qed

text \<open>The loop of \<open>processMultibulkBuffer\<close>, seen from a receiver that waits for \<open>m\<close>.\<close>

lemma mb_loop_command:
  assumes "cfg_ok cfg" "wire_ok cfg m" "don @ todo = m" "inside q don todo u (stream ms)"
    "\<not> closing q" "errors q = []" "reqtype q = PROTO_REQ_MULTIBULK"
  obtains (complete) q1 where "mb_loop cfg q = (q1, True)" "qargv q1 = m" "rest q1 @ u = stream ms"
      "\<not> closing q1" "errors q1 = []"
  | (wait) q1 where "mb_loop cfg q = (q1, False)" "waiting q1 (m # ms) u" "partial q1 (m # ms)" "u \<noteq> []"
proof -
  have "\<forall>x \<in> set todo. int (length x) \<le> proto_max_bulk_len cfg"
    using wire_ok_lengths[OF assms(2)] assms(3) by auto
  from assms(1) this assms(4) show ?thesis
  proof (cases rule: mb_loop_spec)
    case c: (complete q1)
    then show ?thesis using complete[of q1] assms(3,5,6) by (simp add: same_rest_def)
  next
    case w: (wait q1 d t)
    have "waiting q1 (m # ms) u"
      using w(2-5) assms(3,5-7) by (auto simp: waiting_def busy_def same_rest_def)
    moreover have "partial q1 (m # ms)" using w(3,7) assms(3) by (auto simp: partial_def encode_command_def)
    ultimately show ?thesis using wait w(1,6) by blast
  qed
qed

lemma take_command_spec:
  assumes cfg: "cfg_ok cfg" and wire: "\<forall>m \<in> set P. wire_ok cfg m" and w: "waiting q P u" and ne: "rest q \<noteq> []"
  obtains (complete) q1 m ms where "take_command cfg q = Some (q1, True)" "P = m # ms" "qargv q1 = m"
      "rest q1 @ u = stream ms" "\<not> closing q1" "errors q1 = []"
  | (wait) q1 where "take_command cfg q = Some (q1, False)" "waiting q1 P u" "partial q1 P" "u \<noteq> []"
proof -
  obtain m ms where P: "P = m # ms" using w ne by (cases P) (auto simp: waiting_def idle_def busy_def)
  have m: "wire_ok cfg m" using wire P by simp
  from w consider (i) "idle q P u" | (b) "busy q P u" by (auto simp: waiting_def)
  then show ?thesis
  proof cases
    case i
    define q0 where "q0 = q\<lparr>reqtype := PROTO_REQ_MULTIBULK\<rparr>"
    have r0: "rest q0 = rest q" "reqtype q0 = PROTO_REQ_MULTIBULK" by (simp_all add: q0_def)
    have same: "q0 = q" if "reqtype q = PROTO_REQ_MULTIBULK" using that by (cases q) (simp add: q0_def)
    have "rest q ! 0 = CHR ''*''" using i ne P by (cases "rest q") (auto simp: idle_def encode_command_def)
    then have tc: "take_command cfg q = processMultibulkBuffer cfg q0"
      using i same r0(2) by (auto simp: take_command_def idle_def Let_def simp flip: q0_def)
    have st: "multibulklen q0 = 0" "bulklen q0 = None" "qargv q0 = []" "rest q0 @ u = encode_command m @ stream ms"
      using i P by (auto simp: idle_def r0) (simp_all add: q0_def)
    from m st show ?thesis
    proof (cases rule: mb_start_spec)
      case s: wait
      have "waiting q0 P u" using w i r0 P by (auto simp: waiting_def idle_def q0_def)
      moreover have "partial q0 P" using s(3) P by (simp add: partial_def)
      ultimately show ?thesis using wait s(1,2) tc by (simp add: processMultibulkBuffer_def)
    next
      case s: (go q1)
      have fl: "\<not> closing q1" "errors q1 = []" "reqtype q1 = PROTO_REQ_MULTIBULK"
        using s(3) w by (auto simp: same_rest_def waiting_def q0_def)
      have tc1: "take_command cfg q = Some (mb_loop cfg q1)" using tc s(1) by (simp add: processMultibulkBuffer_def)
      from cfg m _ s(2) fl show ?thesis
        by (cases rule: mb_loop_command) (use complete wait tc1 P in auto)
    qed
  next
    case b
    then obtain don todo where d: "don @ todo = m" "todo \<noteq> []" "inside q don todo u (stream ms)"
      "reqtype q = PROTO_REQ_MULTIBULK" using P by (auto simp: busy_def)
    then have "take_command cfg q = Some (mb_loop cfg q)"
      by (auto simp: take_command_def processMultibulkBuffer_def mb_start_def inside_def)
    moreover have "\<not> closing q" "errors q = []" using w by (auto simp: waiting_def)
    from cfg m d(1,3) this d(4) show ?thesis
      by (cases rule: mb_loop_command) (use complete wait calculation P in auto)
  qed
qed

text \<open>A command executor that never asks to close the connection.\<close>

definition executing :: "('s \<Rightarrow> sds list \<Rightarrow> 's option) \<Rightarrow> 's \<Rightarrow> sds list \<Rightarrow> ('s \<times> bool) option" where
  "executing eff s m = map_option (\<lambda>s'. (s', False)) (eff s m)"

lemma waiting_reset:
  "rest q @ u = stream ms \<Longrightarrow> \<not> closing q \<Longrightarrow> errors q = [] \<Longrightarrow> waiting (resetClient q) ms u"
  unfolding waiting_def idle_def rest_reset by (simp add: resetClient_def)

lemma waiting_end: "waiting q P [] \<Longrightarrow> rest q = [] \<Longrightarrow> P = []"
  using inside_pending[of q] by (cases P) (auto simp: waiting_def idle_def busy_def encode_command_def)

lemma process_loop_spec:
  assumes "cfg_ok cfg" "\<forall>m \<in> set P. wire_ok cfg m" "waiting q P u"
  shows "\<exists>k q'. process_loop cfg (executing eff) s q = map_option (\<lambda>s'. (s', q')) (run eff s (take k P)) \<and>
    waiting q' (drop k P) u \<and> partial q' (drop k P) \<and> (u = [] \<longrightarrow> drop k P = [])"
  using assms(2,3)
proof (induction P arbitrary: q s)
  case Nil
  then have "rest q = []" by (auto simp: waiting_def idle_def busy_def)
  then show ?case using Nil(2) by (auto simp: process_loop.simps[of cfg _ s q] partial_def)
next
  case (Cons m0 ms0)
  let ?P = "m0 # ms0"
  have open': "\<not> closing q" using Cons.prems(2) by (simp add: waiting_def)
  show ?case
  proof (cases "rest q = []")
    case True
    then have "process_loop cfg (executing eff) s q = Some (s, q)" by (simp add: process_loop.simps[of cfg _ s q])
    then show ?thesis using Cons.prems(2) True waiting_end[of q ?P] by (intro exI[of _ 0] exI[of _ q]) (auto simp: partial_def)
  next
    case False
    from assms(1) Cons.prems False show ?thesis
    proof (cases rule: take_command_spec)
      case (wait q1)
      then have "process_loop cfg (executing eff) s q = Some (s, q1)"
        using False open' by (simp add: process_loop.simps[of cfg _ s q])
      then show ?thesis using wait by (intro exI[of _ 0] exI[of _ q1]) simp
    next
      case (complete q1 m ms)
      then have m: "m = m0" "ms = ms0" "m \<noteq> []" using Cons.prems(1) by (auto simp: wire_ok_def)
      have step: "process_loop cfg (executing eff) s q =
          Option.bind (eff s m) (\<lambda>s1. process_loop cfg (executing eff) s1 (resetClient q1))"
        using False open' complete(1,3) m(3)
        by (simp add: process_loop.simps[of cfg _ s q] executing_def split: option.split bind_split)
      have w1: "waiting (resetClient q1) ms0 u" using waiting_reset complete(4-6) m by blast
      let ?s = "case eff s m of None \<Rightarrow> s | Some s1 \<Rightarrow> s1"
      obtain k q' where k: "process_loop cfg (executing eff) ?s (resetClient q1) =
            map_option (\<lambda>s'. (s', q')) (run eff ?s (take k ms0))"
          "waiting q' (drop k ms0) u" "partial q' (drop k ms0)" "u = [] \<longrightarrow> drop k ms0 = []"
        using Cons.IH[OF _ w1, of ?s] Cons.prems(1) by auto
      then show ?thesis using step m by (intro exI[of _ "Suc k"] exI[of _ q']) (auto split: option.splits)
    qed
  qed
qed

section \<open>Connections\<close>

lemma waiting_append:
  assumes "waiting q P (c @ u)" "qb_pos q = 0"
  shows "waiting (q\<lparr>querybuf := querybuf q @ c\<rparr>) P u"
proof -
  have "rest (q\<lparr>querybuf := querybuf q @ c\<rparr>) = rest q @ c" using assms(2) by (simp add: rest_def)
  then show ?thesis using assms(1) unfolding waiting_def idle_def busy_def inside_def by simp
qed

lemma waiting_trim: "waiting q P u \<Longrightarrow> waiting (trim q) P u"
  unfolding waiting_def idle_def busy_def inside_def rest_reset by (simp add: trim_def)

lemma qb_pos_trim [simp]: "qb_pos (trim q) = 0"
  by (simp add: trim_def)

lemma waiting_new: "waiting q [] [] \<Longrightarrow> qb_pos q = 0 \<Longrightarrow> q = new_query"
  by (cases q) (auto simp: waiting_def idle_def busy_def rest_def new_query_def)

text \<open>The bound on what the query buffer has to hold: one command and one read.\<close>

definition fits :: "proto_config \<Rightarrow> sds list list \<Rightarrow> sds \<Rightarrow> bool" where
  "fits cfg P c \<longleftrightarrow> (\<forall>m \<in> set P. length (encode_command m) + length c \<le> client_max_querybuf_len cfg)"

lemma read_spec:
  assumes "cfg_ok cfg" "\<forall>m \<in> set P. wire_ok cfg m" "waiting q P (c @ u)" "partial q P" "qb_pos q = 0" "fits cfg P c"
  shows "\<exists>k q'. readQueryFromClient cfg (executing eff) (s, q) c = map_option (\<lambda>s'. (s', q')) (run eff s (take k P)) \<and>
    waiting q' (drop k P) u \<and> partial q' (drop k P) \<and> qb_pos q' = 0 \<and> (u = [] \<longrightarrow> drop k P = [])"
proof -
  let ?q = "q\<lparr>querybuf := querybuf q @ c\<rparr>"
  have "length (querybuf ?q) \<le> client_max_querybuf_len cfg"
  proof (cases P)
    case Nil
    then have "c = []" "rest q = []" using assms(3) by (auto simp: waiting_def idle_def busy_def)
    then show ?thesis using assms(5) by (simp add: rest_def)
  next
    case (Cons m ms)
    then show ?thesis using assms(4-6) by (auto simp: partial_def fits_def rest_def)
  qed
  then have eq: "readQueryFromClient cfg (executing eff) (s, q) c =
      map_option (\<lambda>(s', q'). (s', trim q')) (process_loop cfg (executing eff) s ?q)"
    by (simp add: readQueryFromClient_def processInputBuffer_def)
  obtain k q' where k: "process_loop cfg (executing eff) s ?q = map_option (\<lambda>s'. (s', q')) (run eff s (take k P))"
    "waiting q' (drop k P) u" "partial q' (drop k P)" "u = [] \<longrightarrow> drop k P = []"
    using process_loop_spec[OF assms(1,2) waiting_append[OF assms(3,5)], of eff s] by blast
  have "partial (trim q') (drop k P)" using k(3) by (simp add: partial_def)
  then show ?thesis using eq k(1,4) waiting_trim[OF k(2)]
    by (intro exI[of _ k] exI[of _ "trim q'"]) (simp add: option.map_comp comp_def)
qed

lemma feed_spec:
  assumes "cfg_ok cfg" "\<forall>m \<in> set P. wire_ok cfg m" "\<forall>c \<in> set chunks. fits cfg P c" "waiting q P (concat chunks)"
    "partial q P" "qb_pos q = 0" "concat chunks = [] \<longrightarrow> P = []"
  shows "run (readQueryFromClient cfg (executing eff)) (s, q) chunks =
    map_option (\<lambda>s'. (s', new_query)) (run eff s P)"
  using assms(2-7)
proof (induction chunks arbitrary: P q s)
  case Nil
  then show ?case using waiting_new[of q] by simp
next
  case (Cons c chunks)
  then have w: "waiting q P (c @ concat chunks)" "fits cfg P c" by simp_all
  obtain k q' where k: "readQueryFromClient cfg (executing eff) (s, q) c = map_option (\<lambda>s'. (s', q')) (run eff s (take k P))"
    "waiting q' (drop k P) (concat chunks)" "partial q' (drop k P)" "qb_pos q' = 0"
    "concat chunks = [] \<longrightarrow> drop k P = []"
    using read_spec[OF assms(1) Cons.prems(1) w(1) Cons.prems(4,5) w(2), of eff s] by blast
  have "\<forall>m \<in> set (drop k P). wire_ok cfg m" "\<forall>c \<in> set chunks. fits cfg (drop k P) c"
    using Cons.prems(1,2) by (auto simp: fits_def dest: in_set_dropD)
  then have "run (readQueryFromClient cfg (executing eff)) (s', q') chunks =
      map_option (\<lambda>s'. (s', new_query)) (run eff s' (drop k P))" for s'
    using Cons.IH k(2-5) by blast
  then show ?case using k(1) run_append[of eff s "take k P" "drop k P"] by (cases "run eff s (take k P)") simp_all
qed

lemma waiting_start: "waiting new_query ms (stream ms) \<and> partial new_query ms"
  by (simp add: waiting_def idle_def new_query_def rest_def partial_def split: list.split)

lemma framing_stream:
  assumes "cfg_ok cfg" "\<forall>m \<in> set ms. wire_ok cfg m" "\<forall>c \<in> set chunks. fits cfg ms c" "concat chunks = stream ms"
  shows "run (readQueryFromClient cfg (executing eff)) (s, new_query) chunks =
    map_option (\<lambda>s'. (s', new_query)) (run eff s ms)"
proof -
  have "stream ms = [] \<longrightarrow> ms = []" by (cases ms) (simp_all add: stream_def encode_command_def)
  moreover have "qb_pos new_query = 0" by (simp add: new_query_def)
  ultimately show ?thesis using assms(4) waiting_start feed_spec[OF assms(1-3)] by metis
qed

text \<open>
  C10 (framing): however the network cuts the bytes of broadcast commands into reads, the
  receiver executes exactly the commands that were sent, in order, and ends ready for the next
  command, with no protocol error. The commands must respect the limits of the configuration.
\<close>

theorem framing_roundtrip:
  assumes "cfg_ok cfg" "\<forall>m \<in> set ms. wire_ok cfg m" "\<forall>c \<in> set chunks. fits cfg ms c"
    "those (map broadcast_bytes ms) = Some bs" "concat chunks = concat bs"
  shows "run (readQueryFromClient cfg (executing eff)) (s, new_query) chunks =
    map_option (\<lambda>s'. (s', new_query)) (run eff s ms)"
proof -
  have "broadcast_bytes m = Some (encode_command m)" if "m \<in> set ms" for m
    using that assms(1,2) by (intro broadcast_bytes_eq) (force simp: wire_ok_def cfg_ok_def)+
  then have m: "map broadcast_bytes ms = map (Some \<circ> encode_command) ms" by simp
  have those: "those (map (Some \<circ> f) xs) = Some (map f xs)" for f :: "sds list \<Rightarrow> sds" and xs
    by (induction xs) simp_all
  have "concat chunks = stream ms" using assms(4,5) unfolding m those by (simp add: stream_def)
  then show ?thesis by (rule framing_stream[OF assms(1-3)])
qed

text \<open>The default limits, and a command that arrives in two pieces.\<close>

definition default_proto :: proto_config where
  "default_proto = \<lparr>proto_max_bulk_len = 536870912, client_max_querybuf_len = 1073741824\<rparr>"

lemma sample_bytes:
  "broadcast_bytes [''osrem'', ''k''] =
     Some (''*2'' @ crlf @ ''$5'' @ crlf @ ''osrem'' @ crlf @ ''$1'' @ crlf @ ''k'' @ crlf)"
  by (subst broadcast_bytes_eq) (simp_all add: encode_command_def encode_bulk_def text_eval)

theorem framing_roundtrip_witness:
  "run (readQueryFromClient default_proto (executing (\<lambda>s m. Some (s @ [m])))) ([], new_query)
     [''*2'' @ crlf @ ''$5'' @ crlf @ ''os'', ''rem'' @ crlf @ ''$1'' @ crlf @ ''k'' @ crlf] =
   Some ([[''osrem'', ''k'']], new_query)"
proof -
  let ?chunks = "[''*2'' @ crlf @ ''$5'' @ crlf @ ''os'', ''rem'' @ crlf @ ''$1'' @ crlf @ ''k'' @ crlf]"
  have "run (readQueryFromClient default_proto (executing (\<lambda>s m. Some (s @ [m])))) ([], new_query) ?chunks =
      map_option (\<lambda>s'. (s', new_query)) (run (\<lambda>s m. Some (s @ [m])) [] [[''osrem'', ''k'']])"
  proof (rule framing_roundtrip)
    show "those (map broadcast_bytes [[''osrem'', ''k'']]) = Some [concat ?chunks]"
      by (simp add: sample_bytes)
  qed (simp_all add: cfg_ok_def wire_ok_def fits_def default_proto_def encode_command_def encode_bulk_def text_eval)
  then show ?thesis by simp
qed

end
