(* ===== verification/Cluster.thy ===== *)
theory Cluster
  imports CommandTable ProtocolStream
begin

text \<open>
  A cluster of replicas: servers that execute commands of users, write what they broadcast to
  the connections of the other replicas, and read the bytes of these connections in pieces. The step
  relation composes the command table, the protocol and the handlers of a replicated type.
\<close>

section \<open>Steps\<close>

text \<open>
  \<open>cl_link c i j\<close> are the bytes under way from replica \<open>i\<close> to replica \<open>j\<close>, \<open>cl_conn c i j\<close> is the query
  buffer of \<open>j\<close> for this connection.
\<close>

record 'v cluster =
  cl_node :: "nat \<Rightarrow> 'v server"
  cl_link :: "nat \<Rightarrow> nat \<Rightarrow> sds"
  cl_conn :: "nat \<Rightarrow> nat \<Rightarrow> query"

abbreviation (input) PROTO_IOBUF_LEN :: nat where
  "PROTO_IOBUF_LEN \<equiv> 16384"

text \<open>The position of replica \<open>j\<close> in the list \<open>server.replicas\<close> of replica \<open>i\<close>.\<close>

definition peer_index :: "nat \<Rightarrow> nat \<Rightarrow> nat" where
  "peer_index i j = (if j < i then j else j - 1)"

text \<open>The bytes of the handshake and of the replies that a broadcast consists of.\<close>

definition reply_bytes :: "reply \<Rightarrow> sds option" where
  "reply_bytes r = (case r of ReplyArrayLen n \<Rightarrow> addReplyArrayLen (int n) | ReplyBulk x \<Rightarrow> addReplyBulk x
     | ReplyReplhandshake \<Rightarrow> Some replhandshake | _ \<Rightarrow> None)"

fun out_bytes :: "reply list \<Rightarrow> sds option" where
  "out_bytes [] = Some []"
| "out_bytes (r # rs) = do { b \<leftarrow> reply_bytes r; bs \<leftarrow> out_bytes rs; Some (b @ bs) }"

text \<open>A command from another replica.\<close>

definition replica_exec :: "'v handlers \<Rightarrow> 'v server \<Rightarrow> sds list \<Rightarrow> 'v server option" where
  "replica_exec h s m = map_option fst (processCommand h s (replica_client m))"

text \<open>A broadcast command that respects the limits of the receivers.\<close>

definition sendable :: "proto_config \<Rightarrow> sds list \<Rightarrow> bool" where
  "sendable cfg m \<longleftrightarrow> wire_ok cfg m \<and> length (encode_command m) + PROTO_IOBUF_LEN \<le> client_max_querybuf_len cfg"

definition set_node :: "nat \<Rightarrow> 'v server \<Rightarrow> 'v cluster \<Rightarrow> 'v cluster" where
  "set_node i s c = c\<lparr>cl_node := (cl_node c)(i := s)\<rparr>"

definition set_link :: "nat \<Rightarrow> nat \<Rightarrow> sds \<Rightarrow> 'v cluster \<Rightarrow> 'v cluster" where
  "set_link i j bs c = c\<lparr>cl_link := (cl_link c)(i := (cl_link c i)(j := bs))\<rparr>"

definition set_conn :: "nat \<Rightarrow> nat \<Rightarrow> query \<Rightarrow> 'v cluster \<Rightarrow> 'v cluster" where
  "set_conn i j q c = c\<lparr>cl_conn := (cl_conn c)(i := (cl_conn c i)(j := q))\<rparr>"

text \<open>
  A user command, a write of the pending output of one connection, and a read of at most
  \<open>PROTO_IOBUF_LEN\<close> bytes.
\<close>

inductive cluster_step ::
    "nat \<Rightarrow> proto_config \<Rightarrow> 'v handlers \<Rightarrow> ('v server \<Rightarrow> sds list \<Rightarrow> bool) \<Rightarrow> 'v cluster \<Rightarrow> 'v cluster \<Rightarrow> bool"
  for n cfg h user_ok where
  user: "i < n \<Longrightarrow> user_ok (cl_node c i) args \<Longrightarrow>
    processCommand h (cl_node c i) (user_client args) = Some (s', cl) \<Longrightarrow>
    (\<forall>m. rargv cl = Some m \<longrightarrow> sendable cfg m) \<Longrightarrow>
    cluster_step n cfg h user_ok c (set_node i s' c)"
| flush: "i < n \<Longrightarrow> j < n \<Longrightarrow> i \<noteq> j \<Longrightarrow> out_bytes (replicas (cl_node c i) ! peer_index i j) = Some bs \<Longrightarrow>
    cluster_step n cfg h user_ok c
      (set_link i j (cl_link c i j @ bs)
        (set_node i ((cl_node c i)\<lparr>replicas := (replicas (cl_node c i))[peer_index i j := []]\<rparr>) c))"
| receive: "i < n \<Longrightarrow> j < n \<Longrightarrow> i \<noteq> j \<Longrightarrow> cl_link c i j = bs @ u \<Longrightarrow> length bs \<le> PROTO_IOBUF_LEN \<Longrightarrow>
    readQueryFromClient cfg (executing (replica_exec h)) (cl_node c j, cl_conn c i j) bs = Some (s', q') \<Longrightarrow>
    cluster_step n cfg h user_ok c (set_conn i j q' (set_link i j u (set_node j s' c)))"

inductive_cases cluster_stepE: "cluster_step n cfg h user_ok c c'"

definition cluster_start :: "nat \<Rightarrow> 'v cluster \<Rightarrow> bool" where
  "cluster_start n c \<longleftrightarrow> (\<forall>i < n. replicas (cl_node c i) = replicate (n - 1) []) \<and>
     (\<forall>i < n. \<forall>j < n. i \<noteq> j \<longrightarrow> cl_link c i j = [] \<and> cl_conn c i j = new_query)"

definition cluster_quiet :: "nat \<Rightarrow> 'v cluster \<Rightarrow> bool" where
  "cluster_quiet n c \<longleftrightarrow> (\<forall>i < n. \<forall>j < n. i \<noteq> j \<longrightarrow>
     cl_link c i j = [] \<and> replicas (cl_node c i) ! peer_index i j = [])"

abbreviation (input) cluster_run ::
    "nat \<Rightarrow> proto_config \<Rightarrow> 'v handlers \<Rightarrow> ('v server \<Rightarrow> sds list \<Rightarrow> bool) \<Rightarrow> 'v cluster \<Rightarrow> 'v cluster \<Rightarrow> bool" where
  "cluster_run n cfg h user_ok \<equiv> (cluster_step n cfg h user_ok)\<^sup>*\<^sup>*"

lemma set_simps [simp]:
  "cl_node (set_node i s c) = (cl_node c)(i := s)" "cl_link (set_node i s c) = cl_link c"
  "cl_conn (set_node i s c) = cl_conn c" "cl_node (set_link i j bs c) = cl_node c"
  "cl_link (set_link i j bs c) = (cl_link c)(i := (cl_link c i)(j := bs))" "cl_conn (set_link i j bs c) = cl_conn c"
  "cl_node (set_conn i j q c) = cl_node c" "cl_link (set_conn i j q c) = cl_link c"
  "cl_conn (set_conn i j q c) = (cl_conn c)(i := (cl_conn c i)(j := q))"
  by (simp_all add: set_node_def set_link_def set_conn_def)

section \<open>The bytes of a broadcast\<close>

definition msg_tokens :: "sds list \<Rightarrow> reply list" where
  "msg_tokens m = ReplyArrayLen (length m) # map ReplyBulk m"

lemma broadcast_tokens: "replicationBroadcast rs m = map (\<lambda>out. out @ msg_tokens m) rs"
  by (simp add: replicationBroadcast_def msg_tokens_def)

lemma out_bytes_append: "out_bytes (rs @ ts) = do { a \<leftarrow> out_bytes rs; b \<leftarrow> out_bytes ts; Some (a @ b) }"
  by (induction rs) (simp_all add: bind_assoc)

lemma out_bytes_tokens: "out_bytes (msg_tokens m) = broadcast_bytes m"
proof -
  have "out_bytes (map ReplyBulk xs) = broadcast_bulks xs" for xs by (induction xs) (simp_all add: reply_bytes_def)
  then show ?thesis by (simp add: msg_tokens_def broadcast_bytes_def reply_bytes_def)
qed

lemma out_bytes_stream:
  assumes "cfg_ok cfg" "\<forall>m \<in> set ms. wire_ok cfg m"
  shows "out_bytes (concat (map msg_tokens ms)) = Some (stream ms)"
  using assms(2)
proof (induction ms)
  case (Cons m ms)
  have "broadcast_bytes m = Some (encode_command m)"
    using Cons.prems assms(1) by (intro broadcast_bytes_eq) (force simp: wire_ok_def cfg_ok_def)+
  then show ?case using Cons by (simp add: out_bytes_append out_bytes_tokens)
qed simp

lemma waiting_extend:
  assumes "waiting q P u"
  shows "waiting q (P @ B) (u @ stream B)"
proof -
  have s: "stream (ms @ B) = stream ms @ stream B" for ms by (simp add: stream_def)
  have "busy q (P @ B) (u @ stream B)" if b: "busy q P u"
  proof -
    obtain don todo ms where d: "reqtype q = PROTO_REQ_MULTIBULK" "P = (don @ todo) # ms" "todo \<noteq> []"
      "inside q don todo u (stream ms)" using b by (auto simp: busy_def)
    have "inside q don todo (u @ stream B) (stream (ms @ B))" using d(4) by (auto simp: inside_def s)
    then show ?thesis using d by (auto simp: busy_def)
  qed
  then show ?thesis using assms by (auto simp: waiting_def idle_def s)
qed

lemma partial_extend: "waiting q P u \<Longrightarrow> partial q P \<Longrightarrow> partial q (P @ B)"
  by (cases P) (auto simp: partial_def waiting_def idle_def busy_def split: list.splits)

lemma peer_index_less: "i < n \<Longrightarrow> j < n \<Longrightarrow> i \<noteq> j \<Longrightarrow> peer_index i j < n - 1"
  by (auto simp: peer_index_def)

lemma peer_index_inj: "i \<noteq> j \<Longrightarrow> i \<noteq> k \<Longrightarrow> peer_index i j = peer_index i k \<longleftrightarrow> j = k"
  by (auto simp: peer_index_def)

section \<open>Connections\<close>

text \<open>
  A connection, seen from both ends: of the commands \<open>I\<close> that the sender has broadcast, \<open>R\<close> have been
  executed by the receiver, the others are on the wire or in the output buffer \<open>out\<close>.
\<close>

definition chan :: "sds list list \<Rightarrow> sds list list \<Rightarrow> query \<Rightarrow> sds \<Rightarrow> reply list \<Rightarrow> bool" where
  "chan I R q l out \<longleftrightarrow> (\<exists>P B. I = R @ P @ B \<and> waiting q P l \<and> partial q P \<and> qb_pos q = 0 \<and> (l = [] \<longrightarrow> P = []) \<and>
     out = concat (map msg_tokens B))"

lemma chan_new: "chan [] [] new_query [] []"
  unfolding chan_def using waiting_start[of "[]"] by (intro exI[of _ "[]"]) (simp add: new_query_def)

lemma chan_broadcast: "chan I R q l out \<Longrightarrow> chan (I @ [m]) R q l (out @ msg_tokens m)"
  unfolding chan_def by (elim exE conjE, rule_tac x = P in exI, rule_tac x = "B @ [m]" in exI) simp

lemma chan_flush:
  assumes ch: "chan I R q l out" and cfg: "cfg_ok cfg" and ok: "\<forall>m \<in> set I. sendable cfg m"
  shows "\<exists>bs. out_bytes out = Some bs \<and> chan I R q (l @ bs) []"
proof -
  obtain P B where p: "I = R @ P @ B" "waiting q P l" "partial q P" "qb_pos q = 0" "l = [] \<longrightarrow> P = []"
    "out = concat (map msg_tokens B)" using ch by (auto simp: chan_def)
  have "out_bytes out = Some (stream B)"
    unfolding p(6) by (rule out_bytes_stream[OF cfg]) (use ok p(1) in \<open>auto simp: sendable_def\<close>)
  moreover have "stream B = [] \<longrightarrow> B = []" by (cases B) (simp_all add: encode_command_def)
  then have "chan I R q (l @ stream B) []" unfolding chan_def
    using p waiting_extend[OF p(2), of B] partial_extend[OF p(2,3), of B]
    by (intro exI[of _ "P @ B"] exI[of _ "[]"]) simp
  ultimately show ?thesis by blast
qed

lemma chan_read:
  assumes ch: "chan I R q (bs @ u) out" and cfg: "cfg_ok cfg" and ok: "\<forall>m \<in> set I. sendable cfg m"
    and len: "length bs \<le> PROTO_IOBUF_LEN"
  shows "\<exists>ms q'. readQueryFromClient cfg (executing eff) (s, q) bs = map_option (\<lambda>s'. (s', q')) (run eff s ms) \<and>
    set ms \<subseteq> set I \<and> chan I (R @ ms) q' u out"
proof -
  obtain P B where p: "I = R @ P @ B" "waiting q P (bs @ u)" "partial q P" "qb_pos q = 0"
    "out = concat (map msg_tokens B)" using ch by (auto simp: chan_def)
  have P: "sendable cfg m" if "m \<in> set P" for m using ok p(1) that by simp
  have "length (encode_command m) + length bs \<le> client_max_querybuf_len cfg" if "m \<in> set P" for m
    using P[OF that] len unfolding sendable_def by linarith
  then have w: "\<forall>m \<in> set P. wire_ok cfg m" "fits cfg P bs" using P by (auto simp: fits_def sendable_def)
  obtain k q' where k: "readQueryFromClient cfg (executing eff) (s, q) bs = map_option (\<lambda>s'. (s', q')) (run eff s (take k P))"
    "waiting q' (drop k P) u" "partial q' (drop k P)" "qb_pos q' = 0" "u = [] \<longrightarrow> drop k P = []"
    using read_spec[OF cfg w(1) p(2,3,4) w(2), of eff s] by blast
  have "I = (R @ take k P) @ drop k P @ B" using p(1) append_take_drop_id[of k P] by (metis append.assoc)
  then have "chan I (R @ take k P) q' u out" unfolding chan_def using k p(5) by blast
  then show ?thesis using k(1) p(1) set_take_subset[of k P] by (intro exI[of _ "take k P"] exI[of _ q']) auto
qed

lemma chan_end: "chan I R q [] [] \<Longrightarrow> R = I"
  by (auto simp: chan_def msg_tokens_def)

text \<open>The connections with unsent output, and the number of bytes that have not been read.\<close>

definition unsent :: "nat \<Rightarrow> 'v cluster \<Rightarrow> (nat \<times> nat) set" where
  "unsent n c = {(i, j). i < n \<and> j < n \<and> i \<noteq> j \<and> replicas (cl_node c i) ! peer_index i j \<noteq> []}"

definition unread :: "nat \<Rightarrow> 'v cluster \<Rightarrow> nat" where
  "unread n c = (\<Sum>p \<in> {..<n} \<times> {..<n}. length (cl_link c (fst p) (snd p)))"

section \<open>Replicated types\<close>

text \<open>
  The contract of a replicated type: \<open>hist H s\<close> says that \<open>s\<close> is the result of the commands \<open>H\<close>; a valid
  command of another replica extends the history, a user command is refused or extends it by what is
  broadcast, and servers with the same commands in their histories agree.
\<close>

locale replicated_type =
  fixes h :: "'v handlers" and user_ok :: "'v server \<Rightarrow> sds list \<Rightarrow> bool" and ok :: "sds list \<Rightarrow> bool"
    and hist :: "sds list list \<Rightarrow> 'v server \<Rightarrow> bool" and agree :: "'v server \<Rightarrow> 'v server \<Rightarrow> bool"
  assumes hist_output: "length r = length (replicas s) \<Longrightarrow> hist H (s\<lparr>replicas := r\<rparr>) = hist H s"
    and exec_law: "hist H s \<Longrightarrow> ok m \<Longrightarrow>
      \<exists>s'. replica_exec h s m = Some s' \<and> hist (H @ [m]) s' \<and> replicas s' = replicas s"
    and user_law: "hist H s \<Longrightarrow> user_ok s args \<Longrightarrow> processCommand h s (user_client args) = Some (s', cl) \<Longrightarrow>
      (case rargv cl of
         None \<Rightarrow> hist H s' \<and> replicas s' = replicas s
       | Some m \<Rightarrow> ok m \<and> hist (H @ [m]) s' \<and> replicas s' = replicationBroadcast (replicas s) m)"
    and agree_law: "hist H s \<Longrightarrow> hist G t \<Longrightarrow> mset H = mset G \<Longrightarrow> agree s t"
begin

lemma run_exec:
  "hist H s \<Longrightarrow> \<forall>m \<in> set ms. ok m \<Longrightarrow>
    \<exists>s'. run (replica_exec h) s ms = Some s' \<and> hist (H @ ms) s' \<and> replicas s' = replicas s"
proof (induction ms arbitrary: H s)
  case (Cons m ms)
  obtain s1 where s1: "replica_exec h s m = Some s1" "hist (H @ [m]) s1" "replicas s1 = replicas s"
    using exec_law[OF Cons.prems(1), of m] Cons.prems(2) by auto
  then show ?case using Cons.IH[OF s1(2)] Cons.prems(2) by auto
qed simp

text \<open>
  \<open>I i\<close> are the commands that replica \<open>i\<close> has broadcast, \<open>R i j\<close> those of them that \<open>j\<close> has executed.
\<close>

definition applied :: "nat \<Rightarrow> (nat \<Rightarrow> sds list list) \<Rightarrow> (nat \<Rightarrow> nat \<Rightarrow> sds list list) \<Rightarrow> nat \<Rightarrow> sds list multiset" where
  "applied n I R i = (\<Sum>j < n. mset (if j = i then I i else R j i))"

definition cinv ::
    "nat \<Rightarrow> proto_config \<Rightarrow> (nat \<Rightarrow> sds list list) \<Rightarrow> (nat \<Rightarrow> nat \<Rightarrow> sds list list) \<Rightarrow> 'v cluster \<Rightarrow> bool" where
  "cinv n cfg I R c \<longleftrightarrow>
     (\<forall>i < n. (\<exists>H. hist H (cl_node c i) \<and> mset H = applied n I R i) \<and> length (replicas (cl_node c i)) = n - 1 \<and>
        (\<forall>m \<in> set (I i). ok m \<and> sendable cfg m)) \<and>
     (\<forall>i < n. \<forall>j < n. i \<noteq> j \<longrightarrow>
        chan (I i) (R i j) (cl_conn c i j) (cl_link c i j) (replicas (cl_node c i) ! peer_index i j))"

lemma cinvI:
  assumes "\<And>i. i < n \<Longrightarrow> \<exists>H. hist H (cl_node c i) \<and> mset H = applied n I R i"
    "\<And>i. i < n \<Longrightarrow> length (replicas (cl_node c i)) = n - 1" "\<And>i m. i < n \<Longrightarrow> m \<in> set (I i) \<Longrightarrow> ok m \<and> sendable cfg m"
    "\<And>i j. i < n \<Longrightarrow> j < n \<Longrightarrow> i \<noteq> j \<Longrightarrow>
      chan (I i) (R i j) (cl_conn c i j) (cl_link c i j) (replicas (cl_node c i) ! peer_index i j)"
  shows "cinv n cfg I R c"
  using assms unfolding cinv_def by blast

lemma cinvD:
  assumes "cinv n cfg I R c" "i < n"
  shows "\<exists>H. hist H (cl_node c i) \<and> mset H = applied n I R i" "length (replicas (cl_node c i)) = n - 1"
    "m \<in> set (I i) \<Longrightarrow> ok m \<and> sendable cfg m"
    "j < n \<Longrightarrow> i \<noteq> j \<Longrightarrow>
      chan (I i) (R i j) (cl_conn c i j) (cl_link c i j) (replicas (cl_node c i) ! peer_index i j)"
  using assms unfolding cinv_def by blast+

lemma applied_own:
  "i < n \<Longrightarrow> applied n (I(i := I i @ [m])) R k = applied n I R k + (if k = i then {#m#} else {#})"
proof (cases "k = i")
  case True
  assume "i < n"
  then have "applied n (I(i := I i @ [m])) R i =
      (\<Sum>j < n. mset (if j = i then I i else R j i) + (if j = i then {#m#} else {#}))"
    unfolding applied_def by (intro sum.cong) auto
  then show ?thesis using \<open>i < n\<close> True by (simp add: sum.distrib applied_def)
qed (auto simp: applied_def intro!: sum.cong)

lemma applied_recv:
  "i < n \<Longrightarrow> i \<noteq> j \<Longrightarrow> applied n I (R(i := (R i)(j := R i j @ ms))) k = applied n I R k + (if k = j then mset ms else {#})"
proof (cases "k = j")
  case True
  assume a: "i < n" "i \<noteq> j"
  then have "applied n I (R(i := (R i)(j := R i j @ ms))) j =
      (\<Sum>l < n. mset (if l = j then I j else R l j) + (if l = i then mset ms else {#}))"
    unfolding applied_def by (intro sum.cong) auto
  then show ?thesis using a True by (simp add: sum.distrib applied_def)
qed (auto simp: applied_def intro!: sum.cong)

text \<open>Every step is possible without a fault and keeps the invariant.\<close>

lemma user_step:
  assumes inv: "cinv n cfg I R c" and i: "i < n" and u: "user_ok (cl_node c i) args"
    and p: "processCommand h (cl_node c i) (user_client args) = Some (s', cl)" and snd: "\<forall>m. rargv cl = Some m \<longrightarrow> sendable cfg m"
  shows "\<exists>I'. cinv n cfg I' R (set_node i s' c)"
proof -
  obtain H where H: "hist H (cl_node c i)" "mset H = applied n I R i" using cinvD(1)[OF inv i] by blast
  have L: "case rargv cl of None \<Rightarrow> hist H s' \<and> replicas s' = replicas (cl_node c i)
      | Some m \<Rightarrow> ok m \<and> hist (H @ [m]) s' \<and> replicas s' = replicationBroadcast (replicas (cl_node c i)) m"
    by (rule user_law[OF H(1) u p])
  show ?thesis
  proof (cases "rargv cl")
    case None
    then have "cinv n cfg I R (set_node i s' c)" using L inv H by (auto simp: cinv_def)
    then show ?thesis by blast
  next
    case (Some m)
    then have m: "ok m" "sendable cfg m" "hist (H @ [m]) s'" "replicas s' = map (\<lambda>out. out @ msg_tokens m) (replicas (cl_node c i))"
      using L snd by (simp_all add: broadcast_tokens)
    have "cinv n cfg (I(i := I i @ [m])) R (set_node i s' c)"
    proof (rule cinvI)
      show "\<exists>H. hist H (cl_node (set_node i s' c) k) \<and> mset H = applied n (I(i := I i @ [m])) R k" if "k < n" for k
        using cinvD(1)[OF inv that] m(3) H(2) by (cases "k = i") (auto simp: applied_own[OF i] intro!: exI[of _ "H @ [m]"])
      show "length (replicas (cl_node (set_node i s' c) k)) = n - 1" if "k < n" for k
        using cinvD(2)[OF inv that] m(4) by (cases "k = i") auto
      show "ok x \<and> sendable cfg x" if "k < n" "x \<in> set ((I(i := I i @ [m])) k)" for k x
        using cinvD(3)[OF inv that(1), of x] that(2) m(1,2) by (auto split: if_splits)
      show "chan ((I(i := I i @ [m])) k) (R k j) (cl_conn (set_node i s' c) k j) (cl_link (set_node i s' c) k j)
          (replicas (cl_node (set_node i s' c) k) ! peer_index k j)" if kj: "k < n" "j < n" "k \<noteq> j" for k j
        using cinvD(4)[OF inv kj] chan_broadcast[of "I i" "R i j" _ _ _ m] m(4) cinvD(2)[OF inv kj(1)] peer_index_less[OF kj] by auto
    qed
    then show ?thesis by blast
  qed
qed

lemma flush_step:
  assumes inv: "cinv n cfg I R c" and ij: "i < n" "j < n" "i \<noteq> j" and cfg: "cfg_ok cfg"
  shows "\<exists>bs. out_bytes (replicas (cl_node c i) ! peer_index i j) = Some bs \<and> cinv n cfg I R
      (set_link i j (cl_link c i j @ bs)
        (set_node i ((cl_node c i)\<lparr>replicas := (replicas (cl_node c i))[peer_index i j := []]\<rparr>) c))"
proof -
  have I: "\<forall>m \<in> set (I i). sendable cfg m" using cinvD(3)[OF inv ij(1)] by blast
  obtain bs where bs: "out_bytes (replicas (cl_node c i) ! peer_index i j) = Some bs"
    "chan (I i) (R i j) (cl_conn c i j) (cl_link c i j @ bs) []"
    using chan_flush[OF cinvD(4)[OF inv ij] cfg I] by blast
  let ?c = "set_link i j (cl_link c i j @ bs)
        (set_node i ((cl_node c i)\<lparr>replicas := (replicas (cl_node c i))[peer_index i j := []]\<rparr>) c)"
  have "cinv n cfg I R ?c"
  proof (rule cinvI)
    show "\<exists>H. hist H (cl_node ?c k) \<and> mset H = applied n I R k" if "k < n" for k
      using cinvD(1)[OF inv that] by (cases "k = i") (simp_all add: hist_output)
    show "length (replicas (cl_node ?c k)) = n - 1" if "k < n" for k using cinvD(2)[OF inv that] by (cases "k = i") auto
    show "ok m \<and> sendable cfg m" if "k < n" "m \<in> set (I k)" for k m using cinvD(3)[OF inv that] .
    show "chan (I k) (R k l) (cl_conn ?c k l) (cl_link ?c k l) (replicas (cl_node ?c k) ! peer_index k l)"
      if kl: "k < n" "l < n" "k \<noteq> l" for k l
    proof (cases "k = i")
      case True
      then show ?thesis using cinvD(4)[OF inv kl] bs(2) cinvD(2)[OF inv ij(1)] peer_index_less[OF ij] peer_index_inj[of i j l] ij kl
        by (cases "l = j") auto
    next
      case False
      then show ?thesis using cinvD(4)[OF inv kl] by auto
    qed
  qed
  then show ?thesis using bs(1) by blast
qed

lemma receive_step:
  assumes inv: "cinv n cfg I R c" and ij: "i < n" "j < n" "i \<noteq> j" and cfg: "cfg_ok cfg"
    and l: "cl_link c i j = bs @ u" "length bs \<le> PROTO_IOBUF_LEN"
  shows "\<exists>s' q' R'. readQueryFromClient cfg (executing (replica_exec h)) (cl_node c j, cl_conn c i j) bs = Some (s', q') \<and>
    replicas s' = replicas (cl_node c j) \<and> cinv n cfg I R' (set_conn i j q' (set_link i j u (set_node j s' c)))"
proof -
  have I: "\<forall>m \<in> set (I i). sendable cfg m" using cinvD(3)[OF inv ij(1)] by blast
  obtain H where H: "hist H (cl_node c j)" "mset H = applied n I R j" using cinvD(1)[OF inv ij(2)] by blast
  obtain ms q' where r: "readQueryFromClient cfg (executing (replica_exec h)) (cl_node c j, cl_conn c i j) bs =
      map_option (\<lambda>s'. (s', q')) (run (replica_exec h) (cl_node c j) ms)" "set ms \<subseteq> set (I i)"
    "chan (I i) (R i j @ ms) q' u (replicas (cl_node c i) ! peer_index i j)"
    using chan_read[OF cinvD(4)[OF inv ij, unfolded l(1)] cfg I l(2), of "replica_exec h" "cl_node c j"] by blast
  have "\<forall>m \<in> set ms. ok m" using r(2) cinvD(3)[OF inv ij(1)] by blast
  then obtain s' where s': "run (replica_exec h) (cl_node c j) ms = Some s'" "hist (H @ ms) s'" "replicas s' = replicas (cl_node c j)"
    using run_exec[OF H(1)] by blast
  let ?c = "set_conn i j q' (set_link i j u (set_node j s' c))" and ?R = "R(i := (R i)(j := R i j @ ms))"
  have "cinv n cfg I ?R ?c"
  proof (rule cinvI)
    show "\<exists>H. hist H (cl_node ?c k) \<and> mset H = applied n I ?R k" if "k < n" for k
      using cinvD(1)[OF inv that] s'(2) H(2) by (cases "k = j") (auto simp: applied_recv[OF ij(1,3)] intro!: exI[of _ "H @ ms"])
    show "length (replicas (cl_node ?c k)) = n - 1" if "k < n" for k using cinvD(2)[OF inv that] s'(3) by (cases "k = j") auto
    show "ok m \<and> sendable cfg m" if "k < n" "m \<in> set (I k)" for k m using cinvD(3)[OF inv that] .
    show "chan (I k) (?R k l) (cl_conn ?c k l) (cl_link ?c k l) (replicas (cl_node ?c k) ! peer_index k l)"
      if kl: "k < n" "l < n" "k \<noteq> l" for k l
      using cinvD(4)[OF inv kl] r(3) s'(3) ij by (cases "k = i \<and> l = j") auto
  qed
  then show ?thesis using r(1) s'(1,3) by auto
qed

lemma step_inv:
  assumes "cluster_step n cfg h user_ok c c'" "cinv n cfg I R c" "cfg_ok cfg"
  shows "\<exists>I' R'. cinv n cfg I' R' c'"
  using assms(1)
proof cases
  case (user i args s' cl)
  then show ?thesis using user_step[OF assms(2) user(2,3,4)] by blast
next
  case (flush i j bs)
  then show ?thesis using flush_step[OF assms(2) flush(2,3,4) assms(3)] by auto
next
  case (receive i j bs u s' q')
  then show ?thesis using receive_step[OF assms(2) receive(2,3,4) assms(3) receive(5,6)] by auto
qed

lemma run_inv:
  assumes "cluster_run n cfg h user_ok c c'" "cinv n cfg I R c" "cfg_ok cfg"
  shows "\<exists>I' R'. cinv n cfg I' R' c'"
  using assms
proof (induction rule: rtranclp_induct)
  case (step c1 c2)
  then show ?case using step_inv by blast
qed auto

lemma start_inv:
  assumes "cluster_start n c" "\<And>i. i < n \<Longrightarrow> hist [] (cl_node c i)"
  shows "cinv n cfg (\<lambda>_. []) (\<lambda>_ _. []) c"
  using assms chan_new peer_index_less[of _ n]
  by (intro cinvI) (auto simp: cluster_start_def applied_def)

lemma quiet_agree:
  assumes inv: "cinv n cfg I R c" and q: "cluster_quiet n c" and ij: "i < n" "j < n"
  shows "agree (cl_node c i) (cl_node c j)"
proof -
  have R: "R k l = I k" if "k < n" "l < n" "k \<noteq> l" for k l
    using cinvD(4)[OF inv that] q that chan_end by (auto simp: cluster_quiet_def)
  have "applied n I R k = (\<Sum>l < n. mset (I l))" if "k < n" for k
    unfolding applied_def using R that by (intro sum.cong) auto
  then show ?thesis using cinvD(1)[OF inv ij(1)] cinvD(1)[OF inv ij(2)] agree_law ij by metis
qed

text \<open>
  Without further commands of users the cluster becomes quiet: output is written, and every byte on
  a connection is read.
\<close>

lemma drain_one:
  assumes inv: "cinv n cfg I R c" and cfg: "cfg_ok cfg" and nq: "\<not> cluster_quiet n c"
  shows "\<exists>c' I' R'. cluster_step n cfg h user_ok c c' \<and> cinv n cfg I' R' c' \<and>
    (unsent n c' \<subset> unsent n c \<or> unsent n c' = unsent n c \<and> unread n c' < unread n c)"
proof (cases "unsent n c = {}")
  case False
  then obtain i j where ij: "i < n" "j < n" "i \<noteq> j" "replicas (cl_node c i) ! peer_index i j \<noteq> []" by (auto simp: unsent_def)
  obtain bs where bs: "out_bytes (replicas (cl_node c i) ! peer_index i j) = Some bs" "cinv n cfg I R
      (set_link i j (cl_link c i j @ bs)
        (set_node i ((cl_node c i)\<lparr>replicas := (replicas (cl_node c i))[peer_index i j := []]\<rparr>) c))" (is "cinv n cfg I R ?c")
    using flush_step[OF inv ij(1-3) cfg] by blast
  have len: "peer_index i j < length (replicas (cl_node c i))" using cinvD(2)[OF inv ij(1)] peer_index_less[OF ij(1-3)] by simp
  have "unsent n ?c \<subset> unsent n c"
  proof
    show "unsent n ?c \<subseteq> unsent n c" using len by (auto simp: unsent_def nth_list_update split: if_splits)
    have "(i, j) \<in> unsent n c" "(i, j) \<notin> unsent n ?c" using ij len by (simp_all add: unsent_def)
    then show "unsent n ?c \<noteq> unsent n c" by blast
  qed
  then show ?thesis using cluster_step.flush[where h = h and user_ok = user_ok and cfg = cfg, OF ij(1-3) bs(1)] bs(2) by blast
next
  case True
  then obtain i j where ij: "i < n" "j < n" "i \<noteq> j" "cl_link c i j \<noteq> []"
    using nq by (auto simp: unsent_def cluster_quiet_def)
  then obtain b u where l: "cl_link c i j = [b] @ u" by (cases "cl_link c i j") auto
  have "length [b] \<le> PROTO_IOBUF_LEN" by simp
  then obtain s' q' R' where r: "readQueryFromClient cfg (executing (replica_exec h)) (cl_node c j, cl_conn c i j) [b] = Some (s', q')"
    "replicas s' = replicas (cl_node c j)" "cinv n cfg I R' (set_conn i j q' (set_link i j u (set_node j s' c)))" (is "cinv n cfg I R' ?c")
    using receive_step[OF inv ij(1-3) cfg l] by blast
  have "unsent n ?c = unsent n c" using r(2) by (auto simp: unsent_def split: if_splits)
  moreover have "unread n ?c < unread n c"
    unfolding unread_def
  proof (rule sum_strict_mono_ex1)
    show "\<exists>p \<in> {..<n} \<times> {..<n}. length (cl_link ?c (fst p) (snd p)) < length (cl_link c (fst p) (snd p))"
      using ij l by (intro bexI[of _ "(i, j)"]) simp_all
  qed (use l in auto)
  moreover have "cluster_step n cfg h user_ok c ?c"
    by (rule cluster_step.receive[OF ij(1-3) l _ r(1)]) simp
  ultimately show ?thesis using r(3) by blast
qed

lemma drain:
  assumes "cinv n cfg I R c" "cfg_ok cfg"
  shows "\<exists>c'. cluster_run n cfg h user_ok c c' \<and> cluster_quiet n c'"
  using assms(1)
proof (induction "(card (unsent n c), unread n c)" arbitrary: c I R rule: wf_induct_rule[OF wf_lex_prod[OF wf_less wf_less]])
  case (1 c)
  show ?case
  proof (cases "cluster_quiet n c")
    case False
    obtain c1 I1 R1 where c1: "cluster_step n cfg h user_ok c c1" "cinv n cfg I1 R1 c1"
      "unsent n c1 \<subset> unsent n c \<or> unsent n c1 = unsent n c \<and> unread n c1 < unread n c"
      using drain_one[OF 1(2) assms(2) False] by blast
    have "finite (unsent n c)" by (rule finite_subset[of _ "{..<n} \<times> {..<n}"]) (auto simp: unsent_def)
    then have "((card (unsent n c1), unread n c1), (card (unsent n c), unread n c)) \<in> {(x, y). x < y} <*lex*> {(x, y). x < y}"
      using c1(3) psubset_card_mono by auto
    then obtain c' where "cluster_run n cfg h user_ok c1 c'" "cluster_quiet n c'" using 1(1)[OF _ c1(2)] by blast
    then show ?thesis using c1(1) by (meson converse_rtranclp_into_rtranclp)
  qed auto
qed

text \<open>What holds of every cluster that was started with empty histories.\<close>

lemma reachable:
  assumes "cluster_start n c" "\<forall>i < n. hist [] (cl_node c i)" "cfg_ok cfg" "cluster_run n cfg h user_ok c c'"
  obtains I R where "cinv n cfg I R c'"
  using run_inv[OF assms(4) start_inv[OF assms(1)] assms(3)] assms(2) by blast

lemma reachable_hist:
  assumes "cluster_start n c" "\<forall>i < n. hist [] (cl_node c i)" "cfg_ok cfg" "cluster_run n cfg h user_ok c c'" "i < n"
  obtains H where "hist H (cl_node c' i)"
proof -
  obtain I R where "cinv n cfg I R c'" using reachable[OF assms(1-4)] .
  from cinvD(1)[OF this assms(5)] show ?thesis using that by blast
qed

lemma reachable_agree:
  assumes "cluster_start n c" "\<forall>i < n. hist [] (cl_node c i)" "cfg_ok cfg" "cluster_run n cfg h user_ok c c'"
    "cluster_quiet n c'" "i < n" "j < n"
  shows "agree (cl_node c' i) (cl_node c' j)"
proof -
  obtain I R where "cinv n cfg I R c'" using reachable[OF assms(1-4)] .
  then show ?thesis by (rule quiet_agree) (rule assms)+
qed

lemma reachable_drain:
  assumes "cluster_start n c" "\<forall>i < n. hist [] (cl_node c i)" "cfg_ok cfg" "cluster_run n cfg h user_ok c c'"
  shows "\<exists>c''. cluster_run n cfg h user_ok c' c'' \<and> cluster_quiet n c'' \<and>
    (\<forall>i < n. \<forall>j < n. agree (cl_node c'' i) (cl_node c'' j))"
proof -
  obtain I R where "cinv n cfg I R c'" using reachable[OF assms(1-4)] .
  then obtain c'' where c'': "cluster_run n cfg h user_ok c' c''" "cluster_quiet n c''" using drain[OF _ assms(3)] by blast
  have "cluster_run n cfg h user_ok c c''" using assms(4) c''(1) by (rule rtranclp_trans)
  from reachable_agree[OF assms(1-3) this c''(2)] show ?thesis using c'' by blast
qed

end

text \<open>A type whose user commands never fault. Then no read faults or closes a connection, and no command of a user faults.\<close>

locale total_type = replicated_type +
  assumes user_total: "hist H s \<Longrightarrow> user_ok s args \<Longrightarrow> processCommand h s (user_client args) \<noteq> None"
begin

lemma reachable_safe:
  assumes "cluster_start n c" "\<forall>i < n. hist [] (cl_node c i)" "cfg_ok cfg" "cluster_run n cfg h user_ok c c'" "i < n" "j < n"
  shows "user_ok (cl_node c' i) args \<Longrightarrow> processCommand h (cl_node c' i) (user_client args) \<noteq> None"
    and "i \<noteq> j \<Longrightarrow> cl_link c' i j = bs @ u \<Longrightarrow> length bs \<le> PROTO_IOBUF_LEN \<Longrightarrow>
      \<exists>s' q'. readQueryFromClient cfg (executing (replica_exec h)) (cl_node c' j, cl_conn c' i j) bs = Some (s', q') \<and>
        \<not> closing q' \<and> errors q' = []"
proof -
  obtain I R where inv: "cinv n cfg I R c'" using reachable[OF assms(1-4)] .
  show "processCommand h (cl_node c' i) (user_client args) \<noteq> None" if "user_ok (cl_node c' i) args"
    using cinvD(1)[OF inv assms(5)] user_total[OF _ that] by blast
  show "\<exists>s' q'. readQueryFromClient cfg (executing (replica_exec h)) (cl_node c' j, cl_conn c' i j) bs = Some (s', q') \<and>
        \<not> closing q' \<and> errors q' = []"
    if l: "i \<noteq> j" "cl_link c' i j = bs @ u" "length bs \<le> PROTO_IOBUF_LEN"
  proof -
    obtain s' q' R' where r: "readQueryFromClient cfg (executing (replica_exec h)) (cl_node c' j, cl_conn c' i j) bs = Some (s', q')"
      "cinv n cfg I R' (set_conn i j q' (set_link i j u (set_node j s' c')))"
      using receive_step[OF inv assms(5,6) l(1) assms(3) l(2,3)] by blast
    have "chan (I i) (R' i j) q' u (replicas (cl_node (set_conn i j q' (set_link i j u (set_node j s' c'))) i) ! peer_index i j)"
      using cinvD(4)[OF r(2) assms(5,6) l(1)] by simp
    then show ?thesis using r(1) by (auto simp: chan_def waiting_def)
  qed
qed

end

end
