(* ===== verification/P2P.thy ===== *)
theory P2P
  imports Cluster
begin

text \<open>
  Peer to peer replication (p2p.c): \<open>replicate\<close> tells a server its place among the replicas and
  makes it connect to peers, each established connection becomes a replica client that sends a
  handshake, and the peer that receives the handshake enters the sender into its own list of
  replicas. \<open>repltest\<close> is the variant for test clients.
\<close>

section \<open>The code\<close>

text \<open>
  The server with the static variable \<open>exp_local\<close>, the parts of the configuration that p2p.c
  reads, and the connections that are being established. \<open>connect\<close> stands for the outcome of
  \<open>connConnect\<close>, which depends on the network: source address, address and port.
\<close>

record 'v p2p =
  srv :: "'v server"
  exp_local :: bool
  cluster_enabled :: bool
  bindaddr :: "sds option"
  connecting :: "(sds \<times> int) list"

type_synonym connector = "sds option \<Rightarrow> sds \<Rightarrow> int \<Rightarrow> bool"

definition listAddReplica :: "reply list \<Rightarrow> 'v p2p \<Rightarrow> 'v p2p" where
  "listAddReplica out p = p\<lparr>srv := (srv p)\<lparr>replicas := replicas (srv p) @ [out]\<rparr>\<rparr>"

text \<open>
  The handler that is called when a connection attempt has ended. The handshake is the first thing sent on the
  connection. The handler does not look at the state of the connection: after a failed attempt the client
  is entered into the list of replicas as well.
\<close>

datatype conn_state = CONN_STATE_CONNECTED | CONN_STATE_ERROR

definition replicationHandler :: "conn_state \<Rightarrow> 'v p2p \<Rightarrow> 'v p2p" where
  "replicationHandler st p = listAddReplica [ReplyReplhandshake] p"

definition connectWithReplica :: "connector \<Rightarrow> 'v p2p \<Rightarrow> sds \<Rightarrow> int \<Rightarrow> 'v p2p \<times> bool" where
  "connectWithReplica connect p ip port =
     (if connect (if exp_local p then Some ip else bindaddr p) ip port
      then (p\<lparr>connecting := connecting p @ [(ip, port)]\<rparr>, True) else (p, False))"

text \<open>
  \<open>getLongFromObjectOrReply\<close> leaves its variable uninitialised on an error, and the callers go on
  to read it.
\<close>

definition getLongFromObject :: "sds \<Rightarrow> int option" where
  "getLongFromObject x = getLongLongFromObject x"

definition set_place :: "sds \<Rightarrow> sds \<Rightarrow> 'v p2p \<Rightarrow> 'v p2p option" where
  "set_place sz i p =
     do {
       size \<leftarrow> getLongFromObject sz;
       id \<leftarrow> getLongFromObject i;
       Some (p\<lparr>srv := (srv p)\<lparr>p2p_count := int32 size, p2p_id := int32 id\<rparr>\<rparr>)
     }"

definition repltestCommand :: "'v p2p \<Rightarrow> client \<Rightarrow> ('v p2p \<times> client) option" where
  "repltestCommand p c =
     (if cluster_enabled p then Some (p, addReply c (ReplyError ''SLAVEOF not allowed in cluster mode.''))
      else
        let c1 = c\<lparr>is_replica := True\<rparr>
        in if length (argv c) = 1 then
             let c2 = addReply (c1\<lparr>is_replica_message := True\<rparr>) ReplyOk
             in Some (listAddReplica (replies c2) p, c2\<lparr>is_replica_message := False\<rparr>)
           else if length (argv c) = 3 then
             do {
               p1 \<leftarrow> set_place (argv c ! 1) (argv c ! 2) p;
               Some (p1, addReply (c1\<lparr>is_replica_message := True\<rparr>) ReplyOk)
             }
           else Some (p, c1))"

fun connect_peers :: "connector \<Rightarrow> 'v p2p \<Rightarrow> sds list \<Rightarrow> ('v p2p \<times> bool) option" where
  "connect_peers connect p [] = Some (p, True)"
| "connect_peers connect p [ip] = None"
| "connect_peers connect p (ip # port # args) =
     do {
       n \<leftarrow> getLongFromObject port;
       case connectWithReplica connect p ip (int32 n) of
         (p1, True) \<Rightarrow> connect_peers connect p1 args
       | (p1, False) \<Rightarrow> Some (p1, False)
     }"

definition replicateCommand :: "connector \<Rightarrow> 'v p2p \<Rightarrow> client \<Rightarrow> ('v p2p \<times> client) option" where
  "replicateCommand connect p c =
     (if cluster_enabled p then Some (p, addReply c (ReplyError ''REPLICATE not allowed in cluster mode.''))
      else do {
        a1 \<leftarrow> arg (argv c) 1;
        a2 \<leftarrow> arg (argv c) 2;
        if strcaseeq a1 ''replica'' \<and> strcaseeq a2 ''handshake''
        then let c1 = c\<lparr>is_replica := True\<rparr> in Some (listAddReplica (replies c1) p, c1)
        else do {
          p1 \<leftarrow> set_place a1 a2 p;
          let p2 = (if length (argv c) > 3 \<and> strcaseeq (argv c ! 3) ''exp_local''
                    then p1\<lparr>exp_local := True\<rparr> else p1);
          (p3, ok) \<leftarrow> connect_peers connect p2 (drop (3 + (if exp_local p2 then 1 else 0)) (argv c));
          Some (p3, addReply c (if ok then ReplyOk
                                else ReplyRaw (''-Something wrong connecting replicas.'' @ crlf)))
        }
      })"

text \<open>
  A command that arrives on a connection of the server, whose client is a replica or not. Only the commands of
  this file change that.
\<close>

definition conn_exec :: "connector \<Rightarrow> 'v handlers \<Rightarrow> 'v p2p \<times> bool \<Rightarrow> sds list \<Rightarrow> ('v p2p \<times> bool) option" where
  "conn_exec connect h = (\<lambda>(p, r) args.
     let c = (if r then replica_client args else user_client args)
     in if dispatch args = Some (Inr ReplicateCommand) then map_option (\<lambda>(p', c'). (p', is_replica c')) (replicateCommand connect p c)
        else if dispatch args = Some (Inr RepltestCommand) then map_option (\<lambda>(p', c'). (p', is_replica c')) (repltestCommand p c)
        else map_option (\<lambda>(s', c'). (p\<lparr>srv := s'\<rparr>, r)) (processCommand h (srv p) c))"

section \<open>Links\<close>

definition peer_args :: "(sds \<times> int) list \<Rightarrow> sds list" where
  "peer_args ps = concat (map (\<lambda>(ip, port). [ip, print_d port]) ps)"

definition reachable :: "connector \<Rightarrow> 'v p2p \<Rightarrow> (sds \<times> int) list \<Rightarrow> bool" where
  "reachable connect p ps \<longleftrightarrow>
     (\<forall>(ip, port) \<in> set ps. is_int32 port \<and> connect (if exp_local p then Some ip else bindaddr p) ip port)"

lemma int32_int64: "is_int32 x \<Longrightarrow> is_int64 x"
  by (simp add: is_int32_def is_int64_def)

lemma getLong_print: "is_int32 n \<Longrightarrow> getLongFromObject (print_d n) = Some n"
  by (simp add: getLongFromObject_def getLongLongFromObject_def string2ll_exact int32_int64)

lemma connect_peers_ok:
  "reachable connect p ps \<Longrightarrow>
   connect_peers connect p (peer_args ps) = Some (p\<lparr>connecting := connecting p @ ps\<rparr>, True)"
proof (induction ps arbitrary: p)
  case (Cons x ps)
  obtain ip port where x: "x = (ip, port)" by fastforce
  let ?p = "p\<lparr>connecting := connecting p @ [(ip, port)]\<rparr>"
  have r: "is_int32 port" "connect (if exp_local p then Some ip else bindaddr p) ip port" "reachable connect ?p ps"
    using Cons.prems x by (simp_all add: reachable_def cong del: if_weak_cong)
  then show ?case using Cons.IH[OF r(3)] x by (simp add: peer_args_def getLong_print connectWithReplica_def)
qed (simp add: peer_args_def)

text \<open>The attempts that \<open>replicate\<close> started end one after the other, each connected or failed.\<close>

fun establish :: "conn_state list \<Rightarrow> 'v p2p \<Rightarrow> 'v p2p" where
  "establish [] p = p"
| "establish (st # sts) p = establish sts (replicationHandler st (p\<lparr>connecting := tl (connecting p)\<rparr>))"

lemma establish_replicas:
  "replicas (srv (establish sts p)) = replicas (srv p) @ replicate (length sts) [ReplyReplhandshake]"
  by (induction sts arbitrary: p) (simp_all add: replicationHandler_def listAddReplica_def)

lemma strcaseeq_digits: "\<not> strcaseeq (print_d n) (CHR ''r'' # lit)"
proof
  assume eq: "strcaseeq (print_d n) (CHR ''r'' # lit)"
  obtain c t where c: "print_d n = c # t" by (cases "print_d n") simp_all
  then have "isdigit c \<or> c = CHR ''-''" using print_d_chars[of c n] by simp
  then have "c \<noteq> CHR 0x00" "tolower c \<noteq> CHR ''r''" by (auto simp: isdigit_def tolower_def Let_def)
  with eq c show False by (simp add: strcaseeq_def c_text_def)
qed

text \<open>
  C33 (configuration of a replica): \<open>replicate n i\<close> with reachable peers records the number of
  replicas and the identity of this one, switches the server to replication mode and answers OK;
  once the connection attempts have ended, with success or not, there is one replica per peer, each starting
  with the handshake.
\<close>

theorem replicate_configures:
  assumes "\<not> cluster_enabled p" "\<not> exp_local p" "is_int32 n" "is_int32 i" "n \<noteq> 0" "reachable connect p ps"
    "connecting p = []" "\<not> is_replica c" "argv c = [name, print_d n, print_d i] @ peer_args ps"
    "ps \<noteq> [] \<longrightarrow> \<not> strcaseeq (fst (hd ps)) ''exp_local''"
  shows "\<exists>p1. replicateCommand connect p c = Some (p1, addReply c ReplyOk) \<and> REPLICATION_MODE (srv p1) \<and>
    p2p_count (srv p1) = n \<and> p2p_id (srv p1) = i \<and> db (srv p1) = db (srv p) \<and>
    connecting p1 = ps \<and>
    (\<forall>sts. length sts = length ps \<longrightarrow> replicas (srv (establish sts p1)) = replicas (srv p) @ replicate (length ps) [ReplyReplhandshake])"
proof -
  let ?p = "p\<lparr>srv := (srv p)\<lparr>p2p_count := n, p2p_id := i\<rparr>\<rparr>"
  have "connect_peers connect ?p (peer_args ps) = Some (?p\<lparr>connecting := ps\<rparr>, True)"
    using connect_peers_ok[of connect ?p ps] assms(6,7) by (simp add: reachable_def cong del: if_weak_cong)
  moreover have "\<not> (length (argv c) > 3 \<and> strcaseeq (argv c ! 3) ''exp_local'')"
    using assms(9,10) by (cases ps) (auto simp: peer_args_def)
  ultimately have "replicateCommand connect p c = Some (?p\<lparr>connecting := ps\<rparr>, addReply c ReplyOk)"
    using assms(1-4,9) strcaseeq_digits
    by (auto simp: replicateCommand_def arg_def set_place_def getLong_print)
  then show ?thesis using assms(5) by (simp add: REPLICATION_MODE_def establish_replicas)
qed

text \<open>The handshake is a command.\<close>

abbreviation (input) handshake :: "sds list" where
  "handshake \<equiv> [''REPLICATE'', ''replica'', ''handshake'']"

lemma handshake_bytes: "replhandshake = encode_command handshake"
  by (simp add: encode_command_def encode_bulk_def replhandshake_def text_eval)

lemma handshake_dispatch: "dispatch handshake = Some (Inr ReplicateCommand)"
proof -
  have "char_of (116 :: nat) = CHR ''t''" "char_of (97 :: nat) = CHR ''a''" "char_of (99 :: nat) = CHR ''c''" "char_of (105 :: nat) = CHR ''i''"
    "char_of (108 :: nat) = CHR ''l''" "char_of (112 :: nat) = CHR ''p''" "char_of (114 :: nat) = CHR ''r''" "char_of (101 :: nat) = CHR ''e''"
    by (simp_all add: char_of_def bit_iff_odd)
  then show ?thesis by (simp add: dispatch_def lookupCommand_def redisCommandTable_def cmd_def arity_ok_def tolower_def)
qed

lemma handshake_command:
  assumes "\<not> cluster_enabled p"
  shows "replicateCommand connect p (user_client handshake) =
    Some (p\<lparr>srv := (srv p)\<lparr>replicas := replicas (srv p) @ [[]]\<rparr>\<rparr>, (user_client handshake)\<lparr>is_replica := True\<rparr>)"
proof -
  have "strcaseeq ''replica'' ''replica''" "strcaseeq ''handshake'' ''handshake''"
    by (simp_all add: strcaseeq_def c_text_def tolower_def)
  then show ?thesis using assms by (simp add: replicateCommand_def arg_def user_client_def listAddReplica_def Let_def)
qed

definition p2p_command :: "sds list \<Rightarrow> bool" where
  "p2p_command m \<longleftrightarrow> dispatch m = Some (Inr ReplicateCommand) \<or> dispatch m = Some (Inr RepltestCommand)"

text \<open>After the handshake the commands of the connection are those of a replica.\<close>

lemma conn_exec_replica:
  assumes "\<not> p2p_command m"
  shows "conn_exec connect h (p, True) m = map_option (\<lambda>s. (p\<lparr>srv := s\<rparr>, True)) (replica_exec h (srv p) m)"
  using assms
  by (cases "processCommand h (srv p) (replica_client m)") (auto simp: conn_exec_def p2p_command_def replica_exec_def)

lemma conn_run_replica:
  "\<forall>m \<in> set ms. \<not> p2p_command m \<Longrightarrow>
   run (conn_exec connect h) (p, True) ms = map_option (\<lambda>s. (p\<lparr>srv := s\<rparr>, True)) (run (replica_exec h) (srv p) ms)"
proof (induction ms arbitrary: p)
  case (Cons m ms)
  then show ?case using conn_exec_replica[of m connect h p] by (cases "replica_exec h (srv p) m") simp_all
qed simp

text \<open>
  C34 (handshake): what a new replica client of one server sends, the handshake and then the broadcasts of its server, may
  arrive at another server in any pieces. The receiver enters the connection into its list of replicas
  and from then on executes what it reads there as a replica: its state is the result of the effect phases of
  the broadcast commands, in order, and no protocol error occurs. So both ends broadcast to each other.
\<close>

theorem handshake_links:
  assumes "\<not> cluster_enabled p" "cfg_ok cfg" "\<forall>m \<in> set (handshake # ms). wire_ok cfg m" "\<forall>m \<in> set ms. \<not> p2p_command m"
    and "\<forall>c \<in> set chunks. fits cfg (handshake # ms) c"
    and "out_bytes (last (replicas (srv (replicationHandler CONN_STATE_CONNECTED sender))) @ concat (map msg_tokens ms)) = Some (concat chunks)"
  shows "run (readQueryFromClient cfg (executing (conn_exec connect h))) ((p, False), new_query) chunks =
    map_option (\<lambda>s. ((p\<lparr>srv := s\<rparr>, True), new_query))
      (run (replica_exec h) ((srv p)\<lparr>replicas := replicas (srv p) @ [[]]\<rparr>) ms)"
proof -
  let ?p = "p\<lparr>srv := (srv p)\<lparr>replicas := replicas (srv p) @ [[]]\<rparr>\<rparr>"
  have "out_bytes (concat (map msg_tokens ms)) = Some (stream ms)" by (rule out_bytes_stream[OF assms(2)]) (use assms(3) in simp)
  then have st: "concat chunks = stream (handshake # ms)" using assms(6)
    by (simp add: replicationHandler_def listAddReplica_def reply_bytes_def handshake_bytes stream_def)
  have "conn_exec connect h (p, False) handshake = Some (?p, True)"
    using handshake_command[OF assms(1), of connect] by (simp add: conn_exec_def handshake_dispatch Let_def)
  then have "run (conn_exec connect h) (p, False) (handshake # ms) =
      map_option (\<lambda>s. (p\<lparr>srv := s\<rparr>, True)) (run (replica_exec h) (srv ?p) ms)"
    using conn_run_replica[OF assms(4), of connect h ?p] by simp
  then show ?thesis using framing_stream[OF assms(2,3,5) st, of "conn_exec connect h" "(p, False)"]
    by (simp add: option.map_comp comp_def)
qed

text \<open>
  The variable \<open>exp_local\<close> is never reset: after one \<open>replicate\<close> with the argument \<open>exp_local\<close>, a later
  \<open>replicate\<close> without it skips its first address, takes the port for the address, and reads the
  argument vector out of bounds.
\<close>

theorem exp_local_sticks:
  assumes "\<not> cluster_enabled p" "is_int32 n" "is_int32 i"
    "replicateCommand connect p c = Some (p1, c1)" "argv c = [name, print_d n, print_d i, ''exp_local'']"
    "argv d = [name, print_d n, print_d i, ip, print_d port]"
  shows "replicateCommand connect p1 d = None"
proof -
  have "strcaseeq ''exp_local'' ''exp_local''" by (simp add: strcaseeq_def c_text_def tolower_def)
  then have p1: "exp_local p1" "\<not> cluster_enabled p1"
    using assms(1-5) strcaseeq_digits
    by (auto simp: replicateCommand_def arg_def set_place_def getLong_print)
  then show ?thesis using assms(2,3,6) strcaseeq_digits
    by (simp add: replicateCommand_def arg_def set_place_def getLong_print)
qed

section \<open>Witnesses\<close>

definition sample_p2p :: "unit p2p" where
  "sample_p2p = \<lparr>srv = started_server 0 (- 1), exp_local = False, cluster_enabled = False,
     bindaddr = None, connecting = []\<rparr>"

lemma sample_args:
  "print_d 2 = ''2''" "print_d 0 = ''0''" "print_d 6379 = ''6379''"
  by (simp_all add: text_eval)

theorem replicate_configures_witness:
  "\<exists>p1. replicateCommand (\<lambda>_ _ _. True) sample_p2p (user_client [''replicate'', ''2'', ''0'', ''10.0.0.2'', ''6379'']) =
      Some (p1, addReply (user_client [''replicate'', ''2'', ''0'', ''10.0.0.2'', ''6379'']) ReplyOk) \<and>
    REPLICATION_MODE (srv p1) \<and> p2p_count (srv p1) = 2 \<and> p2p_id (srv p1) = 0 \<and>
    db (srv p1) = db (srv sample_p2p) \<and>
    connecting p1 = [(''10.0.0.2'', 6379)] \<and>
    (\<forall>sts. length sts = length [(''10.0.0.2'', 6379 :: int)] \<longrightarrow> replicas (srv (establish sts p1)) =
      replicas (srv sample_p2p) @ replicate (length [(''10.0.0.2'', 6379 :: int)]) [ReplyReplhandshake])"
  by (rule replicate_configures[where name = "''replicate''"])
    (simp_all add: sample_p2p_def reachable_def user_client_def peer_args_def sample_args strcaseeq_def
      c_text_def tolower_def is_int32_def)

text \<open>The handshake and the add of an element by another replica, cut into two pieces.\<close>

definition sample_oset_p2p :: "ose p2p" where
  "sample_oset_p2p = \<lparr>srv = started_server 2 0, exp_local = False, cluster_enabled = False, bindaddr = None, connecting = []\<rparr>"

abbreviation (input) sample_add :: "sds list" where
  "sample_add \<equiv> [''osadd'', ''k'', ''5'', ''0,1'']"

theorem handshake_links_witness:
  "\<exists>chunks. length chunks = 2 \<and>
    run (readQueryFromClient default_proto (executing (conn_exec (\<lambda>_ _ _. True) oset_handlers))) ((sample_oset_p2p, False), new_query) chunks =
      map_option (\<lambda>s. ((sample_oset_p2p\<lparr>srv := s\<rparr>, True), new_query))
        (run (replica_exec oset_handlers) ((srv sample_oset_p2p)\<lparr>replicas := replicas (srv sample_oset_p2p) @ [[]]\<rparr>) [sample_add])"
proof -
  let ?bs = "stream [handshake, sample_add]"
  let ?chunks = "[take 20 ?bs, drop 20 ?bs]"
  have cc: "concat ?chunks = ?bs" by (simp only: concat.simps append_Nil2 append_take_drop_id)
  have w: "\<forall>m \<in> set [handshake, sample_add]. wire_ok default_proto m" by (simp add: wire_ok_def default_proto_def)
  have "out_bytes (concat (map msg_tokens [sample_add])) = Some (stream [sample_add])"
    by (rule out_bytes_stream[of default_proto]) (use w in \<open>simp_all add: cfg_ok_def default_proto_def\<close>)
  then have o: "out_bytes (last (replicas (srv (replicationHandler CONN_STATE_CONNECTED sample_oset_p2p))) @ concat (map msg_tokens [sample_add])) =
      Some (concat ?chunks)"
    unfolding cc by (simp add: replicationHandler_def listAddReplica_def reply_bytes_def handshake_bytes stream_def)
  have "length ?bs < 1000" "length (encode_command handshake) < 1000" "length (encode_command sample_add) < 1000"
    by (simp_all add: stream_def encode_command_def encode_bulk_def text_eval)
  then have f: "\<forall>c \<in> set ?chunks. fits default_proto [handshake, sample_add] c" by (auto simp: fits_def default_proto_def)
  have "\<forall>m \<in> set [sample_add]. \<not> p2p_command m"
    by (simp add: p2p_command_def dispatch_def lookupCommand_def redisCommandTable_def cmd_def arity_ok_def tolower_def)
  note link = handshake_links[OF _ _ w this f o]
  show ?thesis
  proof (intro exI conjI)
    show "length ?chunks = 2" by simp
  qed (rule link; simp add: sample_oset_p2p_def cfg_ok_def default_proto_def)
qed

theorem exp_local_sticks_witness:
  "\<exists>p1 c1. replicateCommand (\<lambda>_ _ _. True) sample_p2p (user_client [''replicate'', ''2'', ''0'', ''exp_local'']) =
      Some (p1, c1) \<and>
    replicateCommand (\<lambda>_ _ _. True) p1 (user_client [''replicate'', ''2'', ''0'', ''10.0.0.2'', ''6379'']) = None"
proof -
  let ?c = "user_client [''replicate'', ''2'', ''0'', ''exp_local'']"
  have g: "getLongFromObject ''2'' = Some 2" "getLongFromObject ''0'' = Some 0"
    using getLong_print[of 2] getLong_print[of 0] by (simp_all add: sample_args)
  obtain p1 c1 where p1: "replicateCommand (\<lambda>_ _ _. True) sample_p2p ?c = Some (p1, c1)"
    using g by (simp add: replicateCommand_def sample_p2p_def user_client_def arg_def strcaseeq_def c_text_def
        tolower_def set_place_def)
  have "replicateCommand (\<lambda>_ _ _. True) p1 (user_client [''replicate'', ''2'', ''0'', ''10.0.0.2'', ''6379'']) = None"
    by (rule exp_local_sticks[OF _ _ _ p1, where n = 2 and i = 0 and port = 6379 and name = "''replicate''" and ip = "''10.0.0.2''"])
      (simp_all add: sample_p2p_def user_client_def sample_args)
  with p1 show ?thesis by blast
qed

end
