(* ===== verification/EntryPointer.thy ===== *)
theory EntryPointer
  imports CausalBuffer
begin

text \<open>
  The pointer \<open>value\<close> of an element of t_rzset.c and t_rlist.c: it points to the entry of \<open>aset\<close> with
  the largest replica id. Both files contain the same code over their own entry type; the locale states what it is and
  its lemmas show that the pointer is right after entries have been added and deleted.
\<close>

definition best_entry :: "('a \<Rightarrow> nat) \<Rightarrow> ('a \<Rightarrow> vc) \<Rightarrow> 'a list \<Rightarrow> nat option \<Rightarrow> bool" where
  "best_entry addr clk as v = (case v of
     None \<Rightarrow> as = []
   | Some p \<Rightarrow> \<exists>a \<in> set as. addr a = p \<and> (\<forall>b \<in> set as. vc_id (clk b) \<le> vc_id (clk a)))"

locale entry_pointer =
  fixes addr :: "'a \<Rightarrow> nat" and clk :: "'a \<Rightarrow> vc" and aset :: "'e \<Rightarrow> 'a list" and val :: "'e \<Rightarrow> nat option"
    and setval :: "nat option \<Rightarrow> 'e \<Rightarrow> 'e" and deref :: "'e \<Rightarrow> nat \<Rightarrow> 'a option"
    and id_less :: "'e \<Rightarrow> int \<Rightarrow> bool option" and pick :: "'a list \<Rightarrow> 'e \<Rightarrow> 'e option"
    and below :: "vc \<Rightarrow> 'a \<Rightarrow> bool" and delete_below :: "vc \<Rightarrow> 'e \<Rightarrow> 'e \<times> bool"
  assumes deref: "deref e p = find (\<lambda>a. addr a = p) (aset e)"
    and id_less: "id_less e i = (case val e of None \<Rightarrow> Some True | Some p \<Rightarrow> map_option (\<lambda>x. vc_id (clk x) < i) (deref e p))"
    and pick_Nil: "pick [] e = Some e"
    and pick_Cons: "pick (a # as) e = Option.bind (id_less e (vc_id (clk a))) (\<lambda>b. pick as (if b then setval (Some (addr a)) e else e))"
    and aset_setval: "aset (setval v e) = aset e" and val_setval: "val (setval v e) = v"
    and setval_setval: "setval v (setval w e) = setval v e" and setval_val: "setval (val e) e = e"
    and delete_aset: "aset (fst (delete_below t e)) = filter (\<lambda>a. \<not> below t a) (aset e)"
    and delete_val: "val (fst (delete_below t e)) = (case val e of None \<Rightarrow> None
      | Some p \<Rightarrow> if list_ex (\<lambda>a. addr a = p) (filter (below t) (aset e)) then None else Some p)"
begin

lemma deref_in:
  assumes "distinct (map addr (aset e))" "a \<in> set (aset e)"
  shows "deref e (addr a) = Some a"
proof -
  have "find (\<lambda>a. addr a = p) as = Some a" if "distinct (map addr as)" "a \<in> set as" "p = addr a" for as p
    using that by (induction as) auto
  then show ?thesis using assms by (simp add: deref)
qed

text \<open>The scan for the largest id: \<open>value\<close> points to the best entry of the part \<open>seen\<close>.\<close>

lemma best_step:
  assumes d: "distinct (map addr (aset e))" and sub: "set (seen @ [a]) \<subseteq> set (aset e)" and best: "best_entry addr clk seen (val e)"
  shows "\<exists>b. id_less e (vc_id (clk a)) = Some b \<and> best_entry addr clk (seen @ [a]) (if b then Some (addr a) else val e)"
proof (cases "val e")
  case None
  then show ?thesis using best by (auto simp: id_less best_entry_def)
next
  case (Some p)
  then obtain y where y: "y \<in> set seen" "addr y = p" "\<forall>b \<in> set seen. vc_id (clk b) \<le> vc_id (clk y)"
    using best by (auto simp: best_entry_def)
  have "deref e p = Some y" using deref_in[OF d, of y] y(1,2) sub by auto
  then show ?thesis using Some y by (force simp: id_less best_entry_def)
qed

lemma pick_best:
  assumes "distinct (map addr (aset e))" "set (seen @ as) \<subseteq> set (aset e)" "best_entry addr clk seen (val e)"
  shows "\<exists>v. pick as e = Some (setval v e) \<and> best_entry addr clk (seen @ as) v"
  using assms
proof (induction as arbitrary: seen e)
  case Nil
  then show ?case by (auto simp: pick_Nil setval_val intro!: exI[of _ "val e"])
next
  case (Cons a as)
  obtain b where b: "id_less e (vc_id (clk a)) = Some b" "best_entry addr clk (seen @ [a]) (if b then Some (addr a) else val e)"
    using best_step[OF Cons.prems(1) _ Cons.prems(3), of a] Cons.prems(2) by auto
  let ?e = "if b then setval (Some (addr a)) e else e"
  have "\<exists>v. pick as ?e = Some (setval v ?e) \<and> best_entry addr clk ((seen @ [a]) @ as) v"
    by (rule Cons.IH) (use Cons.prems b(2) in \<open>auto simp: aset_setval val_setval\<close>)
  then show ?case using b(1) by (auto simp: pick_Cons setval_setval)
qed

text \<open>Deleting entries: \<open>value\<close> still points to the best entry, or it is NULL.\<close>

lemma delete_best:
  assumes best: "best_entry addr clk (aset e) (val e)" and e1: "fst (delete_below t e) = e1"
  shows "val e1 = None \<or> best_entry addr clk (aset e1) (val e1)"
proof (cases "val e1")
  case (Some p)
  then have p: "val e = Some p" "\<not> list_ex (\<lambda>a. addr a = p) (filter (below t) (aset e))"
    using delete_val[of t e] by (auto simp: e1 split: option.splits if_splits)
  then obtain a where a: "a \<in> set (aset e)" "addr a = p" "\<forall>b \<in> set (aset e). vc_id (clk b) \<le> vc_id (clk a)"
    using best by (auto simp: best_entry_def)
  then have "a \<in> set (aset e1)" using p(2) delete_aset[of t e] by (auto simp: e1 list_ex_iff)
  then show ?thesis using a delete_aset[of t e] Some by (auto simp: e1 best_entry_def)
qed simp

lemma repick:
  assumes dis: "distinct (map addr (aset e))" and v: "val e = None \<or> best_entry addr clk (aset e) (val e)"
  shows "\<exists>v. (if val e = None then pick (aset e) e else Some e) = Some (setval v e) \<and> best_entry addr clk (aset e) v"
proof (cases "val e = None")
  case True
  then show ?thesis using pick_best[OF dis, of "[]" "aset e"] by (simp add: best_entry_def)
next
  case False
  then show ?thesis using v by (intro exI[of _ "val e"]) (auto simp: setval_val)
qed

text \<open>The new entry \<open>a\<close> at the end takes over the pointer if its id is larger.\<close>

lemma add_best:
  assumes dis: "distinct (map addr (aset e))" and as: "aset e = old @ [a]"
    and v: "\<not> (rmv \<and> val e = None) \<longrightarrow> best_entry addr clk old (val e)"
  shows "\<exists>w b. (if rmv \<and> val e = None then pick (aset e) e else Some e) = Some (setval w e) \<and>
    id_less (setval w e) (vc_id (clk a)) = Some b \<and> best_entry addr clk (aset e) (if b then Some (addr a) else w)"
proof (cases "rmv \<and> val e = None")
  case True
  then obtain v where v: "pick (aset e) e = Some (setval v e)" "best_entry addr clk (aset e) v" using repick[OF dis] by auto
  then obtain y where y: "v = Some (addr y)" "y \<in> set (aset e)" "\<forall>b \<in> set (aset e). vc_id (clk b) \<le> vc_id (clk y)"
    using as by (auto simp: best_entry_def split: option.splits)
  have "deref (setval v e) (addr y) = Some y" by (rule deref_in) (use dis y in \<open>simp_all add: aset_setval\<close>)
  moreover have "\<not> vc_id (clk y) < vc_id (clk a)" using y(3) as by auto
  ultimately show ?thesis using True v y(1)
    by (intro exI[of _ v] exI[of _ False]) (simp add: id_less val_setval)
next
  case False
  then obtain b where "id_less e (vc_id (clk a)) = Some b" "best_entry addr clk (old @ [a]) (if b then Some (addr a) else val e)"
    using best_step[OF dis, of old a] as v by auto
  then show ?thesis using False as by (intro exI[of _ "val e"] exI[of _ b]) (auto simp: setval_val)
qed

end

end
