(* ===== verification/RZsetCorrect.thy ===== *)
theory RZsetCorrect
  imports RZset EntryPointer
begin

text \<open>
  Correctness of the remove-win sorted set with causal delivery (t_rzset.c): an element holds the
  adds and removes of its history that no later operation has overwritten, its score is the
  value of the add with the largest replica id plus the later increments, and the commands are applied in
  causal order.
\<close>

section \<open>The element after a history\<close>

text \<open>
  \<open>h\<close> is the list of the commands applied to an element. An add is live if no later add or remove has
  seen it, a remove if no later add has seen it; the increment of an add is the sum of the increments
  that have seen it, in the order of application.
\<close>

definition rz_live_adds :: "rz_cmd list \<Rightarrow> rz_cmd list" where
  "rz_live_adds h = filter (\<lambda>c. rz_type c = RZADD \<and>
     (\<forall>d \<in> set h. rz_type d \<noteq> RZINCBY \<longrightarrow> \<not> vc_older (rz_ct c) (rz_ct d))) h"

definition rz_live_rems :: "rz_cmd list \<Rightarrow> rz_cmd list" where
  "rz_live_rems h = filter (\<lambda>c. rz_type c = RZREM \<and>
     (\<forall>d \<in> set h. rz_type d = RZADD \<longrightarrow> \<not> vc_older (rz_ct c) (rz_ct d))) h"

definition rz_total :: "rz_cmd list \<Rightarrow> rz_cmd \<Rightarrow> double" where
  "rz_total h c =
     foldl dadd dzero (map rz_cvalue (filter (\<lambda>d. rz_type d = RZINCBY \<and> vc_older (rz_ct c) (rz_ct d)) h))"

definition rz_winner :: "rz_cmd list \<Rightarrow> rz_cmd option" where
  "rz_winner cs = find (\<lambda>c. \<forall>d \<in> set cs. vc_id (rz_ct d) \<le> vc_id (rz_ct c)) cs"

definition rz_outcome :: "rz_cmd list \<Rightarrow> double option" where
  "rz_outcome h =
     (if rz_live_rems h \<noteq> [] then None
      else map_option (\<lambda>c. dadd (rz_cvalue c) (rz_total h c)) (rz_winner (rz_live_adds h)))"

text \<open>The pointer \<open>value\<close> points to the entry with the largest replica id.\<close>

definition rz_ptr :: "rze \<Rightarrow> bool" where
  "rz_ptr e \<longleftrightarrow> distinct (map rz_addr (rze_aset e)) \<and> (\<forall>a \<in> set (rze_aset e). rz_addr a < rze_fresh e) \<and>
     (case rze_value e of
        None \<Rightarrow> rze_aset e = []
      | Some p \<Rightarrow> \<exists>a \<in> set (rze_aset e). rz_addr a = p \<and> (\<forall>b \<in> set (rze_aset e). vc_id (rz_t b) \<le> vc_id (rz_t a)))"

definition rz_entry :: "rz_cmd list \<Rightarrow> rz_cmd \<Rightarrow> vc \<times> double \<times> double" where
  "rz_entry h c = (rz_ct c, rz_cvalue c, rz_total h c)"

definition rz_rel :: "rz_cmd list \<Rightarrow> rze \<Rightarrow> bool" where
  "rz_rel h e \<longleftrightarrow> rz_ptr e \<and> rze_rset e = map rz_ct (rz_live_rems h) \<and>
     map (\<lambda>a. (rz_t a, rz_x a, rz_inc a)) (rze_aset e) = map (rz_entry h) (rz_live_adds h)"

text \<open>A sum that is not a number is refused by the sorted set, which keeps the old score.\<close>

definition rz_score_is :: "double option \<Rightarrow> double option \<Rightarrow> bool" where
  "rz_score_is out z = (case out of None \<Rightarrow> z = None | Some v \<Rightarrow> v \<noteq> NaN \<longrightarrow> z = Some v)"

text \<open>The next command of a causal history.\<close>

definition rz_next :: "rz_cmd list \<Rightarrow> rz_cmd \<Rightarrow> bool" where
  "rz_next h c \<longleftrightarrow> (\<forall>d \<in> set h. \<not> vc_older (rz_ct c) (rz_ct d))"

lemma rz_live_adds_snoc:
  assumes "rz_next h c"
  shows "rz_live_adds (h @ [c]) =
    (if rz_type c = RZINCBY then rz_live_adds h else filter (\<lambda>d. \<not> vc_older (rz_ct d) (rz_ct c)) (rz_live_adds h)) @
    (if rz_type c = RZADD then [c] else [])"
  using assms by (auto simp: rz_live_adds_def rz_next_def intro!: filter_cong)

lemma rz_live_rems_snoc:
  assumes "rz_next h c"
  shows "rz_live_rems (h @ [c]) =
    (if rz_type c = RZADD then filter (\<lambda>d. \<not> vc_older (rz_ct d) (rz_ct c)) (rz_live_rems h) else rz_live_rems h) @
    (if rz_type c = RZREM then [c] else [])"
  using assms by (auto simp: rz_live_rems_def rz_next_def intro!: filter_cong)

lemma rz_total_snoc:
  "rz_total (h @ [c]) d =
    (if rz_type c = RZINCBY \<and> vc_older (rz_ct d) (rz_ct c) then dadd (rz_total h d) (rz_cvalue c) else rz_total h d)"
  by (simp add: rz_total_def)

lemma rz_total_next: "rz_next h c \<Longrightarrow> rz_total h c = dzero"
  by (simp add: rz_total_def rz_next_def filter_empty_conv)

lemma rz_live_mem: "c \<in> set (rz_live_adds h) \<Longrightarrow> c \<in> set h" "c \<in> set (rz_live_rems h) \<Longrightarrow> c \<in> set h"
  by (auto simp: rz_live_adds_def rz_live_rems_def)

section \<open>The pointer\<close>

interpretation rzp: entry_pointer rz_addr rz_t rze_aset rze_value "\<lambda>v e. e\<lparr>rze_value := v\<rparr>" rze_deref value_id_less rz_pick
    rz_below rz_delete_below
  by unfold_locales (simp_all add: rze_deref_def value_id_less_def map_conv_bind_option comp_def rz_delete_below_def Let_def split: option.split)

abbreviation best_of :: "rz_ase list \<Rightarrow> nat option \<Rightarrow> bool" where
  "best_of \<equiv> best_entry rz_addr rz_t"

lemma rz_ptr_best:
  "rz_ptr e \<longleftrightarrow> distinct (map rz_addr (rze_aset e)) \<and> (\<forall>a \<in> set (rze_aset e). rz_addr a < rze_fresh e) \<and>
    best_of (rze_aset e) (rze_value e)"
  by (simp add: rz_ptr_def best_entry_def)

lemma rz_delete_value:
  assumes "rz_ptr e" "fst (rz_delete_below t e) = e1"
  shows "rze_aset e1 = filter (\<lambda>a. \<not> rz_below t a) (rze_aset e)" "rze_rset e1 = rze_rset e"
    "rze_current e1 = rze_current e" "rze_fresh e1 = rze_fresh e"
    "rze_value e1 = None \<or> best_of (rze_aset e1) (rze_value e1)"
  using assms rzp.delete_best[OF _ assms(2)] by (auto simp: rz_ptr_best rz_delete_below_def Let_def)

section \<open>The three functions on an element\<close>

text \<open>\<open>vc_cmp\<close> decides whether an entry of the element is older than the command.\<close>

definition rz_decides :: "vc \<Rightarrow> rze \<Rightarrow> bool" where
  "rz_decides t e \<longleftrightarrow> vc_cmp t t \<noteq> VC_LESS \<and> (\<forall>a \<in> set (rze_aset e). rz_below t a \<longleftrightarrow> vc_older (rz_t a) t) \<and>
     (\<forall>r \<in> set (rze_rset e). vc_cmp r t = VC_LESS \<longleftrightarrow> vc_older r t)"

lemma rz_decides_causal:
  assumes M: "vc_causal n (rz_ct ` set (h @ [c]))" and rel: "rz_rel h e"
  shows "rz_decides (rz_ct c) e"
proof -
  have "rz_t ` set (rze_aset e) = fst ` set (map (\<lambda>a. (rz_t a, rz_x a, rz_inc a)) (rze_aset e))" by force
  also have "\<dots> = rz_ct ` set (rz_live_adds h)" using rel by (force simp: rz_rel_def rz_entry_def)
  finally have a: "rz_t a \<in> rz_ct ` set (h @ [c])" if "a \<in> set (rze_aset e)" for a
    using that rz_live_mem(1)[of _ h] by auto
  have r: "t \<in> rz_ct ` set (h @ [c])" if "t \<in> set (rze_rset e)" for t
    using that rel rz_live_mem(2)[of _ h] by (auto simp: rz_rel_def)
  show ?thesis using vc_cmp_older[OF M] a r by (auto simp: rz_decides_def rz_below_def)
qed

lemma rz_rel_live:
  assumes "rz_rel h e" "\<forall>a \<in> set (rze_aset e). P a = Q (rz_t a)"
  shows "map (\<lambda>a. (rz_t a, rz_x a, rz_inc a)) (filter P (rze_aset e)) =
    map (rz_entry h) (filter (\<lambda>c. Q (rz_ct c)) (rz_live_adds h))"
proof -
  have *: "map f (filter P as) = map g (filter R cs)"
    if "map f as = map g cs" "\<forall>a \<in> set as. P a = Q (fst (f a))" "\<forall>c. R c = Q (fst (g c))"
    for f :: "rz_ase \<Rightarrow> vc \<times> double \<times> double" and g R as cs
    using that by (induction as arbitrary: cs) (auto simp: Cons_eq_map_conv map_eq_Cons_conv)
  show ?thesis by (rule *) (use assms in \<open>simp_all add: rz_rel_def rz_entry_def\<close>)
qed

lemma rz_entry_same: "rz_type c \<noteq> RZINCBY \<Longrightarrow> rz_entry (h @ [c]) = rz_entry h"
  by (rule ext) (simp add: rz_entry_def rz_total_snoc)

lemma rz_ptrI:
  assumes "rz_ptr e" "rze_fresh e \<le> rze_fresh e1" "rze_aset e1 = filter P (rze_aset e)"
    "best_of (rze_aset e1) (rze_value e1)"
  shows "rz_ptr e1"
  using assms by (auto simp: rz_ptr_best distinct_map inj_on_def)

lemma rz_remove_elem:
  assumes rel: "rz_rel h e" and nx: "rz_next h c" and ty: "rz_type c = RZREM" and dec: "rz_decides (rz_ct c) e"
  obtains e1 where "rz_removeFunc k x (rz_ct c) (s, e) =
      map_option (\<lambda>s1. (s1\<lparr>dirty := dirty s1 + 1\<rparr>, e1)) (server_zsetDel s k x)"
    "rz_rel (h @ [c]) e1" "rze_current e1 = vc_update (rze_current e) (rz_ct c)"
proof -
  let ?t = "rz_ct c"
  define e1 where "e1 = e\<lparr>rze_rset := rze_rset e @ [?t]\<rparr>"
  define e2 where "e2 = fst (rz_delete_below ?t e1)"
  have p1: "rz_ptr e1" using rel by (simp add: e1_def rz_rel_def rz_ptr_best)
  note d = rz_delete_value[OF p1 e2_def[symmetric]]
  have dis: "distinct (map rz_addr (rze_aset e2))" using p1 d(1) by (auto simp: rz_ptr_def distinct_map inj_on_def)
  obtain v where v: "(if rze_value e2 = None then rz_pick (rze_aset e2) e2 else Some e2) = Some (e2\<lparr>rze_value := v\<rparr>)"
    "best_of (rze_aset e2) v"
    using rzp.repick[OF dis d(5)] by blast
  define e3 where "e3 = e2\<lparr>rze_value := v, rze_current := vc_update (rze_current e2) ?t\<rparr>"
  have rs: "rze_rset e3 = rze_rset e @ [?t]" using d(2) by (simp add: e3_def e1_def)
  have "rz_removeFunc k x ?t (s, e) =
      map_option (\<lambda>s1. (s1\<lparr>dirty := dirty s1 + 1\<rparr>, e3)) (server_zsetDel s k x)"
    using v(1) rs by (cases "server_zsetDel s k x")
      (simp_all add: rz_removeFunc_def e1_def[symmetric] e2_def[symmetric] rz_LOOKUP_def e3_def)
  moreover have "rz_rel (h @ [c]) e3"
    unfolding rz_rel_def
  proof (intro conjI)
    show "rz_ptr e3" by (rule rz_ptrI[OF p1]) (use d v(2) in \<open>simp_all add: e3_def\<close>)
    show "rze_rset e3 = map rz_ct (rz_live_rems (h @ [c]))"
      using rs rel ty by (simp add: rz_live_rems_snoc[OF nx] rz_rel_def)
    show "map (\<lambda>a. (rz_t a, rz_x a, rz_inc a)) (rze_aset e3) = map (rz_entry (h @ [c])) (rz_live_adds (h @ [c]))"
      using rz_rel_live[OF rel, of "\<lambda>a. \<not> rz_below ?t a" "\<lambda>u. \<not> vc_older u ?t"] dec d(1) ty
      by (simp add: rz_live_adds_snoc[OF nx] rz_entry_same rz_decides_def e3_def e1_def)
  qed
  moreover have "rze_current e3 = vc_update (rze_current e) ?t" using d(3) by (simp add: e3_def e1_def)
  ultimately show ?thesis by (rule that)
qed

lemma rz_add_elem:
  assumes rel: "rz_rel h e" and nx: "rz_next h c" and ty: "rz_type c = RZADD" and dec: "rz_decides (rz_ct c) e"
  obtains e1 where "rz_addFunc k x (rz_cvalue c) (rz_ct c) (s, e) =
      map_option (\<lambda>s1. (s1\<lparr>dirty := dirty s1 + 1\<rparr>, e1))
        (if rz_LOOKUP e1 then Option.bind (rz_SCORE e1) (server_zsetAdd s k x) else Some s)"
    "rz_rel (h @ [c]) e1" "rze_current e1 = vc_update (rze_current e) (rz_ct c)"
proof -
  let ?t = "rz_ct c"
  define a where "a = \<lparr>rz_addr = rze_fresh e, rz_t = ?t, rz_x = rz_cvalue c, rz_inc = dzero\<rparr>"
  define e1 where "e1 = e\<lparr>rze_aset := rze_aset e @ [a], rze_fresh := Suc (rze_fresh e)\<rparr>"
  define e2 where "e2 = fst (rz_delete_below ?t e1)"
  define e3 where "e3 = e2\<lparr>rze_rset := filter (\<lambda>r. vc_cmp r ?t \<noteq> VC_LESS) (rze_rset e2)\<rparr>"
  let ?old = "filter (\<lambda>a. \<not> rz_below ?t a) (rze_aset e)"
  have na: "\<not> rz_below ?t a" using dec by (simp add: rz_decides_def rz_below_def a_def)
  have pe: "rz_ptr e" using rel by (simp add: rz_rel_def)
  note d = rz_delete_value[OF pe refl, of ?t]
  have e3: "rze_aset e3 = ?old @ [a]" "rze_value e3 = rze_value (fst (rz_delete_below ?t e))"
    "rze_fresh e3 = Suc (rze_fresh e)" "rze_current e3 = rze_current e"
    "rze_rset e3 = filter (\<lambda>r. vc_cmp r ?t \<noteq> VC_LESS) (rze_rset e)"
    "snd (rz_delete_below ?t e1) = snd (rz_delete_below ?t e)"
    using na by (simp_all add: e3_def e2_def e1_def rz_delete_below_def Let_def split: option.split)
  have dis: "distinct (map rz_addr (rze_aset e3))" "\<forall>b \<in> set (rze_aset e3). rz_addr b < rze_fresh e3"
    using pe e3(1,3) by (auto simp: rz_ptr_def a_def distinct_map inj_on_def less_Suc_eq)
  have old: "best_of ?old (rze_value e3)" if "\<not> (snd (rz_delete_below ?t e1) \<and> rze_value e3 = None)"
    using d(5) that e3(2,6) pe by (auto simp: d(1) best_entry_def rz_delete_below_def rz_ptr_def Let_def filter_empty_conv
        split: option.splits if_splits)
  obtain w b where e4: "(if snd (rz_delete_below ?t e1) \<and> rze_value e3 = None then rz_pick (rze_aset e3) e3 else Some e3)
      = Some (e3\<lparr>rze_value := w\<rparr>)"
    "value_id_less (e3\<lparr>rze_value := w\<rparr>) (vc_id ?t) = Some b"
    "best_of (rze_aset e3) (if b then Some (rz_addr a) else w)"
    using rzp.add_best[OF dis(1) e3(1), of "snd (rz_delete_below ?t e1)"] old by (auto simp: a_def)
  define e5 where "e5 = e3\<lparr>rze_value := if b then Some (rz_addr a) else w, rze_current := vc_update (rze_current e) ?t\<rparr>"
  have "rz_addFunc k x (rz_cvalue c) ?t (s, e) = map_option (\<lambda>s1. (s1\<lparr>dirty := dirty s1 + 1\<rparr>, e5))
      (if rz_LOOKUP e5 then Option.bind (rz_SCORE e5) (server_zsetAdd s k x) else Some s)"
  proof -
    have v: "rz_LOOKUP (e'\<lparr>rze_current := u\<rparr>) = rz_LOOKUP e'" "rz_SCORE (e'\<lparr>rze_current := u\<rparr>) = rz_SCORE e'" for e' u
      by (simp_all add: rz_LOOKUP_def rz_SCORE_def rze_deref_def)
    have "rz_addFunc k x (rz_cvalue c) ?t (s, e) =
      (do { e4 \<leftarrow> (if snd (rz_delete_below ?t e1) \<and> rze_value e3 = None then rz_pick (rze_aset e3) e3 else Some e3);
        b \<leftarrow> value_id_less e4 (vc_id ?t);
        let e5 = (if b then e4\<lparr>rze_value := Some (rz_addr a)\<rparr> else e4);
        s1 \<leftarrow> (if rz_LOOKUP e5 then do { score \<leftarrow> rz_SCORE e5; server_zsetAdd s k x score } else Some s);
        Some (s1\<lparr>dirty := dirty s1 + 1\<rparr>, e5\<lparr>rze_current := vc_update (rze_current e5) ?t\<rparr>) })"
      unfolding rz_addFunc_def vc_dup_id e3_def e2_def e1_def a_def Let_def by (simp only: split_beta fst_conv snd_conv)
    also have "\<dots> = map_option (\<lambda>s1. (s1\<lparr>dirty := dirty s1 + 1\<rparr>, e5))
      (if rz_LOOKUP e5 then Option.bind (rz_SCORE e5) (server_zsetAdd s k x) else Some s)"
      unfolding e4(1) using e4(2) e3(4)
      by (cases b) (simp_all add: e5_def v Let_def map_option_bind bind_map_option comp_def map_conv_bind_option)
    finally show ?thesis .
  qed
  moreover have "rz_rel (h @ [c]) e5"
    unfolding rz_rel_def
  proof (intro conjI)
    show "rz_ptr e5" using dis e4(3) by (simp add: rz_ptr_best e5_def)
    have "filter (\<lambda>r. vc_cmp r ?t \<noteq> VC_LESS) (rze_rset e) = filter (\<lambda>r. \<not> vc_older r ?t) (rze_rset e)"
      by (rule filter_cong) (use dec in \<open>auto simp: rz_decides_def\<close>)
    then show "rze_rset e5 = map rz_ct (rz_live_rems (h @ [c]))"
      using e3(5) rel ty by (simp add: rz_live_rems_snoc[OF nx] rz_rel_def e5_def filter_map comp_def)
    show "map (\<lambda>a. (rz_t a, rz_x a, rz_inc a)) (rze_aset e5) = map (rz_entry (h @ [c])) (rz_live_adds (h @ [c]))"
      using rz_rel_live[OF rel, of "\<lambda>a. \<not> rz_below ?t a" "\<lambda>u. \<not> vc_older u ?t"] dec e3(1) ty rz_total_next[OF nx]
      by (simp add: rz_live_adds_snoc[OF nx] rz_entry_same rz_decides_def e5_def a_def) (simp add: rz_entry_def)
  qed
  moreover have "rze_current e5 = vc_update (rze_current e) ?t" by (simp add: e5_def)
  ultimately show ?thesis by (rule that)
qed

lemma rz_increase_elem:
  assumes rel: "rz_rel h e" and nx: "rz_next h c" and ty: "rz_type c = RZINCBY" and dec: "rz_decides (rz_ct c) e"
  obtains e1 b where "rz_increaseFunc k x (rz_cvalue c) (rz_ct c) (s, e) =
      map_option (\<lambda>s1. (s1\<lparr>dirty := dirty s1 + 1\<rparr>, e1))
        (if b then Option.bind (rz_SCORE e1) (server_zsetAdd s k x) else Some s)"
    "rz_LOOKUP e1 = rz_LOOKUP e" "b \<longrightarrow> rz_LOOKUP e1" "\<not> b \<longrightarrow> rz_LOOKUP e1 \<longrightarrow> rz_SCORE e1 = rz_SCORE e"
    "rz_rel (h @ [c]) e1" "rze_current e1 = vc_update (rze_current e) (rz_ct c)"
proof -
  let ?t = "rz_ct c"
  define f where "f a = (if rz_below ?t a then a\<lparr>rz_inc := dadd (rz_inc a) (rz_cvalue c)\<rparr> else a)" for a
  define e1 where "e1 = e\<lparr>rze_aset := map f (rze_aset e)\<rparr>"
  have f: "rz_addr (f a) = rz_addr a" "rz_t (f a) = rz_t a" "rz_x (f a) = rz_x a" for a by (simp_all add: f_def)
  have find: "rze_deref e1 p = map_option f (rze_deref e p)" for p
  proof -
    have "find (\<lambda>a. rz_addr a = p) (map f as) = map_option f (find (\<lambda>a. rz_addr a = p) as)" for as
      by (induction as) (simp_all add: f)
    then show ?thesis by (simp add: rze_deref_def e1_def)
  qed
  have pe: "rz_ptr e" using rel by (simp add: rz_rel_def)
  have lk: "rz_LOOKUP e1 = rz_LOOKUP e" by (simp add: rz_LOOKUP_def e1_def)
  obtain b where b: "rz_value_below ?t e1 = Some b" "b \<Longrightarrow> rz_LOOKUP e1" "\<not> b \<Longrightarrow> rz_LOOKUP e1 \<Longrightarrow> rz_SCORE e1 = rz_SCORE e"
  proof (cases "rz_LOOKUP e")
    case False
    then show ?thesis using that[of False] lk by (simp add: rz_value_below_def)
  next
    case True
    then obtain a where a: "rze_value e = Some (rz_addr a)" "a \<in> set (rze_aset e)"
      using pe by (auto simp: rz_ptr_def rz_LOOKUP_def split: option.splits)
    have d: "rze_deref e (rz_addr a) = Some a" by (rule rzp.deref_in) (use pe a(2) in \<open>simp_all add: rz_ptr_def\<close>)
    have v: "rze_value e1 = Some (rz_addr a)" using a by (simp add: e1_def)
    have "rz_value_below ?t e1 = Some (rz_below ?t a)" using True lk v d by (simp add: rz_value_below_def find f rz_below_def)
    moreover have "rz_SCORE e1 = rz_SCORE e" if "\<not> rz_below ?t a"
      using that v a(1) d by (simp add: rz_SCORE_def find f_def)
    ultimately show ?thesis using that True lk by blast
  qed
  define e2 where "e2 = e1\<lparr>rze_current := vc_update (rze_current e) ?t\<rparr>"
  have same: "rz_LOOKUP e2 = rz_LOOKUP e1" "rz_SCORE e2 = rz_SCORE e1" "rze_current e1 = rze_current e"
    by (simp_all add: e2_def e1_def rz_LOOKUP_def rz_SCORE_def rze_deref_def)
  have fe: "map (\<lambda>a. if rz_below ?t a then a\<lparr>rz_inc := dadd (rz_inc a) (rz_cvalue c)\<rparr> else a) (rze_aset e) = map f (rze_aset e)"
    by (simp add: f_def)
  have "rz_increaseFunc k x (rz_cvalue c) ?t (s, e) = map_option (\<lambda>s1. (s1\<lparr>dirty := dirty s1 + 1\<rparr>, e2))
      (if b then Option.bind (rz_SCORE e2) (server_zsetAdd s k x) else Some s)"
    unfolding rz_increaseFunc_def Let_def prod.case fe e1_def[symmetric] same(2)
    using b(1) same(3) by (cases b) (simp_all add: e2_def map_option_bind bind_map_option comp_def map_conv_bind_option)
  moreover have "rz_rel (h @ [c]) e2"
    unfolding rz_rel_def
  proof (intro conjI)
    show "rz_ptr e2" using pe by (simp add: rz_ptr_best best_entry_def e2_def e1_def f comp_def split: option.splits)
    show "rze_rset e2 = map rz_ct (rz_live_rems (h @ [c]))"
      using rel ty by (simp add: rz_live_rems_snoc[OF nx] rz_rel_def e2_def e1_def)
    have "map (\<lambda>a. (rz_t a, rz_x a, rz_inc a)) (map f as) = map (rz_entry (h @ [c])) cs"
      if "map (\<lambda>a. (rz_t a, rz_x a, rz_inc a)) as = map (rz_entry h) cs"
        "\<forall>a \<in> set as. rz_below ?t a \<longleftrightarrow> vc_older (rz_t a) ?t" for as cs
      using that
      by (induction as arbitrary: cs) (auto simp: Cons_eq_map_conv map_eq_Cons_conv rz_entry_def rz_total_snoc ty f_def)
    then show "map (\<lambda>a. (rz_t a, rz_x a, rz_inc a)) (rze_aset e2) = map (rz_entry (h @ [c])) (rz_live_adds (h @ [c]))"
      using rel dec ty by (simp add: rz_live_adds_snoc[OF nx] rz_rel_def rz_decides_def e2_def e1_def)
  qed
  ultimately show ?thesis using that[of e2 b] lk b(2,3) same by (simp add: e2_def)
qed

section \<open>The score\<close>

lemma rz_winner_eq:
  assumes "c \<in> set cs" "\<forall>d \<in> set cs. vc_id (rz_ct d) \<le> vc_id (rz_ct c)"
    "\<forall>d \<in> set cs. vc_id (rz_ct d) = vc_id (rz_ct c) \<longrightarrow> d = c"
  shows "rz_winner cs = Some c"
proof (cases "rz_winner cs")
  case None
  then show ?thesis using assms by (auto simp: rz_winner_def find_None_iff)
next
  case (Some d)
  then have "d \<in> set cs" "vc_id (rz_ct c) \<le> vc_id (rz_ct d)" using assms(1) by (auto simp: rz_winner_def find_Some_iff)
  then show ?thesis using assms Some by (metis order_antisym)
qed

lemma rz_rel_score:
  assumes rel: "rz_rel h e"
    and uniq: "\<forall>c \<in> set (rz_live_adds h). \<forall>d \<in> set (rz_live_adds h). vc_id (rz_ct c) = vc_id (rz_ct d) \<longrightarrow> c = d"
  shows "if rz_LOOKUP e then rz_SCORE e = rz_outcome h \<and> rz_outcome h \<noteq> None else rz_outcome h = None"
proof -
  let ?f = "\<lambda>a. (rz_t a, rz_x a, rz_inc a)"
  have as: "map ?f (rze_aset e) = map (rz_entry h) (rz_live_adds h)" "rze_rset e = map rz_ct (rz_live_rems h)" and pe: "rz_ptr e"
    using rel by (simp_all add: rz_rel_def)
  show ?thesis
  proof (cases "rz_LOOKUP e")
    case False
    then have "rz_live_rems h \<noteq> [] \<or> rz_live_adds h = []" using as by (auto simp: rz_LOOKUP_def)
    then show ?thesis using False by (auto simp: rz_outcome_def rz_winner_def)
  next
    case True
    then obtain a where a: "rze_value e = Some (rz_addr a)" "a \<in> set (rze_aset e)"
      "\<forall>b \<in> set (rze_aset e). vc_id (rz_t b) \<le> vc_id (rz_t a)"
      using pe by (auto simp: rz_ptr_def rz_LOOKUP_def split: option.splits)
    have S: "?f ` set (rze_aset e) = rz_entry h ` set (rz_live_adds h)" using arg_cong[OF as(1), of set] by simp
    have "?f a \<in> rz_entry h ` set (rz_live_adds h)" unfolding S[symmetric] using a(2) by (rule imageI)
    then obtain c where c: "c \<in> set (rz_live_adds h)" "rz_t a = rz_ct c" "rz_x a = rz_cvalue c" "rz_inc a = rz_total h c"
      by (auto simp: rz_entry_def)
    have "vc_id (rz_ct d) \<le> vc_id (rz_ct c)" if d: "d \<in> set (rz_live_adds h)" for d
    proof -
      have "rz_entry h d \<in> ?f ` set (rze_aset e)" unfolding S using d by (rule imageI)
      then show ?thesis using a(3) c(2) by (auto simp: rz_entry_def)
    qed
    then have "rz_winner (rz_live_adds h) = Some c" using c(1) uniq by (intro rz_winner_eq) auto
    moreover have "rze_deref e (rz_addr a) = Some a" by (rule rzp.deref_in) (use pe a(2) in \<open>simp_all add: rz_ptr_def\<close>)
    moreover have "rz_live_rems h = []" using True as(2) by (simp add: rz_LOOKUP_def)
    ultimately show ?thesis using True a(1) c by (simp add: rz_SCORE_def rz_outcome_def)
  qed
qed

text \<open>Adds of one replica are ordered, so the live adds have different ids.\<close>

lemma rz_live_unique:
  assumes M: "vc_causal n (rz_ct ` set h)" and d: "distinct (map rz_ct h)"
  shows "\<forall>c \<in> set (rz_live_adds h). \<forall>d \<in> set (rz_live_adds h). vc_id (rz_ct c) = vc_id (rz_ct d) \<longrightarrow> c = d"
proof (intro ballI impI)
  fix c d assume cd: "c \<in> set (rz_live_adds h)" "d \<in> set (rz_live_adds h)" "vc_id (rz_ct c) = vc_id (rz_ct d)"
  then have m: "rz_ct c \<in> rz_ct ` set h" "rz_ct d \<in> rz_ct ` set h" using rz_live_mem(1) by auto
  have "vle (vector (rz_ct c)) (vector (rz_ct d)) \<or> vle (vector (rz_ct d)) (vector (rz_ct c))"
    using vc_causal_le[OF M m] vc_causal_le[OF M m(2,1)] cd(3) by (auto simp: vc_seq_def vc_rid_def)
  moreover have "rz_type c = RZADD" "rz_type d = RZADD" "\<not> vc_older (rz_ct c) (rz_ct d)" "\<not> vc_older (rz_ct d) (rz_ct c)"
    using cd(1,2) by (auto simp: rz_live_adds_def)
  ultimately have "rz_ct c = rz_ct d" by (auto simp: vc_older_def)
  then show "c = d" using d cd(1,2) rz_live_mem(1)[of _ h] by (auto simp: distinct_map inj_on_def)
qed

section \<open>Applying a command of the history\<close>

text \<open>
  The server \<open>s\<close> while the element \<open>x\<close> of \<open>k\<close> is worked on: nothing but this element and its score has
  changed since \<open>s0\<close>.
\<close>

definition rz_hist ::
    "sds set \<Rightarrow> rze server \<Rightarrow> sds \<Rightarrow> sds \<Rightarrow> rz_cmd list \<Rightarrow> rze server \<times> rze \<Rightarrow> bool" where
  "rz_hist K s0 k x h se \<longleftrightarrow> k \<in> K \<and> rz_rel h (snd se) \<and> vc_id (rze_current (snd se)) = p2p_id s0 \<and>
     (\<exists>e z. store_upd RW_RPQ_TABLE_SUFFIX K s0 k x e z (fst se) \<and> rz_score_is (rz_outcome h) z)"

lemma rz_histI:
  "k \<in> K \<Longrightarrow> rz_rel h e \<Longrightarrow> store_upd RW_RPQ_TABLE_SUFFIX K s0 k x e' z s \<Longrightarrow> vc_id (rze_current e) = p2p_id s0 \<Longrightarrow>
   rz_score_is (rz_outcome h) z \<Longrightarrow> rz_hist K s0 k x h (s\<lparr>dirty := dirty s + 1\<rparr>, e)"
  by (auto simp: rz_hist_def)

lemma rz_hist_zadd:
  assumes "k \<in> K" "rz_rel h e" "store_upd RW_RPQ_TABLE_SUFFIX K s0 k x e' z s" "vc_id (rze_current e) = p2p_id s0"
    "rz_SCORE e = rz_outcome h" "rz_outcome h \<noteq> None"
  shows "\<exists>s'. Option.bind (rz_SCORE e) (server_zsetAdd s k x) = Some s' \<and> rz_hist K s0 k x h (s'\<lparr>dirty := dirty s' + 1\<rparr>, e)"
proof -
  obtain v where v: "rz_outcome h = Some v" using assms(6) by auto
  obtain s' where s': "server_zsetAdd s k x v = Some s'"
    "store_upd RW_RPQ_TABLE_SUFFIX K s0 k x e' (if v = NaN then z else Some v) s'"
    using store_upd_zadd[OF assms(3,1)] by blast
  have "rz_hist K s0 k x h (s'\<lparr>dirty := dirty s' + 1\<rparr>, e)"
    by (rule rz_histI[OF assms(1,2) s'(2) assms(4)]) (simp add: v rz_score_is_def)
  then show ?thesis using s'(1) assms(5) v by simp
qed

lemma rz_apply_law:
  assumes hist: "rz_hist K s0 k x h (s, e)" and M: "vc_causal n (rz_ct ` set (h @ [c]))"
    and d: "distinct (map rz_ct (h @ [c]))" and ch: "causal_hist n [] (map rz_ct (h @ [c]))"
  shows "\<exists>se. rz_apply k x c (s, e) = Some se \<and> rz_hist K s0 k x (h @ [c]) se \<and>
    rze_current (snd se) = vc_update (rze_current e) (rz_ct c)"
proof -
  obtain e0 z where k: "k \<in> K" and rel: "rz_rel h e" and upd: "store_upd RW_RPQ_TABLE_SUFFIX K s0 k x e0 z s"
    and z: "rz_score_is (rz_outcome h) z" and "vc_id (rze_current e) = p2p_id s0" using hist by (auto simp: rz_hist_def)
  then have id: "vc_id (vc_update (rze_current e) (rz_ct c)) = p2p_id s0" by simp
  have nx: "rz_next h c" using causal_hist_last[of n "map rz_ct h" "rz_ct c"] M ch by (auto simp: rz_next_def)
  note dec = rz_decides_causal[OF M rel]
  have M0: "vc_causal n (rz_ct ` set h)" by (rule vc_causal_mono[OF M]) auto
  note sc0 = rz_rel_score[OF rel rz_live_unique[OF M0]]
  have sc: "rz_rel (h @ [c]) e1 \<Longrightarrow> if rz_LOOKUP e1 then rz_SCORE e1 = rz_outcome (h @ [c]) \<and> rz_outcome (h @ [c]) \<noteq> None
      else rz_outcome (h @ [c]) = None" for e1 by (rule rz_rel_score[OF _ rz_live_unique[OF M d]])
  show ?thesis
  proof (cases "rz_type c")
    case RZADD
    obtain e1 where e1: "rz_addFunc k x (rz_cvalue c) (rz_ct c) (s, e) = map_option (\<lambda>s1. (s1\<lparr>dirty := dirty s1 + 1\<rparr>, e1))
        (if rz_LOOKUP e1 then Option.bind (rz_SCORE e1) (server_zsetAdd s k x) else Some s)"
      "rz_rel (h @ [c]) e1" "rze_current e1 = vc_update (rze_current e) (rz_ct c)"
      using rz_add_elem[OF rel nx RZADD dec] .
    show ?thesis
    proof (cases "rz_LOOKUP e1")
      case True
      then show ?thesis using e1 rz_hist_zadd[OF k e1(2) upd] id sc[OF e1(2)] RZADD by (auto simp: rz_apply_def)
    next
      case False
      have "rze_aset e1 \<noteq> []" using e1(2) RZADD by (auto simp: rz_rel_def rz_live_adds_snoc[OF nx])
      then have "rz_live_rems h \<noteq> []" using False e1(2) RZADD
        by (auto simp: rz_LOOKUP_def rz_rel_def rz_live_rems_snoc[OF nx])
      then have "rz_score_is (rz_outcome (h @ [c])) z" using z sc[OF e1(2)] False by (simp add: rz_outcome_def[of h])
      then show ?thesis using rz_histI[OF k e1(2) upd] id e1 RZADD False by (simp add: rz_apply_def)
    qed
  next
    case RZREM
    obtain e1 where e1: "rz_removeFunc k x (rz_ct c) (s, e) = map_option (\<lambda>s1. (s1\<lparr>dirty := dirty s1 + 1\<rparr>, e1)) (server_zsetDel s k x)"
      "rz_rel (h @ [c]) e1" "rze_current e1 = vc_update (rze_current e) (rz_ct c)"
      using rz_remove_elem[OF rel nx RZREM dec] .
    obtain s1 where s1: "server_zsetDel s k x = Some s1" "store_upd RW_RPQ_TABLE_SUFFIX K s0 k x e0 None s1"
      using store_upd_zdel[OF upd k] by blast
    have "rz_score_is (rz_outcome (h @ [c])) None" using RZREM by (simp add: rz_outcome_def rz_live_rems_snoc[OF nx] rz_score_is_def)
    then show ?thesis using rz_histI[OF k e1(2) s1(2)] id e1 s1(1) RZREM by (simp add: rz_apply_def)
  next
    case RZINCBY
    obtain e1 b where e1: "rz_increaseFunc k x (rz_cvalue c) (rz_ct c) (s, e) =
        map_option (\<lambda>s1. (s1\<lparr>dirty := dirty s1 + 1\<rparr>, e1)) (if b then Option.bind (rz_SCORE e1) (server_zsetAdd s k x) else Some s)"
      "rz_LOOKUP e1 = rz_LOOKUP e" "b \<longrightarrow> rz_LOOKUP e1" "\<not> b \<longrightarrow> rz_LOOKUP e1 \<longrightarrow> rz_SCORE e1 = rz_SCORE e"
      "rz_rel (h @ [c]) e1" "rze_current e1 = vc_update (rze_current e) (rz_ct c)"
      using rz_increase_elem[OF rel nx RZINCBY dec] .
    show ?thesis
    proof (cases b)
      case True
      then show ?thesis using e1 rz_hist_zadd[OF k e1(5) upd] id sc[OF e1(5)] RZINCBY by (auto simp: rz_apply_def)
    next
      case False
      then have "rz_outcome (h @ [c]) = rz_outcome h" using sc0 sc[OF e1(5)] e1(2,4) d by (cases "rz_LOOKUP e") auto
      then show ?thesis using rz_histI[OF k e1(5) upd] id e1 RZINCBY False z by (simp add: rz_apply_def)
    qed
  qed
qed

interpretation rz: causal_ops n "rze_current \<circ> snd" rz_ct "rz_apply k x" "\<lambda>c. True" "rz_hist K s0 k x" for n k x K s0
proof unfold_locales
  fix h se c
  assume a: "rz_hist K s0 k x h se" "distinct (map rz_ct (h @ [c]))" "vc_causal n (rz_ct ` set (h @ [c]))"
    "causal_hist n [] (map rz_ct (h @ [c]))" "vector ((rze_current \<circ> snd) se) = hist_vec n (map rz_ct h)"
  obtain se' where se: "rz_apply k x c se = Some se'" "rz_hist K s0 k x (h @ [c]) se'"
    "rze_current (snd se') = vc_update (rze_current (snd se)) (rz_ct c)"
    using rz_apply_law[of K s0 k x h "fst se" "snd se" n c] a by auto
  have l: "length (vector (rz_ct d)) = n" if "d \<in> set (h @ [c])" for d
    by (rule vc_causalD(5)[OF a(3) imageI[OF that]])
  then have "length (hist_vec n (map rz_ct h)) = n" by (intro hist_vec_length) auto
  then have "vc_size (rze_current (snd se)) = vc_size (rz_ct c)" using a(5) l[of c] by (simp add: vc_size_def)
  then show "\<exists>s'. rz_apply k x c se = Some s' \<and> rz_hist K s0 k x (h @ [c]) s' \<and>
    vector ((rze_current \<circ> snd) s') = vjoin (vector ((rze_current \<circ> snd) se)) (vector (rz_ct c))"
    using se by (simp add: vc_update_vjoin)
qed

section \<open>The server\<close>

text \<open>
  \<open>cs\<close> is the list of the commands received for an element: some of them form its history \<open>h\<close>, the
  others wait and are not ready.
\<close>

definition rz_elem :: "nat \<Rightarrow> int \<Rightarrow> rz_cmd list \<Rightarrow> rze option \<Rightarrow> double option \<Rightarrow> bool" where
  "rz_elem n i cs eo z =
     (case eo of
        None \<Rightarrow> cs = [] \<and> z = None
      | Some e \<Rightarrow> \<exists>h. rz_rel h e \<and> rz_score_is (rz_outcome h) z \<and> vc_id (rze_current e) = i \<and>
          causal_hist n [] (map rz_ct h) \<and> vector (rze_current e) = hist_vec n (map rz_ct h) \<and>
          mset h + mset (rze_ops e) = mset cs \<and>
          (\<forall>c \<in> set (rze_ops e). \<not> ready_after (vector (rze_current e)) (rz_ct c)))"

definition rzset_state :: "nat \<Rightarrow> sds set \<Rightarrow> (sds \<times> sds \<Rightarrow> rz_cmd list) \<Rightarrow> rze server \<Rightarrow> bool" where
  "rzset_state n K R s \<longleftrightarrow> store_inv RW_RPQ_TABLE_SUFFIX K s \<and> replica_ok n s \<and>
     (\<forall>k \<in> K. \<forall>x. rz_elem n (p2p_id s) (R (k, x)) (elem RW_RPQ_TABLE_SUFFIX s k x) (zscore s k x))"

text \<open>The clocks of the commands received for an element belong to one execution.\<close>

definition rz_exec :: "nat \<Rightarrow> rz_cmd list \<Rightarrow> bool" where
  "rz_exec n cs \<longleftrightarrow> distinct (map rz_ct cs) \<and> vc_causal n (rz_ct ` set cs)"

lemma rz_elem_new:
  assumes "rz_elem n (p2p_id s) cs eo z" "replica_ok n s"
  shows "rz_elem n (p2p_id s) cs (Some (case eo of None \<Rightarrow> rzeNew s | Some e \<Rightarrow> e)) z"
proof (cases eo)
  case None
  have "rz_rel [] (rzeNew s)" "rz_score_is (rz_outcome []) None"
    by (simp_all add: rz_rel_def rz_ptr_def rzeNew_def rz_live_adds_def rz_live_rems_def rz_outcome_def rz_winner_def
        rz_score_is_def)
  then show ?thesis using None assms replica_ok_vc[OF assms(2)]
    by (auto simp: rz_elem_def rzeNew_def hist_vec_def intro!: exI[of _ "[]"])
qed (use assms in simp)

lemma rz_receive_causal:
  "rz_receive s k x c =
     do {
       (s1, eo) \<leftarrow> GET_RZE s k x True;
       e \<leftarrow> eo;
       ((s2, e2), ops) \<leftarrow> causal_receive (rze_current \<circ> snd) rz_ct (rz_apply k x) c ((s1, e), rze_ops e);
       PUT_RZE s2 k x (e2\<lparr>rze_ops := ops\<rparr>)
     }"
proof (cases "GET_RZE s k x True")
  case (Some g)
  show ?thesis
  proof (cases "snd g")
    case e: (Some e)
    show ?thesis using Some e unfolding rz_receive_def causal_receive_def rz_notifyLoop_def
      by (cases "vc_causally_ready (rze_current e) (rz_ct c)") (simp_all add: split_beta)
  qed (simp add: Some rz_receive_def split_beta)
qed (simp add: rz_receive_def)

lemma rz_receive_law:
  assumes st: "rzset_state n K R s" and k: "k \<in> K" and ex: "rz_exec n (R (k, x) @ [c])"
  shows "\<exists>s'. rz_receive s k x c = Some s' \<and> rzset_state n K (R((k, x) := R (k, x) @ [c])) s' \<and> senv s' = senv s"
proof -
  let ?S = RW_RPQ_TABLE_SUFFIX
  define e where "e = (case elem ?S s k x of None \<Rightarrow> rzeNew s | Some e \<Rightarrow> e)"
  have si: "store_inv ?S K s" and ro: "replica_ok n s" using st by (simp_all add: rzset_state_def)
  have "rz_elem n (p2p_id s) (R (k, x)) (Some e) (zscore s k x)"
    unfolding e_def by (rule rz_elem_new) (use st k ro in \<open>simp_all add: rzset_state_def\<close>)
  then obtain h where h: "rz_rel h e" "rz_score_is (rz_outcome h) (zscore s k x)" "vc_id (rze_current e) = p2p_id s"
    "causal_hist n [] (map rz_ct h)" "vector (rze_current e) = hist_vec n (map rz_ct h)"
    "mset h + mset (rze_ops e) = mset (R (k, x))" "\<forall>c \<in> set (rze_ops e). \<not> ready_after (vector (rze_current e)) (rz_ct c)"
    by (auto simp: rz_elem_def)
  obtain s1 where s1: "rehHTGet s k ?S x True (rzeNew s) = Some (s1, Some e)" "store_upd ?S K s k x e (zscore s k x) s1"
    using store_modify[OF si k, of x "rzeNew s", folded e_def] by blast
  have hi: "rz_hist K s k x h (s1, e)" using k h(1-3) s1(2) by (auto simp: rz_hist_def)
  have m: "mset (h @ c # rze_ops e) = mset (R (k, x) @ [c])" using h(6) by simp
  have "distinct (map rz_ct (h @ c # rze_ops e))" "vc_causal n (rz_ct ` set (h @ c # rze_ops e))"
    using ex mset_eq_imp_distinct_iff[of "map rz_ct (h @ c # rze_ops e)" "map rz_ct (R (k, x) @ [c])"] mset_eq_setD[OF m] m
    unfolding rz_exec_def by (simp_all only: mset_map)
  then have b: "rz.binv n K s k x h (s1, e) (c # rze_ops e)" using hi h(4,5) by (simp add: rz.binv_def)
  obtain h' se' ops' where r: "causal_receive (rze_current \<circ> snd) rz_ct (rz_apply k x) c ((s1, e), rze_ops e) = Some (se', ops')"
    "rz.binv n K s k x h' se' ops'" "mset h' + mset ops' = mset h + mset (c # rze_ops e)"
    "\<forall>d \<in> set ops'. \<not> ready_after (vector ((rze_current \<circ> snd) se')) (rz_ct d)"
    using rz.receive[OF b] h(7) by auto
  have b': "rz_hist K s k x h' se'" "causal_hist n [] (map rz_ct h')" "vector (rze_current (snd se')) = hist_vec n (map rz_ct h')"
    using r(2) by (simp_all add: rz.binv_def)
  obtain e0 z where z: "store_upd ?S K s k x e0 z (fst se')" "rz_score_is (rz_outcome h') z" using b'(1) by (auto simp: rz_hist_def)
  let ?e = "(snd se')\<lparr>rze_ops := ops'\<rparr>"
  obtain s' where s': "rehHTPut (fst se') k ?S x ?e = Some s'" "store_upd ?S K s k x ?e z s'"
    using store_upd_put[OF z(1) k] by blast
  have "rz_receive s k x c = Some s'"
    unfolding rz_receive_causal GET_RZE_def PUT_RZE_def using s1(1) r(1) s'(1) by (cases se') simp
  moreover have "rz_rel h' ?e" using b'(1) by (simp add: rz_hist_def rz_rel_def rz_ptr_best)
  then have "rz_elem n (p2p_id s) (R (k, x) @ [c]) (Some ?e) z"
    using z(2) b' r(3,4) h(6) by (auto simp: rz_elem_def rz_hist_def)
  then have "rzset_state n K (R((k, x) := R (k, x) @ [c])) s'"
    using st s'(2) by (auto simp: rzset_state_def store_upd_def replica_ok_def senv_def)
  moreover have "senv s' = senv s" using s'(2) by (simp add: store_upd_def)
  ultimately show ?thesis by blast
qed

end
