(* ===== verification/RZsetDelivery.thy ===== *)
theory RZsetDelivery
  imports RZsetCorrect
begin

text \<open>
  Messages of the remove-win sorted set with causal delivery (t_rzset.c): whatever the order in which
  they arrive, the commands of every element are applied in causal order; when all predecessors have arrived none
  waits, and replicas that have received the same messages have the same scores.
\<close>

section \<open>Messages\<close>

definition rz_msg_ok :: "nat \<Rightarrow> sds set \<Rightarrow> sds list \<Rightarrow> bool" where
  "rz_msg_ok n K m \<longleftrightarrow> m \<noteq> [] \<and> vc_text n (last m) \<and>
     (if m ! 0 = ''rzadd'' \<or> m ! 0 = ''rzincrby''
      then length m = 5 \<and> getDoubleFromObject (m ! 3) \<noteq> None
      else m ! 0 = ''rzrem'' \<and> length m = 4) \<and> m ! 1 \<in> K"

definition rz_cmd_of :: "sds list \<Rightarrow> rz_cmd" where
  "rz_cmd_of m =
     (if m ! 0 = ''rzadd'' then rz_cmdNew RZADD (the (getDoubleFromObject (m ! 3))) (last_vc m)
      else if m ! 0 = ''rzincrby'' then rz_cmdNew RZINCBY (the (getDoubleFromObject (m ! 3))) (last_vc m)
      else rz_cmdNew RZREM dzero (last_vc m))"

definition rz_received :: "sds list list \<Rightarrow> sds \<times> sds \<Rightarrow> rz_cmd list" where
  "rz_received ms q = map rz_cmd_of (filter (\<lambda>m. key_ele m = q) ms)"

definition rz_deliver :: "rze server \<Rightarrow> sds list \<Rightarrow> rze server option" where
  "rz_deliver s m =
     deliver (if m ! 0 = ''rzadd'' then rzaddCommand
              else if m ! 0 = ''rzincrby'' then rzincrbyCommand else rzremCommand) s m"

lemma rz_cmd_ct [simp]: "rz_ct (rz_cmd_of m) = last_vc m"
  by (simp add: rz_cmd_of_def rz_cmdNew_def)

lemma rz_deliver_receive:
  assumes ok: "rz_msg_ok n K m" and mode: "REPLICATION_MODE s"
  shows "rz_deliver s m = rz_receive s (m ! 1) (m ! 2) (rz_cmd_of m)"
proof -
  note dl = crdt_command_replica[OF mode]
  have vt: "sdsToVC (last m) = Some (last_vc m)"
    using ok by (auto simp: rz_msg_ok_def vc_text_def last_vc_def split: option.splits)
  show ?thesis
  proof (cases "m ! 0 = ''rzadd'' \<or> m ! 0 = ''rzincrby''")
    case True
    then obtain c k x y tx where m: "m = [c, k, x, y, tx]" using ok list5E[of m] unfolding rz_msg_ok_def by metis
    then show ?thesis using True ok vt dl
      by (auto simp: rz_msg_ok_def rz_deliver_def rz_cmd_of_def rzaddCommand_def rzincrbyCommand_def rzadd_effect_def
          rzincrby_effect_def arg_def)
  next
    case False
    then obtain c k x tx where m: "m = [c, k, x, tx]" using ok list4E[of m] unfolding rz_msg_ok_def by metis
    then show ?thesis using False vt dl
      by (simp add: rz_deliver_def rz_cmd_of_def rzremCommand_def rzrem_effect_def arg_def)
  qed
qed

text \<open>The clocks of the messages of every element belong to one execution.\<close>

definition rz_execution :: "nat \<Rightarrow> sds list list \<Rightarrow> bool" where
  "rz_execution n ms \<longleftrightarrow> (\<forall>m \<in> set ms. rz_exec n (rz_received ms (key_ele m)))"

text \<open>All causal predecessors of the messages are among them.\<close>

definition rz_complete :: "nat \<Rightarrow> sds list list \<Rightarrow> bool" where
  "rz_complete n ms \<longleftrightarrow> (\<forall>m \<in> set ms. vc_closed n (rz_ct ` set (rz_received ms (key_ele m))))"

lemma rz_exec_received: "rz_execution n ms \<Longrightarrow> rz_exec n (rz_received ms q)"
  by (cases "\<exists>m \<in> set ms. key_ele m = q") (auto simp: rz_execution_def rz_received_def rz_exec_def vc_causal_def filter_empty_conv
    dest!: filter_False[of ms "\<lambda>m. key_ele m = q"])

lemma rz_closed_received: "rz_complete n ms \<Longrightarrow> vc_closed n (rz_ct ` set (rz_received ms q))"
  by (cases "\<exists>m \<in> set ms. key_ele m = q") (auto simp: rz_complete_def rz_received_def vc_closed_def
    dest!: filter_False[of ms "\<lambda>m. key_ele m = q"])

lemma rz_run_law:
  assumes "rzset_state n K (rz_received ns) s" "\<forall>m \<in> set ms. rz_msg_ok n K m" "rz_execution n (ns @ ms)"
  shows "\<exists>s'. run rz_deliver s ms = Some s' \<and> rzset_state n K (rz_received (ns @ ms)) s'"
  using assms
proof (induction ms arbitrary: ns s)
  case (Cons m ms)
  let ?q = "(m ! 1, m ! 2)"
  have ok: "rz_msg_ok n K m" "m ! 1 \<in> K" using Cons.prems(2) by (simp_all add: rz_msg_ok_def)
  have mode: "REPLICATION_MODE s" using Cons.prems(1) replica_ok_mode by (auto simp: rzset_state_def)
  have R: "(rz_received ns)(?q := rz_received ns ?q @ [rz_cmd_of m]) = rz_received (ns @ [m])"
    by (rule ext) (simp add: rz_received_def key_ele_def)
  have all: "rz_exec n (rz_received (ns @ m # ms) ?q)" using rz_exec_received[OF Cons.prems(3)] .
  have "rz_exec n (rz_received ns ?q @ [rz_cmd_of m])"
    using all vc_causal_mono[of n "rz_ct ` set (rz_received (ns @ m # ms) ?q)" "rz_ct ` set (rz_received ns ?q @ [rz_cmd_of m])"]
    by (auto simp: rz_exec_def rz_received_def key_ele_def)
  then obtain s1 where s1: "rz_receive s (m ! 1) (m ! 2) (rz_cmd_of m) = Some s1" "rzset_state n K (rz_received (ns @ [m])) s1"
    using rz_receive_law[OF Cons.prems(1) ok(2), of "m ! 2" "rz_cmd_of m", unfolded R] by blast
  then show ?case using rz_deliver_receive[OF ok(1) mode] Cons.IH[OF s1(2)] Cons.prems(2,3) by simp
qed simp

lemma fresh_rzset_state:
  assumes "fresh_server RW_RPQ_TABLE_SUFFIX K s" "replica_ok n s"
  shows "rzset_state n K (rz_received []) s"
  using assms
  by (auto simp: fresh_server_def rzset_state_def store_inv_def zset_slot_def hash_slot_def elem_def zscore_def
      rz_elem_def rz_received_def)

lemma rz_fresh_run:
  assumes "fresh_server RW_RPQ_TABLE_SUFFIX K s" "replica_ok n s" "\<forall>m \<in> set ms. rz_msg_ok n K m" "rz_execution n ms"
  obtains s' where "run rz_deliver s ms = Some s'" "rzset_state n K (rz_received ms) s'"
  using rz_run_law[OF fresh_rzset_state[OF assms(1,2)] assms(3)] assms(4) by auto

text \<open>If all predecessors have arrived, nothing waits.\<close>

lemma rz_elem_complete:
  assumes el: "rz_elem n i cs eo z" and ex: "rz_exec n cs" and cl: "vc_closed n (rz_ct ` set cs)"
  shows "(case eo of None \<Rightarrow> True | Some e \<Rightarrow> rze_ops e = []) \<and>
    (\<exists>h. mset h = mset cs \<and> causal_hist n [] (map rz_ct h) \<and> rz_score_is (rz_outcome h) z)"
proof (cases eo)
  case None
  then show ?thesis using el by (auto simp: rz_elem_def rz_outcome_def rz_winner_def rz_live_adds_def rz_score_is_def
    intro!: exI[of _ "[]"])
next
  case (Some e)
  then obtain h where h: "rz_rel h e" "rz_score_is (rz_outcome h) z"
    "causal_hist n [] (map rz_ct h)" "vector (rze_current e) = hist_vec n (map rz_ct h)"
    "mset h + mset (rze_ops e) = mset cs" "\<forall>c \<in> set (rze_ops e). \<not> ready_after (vector (rze_current e)) (rz_ct c)"
    using el by (auto simp: rz_elem_def)
  have m: "mset (h @ rze_ops e) = mset cs" using h(5) by simp
  have "distinct (map rz_ct (h @ rze_ops e))" "vc_causal n (rz_ct ` set (h @ rze_ops e))"
    "vc_closed n (rz_ct ` set (h @ rze_ops e))"
    using ex cl mset_eq_imp_distinct_iff[of "map rz_ct (h @ rze_ops e)" "map rz_ct cs"] mset_eq_setD[OF m] m
    unfolding rz_exec_def by (simp_all only: mset_map)
  then have "rze_ops e = []" using causal_waits[of n rz_ct h "vector (rze_current e)" "rze_ops e"] h(3,4,6) by simp
  then show ?thesis using Some h m by auto
qed

section \<open>The outcome does not depend on the order\<close>

text \<open>
  Whole values whose sum stays below \<open>2 ^ 53\<close>, where the addition of doubles is exact.
\<close>

definition rz_int :: "rz_cmd \<Rightarrow> int" where
  "rz_int c = (case rz_cvalue c of Fin r \<Rightarrow> \<lfloor>r\<rfloor> | _ \<Rightarrow> 0)"

definition rz_whole :: "rz_cmd \<Rightarrow> bool" where
  "rz_whole c \<longleftrightarrow> rz_cvalue c = Fin (of_int (rz_int c))"

definition rz_weight :: "rz_cmd list \<Rightarrow> int" where
  "rz_weight cs = sum_list (map (\<lambda>c. \<bar>rz_int c\<bar>) cs)"

definition rz_incs :: "rz_cmd list \<Rightarrow> rz_cmd \<Rightarrow> int" where
  "rz_incs h c = sum_list (map rz_int (filter (\<lambda>d. rz_type d = RZINCBY \<and> vc_older (rz_ct c) (rz_ct d)) h))"

lemma rz_sum_weight: "\<bar>sum_list (map rz_int cs)\<bar> \<le> rz_weight cs"
  by (induction cs) (simp_all add: rz_weight_def)

lemma rz_weight_filter: "rz_weight (filter P cs) \<le> rz_weight cs"
  by (induction cs) (auto simp: rz_weight_def)

lemma rz_weight_nonneg: "0 \<le> rz_weight cs"
  by (induction cs) (simp_all add: rz_weight_def)

lemma rz_foldl_exact:
  assumes "\<forall>c \<in> set cs. rz_whole c" "\<bar>a\<bar> + rz_weight cs < 2 ^ 53"
  shows "foldl dadd (Fin (of_int a)) (map rz_cvalue cs) = Fin (of_int (a + sum_list (map rz_int cs)))"
  using assms
proof (induction cs arbitrary: a)
  case (Cons c cs)
  have b: "\<bar>a + rz_int c\<bar> + rz_weight cs < 2 ^ 53" using Cons.prems(2) by (simp add: rz_weight_def)
  then have "dadd (Fin (of_int a)) (rz_cvalue c) = Fin (of_int (a + rz_int c))"
    using Cons.prems(1) dadd_int_exact[of a "rz_int c"] rz_weight_nonneg[of cs] by (simp add: rz_whole_def)
  then show ?case using Cons.IH[OF _ b] Cons.prems(1) by (simp add: add.assoc)
qed simp

lemma rz_total_exact:
  assumes "\<forall>d \<in> set h. rz_whole d" "rz_weight h < 2 ^ 53"
  shows "rz_total h c = Fin (of_int (rz_incs h c))"
proof -
  let ?cs = "filter (\<lambda>d. rz_type d = RZINCBY \<and> vc_older (rz_ct c) (rz_ct d)) h"
  have "\<bar>0\<bar> + rz_weight ?cs < 2 ^ 53" using order_le_less_trans[OF rz_weight_filter assms(2)] by simp
  then show ?thesis using rz_foldl_exact[of ?cs 0] assms(1) by (simp add: rz_total_def rz_incs_def)
qed

text \<open>The value of an add and its increments together.\<close>

lemma rz_add_total:
  assumes w: "\<forall>d \<in> set h. rz_whole d" "rz_weight h < 2 ^ 53" and c: "c \<in> set h" "rz_type c = RZADD"
  shows "dadd (rz_cvalue c) (rz_total h c) = Fin (of_int (rz_int c + rz_incs h c))"
proof -
  let ?P = "\<lambda>d. rz_type d = RZINCBY \<and> vc_older (rz_ct c) (rz_ct d)"
  have "\<bar>rz_int c\<bar> + rz_weight (filter ?P h) \<le> rz_weight h"
  proof -
    obtain us vs where h: "h = us @ c # vs" using c(1) by (meson split_list)
    then show ?thesis using c(2) rz_weight_filter[of ?P us] rz_weight_filter[of ?P vs] by (simp add: rz_weight_def)
  qed
  then have "\<bar>rz_int c + rz_incs h c\<bar> < 2 ^ 53"
    using rz_sum_weight[of "filter ?P h"] w(2) unfolding rz_incs_def by linarith
  then show ?thesis using dadd_int_exact[of "rz_int c" "rz_incs h c"] w c(1) rz_total_exact[OF w, of c] by (simp add: rz_whole_def)
qed

lemma rz_winner_perm:
  assumes p: "mset cs = mset ds"
    and uniq: "\<forall>c \<in> set cs. \<forall>d \<in> set cs. vc_id (rz_ct c) = vc_id (rz_ct d) \<longrightarrow> c = d"
  shows "rz_winner cs = rz_winner ds"
proof (cases "rz_winner ds")
  case None
  then have "rz_winner cs = None" using mset_eq_setD[OF p] by (simp add: rz_winner_def find_None_iff)
  then show ?thesis using None by simp
next
  case (Some c)
  then have "c \<in> set ds" "\<forall>d \<in> set ds. vc_id (rz_ct d) \<le> vc_id (rz_ct c)" by (auto simp: rz_winner_def find_Some_iff)
  then show ?thesis using rz_winner_eq[of c cs] uniq Some mset_eq_setD[OF p] by simp
qed

lemma rz_outcome_perm:
  assumes p: "mset h = mset g" and w: "\<forall>d \<in> set h. rz_whole d" "rz_weight h < 2 ^ 53" and ex: "rz_exec n h"
  shows "rz_outcome h = rz_outcome g" "rz_outcome h \<noteq> Some NaN"
proof -
  note S = mset_eq_setD[OF p]
  have w': "\<forall>d \<in> set g. rz_whole d" "rz_weight g < 2 ^ 53"
    using w S p unfolding rz_weight_def sum_mset_sum_list[symmetric] mset_map by simp_all
  have la: "mset (rz_live_adds h) = mset (rz_live_adds g)" "mset (rz_live_rems h) = mset (rz_live_rems g)"
    by (simp_all add: rz_live_adds_def rz_live_rems_def S p mset_filter)
  have win: "rz_winner (rz_live_adds h) = rz_winner (rz_live_adds g)"
    by (rule rz_winner_perm[OF la(1)]) (use rz_live_unique ex in \<open>auto simp: rz_exec_def\<close>)
  have inc: "rz_incs h c = rz_incs g c" for c
    unfolding rz_incs_def sum_mset_sum_list[symmetric] mset_map mset_filter p ..
  have c: "c \<in> set h \<and> rz_type c = RZADD" if "rz_winner (rz_live_adds h) = Some c" for c
    using that by (auto simp: rz_winner_def find_Some_iff in_set_conv_nth rz_live_adds_def dest!: nth_mem)
  have "map_option (\<lambda>c. dadd (rz_cvalue c) (rz_total h c)) (rz_winner (rz_live_adds h)) =
      map_option (\<lambda>c. dadd (rz_cvalue c) (rz_total g c)) (rz_winner (rz_live_adds h))"
    by (rule option.map_cong0) (use c rz_add_total[OF w] rz_add_total[OF w'] S inc in auto)
  moreover have "rz_live_rems h = [] \<longleftrightarrow> rz_live_rems g = []" using la(2) by (metis mset_zero_iff)
  ultimately show "rz_outcome h = rz_outcome g" using win by (simp add: rz_outcome_def)
  show "rz_outcome h \<noteq> Some NaN"
    using rz_add_total[OF w] c by (auto simp: rz_outcome_def)
qed

section \<open>Delivery in any order\<close>

lemma rz_state_history:
  assumes st: "rzset_state n K (rz_received ms) s" and k: "k \<in> K"
  shows "\<exists>h w. mset h + mset w = mset (rz_received ms (k, x)) \<and> causal_hist n [] (map rz_ct h) \<and>
    rz_score_is (rz_outcome h) (zscore s k x) \<and> (\<forall>c \<in> set w. \<not> ready_after (hist_vec n (map rz_ct h)) (rz_ct c))"
proof -
  have el: "rz_elem n (p2p_id s) (rz_received ms (k, x)) (elem RW_RPQ_TABLE_SUFFIX s k x) (zscore s k x)"
    using st k by (simp add: rzset_state_def)
  show ?thesis
  proof (cases "elem RW_RPQ_TABLE_SUFFIX s k x")
    case None
    then show ?thesis using el by (auto simp: rz_elem_def rz_outcome_def rz_winner_def rz_live_adds_def rz_score_is_def)
  next
    case (Some e)
    then obtain h where "rz_score_is (rz_outcome h) (zscore s k x)" "causal_hist n [] (map rz_ct h)"
      "vector (rze_current e) = hist_vec n (map rz_ct h)" "mset h + mset (rze_ops e) = mset (rz_received ms (k, x))"
      "\<forall>c \<in> set (rze_ops e). \<not> ready_after (vector (rze_current e)) (rz_ct c)"
      using el by (auto simp: rz_elem_def)
    then show ?thesis by (intro exI[of _ h] exI[of _ "rze_ops e"]) simp
  qed
qed

lemma rz_state_complete:
  assumes st: "rzset_state n K (rz_received ms) s" and k: "k \<in> K" and ex: "rz_execution n ms" and cl: "rz_complete n ms"
  shows "(case elem RW_RPQ_TABLE_SUFFIX s k x of None \<Rightarrow> True | Some e \<Rightarrow> rze_ops e = []) \<and>
    (\<exists>h. mset h = mset (rz_received ms (k, x)) \<and> causal_hist n [] (map rz_ct h) \<and> rz_score_is (rz_outcome h) (zscore s k x))"
  by (rule rz_elem_complete[where i = "p2p_id s", OF _ rz_exec_received[OF ex] rz_closed_received[OF cl]])
    (use st k in \<open>simp add: rzset_state_def\<close>)

text \<open>
  C18 (causal delivery of the remove-win sorted set): a fresh replica accepts the messages of an
  execution in any order. The commands \<open>h\<close> it has applied to an element form a causal history,
  the score is the outcome of this history, and the other commands received for the element are
  not ready.
\<close>

theorem rzset_causal:
  assumes s: "fresh_server RW_RPQ_TABLE_SUFFIX K s" "replica_ok n s"
    and ok: "\<forall>m \<in> set ms. rz_msg_ok n K m" and ex: "rz_execution n ms"
  shows "\<exists>s'. run rz_deliver s ms = Some s' \<and> (\<forall>k \<in> K. \<forall>x. \<exists>h w.
    mset h + mset w = mset (rz_received ms (k, x)) \<and> causal_hist n [] (map rz_ct h) \<and>
    rz_score_is (rz_outcome h) (zscore s' k x) \<and> (\<forall>c \<in> set w. \<not> ready_after (hist_vec n (map rz_ct h)) (rz_ct c)))"
proof -
  obtain s' where "run rz_deliver s ms = Some s'" "rzset_state n K (rz_received ms) s'"
    using rz_fresh_run[OF s ok ex] .
  then show ?thesis using rz_state_history[of n K ms s'] by blast
qed

text \<open>
  C15 (no command waits forever): when all causal predecessors of the messages are among the
  delivered messages, the buffers \<open>ops\<close> are empty at the end and the score of every element is the
  outcome of all its commands, applied in a causal order.
\<close>

theorem rzset_nothing_waits:
  assumes s: "fresh_server RW_RPQ_TABLE_SUFFIX K s" "replica_ok n s"
    and ok: "\<forall>m \<in> set ms. rz_msg_ok n K m" and ex: "rz_execution n ms" and cl: "rz_complete n ms"
  shows "\<exists>s'. run rz_deliver s ms = Some s' \<and> (\<forall>k \<in> K. \<forall>x.
    (case elem RW_RPQ_TABLE_SUFFIX s' k x of None \<Rightarrow> True | Some e \<Rightarrow> rze_ops e = []) \<and>
    (\<exists>h. mset h = mset (rz_received ms (k, x)) \<and> causal_hist n [] (map rz_ct h) \<and> rz_score_is (rz_outcome h) (zscore s' k x)))"
proof -
  obtain s' where "run rz_deliver s ms = Some s'" "rzset_state n K (rz_received ms) s'"
    using rz_fresh_run[OF s ok ex] .
  then show ?thesis using rz_state_complete[of n K ms s'] ex cl by blast
qed

text \<open>
  C5 (convergence of the remove-win sorted set with causal delivery): two fresh replicas that
  receive the same complete set of messages in any two orders have the same scores, if the values are whole
  numbers whose absolute values sum up to less than \<open>2 ^ 53\<close>, so that sums in \<open>double\<close> are exact.
\<close>

theorem rzset_convergence:
  assumes s: "fresh_server RW_RPQ_TABLE_SUFFIX K s" "replica_ok n s"
    and t: "fresh_server RW_RPQ_TABLE_SUFFIX K t" "replica_ok n t"
    and ok: "\<forall>m \<in> set ms. rz_msg_ok n K m \<and> rz_whole (rz_cmd_of m)" and ex: "rz_execution n ms" and cl: "rz_complete n ms"
    and small: "rz_weight (map rz_cmd_of ms) < 2 ^ 53" and perm: "mset ms = mset ns"
  shows "\<exists>s' t'. run rz_deliver s ms = Some s' \<and> run rz_deliver t ns = Some t' \<and>
    (\<forall>k \<in> K. \<forall>x. zscore s' k x = zscore t' k x)"
proof -
  have S: "set ms = set ns" by (rule mset_eq_setD[OF perm])
  have rp: "mset (rz_received ms q) = mset (rz_received ns q)" for q by (simp add: rz_received_def perm mset_filter)
  have rx: "rz_exec n (rz_received ns q) = rz_exec n (rz_received ms q)" for q
    using mset_eq_setD[OF rp, of q] rp[of q] mset_eq_imp_distinct_iff[of "map rz_ct (rz_received ms q)" "map rz_ct (rz_received ns q)"]
    unfolding rz_exec_def by simp
  have ex': "rz_execution n ns" and cl': "rz_complete n ns"
    using ex cl by (auto simp: rz_execution_def rz_complete_def rx S mset_eq_setD[OF rp])
  obtain s' where s': "run rz_deliver s ms = Some s'" "rzset_state n K (rz_received ms) s'"
    using rz_fresh_run[OF s _ ex] ok by blast
  obtain t' where t': "run rz_deliver t ns = Some t'" "rzset_state n K (rz_received ns) t'"
    using rz_fresh_run[OF t _ ex'] ok S by blast
  have "zscore s' k x = zscore t' k x" if k: "k \<in> K" for k x
  proof -
    obtain h where h: "mset h = mset (rz_received ms (k, x))" "rz_score_is (rz_outcome h) (zscore s' k x)"
      using rz_state_complete[OF s'(2) k ex cl] by blast
    obtain g where g: "mset g = mset (rz_received ns (k, x))" "rz_score_is (rz_outcome g) (zscore t' k x)"
      using rz_state_complete[OF t'(2) k ex' cl'] by blast
    have hx: "rz_exec n h" using rz_exec_received[OF ex, of "(k, x)"] mset_eq_setD[OF h(1)]
        mset_eq_imp_distinct_iff[of "map rz_ct h" "map rz_ct (rz_received ms (k, x))"] h(1) by (simp add: rz_exec_def)
    have wh: "\<forall>d \<in> set h. rz_whole d" using ok mset_eq_setD[OF h(1)] by (auto simp: rz_received_def)
    have "rz_weight h = rz_weight (rz_received ms (k, x))"
      using h(1) unfolding rz_weight_def sum_mset_sum_list[symmetric] mset_map by simp
    also have "\<dots> \<le> rz_weight (map rz_cmd_of ms)"
      by (induction ms) (auto simp: rz_received_def rz_weight_def)
    finally have "rz_weight h < 2 ^ 53" using small by simp
    moreover have "mset h = mset g" using h(1) g(1) rp by simp
    ultimately have "rz_outcome h = rz_outcome g" "rz_outcome h \<noteq> Some NaN" using rz_outcome_perm[OF _ wh _ hx] by blast+
    then show ?thesis using h(2) g(2) by (auto simp: rz_score_is_def split: option.splits)
  qed
  then show ?thesis using s'(1) t'(1) by blast
qed

section \<open>Witnesses\<close>

lemma sample_rz_fresh: "fresh_server RW_RPQ_TABLE_SUFFIX {''k''} (started_server 2 i)"
  by (rule started_fresh) (simp_all add: separated_def)

text \<open>An add, an increment that has seen it, and a concurrent add of the other replica.\<close>

abbreviation (input) sample_rz_msgs :: "sds list list" where
  "sample_rz_msgs \<equiv> [[''rzadd'', ''k'', ''x'', ''5'', ''1,0|0''], [''rzincrby'', ''k'', ''x'', ''3'', ''2,0|0''],
     [''rzadd'', ''k'', ''x'', ''3'', ''0,1|1'']]"

lemma sample_rz_double: "getDoubleFromObject ''5'' = Some (Fin 5)" "getDoubleFromObject ''3'' = Some (Fin 3)"
  using string2d_text[of 5] string2d_text[of 3] by (simp_all add: getDoubleFromObject_def text_eval)

lemma sample_rz_cmds:
  "map rz_cmd_of sample_rz_msgs = [rz_cmdNew RZADD (Fin 5) \<lparr>vector = [1, 0], vc_id = 0\<rparr>,
     rz_cmdNew RZINCBY (Fin 3) \<lparr>vector = [2, 0], vc_id = 0\<rparr>, rz_cmdNew RZADD (Fin 3) \<lparr>vector = [0, 1], vc_id = 1\<rparr>]"
  by (simp add: rz_cmd_of_def last_vc_def sample_vc sample_rz_double)

lemma sample_rz_clocks:
  "vc_causal 2 {\<lparr>vector = [1, 0], vc_id = 0\<rparr>, \<lparr>vector = [2, 0], vc_id = 0\<rparr>, \<lparr>vector = [0, 1], vc_id = 1\<rparr>}"
  "vc_closed 2 {\<lparr>vector = [1, 0], vc_id = 0\<rparr>, \<lparr>vector = [2, 0], vc_id = 0\<rparr>, \<lparr>vector = [0, 1], vc_id = 1\<rparr>}"
proof -
  show "vc_causal 2 {\<lparr>vector = [1, 0], vc_id = 0\<rparr>, \<lparr>vector = [2, 0], vc_id = 0\<rparr>, \<lparr>vector = [0, 1], vc_id = 1\<rparr>}"
    by (simp add: vc_causal_def vc_wf_def vc_size_def is_int32_def vc_seq_def vc_rid_def vle_def)
  have "k = 1 \<or> k = 2" if "1 \<le> k" "k \<le> 2" for k :: int using that by linarith
  then show "vc_closed 2 {\<lparr>vector = [1, 0], vc_id = 0\<rparr>, \<lparr>vector = [2, 0], vc_id = 0\<rparr>, \<lparr>vector = [0, 1], vc_id = 1\<rparr>}"
    by (auto simp: vc_closed_def vc_seq_def vc_rid_def less_2_cases_iff)
qed

lemma sample_rz_ok:
  "\<forall>m \<in> set sample_rz_msgs. rz_msg_ok 2 {''k''} m \<and> rz_whole (rz_cmd_of m)"
  "rz_execution 2 sample_rz_msgs" "rz_complete 2 sample_rz_msgs" "rz_weight (map rz_cmd_of sample_rz_msgs) < 2 ^ 53"
proof -
  have r: "rz_received sample_rz_msgs (''k'', ''x'') = map rz_cmd_of sample_rz_msgs"
    by (simp add: rz_received_def key_ele_def)
  show "\<forall>m \<in> set sample_rz_msgs. rz_msg_ok 2 {''k''} m \<and> rz_whole (rz_cmd_of m)"
    by (simp add: rz_msg_ok_def vc_text_def sample_vc sample_rz_double vc_wf_def vc_size_def is_int32_def
        rz_whole_def rz_int_def rz_cmd_of_def rz_cmdNew_def)
  have q: "key_ele m = (''k'', ''x'')" if "m \<in> set sample_rz_msgs" for m using that by (auto simp: key_ele_def)
  show "rz_execution 2 sample_rz_msgs"
    unfolding rz_execution_def
  proof
    fix m assume "m \<in> set sample_rz_msgs"
    then show "rz_exec 2 (rz_received sample_rz_msgs (key_ele m))"
      unfolding q[OF \<open>m \<in> set sample_rz_msgs\<close>] r sample_rz_cmds
      using sample_rz_clocks(1) by (simp add: rz_exec_def rz_cmdNew_def)
  qed
  show "rz_complete 2 sample_rz_msgs"
    unfolding rz_complete_def
  proof
    fix m assume "m \<in> set sample_rz_msgs"
    then show "vc_closed 2 (rz_ct ` set (rz_received sample_rz_msgs (key_ele m)))"
      unfolding q[OF \<open>m \<in> set sample_rz_msgs\<close>] r sample_rz_cmds
      using sample_rz_clocks(2) by (simp add: rz_cmdNew_def)
  qed
  show "rz_weight (map rz_cmd_of sample_rz_msgs) < 2 ^ 53"
    unfolding sample_rz_cmds by (simp add: rz_weight_def rz_int_def rz_cmdNew_def)
qed

theorem rzset_causal_witness:
  "\<exists>s'. run rz_deliver (started_server 2 0) sample_rz_msgs = Some s' \<and> (\<forall>k \<in> {''k''}. \<forall>x. \<exists>h w.
    mset h + mset w = mset (rz_received sample_rz_msgs (k, x)) \<and> causal_hist 2 [] (map rz_ct h) \<and>
    rz_score_is (rz_outcome h) (zscore s' k x) \<and> (\<forall>c \<in> set w. \<not> ready_after (hist_vec 2 (map rz_ct h)) (rz_ct c)))"
  by (rule rzset_causal[OF sample_rz_fresh sample_replica _ sample_rz_ok(2)]) (use sample_rz_ok(1) in simp_all)

theorem rzset_nothing_waits_witness:
  "\<exists>s'. run rz_deliver (started_server 2 0) sample_rz_msgs = Some s' \<and> (\<forall>k \<in> {''k''}. \<forall>x.
    (case elem RW_RPQ_TABLE_SUFFIX s' k x of None \<Rightarrow> True | Some e \<Rightarrow> rze_ops e = []) \<and>
    (\<exists>h. mset h = mset (rz_received sample_rz_msgs (k, x)) \<and> causal_hist 2 [] (map rz_ct h) \<and>
       rz_score_is (rz_outcome h) (zscore s' k x)))"
  by (rule rzset_nothing_waits[OF sample_rz_fresh sample_replica _ sample_rz_ok(2,3)]) (use sample_rz_ok(1) in simp_all)

theorem rzset_convergence_witness:
  "\<exists>s' t'. run rz_deliver (started_server 2 0) sample_rz_msgs = Some s' \<and>
    run rz_deliver (started_server 2 1) (rev sample_rz_msgs) = Some t' \<and>
    (\<forall>k \<in> {''k''}. \<forall>x. zscore s' k x = zscore t' k x)"
  by (rule rzset_convergence[OF sample_rz_fresh sample_replica sample_rz_fresh sample_replica sample_rz_ok])
    (simp_all add: add_mset_commute)

end
