(* ===== verification/ClusterTypes.thy ===== *)
theory ClusterTypes
  imports Cluster
begin

text \<open>
  Clusters of the observed-remove set (t_oset.c) and of the remove-win set (t_rwfset.c): from the
  commands of the users to the bytes on the connections and back.
\<close>

section \<open>The table entries of the sets\<close>

lemma lookup_sets:
  "lookupCommand ''osadd'' = Some (cmd ''osadd'' OsaddCommand (-3) ''write use-memory fast'')"
  "lookupCommand ''osrem'' = Some (cmd ''osrem'' OsremCommand (-3) ''write fast'')"
  "lookupCommand ''oscontains'' = Some (cmd ''oscontains'' OscontainsCommand 3 ''read-only fast'')"
  "lookupCommand ''ossize'' = Some (cmd ''ossize'' OssizeCommand 2 ''read-only fast'')"
  "lookupCommand ''rwfsadd'' = Some (cmd ''rwfsadd'' RwfsaddCommand (-3) ''write use-memory fast'')"
  "lookupCommand ''rwfsrem'' = Some (cmd ''rwfsrem'' RwfsremCommand (-3) ''write fast'')"
  "lookupCommand ''rwfscontains'' = Some (cmd ''rwfscontains'' RwfscontainsCommand 3 ''read-only fast'')"
  "lookupCommand ''rwfssize'' = Some (cmd ''rwfssize'' RwfssizeCommand 2 ''read-only fast'')"
  by code_simp+

lemmas dispatch_sets = dispatch_def lookup_sets arity_ok_def cmd_def

lemma process_user: "dispatch args = Some (Inr p) \<Longrightarrow> h p = Some proc \<Longrightarrow>
    processCommand h s (user_client args) = call proc s (user_client args)"
  by (simp add: processCommand_def user_client_def)

lemma exec_deliver: "dispatch m = Some (Inr p) \<Longrightarrow> h p = Some proc \<Longrightarrow> replica_exec h s m = deliver proc s m"
  by (simp add: replica_exec_def processCommand_def replica_client_def deliver_def)

text \<open>The queries answer without a change of the server.\<close>

lemma query_contains:
  assumes "store_inv suf K s" "k \<in> K"
  shows "\<exists>c. call zset_containsCommand s (user_client [n, k, x]) = Some (s, c) \<and> rargv c = None"
  using store_inv_slots[OF assms]
  by (auto simp: call_def zset_containsCommand_def arg_def user_client_def lookupKey_def addReply_def zset_slot_def
      split: option.splits robj.splits)

lemma query_size:
  assumes "store_inv suf K s" "k \<in> K"
  shows "\<exists>c. call zset_sizeCommand s (user_client [n, k]) = Some (s, c) \<and> rargv c = None"
  using store_inv_slots[OF assms]
  by (auto simp: call_def zset_sizeCommand_def arg_def user_client_def lookupKey_def addReply_def zset_slot_def
      split: option.splits robj.splits)

section \<open>The observed-remove set\<close>

text \<open>
  The commands of users: an added element is an integer, and its counter has not reached the
  largest \<open>int\<close>.
\<close>

definition os_user_ok :: "sds set \<Rightarrow> ose server \<Rightarrow> sds list \<Rightarrow> bool" where
  "os_user_ok K s args \<longleftrightarrow> (\<exists>k \<in> K. \<exists>x.
     args = [''osadd'', k, x] \<and> getLongLongFromObject x \<noteq> None \<and> os_clock (k, x) s < 2 ^ 31 - 1 \<or>
     args = [''osrem'', k, x] \<or> args = [''oscontains'', k, x] \<or> args = [''ossize'', k])"

definition os_hist :: "sds set \<Rightarrow> sds list list \<Rightarrow> ose server \<Rightarrow> bool" where
  "os_hist K H s \<longleftrightarrow> oset_inv K s \<and> (\<forall>m \<in> set H. os_msg_ok K m) \<and> 0 \<le> p2p_id s \<and> is_int32 (p2p_id s) \<and>
     (\<forall>k \<in> K. \<forall>x. 0 \<le> os_clock (k, x) s) \<and>
     (\<forall>k \<in> K. \<forall>x. oset_view (k, x) s = fold os_astep (filter (\<lambda>m. os_target m = (k, x)) H) ({}, {}))"

lemma os_histI:
  assumes "os_hist K H s" "os_msg_ok K m" "oset_inv K s'" "senv s' = senv s" "\<forall>k \<in> K. \<forall>x. 0 \<le> os_clock (k, x) s'"
    "\<forall>q. oset_view q s' = (if q = os_target m then os_astep m (oset_view q s) else oset_view q s)"
  shows "os_hist K (H @ [m]) s'"
proof -
  have "oset_view (k, x) s' = fold os_astep (filter (\<lambda>m. os_target m = (k, x)) (H @ [m])) ({}, {})" if "k \<in> K" for k x
    using assms(1,6) that by (cases "os_target m = (k, x)") (simp_all add: os_hist_def)
  then show ?thesis using assms(1-5) by (simp add: os_hist_def senv_def)
qed

lemma os_exec:
  assumes hist: "os_hist K H s" and ok: "os_msg_ok K m"
  shows "\<exists>s'. replica_exec oset_handlers s m = Some s' \<and> os_hist K (H @ [m]) s' \<and> replicas s' = replicas s"
proof -
  have inv: "oset_inv K s" and clk: "\<forall>k \<in> K. \<forall>x. 0 \<le> os_clock (k, x) s" using hist by (simp_all add: os_hist_def)
  note mode = oset_inv_mode[OF inv]
  from ok show ?thesis
  proof (cases rule: os_msg_cases)
    case (add c k x tag t v)
    have "replica_exec oset_handlers s m = osadd_effect s m"
      using exec_deliver[of m OsaddCommand oset_handlers osaddCommand s] crdt_command_replica[OF mode] add(1,2)
      by (simp add: dispatch_sets oset_handlers_def osaddCommand_def)
    moreover obtain s' where s': "osadd_effect s m = Some s'" "oset_inv K s'" "senv s' = senv s"
      "\<forall>q. os_clock q s' = os_clock q s" "\<forall>q. oset_view q s' =
        (if q = (k, x) then (fst (oset_view q s) \<union> ({t} - snd (oset_view q s)), snd (oset_view q s)) else oset_view q s)"
      using osadd_effect_spec[OF inv add(3,4,5,6), of c] add(1) by auto
    moreover have "os_hist K (H @ [m]) s'"
      using s' add(1,2,7) clk by (intro os_histI[OF hist ok]) (auto simp: os_target_def os_astep_def split_beta Let_def)
    ultimately show ?thesis by (simp add: senv_def)
  next
    case (rem c k x tags)
    have "replica_exec oset_handlers s m = osrem_effect s m"
      using exec_deliver[of m OsremCommand oset_handlers osremCommand s] crdt_command_replica[OF mode] rem(1,2)
      by (simp add: dispatch_sets oset_handlers_def osremCommand_def)
    moreover obtain s' where s': "osrem_effect s m = Some s'" "oset_inv K s'" "senv s' = senv s"
      "\<forall>q. os_clock q s' = os_clock q s" "\<forall>q. oset_view q s' =
        (if q = (k, x) then (fst (oset_view q s) - parsed_tags tags, snd (oset_view q s) \<union> parsed_tags tags) else oset_view q s)"
      using osrem_effect_spec[OF inv rem(3,4), of c x] rem(1) by auto
    moreover have "os_hist K (H @ [m]) s'"
      using s' rem(1,2) clk by (intro os_histI[OF hist ok]) (auto simp: os_target_def os_astep_def split_beta Let_def)
    ultimately show ?thesis by (simp add: senv_def)
  qed
qed

lemma os_hist_output: "length r = length (replicas s) \<Longrightarrow> os_hist K H (s\<lparr>replicas := r\<rparr>) = os_hist K H s"
  by (auto simp: os_hist_def oset_inv_def oset_view_def os_clock_def REPLICATION_MODE_def)

text \<open>A user command is an effect of its own message after the prepare phase.\<close>

abbreviation (input) user_result :: "(sds list list \<Rightarrow> 'v server \<Rightarrow> bool) \<Rightarrow> (sds list \<Rightarrow> bool) \<Rightarrow> sds list list \<Rightarrow> 'v server \<Rightarrow> 'v server \<Rightarrow> client \<Rightarrow> bool" where
  "user_result hist ok H s s' cl \<equiv>
     (case rargv cl of
        None \<Rightarrow> hist H s' \<and> replicas s' = replicas s
      | Some m \<Rightarrow> ok m \<and> hist (H @ [m]) s' \<and> replicas s' = replicationBroadcast (replicas s) m)"

lemma os_user_add:
  assumes hist: "os_hist K H s" and k: "k \<in> K" and v: "getLongLongFromObject x = Some v" and room: "os_clock (k, x) s < 2 ^ 31 - 1"
  shows "\<exists>s' cl. call osaddCommand s (user_client [''osadd'', k, x]) = Some (s', cl) \<and> user_result (os_hist K) (os_msg_ok K) H s s' cl"
proof -
  have inv: "oset_inv K s" and clk: "\<forall>k \<in> K. \<forall>x. 0 \<le> os_clock (k, x) s" and id: "0 \<le> p2p_id s" "is_int32 (p2p_id s)"
    using hist by (simp_all add: os_hist_def)
  note mode = oset_inv_mode[OF inv]
  show ?thesis
  proof (cases "fst (oset_view (k, x) s) = {}")
    case False
    then show ?thesis using crdt_command_reject[OF mode, of osadd_prepare] osadd_prepare_exists[OF inv k] hist
      by (auto simp: osaddCommand_def user_client_def)
  next
    case True
    let ?t = "lc_new (os_clock (k, x) s) (p2p_id s)" and ?m = "[''osadd'', k, x, lcToSds (lc_new (os_clock (k, x) s) (p2p_id s))]"
    have wf: "lc_nonneg ?t" using clk[rule_format, OF k, of x] room id by (simp add: lc_nonneg_def lc_wf_def lc_new_def is_int32_def)
    have rt: "sdsToLc (lcToSds ?t) = Some ?t" using wf by (simp add: lc_roundtrip)
    have ok: "os_msg_ok K ?m" using k v tag_text_print[OF wf] by (simp add: os_msg_ok_def)
    have pt: "parsed_tags [lcToSds ?t] = {?t}" by (simp add: parsed_tags_def rt)
    obtain s1 where s1: "osadd_prepare s [''osadd'', k, x] = Some (s1, Inr [lcToSds ?t])" "oset_inv K s1" "senv s1 = senv s"
      "\<forall>q. oset_view q s1 = oset_view q s" "\<forall>q. os_clock q s1 = (if q = (k, x) then int32 (os_clock q s + 1) else os_clock q s)"
      using osadd_prepare_new[OF inv k True] by blast
    obtain s2 where s2: "osadd_effect s1 ?m = Some s2" "oset_inv K s2" "senv s2 = senv s1"
      "\<forall>q. os_clock q s2 = os_clock q s1" "\<forall>q. oset_view q s2 =
        (if q = (k, x) then (fst (oset_view q s1) \<union> ({?t} - snd (oset_view q s1)), snd (oset_view q s1)) else oset_view q s1)"
      using osadd_effect_spec[OF s1(2) k rt wf v] by blast
    have "int32 (os_clock (k, x) s + 1) = os_clock (k, x) s + 1" using clk[rule_format, OF k, of x] room by (simp add: is_int32_def)
    then have "\<forall>k \<in> K. \<forall>x. 0 \<le> os_clock (k, x) s2" using s1(5) s2(4) clk by auto
    then have "os_hist K (H @ [?m]) s2"
      using s1 s2 pt by (intro os_histI[OF hist ok]) (auto simp: os_target_def os_astep_def split_beta Let_def)
    moreover have "call osaddCommand s (user_client [''osadd'', k, x]) =
        Some (s2\<lparr>replicas := replicationBroadcast (replicas s2) ?m\<rparr>, (user_client [''osadd'', k, x])\<lparr>rargv := Some ?m, replies := [ReplyOk]\<rparr>)"
      unfolding osaddCommand_def using crdt_command_user[where prep = osadd_prepare and eff = osadd_effect, OF mode s1(1)] s2(1) by simp
    ultimately show ?thesis using ok s1(3) s2(3) by (simp add: os_hist_output senv_def replicationBroadcast_def)
  qed
qed

text \<open>A remove names all tags of the element; if they do not fit into the buffer of the broadcast, it faults.\<close>

lemma os_user_rem:
  assumes hist: "os_hist K H s" and k: "k \<in> K" and call: "call osremCommand s (user_client [''osrem'', k, x]) = Some (s', cl)"
  shows "user_result (os_hist K) (os_msg_ok K) H s s' cl"
proof -
  have inv: "oset_inv K s" and clk: "\<forall>k \<in> K. \<forall>x. 0 \<le> os_clock (k, x) s" using hist by (simp_all add: os_hist_def)
  note mode = oset_inv_mode[OF inv]
  show ?thesis
  proof (cases "fst (oset_view (k, x) s) = {}")
    case True
    then show ?thesis using crdt_command_reject[OF mode, of osrem_prepare] osrem_prepare_spec[OF inv k] hist call
      by (auto simp: osremCommand_def user_client_def)
  next
    case False
    then obtain e where e: "elem ORI_SET_TABLE_SUFFIX s k x = Some e" by (auto simp: oset_view_def split: option.splits)
    let ?tags = "map (\<lambda>a. lcToSds (oa_t a)) (ose_aset e)" and ?m = "''osrem'' # k # x # map (\<lambda>a. lcToSds (oa_t a)) (ose_aset e)"
    have "\<forall>a \<in> set (ose_aset e). lc_nonneg (oa_t a)"
      using oset_elem_inv(1)[OF inv k, of x] e by (auto simp: ose_inv_def ose_winv_def)
    then have tx: "\<forall>y \<in> set ?tags. tag_text y" using tag_text_print by auto
    have ok: "os_msg_ok K ?m" using k tx by (simp add: os_msg_ok_def)
    have p: "osrem_prepare s [''osrem'', k, x] = Some (s, Inr ?tags)" using osrem_prepare_spec[OF inv k] False e by simp
    obtain s2 where s2: "osrem_effect s ?m = Some s2" "oset_inv K s2" "senv s2 = senv s"
      "\<forall>q. os_clock q s2 = os_clock q s" "\<forall>q. oset_view q s2 =
        (if q = (k, x) then (fst (oset_view q s) - parsed_tags ?tags, snd (oset_view q s) \<union> parsed_tags ?tags) else oset_view q s)"
      using osrem_effect_spec[OF inv k tx] by blast
    have "os_hist K (H @ [?m]) s2"
      using s2 clk by (intro os_histI[OF hist ok]) (auto simp: os_target_def os_astep_def split_beta Let_def)
    moreover have "s' = s2\<lparr>replicas := replicationBroadcast (replicas s2) ?m\<rparr>" "rargv cl = Some ?m"
      using crdt_command_user_result[where prep = osrem_prepare and eff = osrem_effect, OF mode p] s2(1) call by (simp_all add: osremCommand_def)
    ultimately show ?thesis using ok s2(3) by (simp add: os_hist_output senv_def replicationBroadcast_def)
  qed
qed

lemma os_user:
  assumes hist: "os_hist K H s" and u: "os_user_ok K s args" and p: "processCommand oset_handlers s (user_client args) = Some (s', cl)"
  shows "user_result (os_hist K) (os_msg_ok K) H s s' cl"
proof -
  have st: "store_inv ORI_SET_TABLE_SUFFIX K s" using hist by (simp add: os_hist_def oset_inv_def)
  obtain k x where k: "k \<in> K" and a: "args = [''osadd'', k, x] \<and> getLongLongFromObject x \<noteq> None \<and> os_clock (k, x) s < 2 ^ 31 - 1 \<or>
     args = [''osrem'', k, x] \<or> args = [''oscontains'', k, x] \<or> args = [''ossize'', k]" using u by (auto simp: os_user_ok_def)
  then consider "args = [''osadd'', k, x]" "getLongLongFromObject x \<noteq> None" "os_clock (k, x) s < 2 ^ 31 - 1"
    | "args = [''osrem'', k, x]" | "args = [''oscontains'', k, x]" | "args = [''ossize'', k]" by blast
  then show ?thesis
  proof cases
    case 1
    then show ?thesis using os_user_add[OF hist k, of x] process_user[of args OsaddCommand oset_handlers osaddCommand s] p
      by (auto simp: dispatch_sets oset_handlers_def)
  next
    case 2
    then show ?thesis using os_user_rem[OF hist k, of x s' cl] process_user[of args OsremCommand oset_handlers osremCommand s] p
      by (auto simp: dispatch_sets oset_handlers_def)
  next
    case 3
    then show ?thesis using query_contains[OF st k, of "''oscontains''" x] hist process_user[of args OscontainsCommand oset_handlers oscontainsCommand s] p
      by (auto simp: dispatch_sets oset_handlers_def oscontainsCommand_def)
  next
    case 4
    then show ?thesis using query_size[OF st k, of "''ossize''"] hist process_user[of args OssizeCommand oset_handlers ossizeCommand s] p
      by (auto simp: dispatch_sets oset_handlers_def ossizeCommand_def)
  qed
qed

definition same_scores :: "sds set \<Rightarrow> 'v server \<Rightarrow> 'v server \<Rightarrow> bool" where
  "same_scores K s t \<longleftrightarrow> (\<forall>k \<in> K. \<forall>x. zscore s k x = zscore t k x)"

lemma os_agree:
  assumes "os_hist K H s" "os_hist K G t" "mset H = mset G"
  shows "same_scores K s t"
proof -
  have "oset_view (k, x) s = oset_view (k, x) t" if "k \<in> K" for k x
    using assms that os.fold_order[of "filter (\<lambda>m. os_target m = (k, x)) H" "filter (\<lambda>m. os_target m = (k, x)) G" K "({}, {})"]
    by (simp add: os_hist_def mset_filter)
  moreover have "oset_inv K s" "oset_inv K t" using assms by (simp_all add: os_hist_def)
  ultimately show ?thesis using oset_member_view[of K s] oset_member_view[of K t] by (simp add: same_scores_def)
qed

interpretation osc: replicated_type oset_handlers "os_user_ok K" "os_msg_ok K" "os_hist K" "same_scores K" for K
  by unfold_locales (fact os_hist_output os_exec os_user os_agree)+

section \<open>The remove-win set\<close>

definition rwfs_user_ok :: "nat \<Rightarrow> sds set \<Rightarrow> rwfse server \<Rightarrow> sds list \<Rightarrow> bool" where
  "rwfs_user_ok n K s args \<longleftrightarrow> (\<exists>k \<in> K. \<exists>x. args = [''rwfsadd'', k, x] \<or>
     args = [''rwfsrem'', k, x] \<and> fst (rwfset_view n (k, x) s) ! nat (p2p_id s) < 2 ^ 31 - 1 \<or>
     args = [''rwfscontains'', k, x] \<or> args = [''rwfssize'', k])"

definition rwfs_hist :: "nat \<Rightarrow> sds set \<Rightarrow> sds list list \<Rightarrow> rwfse server \<Rightarrow> bool" where
  "rwfs_hist n K H s \<longleftrightarrow> rwfset_inv n K s \<and> (\<forall>m \<in> set H. rwfs_msg_ok n K m) \<and>
     (\<forall>k \<in> K. \<forall>x. rwfset_view n (k, x) s = fold rwfs_astep (filter (\<lambda>m. key_ele m = (k, x)) H) (replicate n 0, PID_NEXIST))"

lemma rwfs_histI:
  assumes "rwfs_hist n K H s" "rwfs_msg_ok n K m" "rwfset_inv n K s'"
    "\<forall>q. rwfset_view n q s' = (if q = key_ele m then rwfs_astep m (rwfset_view n q s) else rwfset_view n q s)"
  shows "rwfs_hist n K (H @ [m]) s'"
proof -
  have "rwfset_view n (k, x) s' = fold rwfs_astep (filter (\<lambda>m. key_ele m = (k, x)) (H @ [m])) (replicate n 0, PID_NEXIST)"
    if "k \<in> K" for k x
    using assms(1,4) that by (cases "key_ele m = (k, x)") (simp_all add: rwfs_hist_def)
  then show ?thesis using assms(1-3) by (simp add: rwfs_hist_def)
qed

lemma rwfs_fold_order:
  assumes p: "mset H = mset G" and ok: "\<forall>m \<in> set H. rwfs_msg_ok n K m" and c: "length c = n"
  shows "fold rwfs_astep H (c, p0) = fold rwfs_astep G (c, p0)"
proof -
  have l: "length (msg_stamp m) = n" if "m \<in> set H" for m using rwfs.stamp_length ok that by blast
  have S: "set H = set G" by (rule mset_eq_setD[OF p])
  have J: "fold (\<lambda>m c. vjoin c (msg_stamp m)) H c = fold (\<lambda>m c. vjoin c (msg_stamp m)) G c" (is "?J = _")
    by (rule vec.fold_join_order[where n = n]) (use l c S in simp_all)
  have A: "fold rwfs_act (filter (\<lambda>m. msg_stamp m = ?J) H) q = fold rwfs_act (filter (\<lambda>m. msg_stamp m = ?J) G) q" for q
    by (rule rwfs.act_order[where n = n and K = K]) (use p ok in \<open>auto simp: mset_filter\<close>)
  have lH: "\<forall>m \<in> set H. length (msg_stamp m) = n" and lG: "\<forall>m \<in> set G. length (msg_stamp m) = n" using l S by auto
  show ?thesis unfolding rwfs_astep_def vec.stamped_fold[OF c lH] vec.stamped_fold[OF c lG] using J A by simp
qed

lemma rwfs_exec:
  assumes hist: "rwfs_hist n K H s" and ok: "rwfs_msg_ok n K m"
  shows "\<exists>s'. replica_exec rwfset_handlers s m = Some s' \<and> rwfs_hist n K (H @ [m]) s' \<and> replicas s' = replicas s"
proof -
  have inv: "rwfset_inv n K s" using hist by (simp add: rwfs_hist_def)
  have mode: "REPLICATION_MODE s" using inv replica_ok_mode by (auto simp: rwfset_inv_def)
  obtain c k x tx where m: "m = [c, k, x, tx]" using ok list4E[of m] unfolding rwfs_msg_ok_def by blast
  have k: "k \<in> K" "vc_text n tx" using ok by (simp_all add: rwfs_msg_ok_def m)
  have "\<exists>s'. replica_exec rwfset_handlers s m = Some s' \<and> rwfset_inv n K s' \<and> senv s' = senv s \<and>
      (\<forall>q. rwfset_view n q s' = (if q = (k, x) then rwfs_astep m (rwfset_view n q s) else rwfset_view n q s))"
  proof (cases "c = ''rwfsadd''")
    case True
    then have "replica_exec rwfset_handlers s m = rwfsadd_effect s m" "getLongLongFromObject x \<noteq> None"
      using exec_deliver[of m RwfsaddCommand rwfset_handlers rwfsaddCommand s] crdt_command_replica[OF mode] ok m
      by (simp_all add: dispatch_sets rwfset_handlers_def rwfsaddCommand_def rwfs_msg_ok_def)
    then show ?thesis using rwfsadd_effect_spec[OF inv k, of x m] True m by simp
  next
    case False
    then have c: "c = ''rwfsrem''" using ok m by (simp add: rwfs_msg_ok_def)
    then have "replica_exec rwfset_handlers s m = rwfsrem_effect s m"
      using exec_deliver[of m RwfsremCommand rwfset_handlers rwfsremCommand s] crdt_command_replica[OF mode] m
      by (simp add: dispatch_sets rwfset_handlers_def rwfsremCommand_def)
    then show ?thesis using rwfsrem_effect_spec[OF inv k, of m x] c m by simp
  qed
  then show ?thesis using rwfs_histI[OF hist ok] m by (fastforce simp: key_ele_def senv_def)
qed

lemma rwfs_hist_output: "length r = length (replicas s) \<Longrightarrow> rwfs_hist n K H (s\<lparr>replicas := r\<rparr>) = rwfs_hist n K H s"
  by (simp add: rwfs_hist_def rwfset_inv_def rwfset_view_def replica_ok_def rwfs_inv_env[of "s\<lparr>replicas := r\<rparr>" s])

text \<open>The end of a user command that is not refused.\<close>

lemma rwfs_user_effect:
  assumes hist: "rwfs_hist n K H s" and s1: "rwfset_inv n K s1" "senv s1 = senv s" "\<forall>q. rwfset_view n q s1 = rwfset_view n q s"
    and ok: "rwfs_msg_ok n K m" and m: "m = [c, k, x, t]"
    and eff: "\<exists>s'. eff s1 m = Some s' \<and> rwfset_inv n K s' \<and> senv s' = senv s1 \<and>
      (\<forall>q. rwfset_view n q s' = (if q = (k, x) then rwfs_astep m (rwfset_view n q s1) else rwfset_view n q s1))"
    and p: "prep s [c, k, x] = Some (s1, Inr [t])"
  shows "\<exists>s' cl. call (crdt_command prep eff) s (user_client [c, k, x]) = Some (s', cl) \<and>
    user_result (rwfs_hist n K) (rwfs_msg_ok n K) H s s' cl"
proof -
  have mode: "REPLICATION_MODE s" using hist replica_ok_mode by (auto simp: rwfs_hist_def rwfset_inv_def)
  obtain s2 where s2: "eff s1 m = Some s2" "rwfset_inv n K s2" "senv s2 = senv s1"
    "\<forall>q. rwfset_view n q s2 = (if q = (k, x) then rwfs_astep m (rwfset_view n q s1) else rwfset_view n q s1)" using eff by blast
  have "rwfs_hist n K (H @ [m]) s2" using s2 s1(3) m by (intro rwfs_histI[OF hist ok]) (simp_all add: key_ele_def)
  moreover have "call (crdt_command prep eff) s (user_client [c, k, x]) =
      Some (s2\<lparr>replicas := replicationBroadcast (replicas s2) m\<rparr>, (user_client [c, k, x])\<lparr>rargv := Some m, replies := [ReplyOk]\<rparr>)"
    using crdt_command_user[where prep = prep and eff = eff, OF mode p] s2(1) m by simp
  ultimately show ?thesis using ok s1(2) s2(3) by (simp add: rwfs_hist_output senv_def replicationBroadcast_def)
qed

lemma rwfs_user:
  assumes hist: "rwfs_hist n K H s" and u: "rwfs_user_ok n K s args"
  shows "\<exists>s' cl. processCommand rwfset_handlers s (user_client args) = Some (s', cl) \<and>
    user_result (rwfs_hist n K) (rwfs_msg_ok n K) H s s' cl"
proof -
  have inv: "rwfset_inv n K s" using hist by (simp add: rwfs_hist_def)
  have st: "store_inv RWF_SET_TABLE_SUFFIX K s" using inv by (simp add: rwfset_inv_def)
  have "REPLICATION_MODE s" using inv replica_ok_mode by (auto simp: rwfset_inv_def)
  note rej = crdt_command_reject[OF this]
  obtain k x where k: "k \<in> K" and "args = [''rwfsadd'', k, x] \<or>
     args = [''rwfsrem'', k, x] \<and> fst (rwfset_view n (k, x) s) ! nat (p2p_id s) < 2 ^ 31 - 1 \<or>
     args = [''rwfscontains'', k, x] \<or> args = [''rwfssize'', k]" using u by (auto simp: rwfs_user_ok_def)
  then consider "args = [''rwfsadd'', k, x]" | "args = [''rwfsrem'', k, x]" "fst (rwfset_view n (k, x) s) ! nat (p2p_id s) < 2 ^ 31 - 1"
    | "args = [''rwfscontains'', k, x]" | "args = [''rwfssize'', k]" by blast
  then show ?thesis
  proof cases
    case 1
    have pr: "processCommand rwfset_handlers s (user_client args) = call rwfsaddCommand s (user_client args)"
      using process_user[of args RwfsaddCommand rwfset_handlers rwfsaddCommand s] 1 by (simp add: dispatch_sets rwfset_handlers_def)
    show ?thesis
    proof (cases "getLongLongFromObject x = None \<or> zscore s k x \<noteq> None")
      case True
      then obtain msg where "rwfsadd_prepare s args = Some (s, Inl msg)" using rwfs_prepare_reject(1,3)[OF inv k] 1 by blast
      then show ?thesis using rej[of rwfsadd_prepare] hist unfolding pr rwfsaddCommand_def by (auto simp: user_client_def)
    next
      case False
      then have v: "getLongLongFromObject x \<noteq> None" and new: "snd (rwfset_view n (k, x) s) = PID_NEXIST"
        using rwfset_member(2)[OF inv k, of x] by simp_all
      obtain s1 t where s1: "rwfsadd_prepare s [''rwfsadd'', k, x] = Some (s1, Inr [t])" "rwfset_inv n K s1"
        "senv s1 = senv s" "\<forall>q. rwfset_view n q s1 = rwfset_view n q s" "vc_text n t"
        using rwfsadd_prepare_new[OF inv k v new] by blast
      have "rwfs_msg_ok n K [''rwfsadd'', k, x, t]" using k v s1(5) by (simp add: rwfs_msg_ok_def)
      then show ?thesis unfolding 1 pr[unfolded 1 rwfsaddCommand_def]
        by (intro rwfs_user_effect[where prep = rwfsadd_prepare and eff = rwfsadd_effect, OF hist s1(2,3,4) _ refl rwfsadd_effect_spec[OF s1(2) k s1(5) v refl] s1(1)])
    qed
  next
    case 2
    have pr: "processCommand rwfset_handlers s (user_client args) = call rwfsremCommand s (user_client args)"
      using process_user[of args RwfsremCommand rwfset_handlers rwfsremCommand s] 2 by (simp add: dispatch_sets rwfset_handlers_def)
    show ?thesis
    proof (cases "zscore s k x = None")
      case True
      then show ?thesis using rej[of rwfsrem_prepare] rwfs_prepare_reject(2)[OF inv k True, of "''rwfsrem''"] hist 2(1)
        unfolding pr rwfsremCommand_def by (auto simp: user_client_def)
    next
      case False
      then have old: "snd (rwfset_view n (k, x) s) \<noteq> PID_NEXIST" using rwfset_member(2)[OF inv k, of x] by simp
      obtain t where t: "rwfsrem_prepare s [''rwfsrem'', k, x] = Some (s, Inr [t])" "vc_text n t"
        using rwfsrem_prepare_present[OF inv k old 2(2)] by blast
      have "rwfs_msg_ok n K [''rwfsrem'', k, x, t]" using k t(2) by (simp add: rwfs_msg_ok_def)
      then show ?thesis unfolding 2(1) pr[unfolded 2(1) rwfsremCommand_def]
        by (intro rwfs_user_effect[where prep = rwfsrem_prepare and eff = rwfsrem_effect, OF hist inv refl _ _ refl rwfsrem_effect_spec[OF inv k t(2) refl] t(1)]) simp_all
    qed
  next
    case 3
    then show ?thesis using query_contains[OF st k] hist process_user[of args RwfscontainsCommand rwfset_handlers rwfscontainsCommand s]
      by (fastforce simp: dispatch_sets rwfset_handlers_def rwfscontainsCommand_def)
  next
    case 4
    then show ?thesis using query_size[OF st k] hist process_user[of args RwfssizeCommand rwfset_handlers rwfssizeCommand s]
      by (fastforce simp: dispatch_sets rwfset_handlers_def rwfssizeCommand_def)
  qed
qed

lemma rwfs_agree:
  assumes "rwfs_hist n K H s" "rwfs_hist n K G t" "mset H = mset G"
  shows "same_scores K s t"
proof -
  have i: "rwfset_inv n K s" "rwfset_inv n K t" using assms by (simp_all add: rwfs_hist_def)
  have "rwfset_view n (k, x) s = rwfset_view n (k, x) t" if "k \<in> K" for k x
    using assms that rwfs_fold_order[of "filter (\<lambda>m. key_ele m = (k, x)) H" "filter (\<lambda>m. key_ele m = (k, x)) G" n K "replicate n 0"]
    by (simp add: rwfs_hist_def mset_filter)
  then show ?thesis by (simp add: same_scores_def rwfset_member(1)[OF i(1)] rwfset_member(1)[OF i(2)])
qed

lemma rwfs_user_result:
  assumes "rwfs_hist n K H s" "rwfs_user_ok n K s args" "processCommand rwfset_handlers s (user_client args) = Some (s', cl)"
  shows "user_result (rwfs_hist n K) (rwfs_msg_ok n K) H s s' cl"
  using rwfs_user[OF assms(1,2)] assms(3) by auto

lemma rwfs_user_total: "rwfs_hist n K H s \<Longrightarrow> rwfs_user_ok n K s args \<Longrightarrow> processCommand rwfset_handlers s (user_client args) \<noteq> None"
  using rwfs_user by fastforce

interpretation rwfsc: total_type rwfset_handlers "rwfs_user_ok n K" "rwfs_msg_ok n K" "rwfs_hist n K" "same_scores K" for n K
  by unfold_locales (fact rwfs_hist_output rwfs_exec rwfs_user_result rwfs_agree rwfs_user_total)+

section \<open>A small cluster\<close>

lemma fresh_os_hist: "fresh_server ORI_SET_TABLE_SUFFIX K s \<Longrightarrow> replica_ok n s \<Longrightarrow> os_hist K [] s"
  using fresh_oset_inv[of K s]
  by (auto simp: os_hist_def replica_ok_def is_int32_def fresh_server_def os_clock_def elem_def)

lemma fresh_rwfs_hist: "fresh_server RWF_SET_TABLE_SUFFIX K s \<Longrightarrow> replica_ok n s \<Longrightarrow> rwfs_hist n K [] s"
  using fresh_rwfset_inv by (simp add: rwfs_hist_def)

definition small_cluster :: "'v cluster" where
  "small_cluster = \<lparr>cl_node = (\<lambda>i. (started_server 2 (int i))\<lparr>replicas := [[]]\<rparr>), cl_link = (\<lambda>_ _. []), cl_conn = (\<lambda>_ _. new_query)\<rparr>"

lemma small_cluster_start: "cluster_start 2 small_cluster"
  by (simp add: cluster_start_def small_cluster_def)

lemma small_cluster_fresh: "separated suf K \<Longrightarrow> fresh_server suf K (cl_node small_cluster i)"
  by (simp add: fresh_server_def small_cluster_def started_server_def REPLICATION_MODE_def)

end
