(* ===== verification/ListOrder.thy ===== *)
theory ListOrder
  imports ListBasics
begin

text \<open>
  The order of list positions and what it gives the lists: the wire format of a position is exact,
  \<open>leid_cmp\<close> is the lexicographic order, a new position is above its left neighbour and, except in
  one case, below its right one, and linking a new element keeps a list sorted.
\<close>

section \<open>The wire format of positions\<close>

definition pos_ok :: "position \<Rightarrow> bool" where
  "pos_ok p \<longleftrightarrow> is_int32 (p_pos p) \<and> is_int32 (p_pid p) \<and> is_int32 (p_count p) \<and>
     0 \<le> p_pos p \<and> 0 \<le> p_pid p \<and> 0 \<le> p_count p"

definition leid_ok :: "leid \<Rightarrow> bool" where
  "leid_ok p \<longleftrightarrow> p \<noteq> [] \<and> length p \<le> 1024 \<and> (\<forall>x \<in> set p. pos_ok x)"

lemma print_d_no_nul: "CHR 0x00 \<notin> set (print_d n)"
  using print_d_chars[of "CHR 0x00" n] by (auto simp: isdigit_def)

lemma dropWhile_until: "c \<notin> set xs \<Longrightarrow> dropWhile (\<lambda>x. x \<noteq> c) (xs @ c # r) = c # r"
  by (induction xs) auto

lemma dropWhile_bar:
  "CHR ''|'' \<notin> set xs \<Longrightarrow> CHR 0x00 \<notin> set xs \<Longrightarrow>
   dropWhile (\<lambda>c. c \<noteq> CHR ''|'' \<and> c \<noteq> CHR 0x00) (xs @ CHR ''|'' # r) = CHR ''|'' # r"
  "CHR ''|'' \<notin> set xs \<Longrightarrow> CHR 0x00 \<notin> set xs \<Longrightarrow> dropWhile (\<lambda>c. c \<noteq> CHR ''|'' \<and> c \<noteq> CHR 0x00) xs = []"
  by (induction xs) auto

lemma sdsToLeid_position:
  assumes "pos_ok x" "length buf < 1024"
  shows "sdsToLeid_loop (position_text x @ CHR ''|'' # r) buf = sdsToLeid_loop r (buf @ [x])"
    "sdsToLeid_loop (position_text x) buf = Some (buf @ [x])"
proof -
  note [simp] = print_d_no_separator print_d_no_nul
  have eta: "\<lparr>p_pos = p_pos x, p_pid = p_pid x, p_count = p_count x\<rparr> = x" by simp
  let ?a = "print_d (p_pos x)" and ?b = "print_d (p_pid x)" and ?c = "print_d (p_count x)"
  have at: "atoi (?a @ CHR '','' # s) = p_pos x" "atoi (?b @ CHR '','' # s) = p_pid x"
    "atoi (?c @ CHR ''|'' # s) = p_count x" "atoi ?c = p_count x" for s
    using assms(1) atoi_print_d[of "p_count x" "[]"] by (simp_all add: pos_ok_def atoi_print_d isdigit_def)
  show "sdsToLeid_loop (position_text x @ CHR ''|'' # r) buf = sdsToLeid_loop r (buf @ [x])"
    using assms(2) by (subst sdsToLeid_loop.simps)
      (simp add: position_text_def dropWhile_until dropWhile_bar(1) at eta)
  show "sdsToLeid_loop (position_text x) buf = Some (buf @ [x])"
    using assms(2) by (subst sdsToLeid_loop.simps)
      (simp add: position_text_def dropWhile_until dropWhile_bar(2) at eta)
qed

lemma sdsToLeid_texts:
  assumes "\<forall>x \<in> set ps. pos_ok x" "pos_ok y" "length buf + length ps < 1024"
  shows "sdsToLeid_loop (concat (map (\<lambda>x. position_text x @ ''|'') ps) @ position_text y) buf = Some (buf @ ps @ [y])"
  using assms
proof (induction ps arbitrary: buf)
  case (Cons p ps)
  then show ?case using sdsToLeid_position(1)[of p buf] Cons.IH[of "buf @ [p]"] by simp
qed (simp add: sdsToLeid_position)

lemma leid_parse:
  assumes "leid_ok p"
  shows "\<exists>s. leidToSds p = Some s \<and> sdsToLeid s = Some p"
proof -
  have "p \<noteq> []" "length (butlast p) < 1024" "\<forall>x \<in> set (butlast p). pos_ok x" "pos_ok (last p)"
    using assms by (auto simp: leid_ok_def dest: in_set_butlastD)
  then show ?thesis using sdsToLeid_texts[of "butlast p" "last p" "[]"]
    by (simp add: leidToSds_def sdsToLeid_def)
qed

section \<open>The order\<close>

definition pos_key :: "position \<Rightarrow> int \<times> int \<times> int" where
  "pos_key p = (p_pos p, p_pid p, p_count p)"

definition leid_key :: "leid \<Rightarrow> (int \<times> int \<times> int) list" where
  "leid_key p = map pos_key p"

lemma pos_key_inj: "pos_key p = pos_key q \<longleftrightarrow> p = q"
  by (auto simp: pos_key_def)

lemma leid_key_inj: "leid_key p = leid_key q \<longleftrightarrow> p = q"
  using pos_key_inj by (auto simp: leid_key_def inj_map_eq_map inj_def)

lemma pos_cmp_key:
  assumes "pos_ok p" "pos_ok q"
  shows "pos_cmp p q < 0 \<longleftrightarrow> pos_key p < pos_key q" "pos_cmp p q = 0 \<longleftrightarrow> p = q"
  using assms by (auto simp: pos_cmp_def pos_ok_def pos_key_def int32_diff less_prod_def)

lemma leid_cmp_cons:
  assumes "pos_ok a" "pos_ok b"
  shows "leid_cmp (a # as) (b # bs) = (if a = b then leid_cmp as bs else pos_cmp a b)"
  using pos_cmp_key(2)[OF assms] by (auto simp: leid_cmp_def split: option.splits)

lemma leid_cmp_lex:
  assumes "\<forall>x \<in> set p. pos_ok x" "\<forall>x \<in> set q. pos_ok x" "length p \<le> 1024" "length q \<le> 1024"
  shows "(leid_cmp p q < 0 \<longleftrightarrow> leid_key p < leid_key q) \<and> (leid_cmp p q = 0 \<longleftrightarrow> p = q)"
  using assms
proof (induction p arbitrary: q)
  case Nil
  then show ?case by (cases q) (auto simp: leid_cmp_def leid_key_def is_int32_def)
next
  case (Cons a p)
  show ?case
  proof (cases q)
    case Nil
    then show ?thesis using Cons.prems by (auto simp: leid_cmp_def leid_key_def is_int32_def)
  next
    case (Cons b q')
    then show ?thesis using Cons.IH[of q'] Cons.prems pos_cmp_key[of a b] pos_key_inj[of a b]
      by (auto simp: leid_cmp_cons leid_key_def)
  qed
qed

lemma leid_cmp_iff:
  assumes "leid_ok p" "leid_ok q"
  shows "leid_cmp p q < 0 \<longleftrightarrow> leid_key p < leid_key q" "leid_cmp p q = 0 \<longleftrightarrow> p = q"
    "leid_cmp p q > 0 \<longleftrightarrow> leid_key q < leid_key p"
  using leid_cmp_lex[of p q] leid_key_inj[of p q] assms unfolding leid_ok_def by (auto simp: not_less_iff_gr_or_eq)

section \<open>Lexicographic comparison\<close>

lemma lex_at:
  fixes a b :: "'a::linorder list"
  assumes "take k a = take k b" "k < length a" "k < length b" "a ! k < b ! k"
  shows "a < b"
  using assms
proof (induction k arbitrary: a b)
  case 0
  then show ?case by (cases a; cases b) auto
next
  case (Suc k)
  then show ?case by (cases a; cases b) auto
qed

lemma lex_prefix:
  fixes a b :: "'a::linorder list"
  shows "r \<noteq> [] \<Longrightarrow> a < a @ r"
  by (induction a) (auto simp: neq_Nil_conv)

lemma lex_pointwise:
  fixes a b :: "'a::linorder list"
  assumes "k \<le> length a" "k \<le> length b" "\<forall>j < k. a ! j \<le> b ! j" "\<exists>j < k. a ! j \<noteq> b ! j"
  shows "a < b"
  using assms
proof (induction k arbitrary: a b)
  case (Suc k)
  obtain x a' y b' where ab: "a = x # a'" "b = y # b'" using Suc.prems by (cases a; cases b) auto
  have "x \<le> y" using Suc.prems(3) ab by auto
  moreover have "a' < b'" if "x = y"
  proof (rule Suc.IH)
    show "\<forall>j < k. a' ! j \<le> b' ! j" using Suc.prems(3) ab by auto
    show "\<exists>j < k. a' ! j \<noteq> b' ! j" using Suc.prems(4) ab that less_Suc_eq_0_disj by auto
  qed (use Suc.prems ab in simp_all)
  ultimately show ?case using ab by auto
qed simp

lemma lex_cases:
  fixes a b :: "'a::linorder list"
  assumes "a < b"
  obtains d where "d < length a" "d < length b" "take d a = take d b" "a ! d < b ! d" | r where "b = a @ r" "r \<noteq> []"
proof -
  have "(\<exists>d < length a. d < length b \<and> take d a = take d b \<and> a ! d < b ! d) \<or> (\<exists>r. b = a @ r \<and> r \<noteq> [])"
    using assms
  proof (induction a arbitrary: b)
    case Nil
    then show ?case by (cases b) auto
  next
    case (Cons x a)
    then obtain y b' where b: "b = y # b'" by (cases b) auto
    show ?case
    proof (cases "x = y")
      case True
      then have "(\<exists>d < length a. d < length b' \<and> take d a = take d b' \<and> a ! d < b' ! d) \<or> (\<exists>r. b' = a @ r \<and> r \<noteq> [])"
        using Cons b by auto
      then show ?thesis using b True by (metis append_Cons length_Cons nth_Cons_Suc not_less_eq take_Suc_Cons)
    next
      case False
      then show ?thesis using Cons.prems b by (intro disjI1 exI[of _ 0]) auto
    qed
  qed
  then show ?thesis using that by blast
qed

section \<open>New positions\<close>

lemma leid_index_spec:
  "int32 (rprefix q (leid_index p q i) - lprefix p (leid_index p q i)) \<ge> 2 \<and>
   (\<forall>j. i \<le> j \<and> j < leid_index p q i \<longrightarrow> int32 (rprefix q j - lprefix p j) < 2)"
proof (induction p q i rule: leid_index.induct)
  case (1 p q i)
  then show ?case
    by (subst (1 2 3) leid_index.simps) (auto simp: le_less_Suc_eq Suc_le_eq dest: le_neq_implies_less)
qed

definition neighbour_ok :: "leid option \<Rightarrow> bool" where
  "neighbour_ok p \<longleftrightarrow> (\<forall>xs. p = Some xs \<longrightarrow> leid_ok xs \<and> 0 < p_pos (last xs))"

definition clock_ok :: "vc \<Rightarrow> bool" where
  "clock_ok t \<longleftrightarrow> 0 \<le> vc_id t \<and> is_int32 (vc_id t) \<and> 0 \<le> leid_sum t"

text \<open>
  The case in which the new position does not fall between its neighbours: the right one extends
  the left one by positions that leave no room above 0.
\<close>

definition leid_crowded :: "leid option \<Rightarrow> leid option \<Rightarrow> bool" where
  "leid_crowded p q \<longleftrightarrow> (\<exists>xs ys. p = Some xs \<and> q = Some (xs @ ys) \<and> ys \<noteq> [] \<and> (\<forall>y \<in> set ys. p_pos y \<le> 1))"

lemma leid_sum_int32: "is_int32 (leid_sum t)"
proof -
  have "is_int32 a \<Longrightarrow> is_int32 (foldl (\<lambda>a v. int32 (a + v)) a xs)" for a xs
    by (induction xs arbitrary: a) simp_all
  then show ?thesis by (simp add: leid_sum_def is_int32_def)
qed

lemma lprefix_range: "neighbour_ok p \<Longrightarrow> 0 \<le> lprefix p i \<and> is_int32 (lprefix p i)"
  by (auto simp: neighbour_ok_def lprefix_def leid_ok_def pos_ok_def split: option.splits)

lemma rprefix_range: "neighbour_ok p \<Longrightarrow> 0 \<le> rprefix p i \<and> is_int32 (rprefix p i)"
  by (auto simp: neighbour_ok_def rprefix_def leid_ok_def pos_ok_def is_int32_def split: option.splits)

lemma leid_gap:
  assumes "neighbour_ok p" "neighbour_ok q"
  shows "rprefix q (leid_index p q 0) - lprefix p (leid_index p q 0) \<ge> 2"
    "j < leid_index p q 0 \<Longrightarrow> rprefix q j - lprefix p j < 2"
  using leid_index_spec[of q p 0] lprefix_range[OF assms(1)] rprefix_range[OF assms(2)]
  by (auto simp: int32_diff)

lemma construct_last:
  assumes "neighbour_ok p" "neighbour_ok q"
  shows "last (constructLeid p q t) = \<lparr>p_pos = lprefix p (leid_index p q 0) + 1, p_pid = vc_id t, p_count = leid_sum t\<rparr>"
proof -
  have "is_int32 (lprefix p (leid_index p q 0) + 1)"
    using leid_gap(1)[OF assms] lprefix_range[OF assms(1), of "leid_index p q 0"] rprefix_range[OF assms(2), of "leid_index p q 0"]
    by (simp add: is_int32_def)
  then show ?thesis by (simp add: constructLeid_def Let_def)
qed

lemma construct_length: "length (constructLeid p q t) = Suc (leid_index p q 0)"
  by (auto simp: constructLeid_def Let_def split: option.splits)

lemma construct_butlast:
  "butlast (constructLeid p q t) =
    (case p of
       Some xs \<Rightarrow> take (leid_index p q 0) xs @ map (\<lambda>i. case q of
           Some ys \<Rightarrow> if i < length ys then ys ! i else \<lparr>p_pos = 0, p_pid = vc_id t, p_count = leid_sum t\<rparr>
         | None \<Rightarrow> \<lparr>p_pos = 0, p_pid = vc_id t, p_count = leid_sum t\<rparr>) [length xs..<leid_index p q 0]
     | None \<Rightarrow> replicate (leid_index p q 0) \<lparr>p_pos = 0, p_pid = 0, p_count = 0\<rparr>)"
  by (simp add: constructLeid_def Let_def)

lemma construct_made:
  assumes "neighbour_ok p" "neighbour_ok q" "clock_ok t" "length (constructLeid p q t) \<le> 1024"
  shows "neighbour_ok (Some (constructLeid p q t))"
proof -
  let ?n = "constructLeid p q t"
  have ne: "?n \<noteq> []" using construct_length[of p q t] by auto
  have "is_int32 (lprefix p (leid_index p q 0) + 1)" "0 \<le> lprefix p (leid_index p q 0)"
    using leid_gap(1)[OF assms(1,2)] lprefix_range[OF assms(1), of "leid_index p q 0"] rprefix_range[OF assms(2), of "leid_index p q 0"]
    by (simp_all add: is_int32_def)
  then have l: "pos_ok (last ?n)" "0 < p_pos (last ?n)"
    using construct_last[OF assms(1,2)] assms(3) leid_sum_int32 by (simp_all add: pos_ok_def clock_ok_def)
  have "pos_ok x" if "x \<in> set (butlast ?n)" for x
    using that assms leid_sum_int32[of t] unfolding construct_butlast
    by (auto simp: pos_ok_def clock_ok_def neighbour_ok_def leid_ok_def is_int32_def split: option.splits if_splits dest!: in_set_takeD)
  then have "\<forall>x \<in> set ?n. pos_ok x" using l(1) ne by (metis append_butlast_last_id rotate1.simps(2) set_ConsD set_rotate1)
  then show ?thesis using ne l assms(4) by (simp add: neighbour_ok_def leid_ok_def)
qed

lemma construct_split: "constructLeid p q t = butlast (constructLeid p q t) @ [last (constructLeid p q t)]"
  using construct_length[of p q t] by (metis append_butlast_last_id list.size(3) nat.distinct(1))

lemma construct_nth_index: "constructLeid p q t ! leid_index p q 0 = last (constructLeid p q t)"
  using construct_length[of p q t] by (metis diff_Suc_1 last_conv_nth list.size(3) nat.distinct(1))

lemma construct_take_left:
  "d \<le> leid_index (Some xs) q 0 \<Longrightarrow> d \<le> length xs \<Longrightarrow> take d (constructLeid (Some xs) q t) = take d xs"
  by (simp add: constructLeid_def Let_def min_def)

lemma construct_take_right:
  assumes "length xs \<le> d" "d \<le> leid_index (Some xs) (Some (xs @ ys)) 0" "d \<le> length (xs @ ys)"
  shows "take d (constructLeid (Some xs) (Some (xs @ ys)) t) = take d (xs @ ys)"
proof (rule nth_equalityI)
  show "length (take d (constructLeid (Some xs) (Some (xs @ ys)) t)) = length (take d (xs @ ys))"
    using assms construct_length[of "Some xs" "Some (xs @ ys)" t] by simp
next
  fix i assume "i < length (take d (constructLeid (Some xs) (Some (xs @ ys)) t))"
  then have "i < d" by simp
  then show "take d (constructLeid (Some xs) (Some (xs @ ys)) t) ! i = take d (xs @ ys) ! i"
    using assms by (simp add: constructLeid_def Let_def nth_append)
qed

lemma construct_above:
  assumes "neighbour_ok (Some xs)" "neighbour_ok q"
  shows "leid_key xs < leid_key (constructLeid (Some xs) q t)"
proof -
  let ?i = "leid_index (Some xs) q 0" and ?n = "constructLeid (Some xs) q t"
  note len = construct_length[of "Some xs" q t]
  show ?thesis
  proof (cases "?i < length xs")
    case True
    have "pos_key (xs ! ?i) < pos_key (?n ! ?i)"
      using True construct_last[OF assms, of t] by (simp add: construct_nth_index lprefix_def pos_key_def)
    then show ?thesis using True len construct_take_left[of ?i xs q t]
      by (intro lex_at[of ?i]) (simp_all add: leid_key_def take_map)
  next
    case False
    then have "take (length xs) ?n = xs" using construct_take_left[of "length xs" xs q t] by simp
    then have "?n = xs @ drop (length xs) ?n" by (metis append_take_drop_id)
    moreover have "drop (length xs) ?n \<noteq> []" using False len by simp
    ultimately show ?thesis using lex_prefix[of "map pos_key (drop (length xs) ?n)" "leid_key xs"]
      by (metis leid_key_def map_append map_is_Nil_conv)
  qed
qed

lemma construct_front:
  assumes "neighbour_ok (Some ys)"
  shows "leid_key (constructLeid None (Some ys) t) < leid_key ys"
proof -
  let ?i = "leid_index None (Some ys) 0" and ?n = "constructLeid None (Some ys) t" and ?z = "\<lparr>p_pos = 0, p_pid = 0, p_count = 0\<rparr>"
  have ok: "neighbour_ok None" by (simp add: neighbour_ok_def)
  note gap = leid_gap[OF ok assms] and len = construct_length[of None "Some ys" t]
  have ys: "ys \<noteq> []" "\<forall>y \<in> set ys. pos_ok y" "0 < p_pos (last ys)" using assms by (auto simp: neighbour_ok_def leid_ok_def)
  have n: "?n ! j = ?z" if "j < ?i" for j using that by (simp add: constructLeid_def Let_def nth_append)
  have le: "pos_key ?z \<le> pos_key y" if "y \<in> set ys" for y
    using ys(2) that by (auto simp: pos_key_def pos_ok_def less_eq_prod_def)
  have i: "?i \<le> length ys" using gap(2)[of "length ys"] by (force simp: rprefix_def lprefix_def not_le)
  show ?thesis
  proof (cases "\<exists>j < ?i. ys ! j \<noteq> ?z")
    case True
    have "\<exists>j < ?i. leid_key ?n ! j \<noteq> leid_key ys ! j" using True n i len by (fastforce simp: leid_key_def pos_key_inj)
    then show ?thesis using i len n le by (intro lex_pointwise[of ?i]) (simp_all add: leid_key_def)
  next
    case False
    have "?i < length ys"
    proof (rule ccontr)
      assume "\<not> ?i < length ys"
      then have "last ys = ?z" using False i ys(1) by (metis diff_less last_conv_nth le_antisym length_greater_0_conv not_le zero_less_one)
      then show False using ys(3) by simp
    qed
    moreover have "take ?i ?n = take ?i ys" using False n i len by (intro nth_equalityI) auto
    moreover have "pos_key (?n ! ?i) < pos_key (ys ! ?i)"
      using gap(1) calculation(1) construct_last[OF ok assms, of t] by (simp add: construct_nth_index lprefix_def rprefix_def pos_key_def)
    ultimately show ?thesis using len by (intro lex_at[of ?i]) (simp_all add: leid_key_def take_map)
  qed
qed

lemma construct_split_below:
  assumes ok: "neighbour_ok (Some xs)" "neighbour_ok (Some ys)"
    and d: "d < length xs" "d < length ys" "take d xs = take d ys" "pos_key (xs ! d) < pos_key (ys ! d)"
  shows "leid_key (constructLeid (Some xs) (Some ys) t) < leid_key ys"
proof -
  let ?i = "leid_index (Some xs) (Some ys) 0" and ?n = "constructLeid (Some xs) (Some ys) t"
  note len = construct_length[of "Some xs" "Some ys" t]
  define k where "k = min d ?i"
  have "take k ?n = take k xs" using d(1) by (intro construct_take_left) (simp_all add: k_def)
  moreover have "take k xs = take k ys" using d(3) by (metis k_def min.cobounded1 min.absorb1 take_take)
  moreover have "pos_key (?n ! k) < pos_key (ys ! k)"
  proof (cases "d < ?i")
    case True
    have "?n ! d = take (Suc d) ?n ! d" by simp
    also have "\<dots> = xs ! d" using construct_take_left[of "Suc d" xs "Some ys" t] True d(1) by simp
    finally show ?thesis using True d(4) by (simp add: k_def)
  next
    case False
    then show ?thesis using leid_gap(1)[OF ok] construct_last[OF ok, of t] d(1,2)
      by (simp add: k_def construct_nth_index lprefix_def rprefix_def pos_key_def)
  qed
  ultimately show ?thesis using d(2) len by (intro lex_at[of k]) (simp_all add: leid_key_def take_map k_def)
qed

lemma construct_extend_below:
  assumes ok: "neighbour_ok (Some xs)" "neighbour_ok (Some (xs @ ys))" and ne: "ys \<noteq> []"
  shows "leid_key (constructLeid (Some xs) (Some (xs @ ys)) t) < leid_key (xs @ ys) \<longleftrightarrow> \<not> (\<forall>y \<in> set ys. p_pos y \<le> 1)"
proof -
  let ?i = "leid_index (Some xs) (Some (xs @ ys)) 0" and ?n = "constructLeid (Some xs) (Some (xs @ ys)) t"
  note len = construct_length[of "Some xs" "Some (xs @ ys)" t] and gap = leid_gap[OF ok]
  have i: "length xs \<le> ?i" using gap(1) by (cases "?i < length xs") (simp_all add: rprefix_def lprefix_def nth_append)
  show ?thesis
  proof (cases "?i < length (xs @ ys)")
    case True
    have "p_pos (ys ! (?i - length xs)) \<ge> 2" using gap(1) True i by (simp add: rprefix_def lprefix_def nth_append)
    moreover have "ys ! (?i - length xs) \<in> set ys" using True i by (intro nth_mem) simp
    ultimately have "\<not> (\<forall>y \<in> set ys. p_pos y \<le> 1)" by fastforce
    moreover have "pos_key (?n ! ?i) < pos_key ((xs @ ys) ! ?i)"
      using gap(1) construct_last[OF ok, of t] True i by (simp add: construct_nth_index lprefix_def rprefix_def pos_key_def)
    then have "leid_key ?n < leid_key (xs @ ys)"
      using construct_take_right[OF i order_refl, where t = t] True len
      by (intro lex_at[of ?i]) (simp_all add: leid_key_def take_map del: map_append take_append)
    ultimately show ?thesis by simp
  next
    case False
    have "p_pos y \<le> 1" if "y \<in> set ys" for y
    proof -
      obtain j where "j < length ys" "y = ys ! j" using \<open>y \<in> set ys\<close> by (metis in_set_conv_nth)
      then show ?thesis using gap(2)[of "length xs + j"] False by (simp add: rprefix_def lprefix_def nth_append)
    qed
    moreover have "take (length (xs @ ys)) ?n = xs @ ys"
      using construct_take_right[of xs "length (xs @ ys)" ys t] False by simp
    then have "?n = (xs @ ys) @ drop (length (xs @ ys)) ?n" by (metis append_take_drop_id)
    moreover have "drop (length (xs @ ys)) ?n \<noteq> []" using False len by simp
    ultimately have "leid_key (xs @ ys) < leid_key ?n"
      using lex_prefix[of "map pos_key (drop (length (xs @ ys)) ?n)" "leid_key (xs @ ys)"]
      by (metis leid_key_def map_append map_is_Nil_conv)
    then show ?thesis using \<open>\<And>y. y \<in> set ys \<Longrightarrow> p_pos y \<le> 1\<close> by auto
  qed
qed

lemma construct_below:
  assumes "neighbour_ok p" "neighbour_ok (Some ys)" "\<forall>xs. p = Some xs \<longrightarrow> leid_key xs < leid_key ys"
  shows "leid_key (constructLeid p (Some ys) t) < leid_key ys \<longleftrightarrow> \<not> leid_crowded p (Some ys)"
proof (cases p)
  case None
  then show ?thesis using construct_front[OF assms(2)] by (simp add: leid_crowded_def)
next
  case (Some xs)
  then have lt: "leid_key xs < leid_key ys" and ok: "neighbour_ok (Some xs)" using assms by simp_all
  show ?thesis
    using lt
  proof (cases rule: lex_cases)
    case (1 d)
    then have d: "d < length xs" "d < length ys" "map pos_key (take d xs) = map pos_key (take d ys)" "pos_key (xs ! d) < pos_key (ys ! d)"
      by (simp_all add: leid_key_def take_map)
    have "take d xs = take d ys" using d(3) leid_key_inj[of "take d xs" "take d ys"] by (simp add: leid_key_def)
    then have "leid_key (constructLeid p (Some ys) t) < leid_key ys"
      using construct_split_below[OF ok assms(2) d(1,2) _ d(4)] Some by simp
    moreover have "\<not> leid_crowded p (Some ys)" using d Some by (auto simp: leid_crowded_def nth_append)
    ultimately show ?thesis by simp
  next
    case (2 r)
    then have "take (length xs) (map pos_key ys) = map pos_key xs" "length (map pos_key ys) = length xs + length r"
      by (simp_all add: leid_key_def)
    then have "leid_key (take (length xs) ys) = leid_key xs" "length xs < length ys"
      using 2(2) by (simp_all add: leid_key_def take_map)
    then have "ys = xs @ drop (length xs) ys" "drop (length xs) ys \<noteq> []"
      by (metis append_take_drop_id leid_key_inj, simp)
    then obtain zs where "ys = xs @ zs" "zs \<noteq> []" by blast
    then show ?thesis using construct_extend_below[OF ok, of zs] assms(2) Some by (auto simp: leid_crowded_def)
  qed
qed

section \<open>The linked list\<close>

text \<open>The names that \<open>next\<close> visits from \<open>po\<close> on.\<close>

fun chain :: "('e \<Rightarrow> sds option) \<Rightarrow> ('e, 'c) list_ht \<Rightarrow> sds option \<Rightarrow> sds list \<Rightarrow> bool" where
  "chain nx ht po [] \<longleftrightarrow> po = None"
| "chain nx ht po (n # ns) \<longleftrightarrow> po = Some n \<and> (\<exists>e. le_deref ht n = Some e \<and> chain nx ht (nx e) ns)"

definition list_pos :: "('e \<Rightarrow> leid option) \<Rightarrow> ('e, 'c) list_ht \<Rightarrow> sds \<Rightarrow> leid option" where
  "list_pos ps ht n = Option.bind (le_deref ht n) ps"

text \<open>
  A well-formed list: its chain visits exactly the elements that have a position, in the strict order of
  the positions.
\<close>

definition list_wf :: "('e \<Rightarrow> leid option) \<Rightarrow> ('e \<Rightarrow> sds option) \<Rightarrow> ('e, 'c) list_ht \<Rightarrow> sds list \<Rightarrow> bool" where
  "list_wf ps nx ht ns \<longleftrightarrow> (\<exists>h. getHead ht = Some h \<and> chain nx ht h ns) \<and> distinct ns \<and>
     set ns = {n. list_pos ps ht n \<noteq> None} \<and> (\<forall>n \<in> set ns. leid_ok (the (list_pos ps ht n))) \<and>
     sorted_wrt (\<lambda>a b. leid_key (the (list_pos ps ht a)) < leid_key (the (list_pos ps ht b))) ns"

lemma chain_frame: "chain nx ht po ns \<Longrightarrow> \<forall>n \<in> set ns. le_deref ht' n = le_deref ht n \<Longrightarrow> chain nx ht' po ns"
  by (induction ns arbitrary: po) auto

lemma chain_deref: "chain nx ht po ns \<Longrightarrow> n \<in> set ns \<Longrightarrow> le_deref ht n \<noteq> None"
  by (induction ns arbitrary: po) auto

lemma chain_suffix: "chain nx ht po (as @ n # bs) \<Longrightarrow> chain nx ht (Some n) (n # bs)"
  by (induction as arbitrary: po) auto

lemma chain_nodes: "chain nx ht po ns \<Longrightarrow> list_nodes nx ht po = Some (map (\<lambda>n. the (le_deref ht n)) ns)"
proof (induction ns arbitrary: po)
  case Nil
  then show ?case by (subst list_nodes.simps) simp
next
  case (Cons n ns)
  then show ?case by (subst list_nodes.simps) auto
qed

lemma chain_insert:
  assumes "chain nx ht po (as @ p # bs)" "distinct (as @ p # bs)" "x \<notin> set (as @ p # bs)"
    "le_deref ht p = Some e" "le_deref ht' p = Some e'" "nx e' = Some x" "le_deref ht' x = Some ex" "nx ex = nx e"
    "\<forall>n. n \<noteq> p \<longrightarrow> n \<noteq> x \<longrightarrow> le_deref ht' n = le_deref ht n"
  shows "chain nx ht' po (as @ p # x # bs)"
  using assms
proof (induction as arbitrary: po)
  case Nil
  then have "chain nx ht' (nx e) bs" by (auto intro: chain_frame)
  then show ?case using Nil by auto
next
  case (Cons a as)
  then show ?case by auto
qed

text \<open>What linking changes: fields \<open>next\<close> of the elements \<open>N\<close> of the list and the field \<open>head\<close>.\<close>

definition links_only :: "(sds option \<Rightarrow> 'e \<Rightarrow> 'e) \<Rightarrow> sds set \<Rightarrow> ('e, 'c) list_ht \<Rightarrow> ('e, 'c) list_ht \<Rightarrow> bool" where
  "links_only setnx N ht ht1 \<longleftrightarrow> (\<forall>y. y \<noteq> ''head'' \<longrightarrow>
     ht1 y = ht y \<or> y \<in> N \<and> (\<exists>e q. ht y = Some (LElem e) \<and> ht1 y = Some (LElem (setnx q e))))"

text \<open>What the two list types provide: \<open>pos_id\<close> and \<open>next\<close> are separate fields.\<close>

locale linked_list =
  fixes ps :: "'e \<Rightarrow> leid option" and nx :: "'e \<Rightarrow> sds option" and setnx :: "sds option \<Rightarrow> 'e \<Rightarrow> 'e"
  assumes ps_setnx: "ps (setnx q e) = ps e" and nx_setnx: "nx (setnx q e) = q"
begin

lemma walk:
  assumes "chain nx ht (Some p) (p # bs)" "\<forall>n \<in> set bs. list_pos ps ht n \<noteq> None \<and> leid_ok (the (list_pos ps ht n))" "leid_ok pos"
  shows "list_walk ps nx ht pos p =
     (let P = (\<lambda>n. leid_key (the (list_pos ps ht n)) < leid_key pos)
      in Some (last (p # takeWhile P bs), case dropWhile P bs of [] \<Rightarrow> None | q # _ \<Rightarrow> Some q))"
  using assms
proof (induction bs arbitrary: p)
  case Nil
  then show ?case by (subst list_walk.simps) auto
next
  case (Cons b bs)
  obtain e where e: "le_deref ht p = Some e" "nx e = Some b" using Cons.prems(1) by auto
  obtain be where be: "le_deref ht b = Some be" "chain nx ht (Some b) (b # bs)" using Cons.prems(1) by auto
  obtain bp where bp: "ps be = Some bp" "leid_ok bp" using Cons.prems(2) be by (auto simp: list_pos_def)
  have "leid_cmp pos bp > 0 \<longleftrightarrow> leid_key bp < leid_key pos" using leid_cmp_iff(3)[OF Cons.prems(3) bp(2)] .
  then show ?case using e be bp Cons.IH[OF be(2)] Cons.prems(2,3)
    by (subst list_walk.simps) (simp add: list_pos_def)
qed

lemma insert_wf:
  assumes "list_wf ps nx ht (as @ bs)" "list_pos ps ht x = None" "leid_ok pos"
    and "getHead ht1 = Some h" "chain nx ht1 h (as @ x # bs)"
    and pos: "\<forall>n. list_pos ps ht1 n = (if n = x then Some pos else list_pos ps ht n)"
    and "\<forall>n \<in> set as. leid_key (the (list_pos ps ht n)) < leid_key pos"
    and "\<forall>n \<in> set bs. leid_key pos < leid_key (the (list_pos ps ht n))"
  shows "list_wf ps nx ht1 (as @ x # bs)"
proof -
  have x: "x \<notin> set (as @ bs)" using assms(1,2) unfolding list_wf_def by blast
  let ?r = "\<lambda>ht a b. leid_key (the (list_pos ps ht a)) < leid_key (the (list_pos ps ht b))"
  have wf: "distinct (as @ bs)" "set (as @ bs) = {n. list_pos ps ht n \<noteq> None}"
    "\<forall>n \<in> set (as @ bs). leid_ok (the (list_pos ps ht n))" "sorted_wrt (?r ht) (as @ bs)"
    using assms(1) unfolding list_wf_def by blast+
  have same: "list_pos ps ht1 n = list_pos ps ht n" if "n \<in> set (as @ bs)" for n using pos x that by auto
  have "sorted_wrt (?r ht1) ys" if "set ys \<subseteq> set (as @ bs)" "sorted_wrt (?r ht) ys" for ys
    using that(2) by (rule sorted_wrt_mono_rel[rotated]) (simp add: same[OF subsetD[OF that(1)]])
  then have "sorted_wrt (?r ht1) as" "sorted_wrt (?r ht1) bs" using wf(4) by (simp_all add: sorted_wrt_append)
  then have "sorted_wrt (?r ht1) (as @ x # bs)" using wf(4) assms(7,8) pos same
    by (simp add: sorted_wrt_append)
  moreover have "set (as @ x # bs) = {n. list_pos ps ht1 n \<noteq> None}" using pos wf(2) by auto
  moreover have "\<forall>n \<in> set (as @ x # bs). leid_ok (the (list_pos ps ht1 n))" using pos wf(3) assms(3) by auto
  moreover have "distinct (as @ x # bs)" using wf(1) x by auto
  ultimately show ?thesis using assms(4,5) unfolding list_wf_def by blast
qed

lemma links_only_pos:
  assumes "links_only setnx N ht ht1" "le_deref ht ''head'' = None" "le_deref ht1 ''head'' = None"
  shows "list_pos ps ht1 n = list_pos ps ht n"
proof (cases "n = ''head''")
  case False
  then show ?thesis using assms(1) ps_setnx unfolding links_only_def list_pos_def le_deref_def by (cases "ht1 n = ht n") fastforce+
qed (simp add: list_pos_def assms)

lemma link_between:
  assumes wf: "list_wf ps nx ht0 (as @ p # bs)" and ht: "ht = le_put ht0 x e1"
    and x: "le_deref ht0 x = Some e0" "ps e0 = None" and e1: "ps e1 = Some pos" "leid_ok pos"
    and lt: "\<forall>n \<in> set (as @ [p]). leid_key (the (list_pos ps ht0 n)) < leid_key pos"
    and gt: "\<forall>n \<in> set bs. leid_key pos < leid_key (the (list_pos ps ht0 n))"
    and q: "q = (case bs of [] \<Rightarrow> None | b # _ \<Rightarrow> Some b)"
  shows "\<exists>ht1. Option.bind (list_set_next setnx ht p (Some x)) (\<lambda>ht1. list_set_next setnx ht1 x q) = Some ht1 \<and>
    list_wf ps nx ht1 ((as @ [p]) @ x # bs) \<and> links_only setnx (set ((as @ [p]) @ x # bs)) ht ht1 \<and> getHead ht1 = getHead ht"
proof -
  obtain h where h: "getHead ht0 = Some h" "chain nx ht0 h (as @ p # bs)" "distinct (as @ p # bs)"
    using wf unfolding list_wf_def by blast
  have xn: "x \<notin> set (as @ p # bs)" using wf x unfolding list_wf_def by (auto simp: list_pos_def)
  have head: "x \<noteq> ''head''" "p \<noteq> ''head''" using h(1,2) x(1) chain_deref[OF h(2), of p]
    by (auto simp: getHead_def le_deref_def split: option.splits list_field.splits)
  obtain ep where ep: "le_deref ht0 p = Some ep" "nx ep = q"
    using chain_suffix[OF h(2)] q by (cases bs) auto
  define ht1 where "ht1 = le_put (le_put ht p (setnx (Some x) ep)) x (setnx q e1)"
  have d: "le_deref ht1 n = (if n = x then Some (setnx q e1) else if n = p then Some (setnx (Some x) ep) else le_deref ht0 n)" for n
    using xn by (simp add: ht1_def ht le_deref_def le_put_def)
  have run: "Option.bind (list_set_next setnx ht p (Some x)) (\<lambda>ht1. list_set_next setnx ht1 x q) = Some ht1"
    using ep xn by (auto simp: list_set_next_def ht1_def ht le_deref_def le_put_def split: option.splits list_field.splits)
  have gh: "getHead ht1 = Some h" "getHead ht = Some h" using h(1) head by (simp_all add: ht1_def ht getHead_def le_put_def)
  have "chain nx ht1 h (as @ p # x # bs)"
    using chain_insert[OF h(2,3) xn ep(1), of ht1] d xn ep(2) nx_setnx by auto
  moreover have "list_pos ps ht1 n = (if n = x then Some pos else list_pos ps ht0 n)" for n
    using e1(1) ep(1) by (simp add: list_pos_def d ps_setnx)
  ultimately have "list_wf ps nx ht1 ((as @ [p]) @ x # bs)"
    using wf x e1(2) gh(1) lt gt by (intro insert_wf[where ht = ht0 and pos = pos]) (auto simp: list_pos_def)
  moreover have "links_only setnx (set ((as @ [p]) @ x # bs)) ht ht1"
    using ep(1) by (auto simp: links_only_def ht1_def ht le_put_def le_deref_def split: option.splits list_field.splits)
  ultimately show ?thesis using run gh by auto
qed

lemma link_front:
  assumes wf: "list_wf ps nx ht0 ns" and ht: "ht = le_put ht0 x e1" and h: "getHead ht0 = Some h"
    and x: "le_deref ht0 x = Some e0" "ps e0 = None" and e1: "ps e1 = Some pos" "leid_ok pos" "nx e1 = None"
    and gt: "\<forall>n \<in> set ns. leid_key pos < leid_key (the (list_pos ps ht0 n))"
    and ht1: "ht1 = (case h of None \<Rightarrow> setHead ht x | Some _ \<Rightarrow> le_put (setHead ht x) x (setnx h e1))"
  shows "list_wf ps nx ht1 (x # ns) \<and> links_only setnx (set (x # ns)) ht ht1 \<and> getHead ht1 = Some (Some x)"
proof -
  have c: "chain nx ht0 h ns" "distinct ns" using wf h unfolding list_wf_def by auto
  have xn: "x \<notin> set ns" using wf x unfolding list_wf_def by (auto simp: list_pos_def)
  have head: "x \<noteq> ''head''" "le_deref ht0 ''head'' = None"
    using h x(1) by (auto simp: getHead_def le_deref_def split: option.splits list_field.splits)
  have d: "le_deref ht1 n = (if n = x then Some (case h of None \<Rightarrow> e1 | Some _ \<Rightarrow> setnx h e1) else le_deref ht0 n)" for n
    using head by (auto simp: ht1 ht le_deref_def le_put_def setHead_def split: option.splits)
  have gh: "getHead ht1 = Some (Some x)" using head by (simp add: ht1 ht getHead_def setHead_def le_put_def split: option.split)
  have "nx (case h of None \<Rightarrow> e1 | Some _ \<Rightarrow> setnx h e1) = h" using e1(3) nx_setnx by (simp split: option.split)
  moreover have "chain nx ht1 h ns" using c(1) by (rule chain_frame) (use d xn in auto)
  ultimately have "chain nx ht1 (Some x) (x # ns)" using d by simp
  moreover have "list_pos ps ht1 n = (if n = x then Some pos else list_pos ps ht0 n)" for n
    using e1(1) by (simp add: list_pos_def d ps_setnx split: option.split)
  ultimately have "list_wf ps nx ht1 ([] @ x # ns)"
    using wf x e1(2) gh gt by (intro insert_wf[where ht = ht0 and pos = pos]) (auto simp: list_pos_def)
  moreover have "links_only setnx (set (x # ns)) ht ht1"
    by (auto simp: links_only_def ht1 ht le_put_def setHead_def split: option.splits)
  ultimately show ?thesis using gh by simp
qed

lemma link_after:
  assumes wf: "list_wf ps nx ht0 ns" and ht: "ht = le_put ht0 x e1"
    and x: "le_deref ht0 x = Some e0" "ps e0 = None" and e1: "ps e1 = Some pos" "leid_ok pos"
    and new: "\<forall>n \<in> set ns. list_pos ps ht0 n \<noteq> Some pos"
    and p0: "p0 \<in> set ns" "leid_key (the (list_pos ps ht0 p0)) < leid_key pos"
  shows "\<exists>ht1 ns'. Option.bind (list_walk ps nx ht pos p0) (\<lambda>(p, q). Option.bind (list_set_next setnx ht p (Some x))
       (\<lambda>ht1. list_set_next setnx ht1 x q)) = Some ht1 \<and> list_wf ps nx ht1 ns' \<and> set ns' = insert x (set ns) \<and> links_only setnx (set ns') ht ht1"
proof -
  let ?k = "\<lambda>n. leid_key (the (list_pos ps ht0 n))"
  let ?P = "\<lambda>n. ?k n < leid_key pos"
  obtain h where h: "getHead ht0 = Some h" "chain nx ht0 h ns" using wf unfolding list_wf_def by blast
  have sorted: "sorted_wrt (\<lambda>a b. ?k a < ?k b) ns" and ok: "\<forall>n \<in> set ns. list_pos ps ht0 n \<noteq> None \<and> leid_ok (the (list_pos ps ht0 n))"
    using wf unfolding list_wf_def by auto
  have xn: "x \<notin> set ns" using ok x by (auto simp: list_pos_def)
  have same: "le_deref ht n = le_deref ht0 n" "list_pos ps ht n = list_pos ps ht0 n" if "n \<in> set ns" for n
    using that xn by (auto simp: ht le_deref_def le_put_def list_pos_def)
  obtain as bs where ns: "ns = as @ p0 # bs" using p0(1) by (metis split_list)
  define cs ds where "cs = takeWhile ?P bs" and "ds = dropWhile ?P bs"
  have bs: "bs = cs @ ds" by (simp add: cs_def ds_def)
  obtain cs' p where p: "p0 # cs = cs' @ [p]" by (metis append_butlast_last_id list.distinct(1))
  have split: "ns = (as @ cs') @ p # ds" using ns bs p by (metis append_Cons append_assoc append_Nil)
  have "chain nx ht (Some p0) (p0 # bs)" using chain_suffix[of nx ht h as p0 bs] chain_frame[OF h(2), of ht] same(1) ns by simp
  moreover have "takeWhile (\<lambda>n. leid_key (the (list_pos ps ht n)) < leid_key pos) bs = cs"
    "dropWhile (\<lambda>n. leid_key (the (list_pos ps ht n)) < leid_key pos) bs = ds"
    unfolding cs_def ds_def by (auto intro: takeWhile_cong dropWhile_cong simp: same(2) ns)
  moreover have "last (p0 # cs) = p" unfolding p by simp
  ultimately have w: "list_walk ps nx ht pos p0 = Some (p, case ds of [] \<Rightarrow> None | q # _ \<Rightarrow> Some q)"
    using walk[of ht p0 bs pos] e1(2) ok same(2) ns by (simp add: Let_def del: last.simps)
  have "\<forall>n \<in> set as. ?k n < leid_key pos" using sorted ns p0(2) by (auto simp: sorted_wrt_append intro: less_trans)
  moreover have "\<forall>n \<in> set (p0 # cs). ?k n < leid_key pos" using p0(2) set_takeWhileD unfolding cs_def by fastforce
  ultimately have lt: "\<forall>n \<in> set ((as @ cs') @ [p]). ?k n < leid_key pos" unfolding p by auto
  have gt: "\<forall>n \<in> set ds. leid_key pos < ?k n"
  proof (cases ds)
    case (Cons d ds')
    then have "\<not> ?P d" unfolding ds_def using hd_dropWhile[of ?P bs] by auto
    moreover have "d \<in> set ns" unfolding split Cons by simp
    then have "?k d \<noteq> leid_key pos" using new ok leid_key_inj by (metis option.collapse)
    ultimately have "leid_key pos < ?k d" by simp
    then show ?thesis using sorted split Cons by (auto simp: sorted_wrt_append intro: less_trans)
  qed simp
  obtain ht1 where "Option.bind (list_set_next setnx ht p (Some x)) (\<lambda>ht1. list_set_next setnx ht1 x (case ds of [] \<Rightarrow> None | b # _ \<Rightarrow> Some b)) = Some ht1"
    "list_wf ps nx ht1 (((as @ cs') @ [p]) @ x # ds)" "links_only setnx (set (((as @ cs') @ [p]) @ x # ds)) ht ht1"
    using link_between[OF wf[unfolded split] ht x e1 lt gt refl] by blast
  moreover have "set (((as @ cs') @ [p]) @ x # ds) = insert x (set ns)" unfolding split by auto
  ultimately show ?thesis using w by (intro exI[of _ ht1] exI[of _ "((as @ cs') @ [p]) @ x # ds"]) simp
qed

text \<open>
  Linking a new element ends and keeps the list sorted, provided that the position is new and that the
  element named as its predecessor, if it is in the list, is before it.
\<close>

lemma link:
  assumes wf: "list_wf ps nx ht0 ns" and ht: "ht = le_put ht0 x e1"
    and x: "le_deref ht0 x = Some e0" "ps e0 = None" and e1: "ps e1 = Some pos" "leid_ok pos" "nx e1 = None"
    and new: "\<forall>n \<in> set ns. list_pos ps ht0 n \<noteq> Some pos"
    and pre: "le_find ht0 pre \<noteq> None" "pre \<noteq> x" "\<forall>pp. list_pos ps ht0 pre = Some pp \<longrightarrow> leid_key pp < leid_key pos"
  shows "\<exists>ht1 ns'. list_link ps nx setnx ht x pos pre = Some ht1 \<and> list_wf ps nx ht1 ns' \<and> set ns' = insert x (set ns) \<and>
    links_only setnx (set ns') ht ht1"
proof -
  let ?k = "\<lambda>n. leid_key (the (list_pos ps ht0 n))"
  obtain h where h: "getHead ht0 = Some h" "chain nx ht0 h ns" using wf unfolding list_wf_def by blast
  have sorted: "sorted_wrt (\<lambda>a b. ?k a < ?k b) ns" and ok: "\<forall>n \<in> set ns. list_pos ps ht0 n \<noteq> None \<and> leid_ok (the (list_pos ps ht0 n))"
    and dom: "\<And>n. n \<in> set ns \<longleftrightarrow> list_pos ps ht0 n \<noteq> None" using wf unfolding list_wf_def by auto
  have ne: "?k n \<noteq> leid_key pos" if "n \<in> set ns" for n using new ok that leid_key_inj by (metis option.collapse)
  have hx: "x \<noteq> ''head''" using h x(1) by (auto simp: getHead_def le_deref_def split: option.splits list_field.splits)
  have gh: "getHead ht = Some h" using h(1) hx by (simp add: ht getHead_def le_put_def)
  have xn: "x \<notin> set ns" using dom x by (auto simp: list_pos_def)
  have d: "le_deref ht n = (if n = x then Some e1 else le_deref ht0 n)" for n by (simp add: ht le_deref_def le_put_def)
  note front = link_front[OF wf ht h(1) x e1 _ refl]
  show ?thesis
  proof (cases ns)
    case Nil
    then have "h = None" using h(2) by simp
    then show ?thesis using front gh Nil by (intro exI[of _ "setHead ht x"] exI[of _ "[x]"]) (simp add: list_link_def)
  next
    case (Cons a ns')
    then have ha: "h = Some a" and a: "a \<in> set ns" using h(2) by auto
    obtain ae ap where ae: "le_deref ht a = Some ae" "ps ae = Some ap" "list_pos ps ht0 a = Some ap" "leid_ok ap"
    proof -
      have "a \<noteq> x" using a xn by auto
      then show ?thesis using that ok a by (fastforce simp: list_pos_def d bind_eq_Some_conv)
    qed
    note cmp = leid_cmp_iff(1)[OF e1(2) ae(4)]
    show ?thesis
    proof (cases "leid_key pos < leid_key ap")
      case True
      have "\<forall>n \<in> set ns. leid_key pos < ?k n" using True ae(3) sorted Cons by (auto intro: less_trans)
      moreover have "list_link ps nx setnx ht x pos pre = Some (le_put (setHead ht x) x (setnx h e1))"
        using gh ha ae cmp True hx by (simp add: list_link_def list_set_next_def setHead_def ht le_deref_def le_put_def)
      ultimately show ?thesis using front ha by (intro exI[of _ "le_put (setHead ht x) x (setnx h e1)"] exI[of _ "x # ns"]) simp
    next
      case False
      then have al: "?k a < leid_key pos" using ne[OF a] ae(3) by simp
      have fx: "le_find ht pre = le_find ht0 pre" using pre(2) by (simp add: ht le_find_def le_put_def)
      define p0 where "p0 = (case the (le_find ht pre) of Some e \<Rightarrow> if ps e \<noteq> None then pre else a | None \<Rightarrow> a)"
      have p0: "p0 \<in> set ns" "?k p0 < leid_key pos"
        using pre(1,3) al a dom[of pre] unfolding p0_def fx
        by (auto simp: list_pos_def le_find_def le_deref_def split: option.splits list_field.splits)
      have run: "list_link ps nx setnx ht x pos pre =
          Option.bind (list_walk ps nx ht pos p0) (\<lambda>(p, q). Option.bind (list_set_next setnx ht p (Some x)) (\<lambda>ht1. list_set_next setnx ht1 x q))"
        using gh ha ae cmp False pre(1) fx by (auto simp: list_link_def p0_def Let_def)
      show ?thesis unfolding run by (rule link_after[OF wf ht x e1(1,2) new p0])
    qed
  qed
qed

end

text \<open>Changes that keep positions and links keep the list.\<close>

lemma list_wf_cong:
  assumes wf: "list_wf ps nx ht ns" and "getHead ht' = getHead ht" and pos: "\<forall>n. list_pos ps ht' n = list_pos ps ht n"
    and nx: "\<forall>n. list_pos ps ht n \<noteq> None \<longrightarrow> Option.bind (le_deref ht' n) nx = Option.bind (le_deref ht n) nx"
  shows "list_wf ps nx ht' ns"
proof -
  have "chain nx ht' po ms" if "chain nx ht po ms" "set ms \<subseteq> set ns" for po ms
    using that
  proof (induction ms arbitrary: po)
    case (Cons n ms)
    then have p: "list_pos ps ht n \<noteq> None" using wf by (auto simp: list_wf_def)
    obtain e where e: "le_deref ht n = Some e" "chain nx ht (nx e) ms" using Cons.prems by auto
    have "list_pos ps ht' n \<noteq> None" using p pos by simp
    then obtain e' where e': "le_deref ht' n = Some e'" by (cases "le_deref ht' n") (auto simp: list_pos_def)
    have "nx e' = nx e" using nx p e(1) e' by (metis bind.bind_lunit)
    then show ?case using Cons e e' by auto
  qed simp
  moreover obtain h where "getHead ht = Some h" "chain nx ht h ns" using wf unfolding list_wf_def by blast
  ultimately show ?thesis using wf assms(2) pos unfolding list_wf_def by auto
qed

lemma empty_list_wf: "list_wf ps nx Map.empty []"
  by (auto simp: list_wf_def getHead_def list_pos_def le_deref_def)

text \<open>A list is determined by the positions of its elements.\<close>

lemma sorted_by_unique:
  fixes f :: "'a \<Rightarrow> 'b::linorder"
  assumes "sorted_wrt (\<lambda>a b. f a < f b) xs" "sorted_wrt (\<lambda>a b. f a < f b) ys" "set xs = set ys"
  shows "xs = ys"
  using assms
proof (induction xs arbitrary: ys)
  case (Cons x xs)
  then obtain y ys' where ys: "ys = y # ys'" by (cases ys) auto
  have "x = y"
  proof (rule ccontr)
    assume "x \<noteq> y"
    then have "x \<in> set ys'" "y \<in> set xs" using Cons.prems(3) ys by auto
    then show False using Cons.prems(1,2) ys by force
  qed
  moreover have "x \<notin> set xs" "y \<notin> set ys'" using Cons.prems(1,2) ys by auto
  ultimately have "set xs = set ys'" using Cons.prems(3) ys by auto
  then show ?case using Cons.IH[of ys'] Cons.prems(1,2) ys \<open>x = y\<close> by simp
qed simp

lemma list_wf_unique:
  assumes a: "list_wf ps nx ht ns" and b: "list_wf ps nx ht' ns'" and pos: "\<forall>n. list_pos ps ht' n = list_pos ps ht n"
  shows "ns = ns'"
  using a b pos unfolding list_wf_def
  by (intro sorted_by_unique[where f = "\<lambda>n. leid_key (the (list_pos ps ht n))"]) auto

section \<open>Properties\<close>

text \<open>
  C36 (positions survive the wire): a position identifier with at most 1024 entries, all of them
  non-negative, is printed by \<open>leidToSds\<close> without a fault, and \<open>sdsToLeid\<close> reads the same identifier
  back from the text.
\<close>

theorem leid_roundtrip:
  assumes "leid_ok p"
  shows "\<exists>s. leidToSds p = Some s \<and> sdsToLeid s = Some p"
  using assms by (rule leid_parse)

text \<open>
  C24 (new positions): for neighbours in order, \<open>constructLeid\<close> makes a well-formed position that
  \<open>leid_cmp\<close> puts behind the left neighbour, and in front of the right one exactly if the right
  one does not merely extend the left one by positions of at most 1. In that remaining case the new
  element is placed behind the element it should precede.
\<close>

theorem constructLeid_between:
  assumes "neighbour_ok p" "neighbour_ok q" "clock_ok t" "length (constructLeid p q t) \<le> 1024"
    "\<forall>xs ys. p = Some xs \<longrightarrow> q = Some ys \<longrightarrow> leid_cmp xs ys < 0"
  shows "neighbour_ok (Some (constructLeid p q t)) \<and>
    (\<forall>xs. p = Some xs \<longrightarrow> leid_cmp xs (constructLeid p q t) < 0) \<and>
    (\<forall>ys. q = Some ys \<longrightarrow> (leid_cmp (constructLeid p q t) ys < 0 \<longleftrightarrow> \<not> leid_crowded p q))"
proof -
  have made: "neighbour_ok (Some (constructLeid p q t))" using construct_made[OF assms(1-4)] .
  then have n: "leid_ok (constructLeid p q t)" by (simp add: neighbour_ok_def)
  have ok: "leid_ok xs" if "p = Some xs \<or> q = Some xs" for xs using that assms(1,2) by (auto simp: neighbour_ok_def)
  have "leid_cmp xs (constructLeid p q t) < 0" if "p = Some xs" for xs
    using construct_above[of xs q t] leid_cmp_iff(1)[of xs "constructLeid p q t"] ok n assms(1,2) that by simp
  moreover have "leid_cmp (constructLeid p q t) ys < 0 \<longleftrightarrow> \<not> leid_crowded p q" if "q = Some ys" for ys
    using construct_below[of p ys t] leid_cmp_iff(1)[of _ ys] ok n assms(1,2,5) that by simp
  ultimately show ?thesis using made by simp
qed

section \<open>Witnesses\<close>

abbreviation (input) sample_pos :: "int \<Rightarrow> position" where
  "sample_pos i \<equiv> \<lparr>p_pos = i, p_pid = 0, p_count = 0\<rparr>"

lemma sample_pos_ok: "0 \<le> i \<Longrightarrow> i < 100 \<Longrightarrow> pos_ok (sample_pos i)"
  by (simp add: pos_ok_def)

theorem leid_roundtrip_witness:
  "\<exists>s. leidToSds [sample_pos 1, sample_pos 2] = Some s \<and> sdsToLeid s = Some [sample_pos 1, sample_pos 2]"
  by (rule leid_roundtrip) (simp add: leid_ok_def sample_pos_ok)

text \<open>Between 1 and 3 there is room; between 1 and 1,1 there is none.\<close>

lemma sample_construct:
  "constructLeid (Some [sample_pos 1]) (Some [sample_pos 3]) \<lparr>vector = [0, 0], vc_id = 0\<rparr> = [sample_pos 2]"
  "constructLeid (Some [sample_pos 1]) (Some [sample_pos 1, sample_pos 1]) \<lparr>vector = [0, 0], vc_id = 0\<rparr> =
    [sample_pos 1, sample_pos 1, sample_pos 1]"
  by (simp_all add: constructLeid_def Let_def leid_index.simps rprefix_def lprefix_def leid_sum_def)

theorem constructLeid_between_witness:
  "leid_cmp [sample_pos 1] (constructLeid (Some [sample_pos 1]) (Some [sample_pos 3]) \<lparr>vector = [0, 0], vc_id = 0\<rparr>) < 0 \<and>
   leid_cmp (constructLeid (Some [sample_pos 1]) (Some [sample_pos 3]) \<lparr>vector = [0, 0], vc_id = 0\<rparr>) [sample_pos 3] < 0 \<and>
   \<not> leid_cmp (constructLeid (Some [sample_pos 1]) (Some [sample_pos 1, sample_pos 1]) \<lparr>vector = [0, 0], vc_id = 0\<rparr>)
     [sample_pos 1, sample_pos 1] < 0"
proof -
  let ?t = "\<lparr>vector = [0, 0], vc_id = 0\<rparr>"
  have ok: "clock_ok ?t" "neighbour_ok (Some [sample_pos 1])" "neighbour_ok (Some [sample_pos 3])"
    "neighbour_ok (Some [sample_pos 1, sample_pos 1])"
    by (simp_all add: clock_ok_def neighbour_ok_def leid_ok_def sample_pos_ok leid_sum_def)
  have c: "\<not> leid_crowded (Some [sample_pos 1]) (Some [sample_pos 3])"
    "leid_crowded (Some [sample_pos 1]) (Some [sample_pos 1, sample_pos 1])"
    by (auto simp: leid_crowded_def intro!: exI[of _ "[sample_pos 1]"])
  have "leid_cmp [sample_pos 1] [sample_pos 3] < 0" "leid_cmp [sample_pos 1] [sample_pos 1, sample_pos 1] < 0"
    by (simp_all add: leid_cmp_def pos_cmp_def int32_def)
  then show ?thesis
    using constructLeid_between[OF ok(2,3,1)] constructLeid_between[OF ok(2,4,1)] c by (simp add: sample_construct)
qed

end
