(* ===== verification/RWFListCorrect.thy ===== *)
theory RWFListCorrect
  imports RWFList ListOrder
begin

text \<open>
  Correctness of the remove-win list: what an effect does to the element it targets, that the linked
  list stays sorted, and that replicas which have received the same messages show the same list.
\<close>

section \<open>Elements\<close>

interpretation rwfll: linked_list rwfl_pos_id rwfl_next "\<lambda>q e. e\<lparr>rwfl_next := q\<rparr>"
  by unfold_locales simp_all

text \<open>The value of a property, whether it has a field of its own or is a bit of \<open>property\<close>.\<close>

definition prop_value :: "rwfle \<Rightarrow> list_prop \<Rightarrow> int option" where
  "prop_value e p =
     (case prop_bit p of None \<Rightarrow> rwfl_normal e p | Some i \<Rightarrow> Some (of_bool (bit (rwfl_property e) i)))"

lemma prop_value_fields [simp]:
  "prop_value (e\<lparr>rwfl_next := q\<rparr>) = prop_value e" "prop_value (e\<lparr>rwfl_oid := oid\<rparr>) = prop_value e"
  "prop_value (e\<lparr>rwfl_content := c\<rparr>) = prop_value e" "prop_value (e\<lparr>rwfl_pos_id := po\<rparr>) = prop_value e"
  "prop_value (e\<lparr>rwfl_ts := ts\<rparr>) = prop_value e" "prop_value (e\<lparr>rwfl_current := l\<rparr>) = prop_value e"
  "prop_value (e\<lparr>PID := i\<rparr>) = prop_value e"
  by (auto simp: prop_value_def fun_eq_iff split: option.split)

definition prop_input :: "list_prop \<Rightarrow> int \<Rightarrow> bool \<Rightarrow> int" where
  "prop_input p v on = (case prop_bit p of None \<Rightarrow> int32 v | Some i \<Rightarrow> of_bool on)"

lemma prop_bit_inj: "prop_bit p = Some i \<Longrightarrow> prop_bit q = Some i \<Longrightarrow> p = q"
  by (cases p; cases q) auto

lemma set_prop_value: "prop_value (set_prop p v on e) = (prop_value e)(p \<mapsto> prop_input p v on)"
proof
  fix q
  show "prop_value (set_prop p v on e) q = ((prop_value e)(p \<mapsto> prop_input p v on)) q"
    using prop_bit_inj[of p _ q]
    by (cases "prop_bit p"; cases "prop_bit q")
      (auto simp: prop_value_def set_prop_def prop_input_def bit_set_bit_iff bit_unset_bit_iff)
qed

lemma set_prop_simps [simp]:
  "PID (set_prop p v on e) = PID e" "CURRENT (set_prop p v on e) = CURRENT e" "rwfl_ts (set_prop p v on e) = rwfl_ts e"
  "rwfl_oid (set_prop p v on e) = rwfl_oid e" "rwfl_pos_id (set_prop p v on e) = rwfl_pos_id e"
  "rwfl_content (set_prop p v on e) = rwfl_content e" "rwfl_next (set_prop p v on e) = rwfl_next e"
  "rwfl_current (set_prop p v on e) = rwfl_current e"
  by (simp_all add: set_prop_def split: option.split)

lemma insert_prop_simps [simp]:
  "PID (insert_prop p v on e) = PID e" "CURRENT (insert_prop p v on e) = CURRENT e" "rwfl_ts (insert_prop p v on e) = rwfl_ts e"
  "rwfl_oid (insert_prop p v on e) = rwfl_oid e" "rwfl_pos_id (insert_prop p v on e) = rwfl_pos_id e"
  "rwfl_content (insert_prop p v on e) = rwfl_content e" "rwfl_next (insert_prop p v on e) = rwfl_next e"
  by (simp_all add: insert_prop_def)

lemma insert_prop_value:
  "prop_value (insert_prop p v on e) = (if rwfl_ts e p = None then (prop_value e)(p \<mapsto> prop_input p v on) else prop_value e)"
  by (simp add: insert_prop_def set_prop_value)

text \<open>No other bits than those of the three properties are ever set.\<close>

definition bits_ok :: "rwfle \<Rightarrow> bool" where
  "bits_ok e \<longleftrightarrow> 0 \<le> rwfl_property e \<and> (\<forall>i \<ge> 3. \<not> bit (rwfl_property e) i)"

lemma bits_ok_fields [simp]:
  "bits_ok (e\<lparr>rwfl_next := q\<rparr>) = bits_ok e" "bits_ok (e\<lparr>rwfl_ts := ts\<rparr>) = bits_ok e"
  "bits_ok (e\<lparr>rwfl_current := l\<rparr>) = bits_ok e" "bits_ok (e\<lparr>PID := i\<rparr>) = bits_ok e"
  by (simp_all add: bits_ok_def)

lemma prop_bit_range: "prop_bit p = Some i \<Longrightarrow> i < 3"
  by (cases p) auto

lemma set_prop_bits: "bits_ok e \<Longrightarrow> bits_ok (set_prop p v on e)"
  using prop_bit_range[of p]
  by (auto simp: bits_ok_def set_prop_def bit_set_bit_iff bit_unset_bit_iff split: option.split)

lemma insert_prop_bits: "bits_ok e \<Longrightarrow> bits_ok (insert_prop p v on e)"
  by (simp add: insert_prop_def set_prop_bits)

text \<open>The values that an insert brings.\<close>

definition insert_values :: "sds list \<Rightarrow> list_prop \<Rightarrow> int" where
  "insert_values m p =
     (let arg = (\<lambda>i. the (getLongLongFromObject (m ! i)))
      in case p of Font \<Rightarrow> int32 (arg 5) | Size \<Rightarrow> int32 (arg 6) | Color \<Rightarrow> int32 (arg 7)
         | Bold \<Rightarrow> of_bool (bit (arg 8) 0) | Italic \<Rightarrow> of_bool (bit (arg 8) 1) | Underline \<Rightarrow> of_bool (bit (arg 8) 2))"

lemma rwfl_insert_props_simps [simp]:
  "PID (rwfl_insert_props a b c d e) = PID e" "CURRENT (rwfl_insert_props a b c d e) = CURRENT e"
  "rwfl_ts (rwfl_insert_props a b c d e) = rwfl_ts e" "rwfl_oid (rwfl_insert_props a b c d e) = rwfl_oid e"
  "rwfl_pos_id (rwfl_insert_props a b c d e) = rwfl_pos_id e" "rwfl_content (rwfl_insert_props a b c d e) = rwfl_content e"
  "rwfl_next (rwfl_insert_props a b c d e) = rwfl_next e"
  by (simp_all add: rwfl_insert_props_def)

lemma rwfl_insert_props_bits: "bits_ok e \<Longrightarrow> bits_ok (rwfl_insert_props a b c d e)"
  by (simp add: rwfl_insert_props_def insert_prop_bits)

lemma rwfl_insert_props_value:
  assumes "getLongLongFromObject (m ! 5) = Some a" "getLongLongFromObject (m ! 6) = Some b"
    "getLongLongFromObject (m ! 7) = Some c" "getLongLongFromObject (m ! 8) = Some d"
  shows "prop_value (rwfl_insert_props a b c d e) =
    (\<lambda>p. if rwfl_ts e p = None then Some (insert_values m p) else prop_value e p)"
proof
  fix p
  show "prop_value (rwfl_insert_props a b c d e) p = (if rwfl_ts e p = None then Some (insert_values m p) else prop_value e p)"
    using assms by (cases p) (simp_all add: rwfl_insert_props_def insert_prop_value prop_input_def insert_values_def)
qed

section \<open>Payloads\<close>

text \<open>
  The payload of an element: the replica whose insert is in force, the clocks of the updates and the
  values that an insert or an update has set since the last remove.
\<close>

type_synonym rwfl_payload = "int \<times> (list_prop \<Rightarrow> lc option) \<times> (list_prop \<Rightarrow> int option)"

definition rwfl_new :: rwfl_payload where
  "rwfl_new = (PID_NEXIST, Map.empty, Map.empty)"

definition rwfl_payload :: "rwfle \<Rightarrow> rwfl_payload" where
  "rwfl_payload e = (PID e, rwfl_ts e, \<lambda>p. if 0 \<le> PID e \<or> rwfl_ts e p \<noteq> None then prop_value e p else None)"

lemma rwfl_payload_place [simp]:
  "rwfl_payload (e\<lparr>rwfl_next := q\<rparr>) = rwfl_payload e" "rwfl_payload (e\<lparr>rwfl_oid := oid\<rparr>) = rwfl_payload e"
  "rwfl_payload (e\<lparr>rwfl_content := c\<rparr>) = rwfl_payload e" "rwfl_payload (e\<lparr>rwfl_pos_id := po\<rparr>) = rwfl_payload e"
  by (simp_all add: rwfl_payload_def cong: if_cong)

definition rwfl_is_insert :: "sds list \<Rightarrow> bool" where
  "rwfl_is_insert m \<longleftrightarrow> m ! 0 = ''rwflinsert''"

definition rwfl_is_update :: "sds list \<Rightarrow> bool" where
  "rwfl_is_update m \<longleftrightarrow> m ! 0 = ''rwflupdate''"

definition rwfl_target :: "sds list \<Rightarrow> sds \<times> sds" where
  "rwfl_target m = (m ! 1, if rwfl_is_insert m then m ! 3 else m ! 2)"

definition rwfl_prop :: "sds list \<Rightarrow> list_prop option" where
  "rwfl_prop m = prop_of_name (c_text (sdstolower (m ! 3)))"

definition rwfl_lc :: "sds list \<Rightarrow> lc" where
  "rwfl_lc m = the (sdsToLc (m ! 5))"

definition rwfl_update_value :: "sds list \<Rightarrow> list_prop \<Rightarrow> int" where
  "rwfl_update_value m p = (let v = int32 (the (getLongLongFromObject (m ! 4))) in prop_input p v (v \<noteq> 0))"

definition rwfl_act :: "sds list \<Rightarrow> rwfl_payload \<Rightarrow> rwfl_payload" where
  "rwfl_act m pl =
     (case pl of (pid, ts, vs) \<Rightarrow>
        if rwfl_is_insert m
        then if pid < vc_id (last_vc m) then (vc_id (last_vc m), ts, \<lambda>p. if ts p = None then Some (insert_values m p) else vs p) else pl
        else if rwfl_is_update m
        then let pid' = (if pid = PID_NEXIST then PID_WAIT_INNATE else pid)
             in (case rwfl_prop m of
                   None \<Rightarrow> (pid', ts, vs)
                 | Some p \<Rightarrow>
                     if (case ts p of None \<Rightarrow> True | Some u \<Rightarrow> lc_cmp u (rwfl_lc m) \<le> 0)
                     then (pid', ts(p \<mapsto> rwfl_lc m), vs(p \<mapsto> rwfl_update_value m p))
                     else (pid', ts, vs))
        else pl)"

definition rwfl_good :: "rwfl_payload \<Rightarrow> bool" where
  "rwfl_good pl \<longleftrightarrow> (\<forall>p t. fst (snd pl) p = Some t \<longrightarrow> lc_nonneg t)"

text \<open>Messages for the same element and history: inserts of different replicas, updates with different clocks.\<close>

definition rwfl_indep :: "sds list \<Rightarrow> sds list \<Rightarrow> bool" where
  "rwfl_indep m m' \<longleftrightarrow> (rwfl_is_insert m \<and> rwfl_is_insert m' \<longrightarrow> vc_id (last_vc m) \<noteq> vc_id (last_vc m')) \<and>
     (rwfl_is_update m \<and> rwfl_is_update m' \<longrightarrow> rwfl_lc m \<noteq> rwfl_lc m')"

definition rwfl_lc_ok :: "sds list \<Rightarrow> bool" where
  "rwfl_lc_ok m \<longleftrightarrow> (rwfl_is_update m \<longrightarrow> lc_nonneg (rwfl_lc m)) \<and> (rwfl_is_insert m \<longrightarrow> 0 \<le> vc_id (last_vc m))"

lemma rwfl_act_good: "rwfl_lc_ok m \<Longrightarrow> rwfl_good pl \<Longrightarrow> rwfl_good (rwfl_act m pl)"
  by (cases pl) (auto simp: rwfl_act_def rwfl_good_def rwfl_lc_ok_def Let_def split: option.splits)

lemma rwfl_not_both: "rwfl_is_insert m \<Longrightarrow> \<not> rwfl_is_update m"
  by (simp add: rwfl_is_insert_def rwfl_is_update_def)

lemma rwfl_inserts_commute:
  "rwfl_is_insert m \<Longrightarrow> rwfl_is_insert m' \<Longrightarrow> vc_id (last_vc m) \<noteq> vc_id (last_vc m') \<Longrightarrow>
   rwfl_act m (rwfl_act m' pl) = rwfl_act m' (rwfl_act m pl)"
  by (cases pl) (auto simp: rwfl_act_def)

lemma rwfl_insert_update_commute:
  "rwfl_is_insert m \<Longrightarrow> rwfl_is_update m' \<Longrightarrow> rwfl_lc_ok m \<Longrightarrow>
   rwfl_act m (rwfl_act m' pl) = rwfl_act m' (rwfl_act m pl)"
  using rwfl_not_both[of m] rwfl_not_both[of m']
  by (cases pl) (auto simp: rwfl_act_def rwfl_lc_ok_def Let_def fun_eq_iff split: option.splits)

text \<open>The last writer of a property is the update with the greatest clock.\<close>

lemma rwfl_updates_commute:
  assumes "rwfl_is_update m" "rwfl_is_update m'" "rwfl_lc_ok m" "rwfl_lc_ok m'" "rwfl_lc m \<noteq> rwfl_lc m'" "rwfl_good pl"
  shows "rwfl_act m (rwfl_act m' pl) = rwfl_act m' (rwfl_act m pl)"
proof -
  obtain pid ts vs where pl: "pl = (pid, ts, vs)" by (cases pl)
  have ni: "\<not> rwfl_is_insert m" "\<not> rwfl_is_insert m'" using assms(1,2) rwfl_not_both by blast+
  have nn: "lc_nonneg (rwfl_lc m)" "lc_nonneg (rwfl_lc m')" using assms(1-4) by (simp_all add: rwfl_lc_ok_def)
  have ts: "lc_nonneg t" if "ts p = Some t" for p t using assms(6) that by (simp add: rwfl_good_def pl)
  note le = lc_cmp_le[OF ts nn(1)] lc_cmp_le[OF ts nn(2)] lc_cmp_le[OF nn] lc_cmp_le[OF nn(2,1)]
  have ne: "time_key (rwfl_lc m) \<noteq> time_key (rwfl_lc m')" using assms(5) by (simp add: time_key_inj)
  show ?thesis
  proof (cases "rwfl_prop m = None \<or> rwfl_prop m' = None \<or> rwfl_prop m \<noteq> rwfl_prop m'")
    case True
    then show ?thesis using assms(1,2) ni
      by (auto simp: rwfl_act_def pl Let_def fun_upd_twist split: option.splits)
  next
    case False
    then obtain p where p: "rwfl_prop m = Some p" "rwfl_prop m' = Some p" by auto
    show ?thesis
      using assms(1,2) ni p ne by (cases "ts p") (auto simp: rwfl_act_def pl Let_def le)
  qed
qed

lemma rwfl_act_commute:
  assumes "rwfl_lc_ok m" "rwfl_lc_ok m'" "rwfl_indep m m'" "rwfl_good pl"
  shows "rwfl_act m (rwfl_act m' pl) = rwfl_act m' (rwfl_act m pl)"
proof -
  have idle: "rwfl_act m pl = pl" if "\<not> rwfl_is_insert m" "\<not> rwfl_is_update m" for m pl
    using that by (cases pl) (simp add: rwfl_act_def)
  consider "rwfl_is_insert m" "rwfl_is_insert m'" | "rwfl_is_insert m" "rwfl_is_update m'" | "rwfl_is_update m" "rwfl_is_insert m'"
    | "rwfl_is_update m" "rwfl_is_update m'" | "\<not> rwfl_is_insert m" "\<not> rwfl_is_update m" | "\<not> rwfl_is_insert m'" "\<not> rwfl_is_update m'" by blast
  then show ?thesis
  proof cases
    case 1
    then show ?thesis using assms(3) by (intro rwfl_inserts_commute) (simp_all add: rwfl_indep_def)
  next
    case 2
    then show ?thesis using assms(1) by (rule rwfl_insert_update_commute)
  next
    case 3
    then show ?thesis using rwfl_insert_update_commute[of m' m] assms(2) by simp
  next
    case 4
    then show ?thesis using assms by (intro rwfl_updates_commute) (simp_all add: rwfl_indep_def)
  qed (simp_all add: idle)
qed

section \<open>Tables\<close>

text \<open>
  The invariant of a list. \<open>P\<close> gives the position and the content that the origin chose for each
  element; an element that has been inserted has them.
\<close>

type_synonym places = "sds \<Rightarrow> (leid \<times> sds) option"

definition places_ok :: "places \<Rightarrow> bool" where
  "places_ok P \<longleftrightarrow> (\<forall>x pos c. P x = Some (pos, c) \<longrightarrow> leid_ok pos) \<and>
     (\<forall>x y pos c d. P x = Some (pos, c) \<longrightarrow> P y = Some (pos, d) \<longrightarrow> x = y)"

definition list_reserved :: "sds set" where
  "list_reserved = {''head'', ''current'', ''length'', ''ops''}"

definition rwfl_elem_ok :: "nat \<Rightarrow> int \<Rightarrow> (leid \<times> sds) option \<Rightarrow> sds \<Rightarrow> rwfle \<Rightarrow> bool" where
  "rwfl_elem_ok n i pl x e \<longleftrightarrow>
     vc_wf n (CURRENT e) \<and> vc_id (CURRENT e) = i \<and> (\<forall>v \<in> set (vector (CURRENT e)). 0 \<le> v) \<and>
     PID_WAIT_INNATE \<le> PID e \<and> bits_ok e \<and> rwfl_good (rwfl_payload e) \<and>
     (\<forall>p. 0 \<le> PID e \<or> rwfl_ts e p \<noteq> None \<longrightarrow> prop_value e p \<noteq> None) \<and>
     (0 \<le> PID e \<longrightarrow> rwfl_oid e \<noteq> None) \<and> (PID e = PID_NEXIST \<longrightarrow> rwfl_ts e = Map.empty) \<and>
     (rwfl_oid e = None \<longrightarrow> rwfl_pos_id e = None \<and> rwfl_next e = None) \<and>
     (rwfl_oid e \<noteq> None \<longrightarrow> rwfl_oid e = Some x \<and> (\<exists>pos c. pl = Some (pos, c) \<and> rwfl_pos_id e = Some pos \<and> rwfl_content e = Some c))"

definition rwfl_table_ok :: "nat \<Rightarrow> int \<Rightarrow> places \<Rightarrow> rwfl_ht \<Rightarrow> bool" where
  "rwfl_table_ok n i P ht \<longleftrightarrow> (\<exists>ns. list_wf rwfl_pos_id rwfl_next ht ns) \<and> getLen ht \<noteq> None \<and>
     (\<forall>x \<in> list_reserved. le_deref ht x = None) \<and> (\<forall>x. x \<notin> list_reserved \<longrightarrow> le_find ht x \<noteq> None) \<and>
     (\<forall>x e. le_deref ht x = Some e \<longrightarrow> rwfl_elem_ok n i (P x) x e)"

definition rwfl_view :: "nat \<Rightarrow> rwfl_ht \<Rightarrow> sds \<Rightarrow> int list \<times> rwfl_payload" where
  "rwfl_view n ht x = (case le_deref ht x of None \<Rightarrow> (replicate n 0, rwfl_new) | Some e \<Rightarrow> (vector (CURRENT e), rwfl_payload e))"

abbreviation rwfl_pos :: "rwfl_ht \<Rightarrow> sds \<Rightarrow> leid option" where
  "rwfl_pos \<equiv> list_pos rwfl_pos_id"

lemma le_put_simps [simp]:
  "le_deref (le_put ht x e) y = (if y = x then Some e else le_deref ht y)"
  "le_find (le_put ht x e) y = (if y = x then Some (Some e) else le_find ht y)"
  by (simp_all add: le_deref_def le_find_def le_put_def)

lemma le_put_fields [simp]:
  "x \<notin> list_reserved \<Longrightarrow> getHead (le_put ht x e) = getHead ht" "x \<notin> list_reserved \<Longrightarrow> getLen (le_put ht x e) = getLen ht"
  by (auto simp: list_reserved_def getHead_def getLen_def le_put_def)

lemma list_pos_put:
  "list_pos ps (le_put ht x e) y = (if y = x then ps e else list_pos ps ht y)"
  by (simp add: list_pos_def)

text \<open>An element of the table is replaced by one at the same place.\<close>

lemma table_put:
  assumes ok: "rwfl_table_ok n i P ht" and x: "x \<notin> list_reserved"
    and same: "rwfl_pos_id e' = rwfl_pos ht x" "rwfl_next e' = Option.bind (le_deref ht x) rwfl_next" and e': "rwfl_elem_ok n i (P x) x e'"
  shows "rwfl_table_ok n i P (le_put ht x e')" "rwfl_pos (le_put ht x e') = rwfl_pos ht"
    "rwfl_view n (le_put ht x e') = (rwfl_view n ht)(x := (vector (CURRENT e'), rwfl_payload e'))"
proof -
  show pos: "rwfl_pos (le_put ht x e') = rwfl_pos ht" using same by (auto simp: list_pos_put)
  obtain ns where "list_wf rwfl_pos_id rwfl_next ht ns" using ok unfolding rwfl_table_ok_def by blast
  then have "list_wf rwfl_pos_id rwfl_next (le_put ht x e') ns"
    using pos same x by (elim list_wf_cong) auto
  then show "rwfl_table_ok n i P (le_put ht x e')" using ok x e' unfolding rwfl_table_ok_def by auto
  show "rwfl_view n (le_put ht x e') = (rwfl_view n ht)(x := (vector (CURRENT e'), rwfl_payload e'))"
    by (auto simp: rwfl_view_def)
qed

lemma table_len:
  assumes ok: "rwfl_table_ok n i P ht"
  shows "\<exists>ht1. incrLen ht d = Some ht1 \<and> rwfl_table_ok n i P ht1 \<and> le_deref ht1 = le_deref ht"
proof -
  obtain l where l: "getLen ht = Some l" using ok unfolding rwfl_table_ok_def by blast
  have nl: "le_deref ht ''length'' = None" using ok by (simp add: rwfl_table_ok_def list_reserved_def)
  define ht1 where "ht1 = (if d = 0 then ht else ht(''length'' \<mapsto> LLength (int32 (l + d))))"
  have d: "le_deref ht1 = le_deref ht" using nl by (auto simp: ht1_def le_deref_def fun_eq_iff)
  have f: "le_find ht1 x = le_find ht x" if "x \<noteq> ''length''" for x using that by (simp add: ht1_def le_find_def)
  obtain ns where "list_wf rwfl_pos_id rwfl_next ht ns" using ok unfolding rwfl_table_ok_def by blast
  then have "list_wf rwfl_pos_id rwfl_next ht1 ns"
    by (rule list_wf_cong) (simp_all add: ht1_def getHead_def list_pos_def d[unfolded ht1_def])
  moreover have "getLen ht1 \<noteq> None" using l by (simp add: ht1_def getLen_def)
  ultimately have "rwfl_table_ok n i P ht1" using ok d f unfolding rwfl_table_ok_def list_reserved_def by auto
  then show ?thesis using l d by (auto simp: incrLen_def ht1_def)
qed

lemma rwfleNew_ok: "replica_ok n s \<Longrightarrow> rwfl_elem_ok n (p2p_id s) pl x (rwfleNew s)"
  using replica_ok_vc[of n s] by (auto simp: rwfl_elem_ok_def rwfleNew_def bits_ok_def rwfl_good_def rwfl_payload_def)

lemma rwfleNew_view: "replica_ok n s \<Longrightarrow> (vector (CURRENT (rwfleNew s)), rwfl_payload (rwfleNew s)) = (replicate n 0, rwfl_new)"
  using replica_ok_vc[of n s] by (simp add: rwfleNew_def rwfl_payload_def rwfl_new_def)

lemma table_create:
  assumes ok: "rwfl_table_ok n (p2p_id s) P ht" and x: "x \<notin> list_reserved" and r: "replica_ok n s"
  shows "\<exists>ht1 e. le_create (rwfleNew s) ht x = Some (ht1, e) \<and> rwfl_table_ok n (p2p_id s) P ht1 \<and> le_deref ht1 x = Some e \<and>
    rwfl_view n ht1 = rwfl_view n ht \<and> rwfl_pos ht1 = rwfl_pos ht"
proof (cases "le_deref ht x")
  case (Some e)
  then have "le_create (rwfleNew s) ht x = Some (ht, e)"
    by (auto simp: le_create_def le_find_def le_deref_def split: option.splits list_field.splits)
  then show ?thesis using ok Some by blast
next
  case None
  have "le_find ht x \<noteq> None" using ok x by (simp add: rwfl_table_ok_def)
  then have "ht x = None" using None by (auto simp: le_find_def le_deref_def split: option.splits list_field.splits)
  then have c: "le_create (rwfleNew s) ht x = Some (le_put ht x (rwfleNew s), rwfleNew s)"
    by (simp add: le_create_def le_find_def le_put_def)
  have same: "rwfl_pos_id (rwfleNew s) = rwfl_pos ht x" "rwfl_next (rwfleNew s) = Option.bind (le_deref ht x) rwfl_next"
    using None by (simp_all add: rwfleNew_def list_pos_def)
  note put = table_put[OF ok x same rwfleNew_ok[OF r]]
  have "rwfl_view n ht x = (vector (CURRENT (rwfleNew s)), rwfl_payload (rwfleNew s))"
    unfolding rwfleNew_view[OF r] using None by (simp add: rwfl_view_def)
  then have "rwfl_view n (le_put ht x (rwfleNew s)) = rwfl_view n ht" unfolding put(3) by (metis fun_upd_triv)
  then show ?thesis using c put(1,2) by (intro exI[of _ "le_put ht x (rwfleNew s)"] exI[of _ "rwfleNew s"]) simp
qed

lemma rwfl_reset_ok:
  assumes e: "rwfl_elem_ok n i pl x e" and t: "vc_size t = n" "\<forall>v \<in> set (vector t). 0 \<le> v \<and> is_int32 v"
  defines "e2 \<equiv> (REH_RMV_FUNC e t)\<lparr>rwfl_ts := Map.empty, rwfl_current := (rwfl_current e)\<lparr>lc_x := 0\<rparr>\<rparr>"
  shows "rwfl_elem_ok n i pl x e2"
    "(vector (CURRENT e2), rwfl_payload e2) = (vjoin (vector (CURRENT e)) (vector t), rwfl_new)"
    "rwfl_pos_id e2 = rwfl_pos_id e" "rwfl_next e2 = rwfl_next e"
proof -
  have sz: "vc_size (CURRENT e) = n" using e by (simp add: rwfl_elem_ok_def vc_wf_def)
  have v: "vector (vc_update (CURRENT e) t) = vjoin (vector (CURRENT e)) (vector t)" using sz t(1) by (simp add: vc_update_vjoin)
  have "set (vjoin (vector (CURRENT e)) (vector t)) \<subseteq> set (vector (CURRENT e)) \<union> set (vector t)" by (rule vjoin_set)
  then have "vc_wf n (vc_update (CURRENT e) t)" "\<forall>w \<in> set (vector (vc_update (CURRENT e) t)). 0 \<le> w"
    using e t(2) sz unfolding v vc_wf_def rwfl_elem_ok_def by auto
  then show "rwfl_elem_ok n i pl x e2" using e unfolding rwfl_elem_ok_def
    by (auto simp: e2_def REH_RMV_FUNC_def rwfl_good_def rwfl_payload_def bits_ok_def)
  show "(vector (CURRENT e2), rwfl_payload e2) = (vjoin (vector (CURRENT e)) (vector t), rwfl_new)"
    using v by (simp add: e2_def rwfl_payload_def rwfl_new_def REH_RMV_FUNC_def)
qed (simp_all add: e2_def REH_RMV_FUNC_def)

text \<open>The remove history joins the clock of the message; if it grows, the element is reset.\<close>

lemma table_remove:
  assumes ok: "rwfl_table_ok n i P ht" and x: "x \<notin> list_reserved" "le_deref ht x = Some e"
    and t: "vc_size t = n" "\<forall>v \<in> set (vector t). 0 \<le> v \<and> is_int32 v"
  shows "\<exists>ht2 e1 r. rwfl_removeFunc ht x e t = Some (ht2, e1, r) \<and> rwfl_table_ok n i P ht2 \<and> le_deref ht2 x = Some e1 \<and>
    rwfl_view n ht2 = (rwfl_view n ht)(x := if vle (vector t) (fst (rwfl_view n ht x)) then rwfl_view n ht x
       else (vjoin (fst (rwfl_view n ht x)) (vector t), rwfl_new)) \<and> rwfl_pos ht2 = rwfl_pos ht"
proof -
  have e: "rwfl_elem_ok n i (P x) x e" using ok x(2) by (simp add: rwfl_table_ok_def)
  have sz: "vc_size t = vc_size (CURRENT e)" using e t(1) by (simp add: rwfl_elem_ok_def vc_wf_def)
  have v: "rwfl_view n ht x = (vector (CURRENT e), rwfl_payload e)" using x(2) by (simp add: rwfl_view_def)
  have keep: "rwfl_pos_id e = rwfl_pos ht x" "rwfl_next e = Option.bind (le_deref ht x) rwfl_next"
    using x(2) by (simp_all add: list_pos_def)
  show ?thesis
  proof (cases "vle (vector t) (vector (CURRENT e))")
    case True
    then have "rwfl_removeFunc ht x e t = Some (le_put ht x e, e, False)"
      by (simp add: rwfl_removeFunc_def removeCheck_spec[OF sz])
    then show ?thesis using table_put[OF ok x(1) keep e] v True by (intro exI[of _ "le_put ht x e"] exI[of _ e] exI[of _ False]) simp
  next
    case False
    let ?e2 = "(REH_RMV_FUNC e t)\<lparr>rwfl_ts := Map.empty, rwfl_current := (rwfl_current e)\<lparr>lc_x := 0\<rparr>\<rparr>"
    note rs = rwfl_reset_ok[OF e t]
    obtain ht1 where ht1: "(if EXISTS e then incrLen ht (- 1) else Some ht) = Some ht1" "rwfl_table_ok n i P ht1" "le_deref ht1 = le_deref ht"
      using table_len[OF ok, of "- 1"] ok by (cases "EXISTS e") auto
    have pos: "rwfl_pos ht1 = rwfl_pos ht" "rwfl_view n ht1 = rwfl_view n ht" using ht1(3) by (auto simp: list_pos_def rwfl_view_def)
    have "rwfl_removeFunc ht x e t = Some (le_put ht1 x ?e2, ?e2, True)"
      using False ht1(1) by (simp add: rwfl_removeFunc_def removeCheck_spec[OF sz] Let_def REH_RMV_FUNC_def)
    moreover note put = table_put[OF ht1(2) x(1) _ _ rs(1)]
    ultimately show ?thesis using rs keep pos ht1(3) False v by (intro exI[of _ "le_put ht1 x ?e2"] exI[of _ ?e2] exI[of _ True]) simp
  qed
qed

lemma elem_ok_next: "rwfl_elem_ok n i pl x e \<Longrightarrow> rwfl_oid e \<noteq> None \<Longrightarrow> rwfl_elem_ok n i pl x (e\<lparr>rwfl_next := q\<rparr>)"
  by (simp add: rwfl_elem_ok_def bits_ok_def rwfl_payload_def rwfl_good_def)

lemma elem_ok_place: "rwfl_elem_ok n i (Some (pos, c)) x e \<Longrightarrow>
    rwfl_elem_ok n i (Some (pos, c)) x (e\<lparr>rwfl_oid := Some x, rwfl_content := Some c, rwfl_pos_id := Some pos\<rparr>)"
  by (simp add: rwfl_elem_ok_def bits_ok_def rwfl_payload_def rwfl_good_def)

lemma elem_ok_oid: "rwfl_elem_ok n i pl x e \<Longrightarrow> rwfl_pos_id e \<noteq> None \<Longrightarrow> rwfl_oid e \<noteq> None"
  by (cases "rwfl_oid e") (simp_all add: rwfl_elem_ok_def)

lemma table_places:
  assumes "rwfl_table_ok n i P ht" "rwfl_pos ht y = Some pp"
  shows "\<exists>c. P y = Some (pp, c)"
proof -
  obtain e where e: "le_deref ht y = Some e" "rwfl_pos_id e = Some pp" using assms(2) by (auto simp: list_pos_def bind_eq_Some_conv)
  then have "rwfl_elem_ok n i (P y) y e" using assms(1) by (simp add: rwfl_table_ok_def)
  then show ?thesis using e(2) by (cases "rwfl_oid e") (auto simp: rwfl_elem_ok_def)
qed

text \<open>Changes of links keep the invariant.\<close>

lemma table_links:
  assumes ok: "getLen ht \<noteq> None" "\<forall>x \<in> list_reserved. le_deref ht x = None" "\<forall>x. x \<notin> list_reserved \<longrightarrow> le_find ht x \<noteq> None"
      "\<forall>x e. le_deref ht x = Some e \<longrightarrow> rwfl_elem_ok n i (P x) x e"
    and links: "links_only (\<lambda>q e. e\<lparr>rwfl_next := q\<rparr>) (set ns) ht ht1" and wf: "list_wf rwfl_pos_id rwfl_next ht1 ns"
  shows "rwfl_table_ok n i P ht1" "rwfl_view n ht1 = rwfl_view n ht" "rwfl_pos ht1 = rwfl_pos ht"
    "le_deref ht x = Some e \<Longrightarrow> \<exists>q. le_deref ht1 x = Some (e\<lparr>rwfl_next := q\<rparr>)"
proof -
  have rs: "''head'' \<in> list_reserved" "''length'' \<in> list_reserved" by (simp_all add: list_reserved_def)
  have hd: "le_deref ht1 ''head'' = None" using wf
    by (auto simp: list_wf_def getHead_def le_deref_def split: option.splits list_field.splits)
  have L: "ht1 y = ht y \<or> y \<in> set ns \<and> (\<exists>e q. ht y = Some (LElem e) \<and> ht1 y = Some (LElem (e\<lparr>rwfl_next := q\<rparr>)))"
    if "y \<noteq> ''head''" for y using links that unfolding links_only_def by blast
  have d: "le_deref ht1 y = None \<and> le_deref ht y = None \<or>
      (\<exists>e q. le_deref ht y = Some e \<and> le_deref ht1 y = Some (e\<lparr>rwfl_next := q\<rparr>) \<and> (y \<in> set ns \<or> q = rwfl_next e))" for y
  proof (cases "y = ''head''")
    case True
    then show ?thesis using hd ok(2) rs by simp
  next
    case False
    from L[OF this] show ?thesis
    proof (elim disjE conjE exE)
      assume "ht1 y = ht y"
      then have "le_deref ht1 y = le_deref ht y" by (simp add: le_deref_def)
      then show ?thesis
      proof (cases "le_deref ht y")
        case (Some a)
        then show ?thesis using \<open>le_deref ht1 y = le_deref ht y\<close>
          by (intro disjI2 exI[of _ a] exI[of _ "rwfl_next a"]) simp
      qed simp
    qed (auto simp: le_deref_def)
  qed
  show pos: "rwfl_pos ht1 = rwfl_pos ht"
  proof
    fix y show "rwfl_pos ht1 y = rwfl_pos ht y" using d[of y] by (auto simp: list_pos_def)
  qed
  show "rwfl_view n ht1 = rwfl_view n ht"
  proof
    fix y show "rwfl_view n ht1 y = rwfl_view n ht y"
      using d[of y] by (auto simp: rwfl_view_def rwfl_payload_def fun_eq_iff)
  qed
  show "\<exists>q. le_deref ht1 x = Some (e\<lparr>rwfl_next := q\<rparr>)" if "le_deref ht x = Some e" using d[of x] that by auto
  have "rwfl_elem_ok n i (P y) y e1" if e1: "le_deref ht1 y = Some e1" for y e1
  proof -
    obtain e q where e: "le_deref ht y = Some e" "e1 = e\<lparr>rwfl_next := q\<rparr>" "y \<in> set ns \<or> q = rwfl_next e" using d[of y] e1 by auto
    have oke: "rwfl_elem_ok n i (P y) y e" using ok(4) e(1) by simp
    show ?thesis
    proof (cases "rwfl_oid e = None")
      case True
      then have "rwfl_pos ht1 y = None" using oke e1 e(2) by (simp add: list_pos_def rwfl_elem_ok_def)
      then have "y \<notin> set ns" using wf unfolding list_wf_def by blast
      then show ?thesis using e oke by simp
    qed (simp add: e(2) elem_ok_next oke)
  qed
  moreover have "\<forall>y \<in> list_reserved. le_deref ht1 y = None" using d ok(2) by (metis option.distinct(1))
  moreover have "le_find ht1 y \<noteq> None" if "y \<notin> list_reserved" for y
  proof -
    have "y \<noteq> ''head''" "le_find ht y \<noteq> None" using ok(3) that rs by auto
    then show ?thesis using L[of y] by (auto simp: le_find_def)
  qed
  moreover have "getLen ht1 = getLen ht" using L[of "''length''"] ok(2) rs by (auto simp: getLen_def le_deref_def)
  ultimately show "rwfl_table_ok n i P ht1" using wf ok(1) unfolding rwfl_table_ok_def by auto
qed

lemma table_link:
  assumes ok: "rwfl_table_ok n i P ht" and x: "x \<notin> list_reserved" "le_deref ht x = Some e" "rwfl_oid e = None"
    and P: "places_ok P" "P x = Some (pos, c)"
    and ra: "arg ra 4 = Some c" "arg ra 9 = Some tx" "sdsToLeid tx = Some pos" "arg ra 2 = Some pre"
    and pre: "pre \<notin> list_reserved" "pre \<noteq> x" "\<forall>pp d. P pre = Some (pp, d) \<longrightarrow> leid_key pp < leid_key pos"
  shows "\<exists>ht3 q. rwfl_link ht x ra e = Some ht3 \<and> rwfl_table_ok n i P ht3 \<and>
    le_deref ht3 x = Some (e\<lparr>rwfl_oid := Some x, rwfl_content := Some c, rwfl_pos_id := Some pos, rwfl_next := q\<rparr>) \<and>
    rwfl_view n ht3 = rwfl_view n ht \<and> rwfl_pos ht3 = (rwfl_pos ht)(x \<mapsto> pos)"
proof -
  let ?e1 = "e\<lparr>rwfl_oid := Some x, rwfl_content := Some c, rwfl_pos_id := Some pos\<rparr>"
  let ?ht = "le_put ht x ?e1"
  have e: "rwfl_elem_ok n i (Some (pos, c)) x e" using ok x(2) P(2) by (metis rwfl_table_ok_def)
  then have ep: "rwfl_pos_id e = None" "rwfl_next e = None" using x(3) by (simp_all add: rwfl_elem_ok_def)
  obtain ns where wf: "list_wf rwfl_pos_id rwfl_next ht ns" using ok unfolding rwfl_table_ok_def by blast
  have "rwfl_pos ht y \<noteq> Some pos" for y
  proof
    assume "rwfl_pos ht y = Some pos"
    moreover from this obtain d where "P y = Some (pos, d)" using table_places[OF ok] by blast
    then have "y = x" using P unfolding places_ok_def by blast
    ultimately show False using x(2) ep by (simp add: list_pos_def)
  qed
  moreover have "leid_key pp < leid_key pos" if "rwfl_pos ht pre = Some pp" for pp using table_places[OF ok that] pre(3) by blast
  moreover have "le_find ht pre \<noteq> None" using ok pre(1) by (simp add: rwfl_table_ok_def)
  moreover have "leid_ok pos" using P unfolding places_ok_def by blast
  ultimately obtain ht3 ns' where l: "list_link rwfl_pos_id rwfl_next (\<lambda>q e. e\<lparr>rwfl_next := q\<rparr>) ?ht x pos pre = Some ht3"
    "list_wf rwfl_pos_id rwfl_next ht3 ns'" "links_only (\<lambda>q e. e\<lparr>rwfl_next := q\<rparr>) (set ns') ?ht ht3"
    using rwfll.link[OF wf refl x(2) ep(1), of ?e1 pos pre] ep pre(2) by auto
  have el: "\<forall>y e'. le_deref ?ht y = Some e' \<longrightarrow> rwfl_elem_ok n i (P y) y e'"
    using ok elem_ok_place[OF e] P(2) by (simp add: rwfl_table_ok_def)
  have pre_ok: "getLen ?ht \<noteq> None" "\<forall>y \<in> list_reserved. le_deref ?ht y = None" "\<forall>y. y \<notin> list_reserved \<longrightarrow> le_find ?ht y \<noteq> None"
    using ok x(1) by (auto simp: rwfl_table_ok_def)
  have "rwfl_view n ?ht = rwfl_view n ht" using x(2) by (auto simp: rwfl_view_def rwfl_payload_def fun_eq_iff)
  moreover have "rwfl_pos ?ht = (rwfl_pos ht)(x \<mapsto> pos)" by (auto simp: list_pos_put)
  moreover have "rwfl_link ht x ra e = Some ht3" using l(1) ra by (simp add: rwfl_link_def Let_def)
  ultimately show ?thesis using table_links(1-3)[OF pre_ok el l(3,2)] table_links(4)[OF pre_ok el l(3,2), of x ?e1] by auto
qed

section \<open>Servers\<close>

definition rwfl_table :: "rwfl_server \<Rightarrow> sds \<Rightarrow> rwfl_ht" where
  "rwfl_table s k = (case db s k of Some (ObjHash h) \<Rightarrow> h | _ \<Rightarrow> Map.empty)"

definition rwflist_inv :: "nat \<Rightarrow> sds set \<Rightarrow> (sds \<Rightarrow> places) \<Rightarrow> rwfl_server \<Rightarrow> bool" where
  "rwflist_inv n K P s \<longleftrightarrow> replica_ok n s \<and> (\<forall>k \<in> K. places_ok (P k) \<and>
     (db s k = None \<or> (\<exists>h. db s k = Some (ObjHash h))) \<and> rwfl_table_ok n (p2p_id s) (P k) (rwfl_table s k))"

definition rwflist_view :: "nat \<Rightarrow> sds \<times> sds \<Rightarrow> rwfl_server \<Rightarrow> int list \<times> rwfl_payload" where
  "rwflist_view n q s = rwfl_view n (rwfl_table s (fst q)) (snd q)"

definition rwflist_pos :: "sds \<times> sds \<Rightarrow> rwfl_server \<Rightarrow> leid option" where
  "rwflist_pos q s = rwfl_pos (rwfl_table s (fst q)) (snd q)"

text \<open>
  The messages of the list. An insert carries the position and the content of its element, and the
  element it names as its predecessor has a smaller position.
\<close>

definition rwfl_insert_ok :: "(sds \<Rightarrow> places) \<Rightarrow> sds list \<Rightarrow> bool" where
  "rwfl_insert_ok P m \<longleftrightarrow> length m = 11 \<and> (\<forall>i \<in> {5, 6, 7, 8}. getLongLongFromObject (m ! i) \<noteq> None) \<and>
     m ! 2 \<notin> list_reserved \<and> m ! 2 \<noteq> m ! 3 \<and>
     (case sdsToLeid (m ! 9) of
        None \<Rightarrow> False
      | Some pos \<Rightarrow> P (m ! 1) (m ! 3) = Some (pos, m ! 4) \<and>
          (\<forall>pp d. P (m ! 1) (m ! 2) = Some (pp, d) \<longrightarrow> leid_key pp < leid_key pos))"

definition rwfl_update_ok :: "sds list \<Rightarrow> bool" where
  "rwfl_update_ok m \<longleftrightarrow> length m = 7 \<and> getLongLongFromObject (m ! 4) \<noteq> None \<and>
     (case sdsToLc (m ! 5) of None \<Rightarrow> False | Some t \<Rightarrow> lc_nonneg t)"

definition rwfl_msg_ok :: "nat \<Rightarrow> sds set \<Rightarrow> (sds \<Rightarrow> places) \<Rightarrow> sds list \<Rightarrow> bool" where
  "rwfl_msg_ok n K P m \<longleftrightarrow> m \<noteq> [] \<and> vc_text n (last m) \<and> m ! 1 \<in> K \<and> snd (rwfl_target m) \<notin> list_reserved \<and>
     (if rwfl_is_insert m then rwfl_insert_ok P m
      else if rwfl_is_update m then rwfl_update_ok m
      else m ! 0 = ''rwflrem'' \<and> length m = 4)"

definition rwfl_astep :: "sds list \<Rightarrow> int list \<times> rwfl_payload \<Rightarrow> int list \<times> rwfl_payload" where
  "rwfl_astep = stamped_step vle vjoin msg_stamp rwfl_act rwfl_new"

definition rwfl_deliver :: "rwfl_server \<Rightarrow> sds list \<Rightarrow> rwfl_server option" where
  "rwfl_deliver s m =
     deliver (if rwfl_is_insert m then rwflinsertCommand
              else if rwfl_is_update m then rwflupdateCommand else rwflremCommand) s m"

lemma getListHT_ok:
  assumes "rwflist_inv n K P s" "k \<in> K"
  shows "\<exists>s1. getListHT s k True = Some (s1, Some (rwfl_table s k)) \<and> senv s1 = senv s \<and> dirty s1 = dirty s \<and>
    (\<forall>k'. k' \<noteq> k \<longrightarrow> db s1 k' = db s k')"
proof -
  have "db s k = None \<or> (\<exists>h. db s k = Some (ObjHash h))" using assms by (simp add: rwflist_inv_def)
  then show ?thesis
  proof
    assume "db s k = None"
    then show ?thesis by (simp add: getListHT_def getInnerHT_def lookupKey_def dbAdd_def rwfl_table_def senv_def)
  next
    assume "\<exists>h. db s k = Some (ObjHash h)"
    then show ?thesis by (auto simp: getListHT_def getInnerHT_def lookupKey_def rwfl_table_def)
  qed
qed

lemma rwfl_finish:
  fixes d :: int
  assumes inv: "rwflist_inv n K P s" and k: "k \<in> K" and s1: "senv s1 = senv s" "\<forall>k'. k' \<noteq> k \<longrightarrow> db s1 k' = db s k'"
    and ok: "rwfl_table_ok n (p2p_id s) (P k) ht'"
  defines "s' \<equiv> (putListHT s1 k ht')\<lparr>dirty := d\<rparr>"
  shows "rwflist_inv n K P s'" "senv s' = senv s"
    "rwflist_view n q s' = (if fst q = k then rwfl_view n ht' (snd q) else rwflist_view n q s)"
    "rwflist_pos q s' = (if fst q = k then rwfl_pos ht' (snd q) else rwflist_pos q s)"
proof -
  have db: "db s' k' = (if k' = k then Some (ObjHash ht') else db s k')" for k'
    using s1(2) by (simp add: s'_def putListHT_def dbSet_def)
  have tb: "rwfl_table s' k' = (if k' = k then ht' else rwfl_table s k')" for k'
    by (simp add: rwfl_table_def db)
  show env: "senv s' = senv s" using s1(1) by (simp add: s'_def putListHT_def dbSet_def senv_def)
  have "p2p_id s' = p2p_id s" "p2p_count s' = p2p_count s" using env by (simp_all add: senv_def)
  then show "rwflist_inv n K P s'" using inv k ok by (auto simp: rwflist_inv_def replica_ok_def tb db)
  show "rwflist_view n q s' = (if fst q = k then rwfl_view n ht' (snd q) else rwflist_view n q s)"
    "rwflist_pos q s' = (if fst q = k then rwfl_pos ht' (snd q) else rwflist_pos q s)"
    by (simp_all add: rwflist_view_def rwflist_pos_def tb)
qed

text \<open>All effects begin in the same way.\<close>

lemma rwfl_begin:
  assumes inv: "rwflist_inv n K P s" and k: "k \<in> K" and x: "x \<notin> list_reserved" and tx: "vc_text n (last m)" "m \<noteq> []"
  obtains s1 ht1 e ht2 e1 r where "getListHT s k True = Some (s1, Some (rwfl_table s k))"
    "senv s1 = senv s" "\<forall>k'. k' \<noteq> k \<longrightarrow> db s1 k' = db s k'"
    "le_create (rwfleNew s) (rwfl_table s k) x = Some (ht1, e)" "CR_GET_LAST m = Some (last_vc m)"
    "rwfl_removeFunc ht1 x e (last_vc m) = Some (ht2, e1, r)" "rwfl_table_ok n (p2p_id s) (P k) ht2" "le_deref ht2 x = Some e1"
    "(vector (CURRENT e1), rwfl_payload e1) =
       (if vle (msg_stamp m) (fst (rwflist_view n (k, x) s)) then rwflist_view n (k, x) s
        else (vjoin (fst (rwflist_view n (k, x) s)) (msg_stamp m), rwfl_new))"
    "\<forall>y. y \<noteq> x \<longrightarrow> rwfl_view n ht2 y = rwflist_view n (k, y) s" "\<forall>y. rwfl_pos ht2 y = rwflist_pos (k, y) s"
proof -
  have r: "replica_ok n s" and ok: "rwfl_table_ok n (p2p_id s) (P k) (rwfl_table s k)" using inv k by (simp_all add: rwflist_inv_def)
  obtain s1 where s1: "getListHT s k True = Some (s1, Some (rwfl_table s k))" "senv s1 = senv s" "\<forall>k'. k' \<noteq> k \<longrightarrow> db s1 k' = db s k'"
    using getListHT_ok[OF inv k] by blast
  obtain ht1 e where c: "le_create (rwfleNew s) (rwfl_table s k) x = Some (ht1, e)" "rwfl_table_ok n (p2p_id s) (P k) ht1"
    "le_deref ht1 x = Some e" "rwfl_view n ht1 = rwfl_view n (rwfl_table s k)" "rwfl_pos ht1 = rwfl_pos (rwfl_table s k)"
    using table_create[OF ok x r] by blast
  note vt = vc_text_last[OF tx]
  obtain ht2 e1 b where d: "rwfl_removeFunc ht1 x e (last_vc m) = Some (ht2, e1, b)" "rwfl_table_ok n (p2p_id s) (P k) ht2" "le_deref ht2 x = Some e1"
    "rwfl_view n ht2 = (rwfl_view n ht1)(x := if vle (vector (last_vc m)) (fst (rwfl_view n ht1 x)) then rwfl_view n ht1 x
       else (vjoin (fst (rwfl_view n ht1 x)) (vector (last_vc m)), rwfl_new))" "rwfl_pos ht2 = rwfl_pos ht1"
    using table_remove[OF c(2) x c(3) vt(2) vc_text_entries[OF tx(1)]] by blast
  have "(vector (CURRENT e1), rwfl_payload e1) = rwfl_view n ht2 x" using d(3) by (simp add: rwfl_view_def)
  then show ?thesis using that[OF s1 c(1) vt(1) d(1-3)] d(4,5) c(4,5) by (simp add: rwflist_view_def rwflist_pos_def msg_stamp_def)
qed

section \<open>Effects\<close>

definition rwfl_effect_ok :: "nat \<Rightarrow> sds set \<Rightarrow> (sds \<Rightarrow> places) \<Rightarrow> rwfl_server \<Rightarrow> sds list \<Rightarrow> rwfl_server option \<Rightarrow> bool" where
  "rwfl_effect_ok n K P s m so \<longleftrightarrow> (\<exists>s'. so = Some s' \<and> rwflist_inv n K P s' \<and> senv s' = senv s \<and>
     (\<forall>q. rwflist_view n q s' = (if q = rwfl_target m then rwfl_astep m (rwflist_view n q s) else rwflist_view n q s)) \<and>
     (\<forall>q. rwflist_pos q s' = (if rwfl_is_insert m \<and> q = rwfl_target m then map_option fst (P (fst q) (snd q)) else rwflist_pos q s)))"

text \<open>The end of an effect: the table of the list is replaced by \<open>ht'\<close>.\<close>

lemma rwfl_effect_okI:
  assumes inv: "rwflist_inv n K P s" and k: "k \<in> K" and s1: "senv s1 = senv s" "\<forall>k'. k' \<noteq> k \<longrightarrow> db s1 k' = db s k'"
    and so: "so = Some ((putListHT s1 k ht')\<lparr>dirty := d\<rparr>)" and ok: "rwfl_table_ok n (p2p_id s) (P k) ht'"
    and tg: "rwfl_target m = (k, x)" and v: "rwfl_view n ht' x = rwfl_astep m (rwflist_view n (k, x) s)"
      "\<forall>y. y \<noteq> x \<longrightarrow> rwfl_view n ht' y = rwflist_view n (k, y) s"
    and p: "\<forall>y. rwfl_pos ht' y = (if rwfl_is_insert m \<and> y = x then map_option fst (P k x) else rwflist_pos (k, y) s)"
  shows "rwfl_effect_ok n K P s m so"
proof -
  note f = rwfl_finish[OF inv k s1 ok, where d = d]
  show ?thesis unfolding rwfl_effect_ok_def using f(1,2) so v p tg
    by (intro exI[of _ "(putListHT s1 k ht')\<lparr>dirty := d\<rparr>"]) (auto simp: f(3,4) prod_eq_iff)
qed

lemma rwflrem_effect_spec:
  assumes inv: "rwflist_inv n K P s" and m: "rwfl_msg_ok n K P m" "\<not> rwfl_is_insert m" "\<not> rwfl_is_update m"
  shows "rwfl_effect_ok n K P s m (rwflrem_effect s m)"
proof -
  let ?k = "m ! 1" and ?x = "m ! 2"
  have k: "?k \<in> K" and x: "?x \<notin> list_reserved" and tx: "vc_text n (last m)" "m \<noteq> []" and len: "length m = 4"
    and tg: "rwfl_target m = (?k, ?x)" using m by (simp_all add: rwfl_msg_ok_def rwfl_target_def)
  obtain s1 ht1 e ht2 e1 r where b: "getListHT s ?k True = Some (s1, Some (rwfl_table s ?k))"
    "senv s1 = senv s" "\<forall>k'. k' \<noteq> ?k \<longrightarrow> db s1 k' = db s k'"
    "le_create (rwfleNew s) (rwfl_table s ?k) ?x = Some (ht1, e)" "CR_GET_LAST m = Some (last_vc m)"
    "rwfl_removeFunc ht1 ?x e (last_vc m) = Some (ht2, e1, r)" "rwfl_table_ok n (p2p_id s) (P ?k) ht2" "le_deref ht2 ?x = Some e1"
    "(vector (CURRENT e1), rwfl_payload e1) =
       (if vle (msg_stamp m) (fst (rwflist_view n (?k, ?x) s)) then rwflist_view n (?k, ?x) s
        else (vjoin (fst (rwflist_view n (?k, ?x) s)) (msg_stamp m), rwfl_new))"
    "\<forall>y. y \<noteq> ?x \<longrightarrow> rwfl_view n ht2 y = rwflist_view n (?k, y) s" "\<forall>y. rwfl_pos ht2 y = rwflist_pos (?k, y) s"
    using rwfl_begin[OF inv k x tx] .
  have "rwflrem_effect s m = Some ((putListHT s1 ?k ht2)\<lparr>dirty := dirty s1 + of_bool r\<rparr>)"
    using b(1,4-6) len by (simp add: rwflrem_effect_def arg_def)
  moreover have "rwfl_act m pl = pl" for pl using m(2,3) by (cases pl) (simp add: rwfl_act_def)
  then have "rwfl_view n ht2 ?x = rwfl_astep m (rwflist_view n (?k, ?x) s)"
    unfolding rwfl_astep_def rwf_stepI[OF b(9)] using b(8) by (simp add: rwfl_view_def)
  ultimately show ?thesis using b(10,11) m(2) by (intro rwfl_effect_okI[OF inv k b(2,3) _ b(7) tg]) simp_all
qed

lemma acquired_update_spec:
  assumes e: "rwfl_elem_ok n i pl x e" and up: "rwfl_is_update m" "rwfl_update_ok m"
    and v: "getLongLongFromObject (m ! 4) = Some v" and t: "sdsToLc (m ! 5) = Some t"
  defines "e' \<equiv> acquired_update (e\<lparr>PID := if EXISTS e then PID e else PID_WAIT_INNATE\<rparr>) (m ! 3) t (int32 v)"
  shows "rwfl_elem_ok n i pl x e'" "rwfl_payload e' = rwfl_act m (rwfl_payload e)" "CURRENT e' = CURRENT e"
    "rwfl_pos_id e' = rwfl_pos_id e" "rwfl_next e' = rwfl_next e"
proof -
  have ni: "\<not> rwfl_is_insert m" using up(1) rwfl_not_both by blast
  have nn: "lc_nonneg t" using up(2) t by (simp add: rwfl_update_ok_def)
  have cp: "lc_copy o' t = Some t" for o' by (simp add: lc_copy_def lc_dup_def split: option.split)
  have lc: "rwfl_lc m = t" "\<And>p. rwfl_update_value m p = prop_input p (int32 v) (int32 v \<noteq> 0)"
    using v t by (simp_all add: rwfl_lc_def rwfl_update_value_def Let_def)
  have g: "\<And>p u. rwfl_ts e p = Some u \<Longrightarrow> lc_nonneg u" using e by (simp add: rwfl_elem_ok_def rwfl_good_def rwfl_payload_def)
  show "CURRENT e' = CURRENT e" "rwfl_pos_id e' = rwfl_pos_id e" "rwfl_next e' = rwfl_next e"
    by (auto simp: e'_def acquired_update_def split: option.split)
  show "rwfl_payload e' = rwfl_act m (rwfl_payload e)"
    using ni up(1) by (cases "rwfl_prop m")
      (auto simp: e'_def acquired_update_def rwfl_prop_def[symmetric] rwfl_payload_def rwfl_act_def[of m, unfolded lc(1)] Let_def lc(2) cp set_prop_value EXISTS_def fun_eq_iff)
  show "rwfl_elem_ok n i pl x e'"
    using e nn g unfolding rwfl_elem_ok_def
    by (cases "rwfl_prop m")
      (auto simp: e'_def acquired_update_def rwfl_prop_def[symmetric] rwfl_payload_def rwfl_good_def cp set_prop_value EXISTS_def set_prop_bits)
qed

lemma rwflupdate_effect_spec:
  assumes inv: "rwflist_inv n K P s" and m: "rwfl_msg_ok n K P m" "rwfl_is_update m"
  shows "rwfl_effect_ok n K P s m (rwflupdate_effect s m)"
proof -
  let ?k = "m ! 1" and ?x = "m ! 2"
  have ni: "\<not> rwfl_is_insert m" using m(2) rwfl_not_both by blast
  then have k: "?k \<in> K" and x: "?x \<notin> list_reserved" and tx: "vc_text n (last m)" "m \<noteq> []" and up: "rwfl_update_ok m"
    and tg: "rwfl_target m = (?k, ?x)" using m by (simp_all add: rwfl_msg_ok_def rwfl_target_def)
  obtain v t where v: "getLongLongFromObject (m ! 4) = Some v" "sdsToLc (m ! 5) = Some t" and len: "length m = 7"
    using up by (auto simp: rwfl_update_ok_def split: option.splits)
  obtain s1 ht1 e ht2 e1 r where b: "getListHT s ?k True = Some (s1, Some (rwfl_table s ?k))"
    "senv s1 = senv s" "\<forall>k'. k' \<noteq> ?k \<longrightarrow> db s1 k' = db s k'"
    "le_create (rwfleNew s) (rwfl_table s ?k) ?x = Some (ht1, e)" "CR_GET_LAST m = Some (last_vc m)"
    "rwfl_removeFunc ht1 ?x e (last_vc m) = Some (ht2, e1, r)" "rwfl_table_ok n (p2p_id s) (P ?k) ht2" "le_deref ht2 ?x = Some e1"
    "(vector (CURRENT e1), rwfl_payload e1) =
       (if vle (msg_stamp m) (fst (rwflist_view n (?k, ?x) s)) then rwflist_view n (?k, ?x) s
        else (vjoin (fst (rwflist_view n (?k, ?x) s)) (msg_stamp m), rwfl_new))"
    "\<forall>y. y \<noteq> ?x \<longrightarrow> rwfl_view n ht2 y = rwflist_view n (?k, y) s" "\<forall>y. rwfl_pos ht2 y = rwflist_pos (?k, y) s"
    using rwfl_begin[OF inv k x tx] .
  have step: "rwfl_astep m (rwflist_view n (?k, ?x) s) = (vector (CURRENT e1),
      if msg_stamp m = vector (CURRENT e1) then rwfl_act m (rwfl_payload e1) else rwfl_payload e1)"
    unfolding rwfl_astep_def rwf_stepI[OF b(9)] ..
  let ?e2 = "e1\<lparr>PID := if EXISTS e1 then PID e1 else PID_WAIT_INNATE\<rparr>"
  let ?e3 = "acquired_update ?e2 (m ! 3) t (int32 v)"
  define ht3 where "ht3 = (if msg_stamp m = vector (CURRENT e1) then le_put ht2 ?x ?e3 else ht2)"
  have ok1: "rwfl_elem_ok n (p2p_id s) (P ?k ?x) ?x e1" using b(7,8) by (simp add: rwfl_table_ok_def)
  note au = acquired_update_spec[OF ok1 m(2) up v]
  have same: "rwfl_pos_id ?e3 = rwfl_pos ht2 ?x" "rwfl_next ?e3 = Option.bind (le_deref ht2 ?x) rwfl_next"
    using au(4,5) b(8) by (simp_all add: list_pos_def)
  note put = table_put[OF b(7) x same au(1)]
  have ht3: "rwfl_table_ok n (p2p_id s) (P ?k) ht3" "rwfl_pos ht3 = rwfl_pos ht2" "\<And>y. y \<noteq> ?x \<Longrightarrow> rwfl_view n ht3 y = rwfl_view n ht2 y"
    "rwfl_view n ht3 ?x = rwfl_astep m (rwflist_view n (?k, ?x) s)"
    unfolding ht3_def step using put b(7,8) au(2,3) by (simp_all add: rwfl_view_def)
  have run: "rwflupdate_effect s m = Some ((putListHT s1 ?k ht3)\<lparr>dirty := dirty s1 + of_bool r + of_bool (msg_stamp m = vector (CURRENT e1))\<rparr>)"
    using b(1,4-6) len v by (simp add: rwflupdate_effect_def arg_def updateCheck_spec msg_stamp_def ht3_def)
  show ?thesis using ht3(2-4) b(10,11) ni by (intro rwfl_effect_okI[OF inv k b(2,3) run ht3(1) tg]) simp_all
qed

lemma insert_props_spec:
  assumes e: "rwfl_elem_ok n i pl x e" "rwfl_oid e \<noteq> None" and ins: "rwfl_is_insert m" and id: "PID e < vc_id (last_vc m)" "0 \<le> vc_id (last_vc m)"
    and a: "getLongLongFromObject (m ! 5) = Some a" "getLongLongFromObject (m ! 6) = Some b"
      "getLongLongFromObject (m ! 7) = Some c" "getLongLongFromObject (m ! 8) = Some d"
  defines "e' \<equiv> rwfl_insert_props a b c d (e\<lparr>PID := vc_id (last_vc m)\<rparr>)"
  shows "rwfl_elem_ok n i pl x e'" "rwfl_payload e' = rwfl_act m (rwfl_payload e)" "CURRENT e' = CURRENT e"
    "rwfl_pos_id e' = rwfl_pos_id e" "rwfl_next e' = rwfl_next e"
proof -
  note val = rwfl_insert_props_value[OF a, of "e\<lparr>PID := vc_id (last_vc m)\<rparr>"]
  show "rwfl_payload e' = rwfl_act m (rwfl_payload e)"
    using ins id by (auto simp: e'_def rwfl_payload_def rwfl_act_def val fun_eq_iff)
  show "rwfl_elem_ok n i pl x e'" using e id unfolding rwfl_elem_ok_def
    by (auto simp: e'_def val rwfl_insert_props_bits rwfl_payload_def rwfl_good_def)
qed (simp_all add: e'_def)

text \<open>A new element is linked into the list before its properties are set.\<close>

lemma rwfl_insert_linked:
  assumes ok: "rwfl_table_ok n i (P (m ! 1)) ht2" and x: "m ! 3 \<notin> list_reserved" "le_deref ht2 (m ! 3) = Some e1"
    and P: "places_ok (P (m ! 1))" and ins: "rwfl_insert_ok P m"
  shows "\<exists>ht3 e3. (if rwfl_oid e1 = None then rwfl_link ht2 (m ! 3) m e1 else Some ht2) = Some ht3 \<and>
    rwfl_table_ok n i (P (m ! 1)) ht3 \<and> le_deref ht3 (m ! 3) = Some e3 \<and> rwfl_oid e3 \<noteq> None \<and>
    CURRENT e3 = CURRENT e1 \<and> PID e3 = PID e1 \<and> rwfl_payload e3 = rwfl_payload e1 \<and>
    rwfl_view n ht3 = rwfl_view n ht2 \<and> rwfl_pos ht3 = (rwfl_pos ht2)(m ! 3 := map_option fst (P (m ! 1) (m ! 3)))"
proof -
  obtain pos where pos: "sdsToLeid (m ! 9) = Some pos" "P (m ! 1) (m ! 3) = Some (pos, m ! 4)" "length m = 11"
    "m ! 2 \<notin> list_reserved" "m ! 2 \<noteq> m ! 3" "\<forall>pp d. P (m ! 1) (m ! 2) = Some (pp, d) \<longrightarrow> leid_key pp < leid_key pos"
    using ins by (auto simp: rwfl_insert_ok_def split: option.splits)
  show ?thesis
  proof (cases "rwfl_oid e1")
    case None
    have ar: "arg m 4 = Some (m ! 4)" "arg m 9 = Some (m ! 9)" "arg m 2 = Some (m ! 2)" using pos(3) by (simp_all add: arg_def)
    obtain ht3 q where "rwfl_link ht2 (m ! 3) m e1 = Some ht3" "rwfl_table_ok n i (P (m ! 1)) ht3"
      "le_deref ht3 (m ! 3) = Some (e1\<lparr>rwfl_oid := Some (m ! 3), rwfl_content := Some (m ! 4), rwfl_pos_id := Some pos, rwfl_next := q\<rparr>)"
      "rwfl_view n ht3 = rwfl_view n ht2" "rwfl_pos ht3 = (rwfl_pos ht2)(m ! 3 \<mapsto> pos)"
      using table_link[OF ok x None P pos(2) ar(1,2) pos(1) ar(3) pos(4-6)] by blast
    then show ?thesis using None pos(2) by simp
  next
    case (Some y)
    have "rwfl_elem_ok n i (P (m ! 1) (m ! 3)) (m ! 3) e1" using ok x(2) by (simp add: rwfl_table_ok_def)
    then have "rwfl_pos_id e1 = Some pos" using Some pos(2) by (auto simp: rwfl_elem_ok_def)
    then have "rwfl_pos ht2 = (rwfl_pos ht2)(m ! 3 := map_option fst (P (m ! 1) (m ! 3)))" using x(2) pos(2)
      by (auto simp: list_pos_def)
    then show ?thesis using Some ok x(2) by simp
  qed
qed

lemma rwflinsert_effect_spec:
  assumes inv: "rwflist_inv n K P s" and m: "rwfl_msg_ok n K P m" "rwfl_is_insert m"
  shows "rwfl_effect_ok n K P s m (rwflinsert_effect s m)"
proof -
  let ?k = "m ! 1" and ?x = "m ! 3" and ?t = "last_vc m"
  have k: "?k \<in> K" and x: "?x \<notin> list_reserved" and tx: "vc_text n (last m)" "m \<noteq> []" and ins: "rwfl_insert_ok P m"
    and tg: "rwfl_target m = (?k, ?x)" using m by (simp_all add: rwfl_msg_ok_def rwfl_target_def)
  obtain a b' c d where v: "getLongLongFromObject (m ! 5) = Some a" "getLongLongFromObject (m ! 6) = Some b'"
    "getLongLongFromObject (m ! 7) = Some c" "getLongLongFromObject (m ! 8) = Some d" and len: "length m = 11"
    using ins by (auto simp: rwfl_insert_ok_def)
  have P: "places_ok (P ?k)" and id: "0 \<le> vc_id ?t" using inv k vc_text_last(4)[OF tx] by (simp_all add: rwflist_inv_def)
  obtain s1 ht1 e ht2 e1 r where b: "getListHT s ?k True = Some (s1, Some (rwfl_table s ?k))"
    "senv s1 = senv s" "\<forall>k'. k' \<noteq> ?k \<longrightarrow> db s1 k' = db s k'"
    "le_create (rwfleNew s) (rwfl_table s ?k) ?x = Some (ht1, e)" "CR_GET_LAST m = Some (last_vc m)"
    "rwfl_removeFunc ht1 ?x e (last_vc m) = Some (ht2, e1, r)" "rwfl_table_ok n (p2p_id s) (P ?k) ht2" "le_deref ht2 ?x = Some e1"
    "(vector (CURRENT e1), rwfl_payload e1) =
       (if vle (msg_stamp m) (fst (rwflist_view n (?k, ?x) s)) then rwflist_view n (?k, ?x) s
        else (vjoin (fst (rwflist_view n (?k, ?x) s)) (msg_stamp m), rwfl_new))"
    "\<forall>y. y \<noteq> ?x \<longrightarrow> rwfl_view n ht2 y = rwflist_view n (?k, y) s" "\<forall>y. rwfl_pos ht2 y = rwflist_pos (?k, y) s"
    using rwfl_begin[OF inv k x tx] .
  obtain ht3 e3 where l: "(if rwfl_oid e1 = None then rwfl_link ht2 ?x m e1 else Some ht2) = Some ht3"
    "rwfl_table_ok n (p2p_id s) (P ?k) ht3" "le_deref ht3 ?x = Some e3" "rwfl_oid e3 \<noteq> None"
    "CURRENT e3 = CURRENT e1" "PID e3 = PID e1" "rwfl_payload e3 = rwfl_payload e1"
    "rwfl_view n ht3 = rwfl_view n ht2" "rwfl_pos ht3 = (rwfl_pos ht2)(?x := map_option fst (P ?k ?x))"
    using rwfl_insert_linked[OF b(7) x b(8) P ins] by blast
  have step: "rwfl_astep m (rwflist_view n (?k, ?x) s) = (vector (CURRENT e3),
      if msg_stamp m = vector (CURRENT e3) then rwfl_act m (rwfl_payload e3) else rwfl_payload e3)"
    unfolding rwfl_astep_def rwf_stepI[OF b(9)] l(5,7) ..
  have ok3: "rwfl_elem_ok n (p2p_id s) (P ?k ?x) ?x e3" using l(2,3) by (simp add: rwfl_table_ok_def)
  show ?thesis
  proof (cases "msg_stamp m = vector (CURRENT e3) \<and> PID e3 < vc_id ?t")
    case False
    then have "rwfl_astep m (rwflist_view n (?k, ?x) s) = rwfl_view n ht3 ?x"
      using step l(3) m(2) by (auto simp: rwfl_view_def rwfl_act_def rwfl_payload_def)
    moreover have run: "rwflinsert_effect s m = Some ((putListHT s1 ?k ht3)\<lparr>dirty := dirty s1 + of_bool r\<rparr>)"
    proof -
      have "addCheck e3 ?t = (e3, False)" using False by (auto simp: addCheck_spec msg_stamp_def)
      then show ?thesis using b(1,4-6) len l(1,3) by (simp add: rwflinsert_effect_def arg_def)
    qed
    ultimately show ?thesis using l(8,9) b(10,11) m(2)
      by (intro rwfl_effect_okI[OF inv k b(2,3) run l(2) tg]) simp_all
  next
    case True
    let ?e5 = "rwfl_insert_props a b' c d (e3\<lparr>PID := vc_id ?t\<rparr>)"
    have lt: "PID e3 < vc_id ?t" using True by blast
    note ip = insert_props_spec[OF ok3 l(4) m(2) lt id v]
    obtain ht4 where ht4: "(if \<not> EXISTS e3 then incrLen ht3 1 else Some ht3) = Some ht4" "rwfl_table_ok n (p2p_id s) (P ?k) ht4" "le_deref ht4 = le_deref ht3"
      using table_len[OF l(2), of 1] l(2) by (cases "EXISTS e3") auto
    have same4: "rwfl_pos ht4 = rwfl_pos ht3" "rwfl_view n ht4 = rwfl_view n ht3" using ht4(3) by (auto simp: list_pos_def rwfl_view_def)
    have same: "rwfl_pos_id ?e5 = rwfl_pos ht4 ?x" "rwfl_next ?e5 = Option.bind (le_deref ht4 ?x) rwfl_next"
      using ip(4,5) l(3) ht4(3) by (simp_all add: list_pos_def)
    note put = table_put[OF ht4(2) x same ip(1)]
    have "rwfl_view n (le_put ht4 ?x ?e5) ?x = rwfl_astep m (rwflist_view n (?k, ?x) s)"
      unfolding put(3) step using True ip(2,3) by simp
    moreover have run: "rwflinsert_effect s m = Some ((putListHT s1 ?k (le_put ht4 ?x ?e5))\<lparr>dirty := dirty s1 + of_bool r + 1\<rparr>)"
    proof -
      have "addCheck e3 ?t = (e3\<lparr>PID := vc_id ?t\<rparr>, True)" using True by (simp add: addCheck_spec msg_stamp_def)
      then show ?thesis using b(1,4-6) len l(1,3) ht4(1) v by (simp add: rwflinsert_effect_def arg_def)
    qed
    ultimately show ?thesis using l(8,9) b(10,11) m(2) put(2,3) same4
      by (intro rwfl_effect_okI[OF inv k b(2,3) run put(1) tg]) simp_all
  qed
qed

section \<open>Delivery\<close>

lemma rwfl_deliver_law:
  assumes inv: "rwflist_inv n K P s" and m: "rwfl_msg_ok n K P m"
  shows "rwfl_effect_ok n K P s m (rwfl_deliver s m)"
proof -
  have mode: "REPLICATION_MODE s" using inv replica_ok_mode by (auto simp: rwflist_inv_def)
  have "deliver rwflinsertCommand s m = rwflinsert_effect s m" "deliver rwflupdateCommand s m = rwflupdate_effect s m"
    "deliver rwflremCommand s m = rwflrem_effect s m"
    using crdt_command_replica[OF mode]
    by (simp_all add: deliver_def call_def rwflinsertCommand_def rwflupdateCommand_def rwflremCommand_def replica_client_def)
  then show ?thesis
    using rwflinsert_effect_spec[OF inv m] rwflupdate_effect_spec[OF inv m] rwflrem_effect_spec[OF inv m]
    by (auto simp: rwfl_deliver_def)
qed

lemma rwfl_msg_lc: "rwfl_msg_ok n K P m \<Longrightarrow> rwfl_lc_ok m"
  using vc_text_last(4)[of n m] rwfl_not_both[of m]
  by (auto simp: rwfl_msg_ok_def rwfl_lc_ok_def rwfl_update_ok_def rwfl_lc_def split: option.splits if_splits)

lemma rwflist_view_ok:
  assumes "rwflist_inv n K P s" "fst q \<in> K"
  shows "length (fst (rwflist_view n q s)) = n" "rwfl_good (snd (rwflist_view n q s))"
proof -
  have "rwfl_table_ok n (p2p_id s) (P (fst q)) (rwfl_table s (fst q))" using assms by (simp add: rwflist_inv_def)
  then have "le_deref (rwfl_table s (fst q)) x = Some e \<Longrightarrow> rwfl_elem_ok n (p2p_id s) (P (fst q) x) x e" for x e
    by (simp add: rwfl_table_ok_def)
  then show "length (fst (rwflist_view n q s)) = n" "rwfl_good (snd (rwflist_view n q s))"
    by (fastforce simp: rwflist_view_def rwfl_view_def rwfl_elem_ok_def vc_wf_def vc_size_def rwfl_good_def rwfl_new_def split: option.split)+
qed

interpretation rwfl: commuting_stamped_effects rwfl_deliver "rwflist_inv n K P" "rwfl_msg_ok n K P" rwfl_target
  "rwflist_view n" msg_stamp rwfl_act rwfl_new n "\<lambda>q. fst q \<in> K" rwfl_indep rwfl_good for n K P
proof unfold_locales
  show "\<exists>s'. rwfl_deliver s m = Some s' \<and> rwflist_inv n K P s' \<and> (\<forall>k. rwflist_view n k s' =
      (if k = rwfl_target m then stamped_step vle vjoin msg_stamp rwfl_act rwfl_new m (rwflist_view n k s)
       else rwflist_view n k s))" if "rwflist_inv n K P s" "rwfl_msg_ok n K P m" for s m
    using rwfl_deliver_law[OF that] unfolding rwfl_effect_ok_def rwfl_astep_def by blast
  show "length (msg_stamp m) = n" if "rwfl_msg_ok n K P m" for m
    using that vc_text_last(3)[of n m] by (simp add: rwfl_msg_ok_def)
  show "rwfl_good rwfl_new" by (simp add: rwfl_good_def rwfl_new_def)
qed (use rwflist_view_ok rwfl_act_commute rwfl_act_good rwfl_msg_lc in blast)+

definition rwfl_place :: "(sds \<Rightarrow> places) \<Rightarrow> sds list \<Rightarrow> leid option \<Rightarrow> leid option" where
  "rwfl_place P m po = (if rwfl_is_insert m then map_option fst (P (fst (rwfl_target m)) (snd (rwfl_target m))) else po)"

interpretation rwflp: keyed_effects rwfl_deliver "rwflist_inv n K P" "rwfl_msg_ok n K P" rwfl_target rwflist_pos "rwfl_place P" for n K P
proof unfold_locales
  show "\<exists>s'. rwfl_deliver s m = Some s' \<and> rwflist_inv n K P s' \<and>
      (\<forall>k. rwflist_pos k s' = (if k = rwfl_target m then rwfl_place P m (rwflist_pos k s) else rwflist_pos k s))"
    if ok: "rwflist_inv n K P s" "rwfl_msg_ok n K P m" for s m
  proof -
    obtain s' where "rwfl_deliver s m = Some s'" "rwflist_inv n K P s'"
      "\<forall>q. rwflist_pos q s' = (if rwfl_is_insert m \<and> q = rwfl_target m then map_option fst (P (fst q) (snd q)) else rwflist_pos q s)"
      using rwfl_deliver_law[OF ok] unfolding rwfl_effect_ok_def by blast
    then show ?thesis by (intro exI[of _ s']) (simp add: rwfl_place_def)
  qed
qed

section \<open>The order of delivery\<close>

definition rwfl_fresh :: "nat \<Rightarrow> sds set \<Rightarrow> (sds \<Rightarrow> places) \<Rightarrow> rwfl_server \<Rightarrow> bool" where
  "rwfl_fresh n K P s \<longleftrightarrow> replica_ok n s \<and> (\<forall>k \<in> K. db s k = None \<and> places_ok (P k))"

lemma rwfl_fresh_inv:
  assumes "rwfl_fresh n K P s"
  shows "rwflist_inv n K P s" "fst q \<in> K \<Longrightarrow> rwflist_view n q s = (replicate n 0, rwfl_new)" "fst q \<in> K \<Longrightarrow> rwflist_pos q s = None"
proof -
  have "rwfl_table_ok n i Q Map.empty" for i Q
    using empty_list_wf[of rwfl_pos_id rwfl_next] by (auto simp: rwfl_table_ok_def getLen_def le_deref_def le_find_def)
  then show "rwflist_inv n K P s" using assms by (simp add: rwfl_fresh_def rwflist_inv_def rwfl_table_def)
  show "rwflist_view n q s = (replicate n 0, rwfl_new)" "rwflist_pos q s = None" if "fst q \<in> K"
    using assms that by (simp_all add: rwfl_fresh_def rwflist_view_def rwflist_pos_def rwfl_view_def rwfl_table_def list_pos_def le_deref_def)
qed

lemma rwfl_place_fold:
  "\<forall>m \<in> set ms. rwfl_target m = q \<Longrightarrow>
   fold (rwfl_place P) ms po = (if \<exists>m \<in> set ms. rwfl_is_insert m then map_option fst (P (fst q) (snd q)) else po)"
  by (induction ms arbitrary: po) (auto simp: rwfl_place_def)

text \<open>Once an insert has acted, the element is there; without inserts and updates nothing changes.\<close>

lemma rwfl_fold_pid:
  assumes "\<forall>m \<in> set ms. rwfl_lc_ok m"
  shows "0 \<le> fst pl \<or> (\<exists>m \<in> set ms. rwfl_is_insert m) \<Longrightarrow> 0 \<le> fst (fold rwfl_act ms pl)"
    and "\<forall>m \<in> set ms. \<not> rwfl_is_insert m \<and> \<not> rwfl_is_update m \<Longrightarrow> fold rwfl_act ms pl = pl"
proof -
  have nn: "0 \<le> fst pl \<or> rwfl_is_insert m \<Longrightarrow> 0 \<le> fst (rwfl_act m pl)" if "rwfl_lc_ok m" for m pl
    using that by (cases pl) (auto simp: rwfl_act_def rwfl_lc_ok_def Let_def split: option.splits)
  show "0 \<le> fst pl \<or> (\<exists>m \<in> set ms. rwfl_is_insert m) \<Longrightarrow> 0 \<le> fst (fold rwfl_act ms pl)"
    using assms
  proof (induction ms arbitrary: pl)
    case (Cons m ms)
    have "0 \<le> fst (rwfl_act m pl) \<or> (\<exists>m \<in> set ms. rwfl_is_insert m)" using Cons.prems nn[of m pl] by force
    moreover have "\<forall>a \<in> set ms. rwfl_lc_ok a" using Cons.prems(2) by simp
    ultimately have "0 \<le> fst (fold rwfl_act ms (rwfl_act m pl))" by (rule Cons.IH)
    then show ?case by simp
  qed simp
  have idle: "\<not> rwfl_is_insert m \<and> \<not> rwfl_is_update m \<Longrightarrow> rwfl_act m pl = pl" for m pl by (cases pl) (simp add: rwfl_act_def)
  show "\<forall>m \<in> set ms. \<not> rwfl_is_insert m \<and> \<not> rwfl_is_update m \<Longrightarrow> fold rwfl_act ms pl = pl"
    by (induction ms arbitrary: pl) (simp_all add: idle)
qed

text \<open>
  An update is made where the element exists, that is where an insert with the same history has been
  applied.
\<close>

definition rwfl_grounded :: "sds list list \<Rightarrow> bool" where
  "rwfl_grounded ms \<longleftrightarrow> (\<forall>m \<in> set ms. rwfl_is_update m \<longrightarrow>
     (\<exists>m' \<in> set ms. rwfl_is_insert m' \<and> rwfl_target m' = rwfl_target m \<and> msg_stamp m' = msg_stamp m))"

lemma rwfl_run_state:
  assumes s: "rwfl_fresh n K P s" and ok: "\<forall>m \<in> set ms. rwfl_msg_ok n K P m" and g: "rwfl_grounded ms"
  shows "\<exists>s'. run rwfl_deliver s ms = Some s' \<and> rwflist_inv n K P s' \<and> (\<forall>q. fst q \<in> K \<longrightarrow>
    (rwflist_pos q s' = (if \<exists>m \<in> set ms. rwfl_is_insert m \<and> rwfl_target m = q then map_option fst (P (fst q) (snd q)) else None)) \<and>
    fst (snd (rwflist_view n q s')) \<noteq> PID_WAIT_INNATE)"
proof -
  note inv = rwfl_fresh_inv[OF s]
  obtain s' where s': "run rwfl_deliver s ms = Some s'" "rwflist_inv n K P s'" "\<forall>k. fst k \<in> K \<longrightarrow>
    rwflist_view n k s' = (let ns = filter (\<lambda>m. rwfl_target m = k) ms; (c, p) = rwflist_view n k s;
                     J = fold (\<lambda>m c. vjoin c (msg_stamp m)) ns c
                 in (J, fold rwfl_act (filter (\<lambda>m. msg_stamp m = J) ns) (if J = c then p else rwfl_new)))"
    using rwfl.run_stamped[OF inv(1) ok] by blast
  have "fst (snd (rwflist_view n q s')) \<noteq> PID_WAIT_INNATE" if q: "fst q \<in> K" for q
  proof -
    define J where "J = fold (\<lambda>m c. vjoin c (msg_stamp m)) (filter (\<lambda>m. rwfl_target m = q) ms) (replicate n 0)"
    define ws where "ws = filter (\<lambda>m. msg_stamp m = J) (filter (\<lambda>m. rwfl_target m = q) ms)"
    have v: "snd (rwflist_view n q s') = fold rwfl_act ws rwfl_new"
      using s'(3)[rule_format, OF q] inv(2)[OF q] by (simp add: ws_def J_def Let_def)
    have lc: "\<forall>m \<in> set ws. rwfl_lc_ok m" using ok rwfl_msg_lc by (auto simp: ws_def)
    show ?thesis
    proof (cases "\<exists>m \<in> set ws. rwfl_is_insert m")
      case True
      then show ?thesis using rwfl_fold_pid(1)[OF lc, of rwfl_new] v by auto
    next
      case False
      have "\<not> rwfl_is_update m" if m: "m \<in> set ws" for m
      proof
        assume "rwfl_is_update m"
        then obtain m' where "m' \<in> set ms" "rwfl_is_insert m'" "rwfl_target m' = rwfl_target m" "msg_stamp m' = msg_stamp m"
          using g m by (auto simp: rwfl_grounded_def ws_def)
        then have "m' \<in> set ws" using m by (simp add: ws_def)
        then show False using False \<open>rwfl_is_insert m'\<close> by blast
      qed
      then show ?thesis using rwfl_fold_pid(2)[OF lc, of rwfl_new] v False by (simp add: rwfl_new_def)
    qed
  qed
  moreover have "rwflist_pos q s' = (if \<exists>m \<in> set ms. rwfl_is_insert m \<and> rwfl_target m = q then map_option fst (P (fst q) (snd q)) else None)"
    if q: "fst q \<in> K" for q
    using rwflp.run_viewD[OF inv(1) ok s'(1), of q] inv(3)[OF q] rwfl_place_fold[of "filter (\<lambda>m. rwfl_target m = q) ms" q P None] by auto
  ultimately show ?thesis using s'(1,2) by blast
qed

text \<open>What \<open>rwfllist\<close> shows of a list after the header.\<close>

definition rwfl_shown :: "rwfl_server \<Rightarrow> sds \<Rightarrow> reply list option" where
  "rwfl_shown s k =
     do {
       head \<leftarrow> getHead (rwfl_table s k);
       es \<leftarrow> list_nodes rwfl_next (rwfl_table s k) head;
       reply_items rwfl_item es
     }"

lemma rwfllist_shows:
  assumes "db s k = Some (ObjHash h)" "getLen h = Some l" "0 \<le> l" "argv c = [''rwfllist'', k]"
  shows "rwfllistCommand s c = map_option (\<lambda>rs. (s, addReplies c (ReplyArrayLen (nat l) # rs))) (rwfl_shown s k)"
  using assms by (simp add: rwfllistCommand_def arg_def lookupKey_def rwfl_shown_def rwfl_table_def map_option_bind split: bind_split)

lemma rwfl_same_item:
  assumes e: "rwfl_elem_ok n i pl x e" "rwfl_oid e \<noteq> None" and e': "rwfl_elem_ok n j pl x e'" "rwfl_oid e' \<noteq> None"
    and same: "rwfl_payload e' = rwfl_payload e" and pid: "PID e \<noteq> PID_WAIT_INNATE"
  shows "rwfl_item e \<noteq> None \<and> rwfl_item e' = rwfl_item e"
proof (cases "PID e = PID_NEXIST")
  case True
  then show ?thesis using same by (simp add: rwfl_item_def EXISTS_def rwfl_payload_def)
next
  case False
  then have pos: "0 \<le> PID e" using e(1) pid by (simp add: rwfl_elem_ok_def)
  have pp: "PID e' = PID e" using same by (simp add: rwfl_payload_def)
  have "snd (snd (rwfl_payload a)) = prop_value a" if "0 \<le> PID a" for a using that by (simp add: rwfl_payload_def)
  then have val: "prop_value e' = prop_value e" using same pos pp by metis
  have nv: "prop_value e p \<noteq> None" for p using e(1) pos by (simp add: rwfl_elem_ok_def)
  have normal: "rwfl_normal e' p = rwfl_normal e p \<and> rwfl_normal e p \<noteq> None" if "prop_bit p = None" for p
    using fun_cong[OF val, of p] nv[of p] that by (simp add: prop_value_def)
  have "bit (rwfl_property e') b = bit (rwfl_property e) b" for b
  proof (cases "b < 3")
    case True
    then have "b = 0 \<or> b = 1 \<or> b = 2" by auto
    then show ?thesis using fun_cong[OF val, of Bold] fun_cong[OF val, of Italic] fun_cong[OF val, of Underline]
      by (auto simp: prop_value_def of_bool_def split: if_splits)
  next
    case False
    then show ?thesis using e(1) e'(1) by (simp add: rwfl_elem_ok_def bits_ok_def)
  qed
  then have bits: "rwfl_property e' = rwfl_property e" by (intro bit_eqI) simp
  obtain pos' c where "rwfl_oid e = Some x" "rwfl_content e = Some c" "rwfl_oid e' = Some x" "rwfl_content e' = Some c"
    using e e' unfolding rwfl_elem_ok_def by auto
  then show ?thesis using normal[of Font] normal[of Size] normal[of Color] bits pp by (auto simp: rwfl_item_def EXISTS_def)
qed

lemma reply_items_same:
  "\<forall>n \<in> set ns. f (g n) \<noteq> None \<and> f (h n) = f (g n) \<Longrightarrow>
   \<exists>rs. reply_items f (map g ns) = Some rs \<and> reply_items f (map h ns) = Some rs"
  by (induction ns) auto

lemma rwfl_same_list:
  assumes k: "k \<in> K" and s: "rwflist_inv n K P s" and t: "rwflist_inv n K P t"
    and pos: "\<forall>x. rwflist_pos (k, x) t = rwflist_pos (k, x) s"
    and view: "\<forall>x. rwflist_view n (k, x) t = rwflist_view n (k, x) s"
    and pid: "\<forall>x. fst (snd (rwflist_view n (k, x) s)) \<noteq> PID_WAIT_INNATE"
  shows "\<exists>rs. rwfl_shown s k = Some rs \<and> rwfl_shown t k = Some rs"
proof -
  let ?h = "rwfl_table s k" and ?h' = "rwfl_table t k"
  have ok: "rwfl_table_ok n (p2p_id s) (P k) ?h" "rwfl_table_ok n (p2p_id t) (P k) ?h'" using k s t by (simp_all add: rwflist_inv_def)
  obtain ns ns' where wf: "list_wf rwfl_pos_id rwfl_next ?h ns" "list_wf rwfl_pos_id rwfl_next ?h' ns'" using ok unfolding rwfl_table_ok_def by blast
  have rp: "\<forall>x. rwfl_pos ?h' x = rwfl_pos ?h x" using pos by (simp add: rwflist_pos_def)
  have ns: "ns' = ns" using list_wf_unique[OF wf rp] by simp
  have sh: "rwfl_shown s k = reply_items rwfl_item (map (\<lambda>n. the (le_deref ?h n)) ns)"
    "rwfl_shown t k = reply_items rwfl_item (map (\<lambda>n. the (le_deref ?h' n)) ns)"
    using wf chain_nodes unfolding ns list_wf_def by (fastforce simp: rwfl_shown_def)+
  have "rwfl_item (the (le_deref ?h x)) \<noteq> None \<and> rwfl_item (the (le_deref ?h' x)) = rwfl_item (the (le_deref ?h x))" if x: "x \<in> set ns" for x
  proof -
    have px: "rwfl_pos ?h x \<noteq> None" "rwfl_pos ?h' x \<noteq> None" using wf(1) x rp unfolding list_wf_def by auto
    then obtain e e' where e: "le_deref ?h x = Some e" "le_deref ?h' x = Some e'" "rwfl_pos_id e \<noteq> None" "rwfl_pos_id e' \<noteq> None"
      by (auto simp: list_pos_def bind_eq_Some_conv)
    have oe: "rwfl_elem_ok n (p2p_id s) (P k x) x e" "rwfl_elem_ok n (p2p_id t) (P k x) x e'" using ok e by (simp_all add: rwfl_table_ok_def)
    have oid: "rwfl_oid e \<noteq> None" "rwfl_oid e' \<noteq> None" using elem_ok_oid[OF oe(1) e(3)] elem_ok_oid[OF oe(2) e(4)] by simp_all
    have pl: "rwfl_payload e' = rwfl_payload e" using view[rule_format, of x] e(1,2) by (simp add: rwflist_view_def rwfl_view_def)
    have "PID e \<noteq> PID_WAIT_INNATE" using pid[rule_format, of x] e(1) by (simp add: rwflist_view_def rwfl_view_def rwfl_payload_def)
    from rwfl_same_item[OF oe(1) oid(1) oe(2) oid(2) pl this] show ?thesis unfolding e(1,2) option.sel .
  qed
  then show ?thesis unfolding sh by (intro reply_items_same) blast
qed

section \<open>Properties\<close>

text \<open>
  C3 (the remove-win list converges): replicas that start with empty lists and receive the same
  messages, each in its own order, apply them without a fault and then show the same elements with the
  same content and properties in the same order: \<open>rwfllist\<close> sends the same items, while the number it announces
  first may differ. The origin gives every element one content and one
  position of its own, above the position of the element it names as predecessor; concurrent
  inserts of an element come from different replicas, its updates have different clocks, and an
  update is made where an insert with the same remove history has been applied.
\<close>

theorem rwflist_convergence:
  assumes s: "rwfl_fresh n K P s" and t: "rwfl_fresh n K P t" and ok: "\<forall>m \<in> set ms. rwfl_msg_ok n K P m"
    and perm: "mset ms = mset ns" and g: "rwfl_grounded ms"
    and ind: "\<forall>m \<in> set ms. \<forall>m' \<in> set ms. m \<noteq> m' \<longrightarrow> rwfl_target m = rwfl_target m' \<longrightarrow> msg_stamp m = msg_stamp m' \<longrightarrow> rwfl_indep m m'"
  shows "\<exists>s' t'. run rwfl_deliver s ms = Some s' \<and> run rwfl_deliver t ns = Some t' \<and>
    (\<forall>k \<in> K. \<exists>rs. rwfl_shown s' k = Some rs \<and> rwfl_shown t' k = Some rs)"
proof -
  have set: "set ns = set ms" using mset_eq_setD[OF perm] by simp
  have ok': "\<forall>m \<in> set ns. rwfl_msg_ok n K P m" and g': "rwfl_grounded ns" using ok g set by (simp_all add: rwfl_grounded_def)
  note i1 = rwfl_fresh_inv[OF s] and i2 = rwfl_fresh_inv[OF t]
  obtain s' t' where r: "run rwfl_deliver s ms = Some s'" "run rwfl_deliver t ns = Some t'"
    and inv: "rwflist_inv n K P s'" "rwflist_inv n K P t'" and view: "\<forall>q. fst q \<in> K \<longrightarrow> rwflist_view n q s' = rwflist_view n q t'"
    using rwfl.stamped_converge[OF i1(1) i2(1) _ perm ok ind] i1(2) i2(2) by auto
  have "\<exists>rs. rwfl_shown s' k = Some rs \<and> rwfl_shown t' k = Some rs" if k: "k \<in> K" for k
  proof (rule rwfl_same_list[OF k inv])
    show "\<forall>x. rwflist_pos (k, x) t' = rwflist_pos (k, x) s'" "\<forall>x. fst (snd (rwflist_view n (k, x) s')) \<noteq> PID_WAIT_INNATE"
      using rwfl_run_state[OF s ok g] rwfl_run_state[OF t ok' g'] r k by (simp_all add: set)
    show "\<forall>x. rwflist_view n (k, x) t' = rwflist_view n (k, x) s'" using view k by simp
  qed
  then show ?thesis using r by blast
qed

text \<open>
  C8 (the list is sorted): after any sequence of messages whose origins give every identifier one position of its
  own and one content, above the position of the element it names as predecessor, the chain from the head visits exactly the elements of which an insert has arrived, each once and in the strict order
  of their positions, whatever the order of arrival.
\<close>

theorem rwflist_sorted:
  assumes "rwfl_fresh n K P s" and "\<forall>m \<in> set ms. rwfl_msg_ok n K P m" and "k \<in> K"
  shows "\<exists>s' ns. run rwfl_deliver s ms = Some s' \<and> list_wf rwfl_pos_id rwfl_next (rwfl_table s' k) ns \<and>
    set ns = {x. \<exists>m \<in> set ms. rwfl_is_insert m \<and> rwfl_target m = (k, x)}"
proof -
  note inv = rwfl_fresh_inv[OF assms(1)]
  obtain s' where s': "run rwfl_deliver s ms = Some s'" "rwflist_inv n K P s'"
    "\<forall>q. rwflist_pos q s' = fold (rwfl_place P) (filter (\<lambda>m. rwfl_target m = q) ms) (rwflist_pos q s)"
    using rwflp.run_view[OF inv(1) assms(2)] by blast
  obtain ns where ns: "list_wf rwfl_pos_id rwfl_next (rwfl_table s' k) ns"
    using s'(2) assms(3) by (auto simp: rwflist_inv_def rwfl_table_ok_def)
  have "rwfl_pos (rwfl_table s' k) x \<noteq> None \<longleftrightarrow> (\<exists>m \<in> set ms. rwfl_is_insert m \<and> rwfl_target m = (k, x))" for x
  proof -
    have "rwfl_pos (rwfl_table s' k) x = fold (rwfl_place P) (filter (\<lambda>m. rwfl_target m = (k, x)) ms) None"
      using s'(3)[rule_format, of "(k, x)"] inv(3)[of "(k, x)"] assms(3) by (simp add: rwflist_pos_def)
    moreover have "P k x \<noteq> None" if m: "m \<in> set ms" "rwfl_is_insert m" "rwfl_target m = (k, x)" for m
      using bspec[OF assms(2) m(1)] m(2,3) by (auto simp: rwfl_msg_ok_def rwfl_insert_ok_def rwfl_target_def split: option.splits)
    ultimately show ?thesis using rwfl_place_fold[of "filter (\<lambda>m. rwfl_target m = (k, x)) ms" "(k, x)" P None] by auto
  qed
  then have "set ns = {x. \<exists>m \<in> set ms. rwfl_is_insert m \<and> rwfl_target m = (k, x)}" using ns unfolding list_wf_def by simp
  then show ?thesis using s'(1) ns by blast
qed


section \<open>Witnesses\<close>

abbreviation (input) sample_a :: "sds list" where
  "sample_a \<equiv> [''rwflinsert'', ''k'', ''null'', ''a'', ''A'', ''5'', ''5'', ''5'', ''5'', ''1,0,0'', ''0,0|0'']"

abbreviation (input) sample_b :: "sds list" where
  "sample_b \<equiv> [''rwflinsert'', ''k'', ''a'', ''b'', ''B'', ''5'', ''5'', ''5'', ''5'', ''2,0,0'', ''0,0|0'']"

abbreviation (input) sample_c :: "sds list" where
  "sample_c \<equiv> [''rwflupdate'', ''k'', ''a'', ''font'', ''5'', ''1,1'', ''0,0|0'']"

definition sample_places :: "sds \<Rightarrow> places" where
  "sample_places k = [''a'' \<mapsto> ([sample_pos 1], ''A''), ''b'' \<mapsto> ([sample_pos 2], ''B'')]"

lemma sample_leid: "sdsToLeid ''1,0,0'' = Some [sample_pos 1]" "sdsToLeid ''2,0,0'' = Some [sample_pos 2]"
  using leid_parse[of "[sample_pos 1]"] leid_parse[of "[sample_pos 2]"]
  by (simp_all add: leid_ok_def sample_pos_ok leidToSds_def position_text_def text_eval)

lemma sample_lc: "sdsToLc ''1,1'' = Some \<lparr>lc_x = 1, lc_id = 1\<rparr>"
  using lc_roundtrip[of "\<lparr>lc_x = 1, lc_id = 1\<rparr>"] by (simp add: text_eval)

lemma sample_places_ok: "places_ok (sample_places k)"
  by (auto simp: places_ok_def sample_places_def leid_ok_def sample_pos_ok split: if_splits)

lemma sample_rwfl_fresh: "0 \<le> i \<Longrightarrow> i < 2 \<Longrightarrow> rwfl_fresh 2 {''k''} sample_places (started_server 2 i)"
  using sample_replica[of i] by (simp add: rwfl_fresh_def sample_places_ok) (simp add: started_server_def)

lemma sample_rwfl_kinds:
  "rwfl_is_insert sample_a" "rwfl_is_insert sample_b" "\<not> rwfl_is_insert sample_c" "rwfl_is_update sample_c"
  "rwfl_target sample_a = (''k'', ''a'')" "rwfl_target sample_b = (''k'', ''b'')" "rwfl_target sample_c = (''k'', ''a'')"
  by (simp_all add: rwfl_is_insert_def rwfl_is_update_def rwfl_target_def)

lemma sample_rwfl_ok: "\<forall>m \<in> set [sample_a, sample_b, sample_c]. rwfl_msg_ok 2 {''k''} sample_places m"
proof -
  have "rwfl_insert_ok sample_places sample_a" "rwfl_insert_ok sample_places sample_b"
    by (simp_all add: rwfl_insert_ok_def sample_leid sample_value list_reserved_def sample_places_def leid_key_def pos_key_def)
  moreover have "rwfl_update_ok sample_c" by (simp add: rwfl_update_ok_def sample_value sample_lc lc_nonneg_def lc_wf_def is_int32_def)
  ultimately show ?thesis
    by (simp add: rwfl_msg_ok_def sample_rwfl_kinds sample_vc_text list_reserved_def)
qed

lemma sample_rwfl_stamps: "msg_stamp sample_a = [0, 0]" "msg_stamp sample_b = [0, 0]" "msg_stamp sample_c = [0, 0]"
  by (simp_all add: msg_stamp_def last_vc_def sample_vc)

theorem rwflist_convergence_witness:
  "\<exists>s' t'. run rwfl_deliver (started_server 2 0) [sample_a, sample_b, sample_c] = Some s' \<and>
    run rwfl_deliver (started_server 2 1) [sample_c, sample_b, sample_a] = Some t' \<and>
    (\<forall>k \<in> {''k''}. \<exists>rs. rwfl_shown s' k = Some rs \<and> rwfl_shown t' k = Some rs)"
proof (rule rwflist_convergence[OF sample_rwfl_fresh sample_rwfl_fresh sample_rwfl_ok])
  show "rwfl_grounded [sample_a, sample_b, sample_c]"
    by (simp add: rwfl_grounded_def sample_rwfl_kinds sample_rwfl_stamps)
  show "\<forall>m \<in> set [sample_a, sample_b, sample_c]. \<forall>m' \<in> set [sample_a, sample_b, sample_c]. m \<noteq> m' \<longrightarrow>
      rwfl_target m = rwfl_target m' \<longrightarrow> msg_stamp m = msg_stamp m' \<longrightarrow> rwfl_indep m m'"
    by (simp add: sample_rwfl_kinds rwfl_indep_def rwfl_not_both)
qed (simp_all add: add_mset_commute)

theorem rwflist_sorted_witness:
  "\<exists>s' ns. run rwfl_deliver (started_server 2 0) [sample_b, sample_c, sample_a] = Some s' \<and>
    list_wf rwfl_pos_id rwfl_next (rwfl_table s' ''k'') ns \<and> set ns = {''a'', ''b''}"
proof -
  have "\<forall>m \<in> set [sample_b, sample_c, sample_a]. rwfl_msg_ok 2 {''k''} sample_places m" using sample_rwfl_ok by simp
  moreover have "{x. \<exists>m \<in> set [sample_b, sample_c, sample_a]. rwfl_is_insert m \<and> rwfl_target m = (''k'', x)} = {''a'', ''b''}"
    by (auto simp: sample_rwfl_kinds)
  ultimately show ?thesis
    using rwflist_sorted[OF sample_rwfl_fresh, of 0 "[sample_b, sample_c, sample_a]" "''k''"] by (simp only:) simp
qed


section \<open>The length field\<close>

text \<open>
  An update that arrives before the insert it follows makes the element exist without counting it. If a remove
  arrives next, it subtracts one, and the list has the length \<open>-1\<close>.
\<close>

lemma acquired_update_keeps: "PID (acquired_update e ty t v) = PID e" "CURRENT (acquired_update e ty t v) = CURRENT e"
  by (simp_all add: acquired_update_def split: option.split)

lemmas rwfl_eval = rwflupdate_effect_def rwflrem_effect_def rwfl_removeFunc_def removeCheck_def REH_RMV_FUNC_def updateCheck_def EXISTS_def
  acquired_update_keeps rwfleNew_def server_vc_def vc_new_def vc_size_def vc_equal_def CR_GET_LAST_def CR_GET_def arg_def
  getListHT_def getInnerHT_def putListHT_def lookupKey_def dbAdd_def dbSet_def le_create_def le_find_def le_put_def
  getLen_def incrLen_def rwfl_table_def

lemma rwflist_length_drifts:
  "map_option (\<lambda>s. getLen (rwfl_table s ''k'')) (Option.bind (rwflupdate_effect (started_server 2 0) sample_c)
     (\<lambda>s. rwflrem_effect s [''rwflrem'', ''k'', ''a'', ''1,0|0''])) = Some (Some (- 1))"
  by (simp add: rwfl_eval started_server_def sample_value sample_lc sample_vc Let_def numeral_2_eq_2)
    (simp add: int32_def)

end
