(* ===== verification/RListCorrect.thy ===== *)
theory RListCorrect
  imports RList RWFListCorrect EntryPointer
begin

text \<open>
  Correctness of the remove-win list with causal delivery (t_rlist.c): an element holds the inserts and
  removes of its history that no later operation has overwritten, the insert with the largest replica id gives
  its properties, the linked list stays sorted, and the field \<open>length\<close> counts the visible elements.
\<close>

section \<open>The element after a history\<close>

text \<open>
  \<open>h\<close> is the list of the commands applied to an element. An insert is live if no later insert or remove
  has seen it, a remove if no later insert has seen it; \<open>rl_entry\<close> is the entry of an insert after the updates that
  have seen it. What the entry shows is specified separately below.
\<close>

definition rl_name :: "rl_cmd \<Rightarrow> sds" where
  "rl_name c = (if rl_type c = RLADD then rl_argv c ! 2 else rl_argv c ! 1)"

definition rl_live_adds :: "rl_cmd list \<Rightarrow> rl_cmd list" where
  "rl_live_adds h = filter (\<lambda>c. rl_type c = RLADD \<and>
     (\<forall>d \<in> set h. rl_type d \<noteq> RLUPDATE \<longrightarrow> \<not> vc_older (rl_ct c) (rl_ct d))) h"

definition rl_live_rems :: "rl_cmd list \<Rightarrow> rl_cmd list" where
  "rl_live_rems h = filter (\<lambda>c. rl_type c = RLREM \<and>
     (\<forall>d \<in> set h. rl_type d = RLADD \<longrightarrow> \<not> vc_older (rl_ct c) (rl_ct d))) h"

definition rl_number :: "rl_cmd \<Rightarrow> nat \<Rightarrow> int" where
  "rl_number c i = the (getLongLongFromObject (rl_argv c ! i))"

definition rl_initial :: "rl_cmd \<Rightarrow> rl_ase" where
  "rl_initial c = rl_aseNew 0 (rl_ct c)
     (\<lambda>p. if p = Font then int32 (rl_number c 4) else if p = Size then int32 (rl_number c 5) else int32 (rl_number c 6))
     (int32 (rl_number c 7))"

definition rl_changed :: "rl_cmd \<Rightarrow> rl_ase \<Rightarrow> rl_ase" where
  "rl_changed d =
     (case prop_of_name (c_text (sdstolower (rl_argv d ! 2))) of
        None \<Rightarrow> (\<lambda>a. a)
      | Some p \<Rightarrow> rl_update_entry p (rl_ct d) (rl_number d 3))"

definition rl_updates :: "rl_cmd list \<Rightarrow> rl_cmd \<Rightarrow> rl_cmd list" where
  "rl_updates h c = filter (\<lambda>d. rl_type d = RLUPDATE \<and> vc_older (rl_ct c) (rl_ct d)) h"

definition rl_entry :: "rl_cmd list \<Rightarrow> rl_cmd \<Rightarrow> rl_ase" where
  "rl_entry h c = fold rl_changed (rl_updates h c) (rl_initial c)"

definition rl_winner :: "rl_cmd list \<Rightarrow> rl_cmd option" where
  "rl_winner cs = find (\<lambda>c. \<forall>d \<in> set cs. vc_id (rl_ct d) \<le> vc_id (rl_ct c)) cs"

text \<open>The insert that is visible: the winning one, unless a remove is live.\<close>

definition rl_outcome :: "rl_cmd list \<Rightarrow> rl_cmd option" where
  "rl_outcome h = (if rl_live_rems h \<noteq> [] then None else rl_winner (rl_live_adds h))"

text \<open>The pointer \<open>value\<close> points to the entry with the largest replica id of a list of entries.\<close>

abbreviation rl_best :: "rl_ase list \<Rightarrow> nat option \<Rightarrow> bool" where
  "rl_best \<equiv> best_entry ra_addr ra_t"

definition rl_ptr :: "rle \<Rightarrow> bool" where
  "rl_ptr e \<longleftrightarrow> distinct (map ra_addr (rl_aset e)) \<and> (\<forall>a \<in> set (rl_aset e). ra_addr a < rl_fresh e) \<and>
     rl_best (rl_aset e) (rl_value e)"

definition rl_data :: "rl_ase \<Rightarrow> rl_ase" where
  "rl_data a = a\<lparr>ra_addr := 0\<rparr>"

definition rl_rel :: "rl_cmd list \<Rightarrow> rle \<Rightarrow> bool" where
  "rl_rel h e \<longleftrightarrow> rl_ptr e \<and> rl_rset e = map rl_ct (rl_live_rems h) \<and>
     map rl_data (rl_aset e) = map (rl_entry h) (rl_live_adds h)"

text \<open>The next command of a causal history.\<close>

definition rl_follows :: "rl_cmd list \<Rightarrow> rl_cmd \<Rightarrow> bool" where
  "rl_follows h c \<longleftrightarrow> (\<forall>d \<in> set h. \<not> vc_older (rl_ct c) (rl_ct d))"

lemma rl_live_adds_snoc:
  assumes "rl_follows h c"
  shows "rl_live_adds (h @ [c]) =
    (if rl_type c = RLUPDATE then rl_live_adds h else filter (\<lambda>d. \<not> vc_older (rl_ct d) (rl_ct c)) (rl_live_adds h)) @
    (if rl_type c = RLADD then [c] else [])"
  using assms by (auto simp: rl_live_adds_def rl_follows_def intro!: filter_cong)

lemma rl_live_rems_snoc:
  assumes "rl_follows h c"
  shows "rl_live_rems (h @ [c]) =
    (if rl_type c = RLADD then filter (\<lambda>d. \<not> vc_older (rl_ct d) (rl_ct c)) (rl_live_rems h) else rl_live_rems h) @
    (if rl_type c = RLREM then [c] else [])"
  using assms by (auto simp: rl_live_rems_def rl_follows_def intro!: filter_cong)

lemma rl_entry_snoc:
  "rl_entry (h @ [c]) d =
    (if rl_type c = RLUPDATE \<and> vc_older (rl_ct d) (rl_ct c) then rl_changed c (rl_entry h d) else rl_entry h d)"
  by (simp add: rl_entry_def rl_updates_def)

lemma rl_entry_new: "rl_follows h c \<Longrightarrow> rl_entry h c = rl_initial c"
  by (simp add: rl_entry_def rl_updates_def rl_follows_def filter_empty_conv)

lemma rl_live_mem: "c \<in> set (rl_live_adds h) \<Longrightarrow> c \<in> set h" "c \<in> set (rl_live_rems h) \<Longrightarrow> c \<in> set h"
  by (auto simp: rl_live_adds_def rl_live_rems_def)

lemma rl_update_entry_keeps [simp]:
  "ra_addr (rl_update_entry p t v a) = ra_addr a" "ra_t (rl_update_entry p t v a) = ra_t a"
  by (auto simp: rl_update_entry_def Let_def split: option.split)

lemma rl_changed_keeps [simp]: "ra_addr (rl_changed d a) = ra_addr a" "ra_t (rl_changed d a) = ra_t a"
  by (auto simp: rl_changed_def split: option.split)

lemma rl_changed_data: "rl_changed d (rl_data a) = rl_data (rl_changed d a)"
  by (auto simp: rl_changed_def rl_data_def rl_update_entry_def Let_def split: option.split)

lemma rl_entry_t [simp]: "ra_t (rl_entry h c) = rl_ct c"
proof -
  have "ra_t (fold rl_changed ds a) = ra_t a" for ds a by (induction ds arbitrary: a) simp_all
  then show ?thesis by (simp add: rl_entry_def rl_initial_def rl_aseNew_def)
qed

lemma rl_data_t [simp]: "ra_t (rl_data a) = ra_t a"
  by (simp add: rl_data_def)

section \<open>The pointer\<close>

interpretation rlp: entry_pointer ra_addr ra_t rl_aset rl_value "\<lambda>v e. e\<lparr>rl_value := v\<rparr>" rle_deref rl_id_less rl_pick
    rl_below rl_delete_below
  by unfold_locales (simp_all add: rle_deref_def rl_id_less_def map_conv_bind_option comp_def rl_delete_below_def Let_def split: option.split)

lemma rl_delete_value:
  assumes "rl_ptr e" "fst (rl_delete_below t e) = e1"
  shows "rl_aset e1 = filter (\<lambda>a. \<not> rl_below t a) (rl_aset e)" "rl_value e1 = None \<or> rl_best (rl_aset e1) (rl_value e1)"
  using assms rlp.delete_best[OF _ assms(2)] by (auto simp: rl_ptr_def rl_delete_below_def Let_def)

section \<open>The three functions on an element\<close>

text \<open>\<open>vc_cmp\<close> decides whether an entry of the element is older than the command.\<close>

definition rl_decides :: "vc \<Rightarrow> rle \<Rightarrow> bool" where
  "rl_decides t e \<longleftrightarrow> vc_cmp t t \<noteq> VC_LESS \<and> (\<forall>a \<in> set (rl_aset e). rl_below t a \<longleftrightarrow> vc_older (ra_t a) t) \<and>
     (\<forall>r \<in> set (rl_rset e). vc_cmp r t = VC_LESS \<longleftrightarrow> vc_older r t)"

lemma rl_rel_clocks:
  assumes "rl_rel h e"
  shows "map ra_t (rl_aset e) = map rl_ct (rl_live_adds h)"
proof -
  have "map ra_t (map rl_data (rl_aset e)) = map ra_t (map (rl_entry h) (rl_live_adds h))" using assms by (simp add: rl_rel_def)
  then show ?thesis by (simp add: comp_def)
qed

lemma rl_decides_causal:
  assumes M: "vc_causal n (rl_ct ` set (h @ [c]))" and rel: "rl_rel g e" and sub: "set g \<subseteq> set h"
  shows "rl_decides (rl_ct c) e"
proof -
  have "ra_t ` set (rl_aset e) = rl_ct ` set (rl_live_adds g)" using arg_cong[OF rl_rel_clocks[OF rel], of set] by simp
  then have a: "ra_t a \<in> rl_ct ` set (h @ [c])" if "a \<in> set (rl_aset e)" for a
    using that rl_live_mem(1)[of _ g] sub by force
  have r: "t \<in> rl_ct ` set (h @ [c])" if "t \<in> set (rl_rset e)" for t
    using that rel rl_live_mem(2)[of _ g] sub by (auto simp: rl_rel_def)
  show ?thesis using vc_cmp_older[OF M] a r by (auto simp: rl_decides_def rl_below_def)
qed

lemma rl_rel_live:
  assumes "rl_rel h e" "\<forall>a \<in> set (rl_aset e). P a = Q (ra_t a)"
  shows "map rl_data (filter P (rl_aset e)) = map (rl_entry h) (filter (\<lambda>c. Q (rl_ct c)) (rl_live_adds h))"
proof -
  have *: "map rl_data (filter P as) = map (rl_entry h) (filter (\<lambda>c. Q (rl_ct c)) cs)"
    if "map rl_data as = map (rl_entry h) cs" "\<forall>a \<in> set as. P a = Q (ra_t a)" for as cs
    using that
  proof (induction as arbitrary: cs)
    case (Cons a as)
    then obtain c cs' where cs: "cs = c # cs'" "rl_data a = rl_entry h c" "map rl_data as = map (rl_entry h) cs'"
      by (cases cs) auto
    have "ra_t a = rl_ct c" using arg_cong[OF cs(2), of ra_t] by simp
    then show ?case using Cons.IH[OF cs(3)] Cons.prems(2) cs(1,2) by simp
  qed simp
  show ?thesis by (rule *) (use assms in \<open>simp_all add: rl_rel_def\<close>)
qed

text \<open>What the functions leave alone: the place of the element in the list.\<close>

definition rl_place :: "rle \<Rightarrow> sds option \<times> leid option \<times> sds option \<times> sds option" where
  "rl_place e = (rl_oid e, rl_pos_id e, rl_content e, rl_next e)"

lemma rl_rel_place: "rl_rel h (e\<lparr>rl_oid := o', rl_content := c', rl_pos_id := p'\<rparr>) = rl_rel h e" "rl_rel h (e\<lparr>rl_next := q\<rparr>) = rl_rel h e"
  by (simp_all add: rl_rel_def rl_ptr_def)

lemma rl_remove_elem:
  assumes rel: "rl_rel h e" and nx: "rl_follows h c" and ty: "rl_type c = RLREM" and dec: "rl_decides (rl_ct c) e"
  defines "e1 \<equiv> fst (rl_delete_below (rl_ct c) (e\<lparr>rl_rset := rl_rset e @ [rl_ct c]\<rparr>))"
  obtains e2 where "(if rl_value e1 = None then rl_pick (rl_aset e1) e1 else Some e1) = Some e2"
    "rl_rel (h @ [c]) e2" "rl_place e2 = rl_place e"
proof -
  let ?t = "rl_ct c" and ?e = "e\<lparr>rl_rset := rl_rset e @ [rl_ct c]\<rparr>"
  have p1: "rl_ptr ?e" using rel by (simp add: rl_rel_def rl_ptr_def)
  have "fst (rl_delete_below ?t ?e) = e1" by (simp add: e1_def)
  note d = rl_delete_value[OF p1 this]
  have dis: "distinct (map ra_addr (rl_aset e1))" using p1 d(1) by (auto simp: rl_ptr_def distinct_map inj_on_def)
  obtain v where v: "(if rl_value e1 = None then rl_pick (rl_aset e1) e1 else Some e1) = Some (e1\<lparr>rl_value := v\<rparr>)"
    "rl_best (rl_aset e1) v"
    using rlp.repick[OF dis d(2)] by blast
  have f: "rl_fresh e1 = rl_fresh e" "rl_rset e1 = rl_rset e @ [?t]" "rl_place e1 = rl_place e"
    by (simp_all add: e1_def rl_delete_below_def Let_def rl_place_def)
  have "rl_ptr (e1\<lparr>rl_value := v\<rparr>)" using p1 d(1) dis v(2) f(1) by (simp add: rl_ptr_def)
  moreover have "map rl_data (rl_aset e1) = map (rl_entry (h @ [c])) (rl_live_adds (h @ [c]))"
    using rl_rel_live[OF rel, of "\<lambda>a. \<not> rl_below ?t a" "\<lambda>u. \<not> vc_older u ?t"] dec d(1) ty
    by (simp add: rl_live_adds_snoc[OF nx] rl_entry_snoc rl_decides_def)
  ultimately have "rl_rel (h @ [c]) (e1\<lparr>rl_value := v\<rparr>)"
    using f(2) rel ty by (simp add: rl_rel_def rl_live_rems_snoc[OF nx])
  then show ?thesis using that[OF v(1)] f(3) by (simp add: rl_place_def)
qed

lemma rl_add_elem:
  assumes rel: "rl_rel h e" and nx: "rl_follows h c" and ty: "rl_type c = RLADD" and dec: "rl_decides (rl_ct c) e"
    and init: "rl_initial c = rl_aseNew 0 (rl_ct c) vs pr"
  obtains e1 where "rl_add_entry (rl_ct c) vs pr e = Some e1" "rl_rel (h @ [c]) e1" "rl_place e1 = rl_place e"
proof -
  let ?t = "rl_ct c"
  define a where "a = rl_aseNew (rl_fresh e) ?t vs pr"
  define e1 where "e1 = e\<lparr>rl_aset := rl_aset e @ [a], rl_fresh := Suc (rl_fresh e)\<rparr>"
  define e2 where "e2 = fst (rl_delete_below ?t e1)"
  define e3 where "e3 = e2\<lparr>rl_rset := filter (\<lambda>r. vc_cmp r ?t \<noteq> VC_LESS) (rl_rset e2)\<rparr>"
  let ?old = "filter (\<lambda>a. \<not> rl_below ?t a) (rl_aset e)"
  have at: "ra_t a = ?t" "rl_data a = rl_initial c" by (simp_all add: a_def init rl_aseNew_def rl_data_def)
  have na: "\<not> rl_below ?t a" using dec at by (simp add: rl_decides_def rl_below_def)
  have pe: "rl_ptr e" using rel by (simp add: rl_rel_def)
  note d = rl_delete_value[OF pe refl, of ?t]
  have e3: "rl_aset e3 = ?old @ [a]" "rl_value e3 = rl_value (fst (rl_delete_below ?t e))" "rl_fresh e3 = Suc (rl_fresh e)"
    "rl_rset e3 = filter (\<lambda>r. vc_cmp r ?t \<noteq> VC_LESS) (rl_rset e)" "rl_place e3 = rl_place e"
    "snd (rl_delete_below ?t e1) = snd (rl_delete_below ?t e)"
    using na by (simp_all add: e3_def e2_def e1_def rl_delete_below_def Let_def rl_place_def split: option.split)
  have dis: "distinct (map ra_addr (rl_aset e3))" "\<forall>b \<in> set (rl_aset e3). ra_addr b < rl_fresh e3"
    using pe e3(1,3) by (auto simp: rl_ptr_def a_def rl_aseNew_def distinct_map inj_on_def less_Suc_eq)
  have old: "rl_best ?old (rl_value e3)" if "\<not> (snd (rl_delete_below ?t e1) \<and> rl_value e3 = None)"
    using d(2) that e3(2,6) pe by (auto simp: d(1) best_entry_def rl_delete_below_def rl_ptr_def Let_def filter_empty_conv
        split: option.splits if_splits)
  obtain w b where e4: "(if snd (rl_delete_below ?t e1) \<and> rl_value e3 = None then rl_pick (rl_aset e3) e3 else Some e3)
      = Some (e3\<lparr>rl_value := w\<rparr>)"
    "rl_id_less (e3\<lparr>rl_value := w\<rparr>) (vc_id ?t) = Some b" "rl_best (rl_aset e3) (if b then Some (ra_addr a) else w)"
    using rlp.add_best[OF dis(1) e3(1), of "snd (rl_delete_below ?t e1)"] old at by auto
  let ?e5 = "e3\<lparr>rl_value := if b then Some (ra_addr a) else w\<rparr>"
  have "rl_add_entry ?t vs pr e =
      (do { e4 \<leftarrow> (if snd (rl_delete_below ?t e1) \<and> rl_value e3 = None then rl_pick (rl_aset e3) e3 else Some e3);
        b \<leftarrow> rl_id_less e4 (vc_id ?t); Some (if b then e4\<lparr>rl_value := Some (ra_addr a)\<rparr> else e4) })"
    unfolding rl_add_entry_def e3_def e2_def e1_def a_def Let_def by (simp only: split_beta)
  also have "\<dots> = Some ?e5" unfolding e4(1) using e4(2) by simp
  finally have run: "rl_add_entry ?t vs pr e = Some ?e5" .
  have "filter (\<lambda>r. vc_cmp r ?t \<noteq> VC_LESS) (rl_rset e) = filter (\<lambda>r. \<not> vc_older r ?t) (rl_rset e)"
    by (rule filter_cong) (use dec in \<open>auto simp: rl_decides_def\<close>)
  then have rs: "rl_rset e3 = map rl_ct (rl_live_rems (h @ [c]))"
    using e3(4) rel ty by (simp add: rl_live_rems_snoc[OF nx] rl_rel_def filter_map comp_def)
  have "map rl_data (rl_aset e3) = map (rl_entry (h @ [c])) (rl_live_adds (h @ [c]))"
    using rl_rel_live[OF rel, of "\<lambda>a. \<not> rl_below ?t a" "\<lambda>u. \<not> vc_older u ?t"] dec e3(1) ty rl_entry_new[OF nx] at(2)
    by (simp add: rl_live_adds_snoc[OF nx] rl_entry_snoc rl_decides_def)
  then have "rl_rel (h @ [c]) ?e5" using rs dis e4(3) by (simp add: rl_rel_def rl_ptr_def)
  then show ?thesis using that[OF run] e3(5) by (simp add: rl_place_def)
qed

lemma rl_update_elem:
  assumes rel: "rl_rel h e" and nx: "rl_follows h c" and ty: "rl_type c = RLUPDATE" and dec: "rl_decides (rl_ct c) e"
    and upd: "\<forall>a. upd a = (if rl_below (rl_ct c) a then rl_changed c a else a)"
  shows "rl_rel (h @ [c]) (e\<lparr>rl_aset := map upd (rl_aset e)\<rparr>)"
proof -
  have u: "ra_addr (upd a) = ra_addr a" "ra_t (upd a) = ra_t a" for a by (simp_all add: upd)
  have "map rl_data (map upd as) = map (rl_entry (h @ [c])) cs"
    if "map rl_data as = map (rl_entry h) cs" "\<forall>a \<in> set as. rl_below (rl_ct c) a \<longleftrightarrow> vc_older (ra_t a) (rl_ct c)" for as cs
    using that
  proof (induction as arbitrary: cs)
    case (Cons a as)
    then obtain d cs' where cs: "cs = d # cs'" "rl_data a = rl_entry h d" "map rl_data as = map (rl_entry h) cs'"
      by (cases cs) auto
    have "ra_t a = rl_ct d" using arg_cong[OF cs(2), of ra_t] by simp
    moreover have "rl_data (rl_changed c a) = rl_changed c (rl_entry h d)" using cs(2) by (metis rl_changed_data)
    ultimately show ?case using Cons.IH[OF cs(3)] Cons.prems(2) cs(1,2) ty by (simp add: rl_entry_snoc upd)
  qed simp
  then have "map rl_data (map upd (rl_aset e)) = map (rl_entry (h @ [c])) (rl_live_adds h)"
    using rel dec unfolding rl_rel_def rl_decides_def by blast
  moreover have "rl_ptr (e\<lparr>rl_aset := map upd (rl_aset e)\<rparr>)" using rel
    by (auto simp: rl_rel_def rl_ptr_def best_entry_def comp_def u split: option.splits)
  ultimately show ?thesis using rel ty by (simp add: rl_rel_def rl_live_adds_snoc[OF nx] rl_live_rems_snoc[OF nx])
qed

section \<open>What is shown of an element\<close>

lemma rl_winner_eq:
  assumes "c \<in> set cs" "\<forall>d \<in> set cs. vc_id (rl_ct d) \<le> vc_id (rl_ct c)"
    "\<forall>d \<in> set cs. vc_id (rl_ct d) = vc_id (rl_ct c) \<longrightarrow> d = c"
  shows "rl_winner cs = Some c"
proof (cases "rl_winner cs")
  case None
  then show ?thesis using assms by (auto simp: rl_winner_def find_None_iff)
next
  case (Some d)
  then have "d \<in> set cs" "vc_id (rl_ct c) \<le> vc_id (rl_ct d)" using assms(1) by (auto simp: rl_winner_def find_Some_iff)
  then show ?thesis using assms Some by (metis order_antisym)
qed

text \<open>Inserts of one replica are ordered, so the live inserts have different ids.\<close>

lemma rl_live_unique:
  assumes M: "vc_causal n (rl_ct ` set h)" and d: "distinct (map rl_ct h)"
  shows "\<forall>c \<in> set (rl_live_adds h). \<forall>d \<in> set (rl_live_adds h). vc_id (rl_ct c) = vc_id (rl_ct d) \<longrightarrow> c = d"
proof (intro ballI impI)
  fix c d assume cd: "c \<in> set (rl_live_adds h)" "d \<in> set (rl_live_adds h)" "vc_id (rl_ct c) = vc_id (rl_ct d)"
  then have m: "rl_ct c \<in> rl_ct ` set h" "rl_ct d \<in> rl_ct ` set h" using rl_live_mem(1) by auto
  have "vle (vector (rl_ct c)) (vector (rl_ct d)) \<or> vle (vector (rl_ct d)) (vector (rl_ct c))"
    using vc_causal_le[OF M m] vc_causal_le[OF M m(2,1)] cd(3) by (auto simp: vc_seq_def vc_rid_def)
  moreover have "rl_type c = RLADD" "rl_type d = RLADD" "\<not> vc_older (rl_ct c) (rl_ct d)" "\<not> vc_older (rl_ct d) (rl_ct c)"
    using cd(1,2) by (auto simp: rl_live_adds_def)
  ultimately have "rl_ct c = rl_ct d" by (auto simp: vc_older_def)
  then show "c = d" using d cd(1,2) rl_live_mem(1)[of _ h] by (auto simp: distinct_map inj_on_def)
qed

lemma rl_rel_shown:
  assumes rel: "rl_rel h e" and M: "vc_causal n (rl_ct ` set h)" and d: "distinct (map rl_ct h)"
  shows "if rl_LOOKUP e then \<exists>p a. rl_value e = Some p \<and> rle_deref e p = Some a \<and>
      (\<exists>c. rl_outcome h = Some c \<and> rl_data a = rl_entry h c)
    else rl_outcome h = None"
proof (cases "rl_LOOKUP e")
  case False
  then have "rl_live_rems h \<noteq> [] \<or> rl_live_adds h = []" using rel rl_rel_clocks[OF rel] by (auto simp: rl_LOOKUP_def rl_rel_def)
  then show ?thesis using False by (auto simp: rl_outcome_def rl_winner_def)
next
  case True
  have pe: "rl_ptr e" and as: "map rl_data (rl_aset e) = map (rl_entry h) (rl_live_adds h)" using rel by (simp_all add: rl_rel_def)
  obtain a where a: "rl_value e = Some (ra_addr a)" "a \<in> set (rl_aset e)" "\<forall>b \<in> set (rl_aset e). vc_id (ra_t b) \<le> vc_id (ra_t a)"
    using pe True by (auto simp: rl_ptr_def best_entry_def rl_LOOKUP_def split: option.splits)
  have S: "rl_data ` set (rl_aset e) = rl_entry h ` set (rl_live_adds h)" using arg_cong[OF as, of set] by simp
  then obtain c where c: "c \<in> set (rl_live_adds h)" "rl_data a = rl_entry h c" using a(2) by (metis imageE imageI)
  have ct: "ra_t a = rl_ct c" using arg_cong[OF c(2), of ra_t] by simp
  have "vc_id (rl_ct d) \<le> vc_id (rl_ct c)" if "d \<in> set (rl_live_adds h)" for d
  proof -
    have "rl_ct d \<in> ra_t ` set (rl_aset e)" using arg_cong[OF rl_rel_clocks[OF rel], of set] that by simp
    then show ?thesis using a(3) ct by auto
  qed
  then have "rl_winner (rl_live_adds h) = Some c" using c(1) rl_live_unique[OF M d] by (intro rl_winner_eq) auto
  moreover have "rl_live_rems h = []" using True rel by (simp add: rl_LOOKUP_def rl_rel_def)
  moreover have "rle_deref e (ra_addr a) = Some a" by (rule rlp.deref_in) (use pe a(2) in \<open>simp_all add: rl_ptr_def\<close>)
  ultimately show ?thesis using True a(1) c(2) by (simp add: rl_outcome_def)
qed

section \<open>The properties that are shown\<close>

text \<open>
  The order in which updates win: the causal order, for concurrent clocks the order of the ids, and for
  concurrent clocks with the same id the first component that differs.
\<close>

fun first_less :: "int list \<Rightarrow> int list \<Rightarrow> bool" where
  "first_less (x # xs) (y # ys) = (if x = y then first_less xs ys else x < y)"
| "first_less _ _ = False"

definition clock_before :: "int list \<times> int \<Rightarrow> int list \<times> int \<Rightarrow> bool" where
  "clock_before a b \<longleftrightarrow>
     (if fst a = fst b then snd a < snd b
      else vle (fst a) (fst b) \<or> \<not> vle (fst b) (fst a) \<and> (snd a < snd b \<or> snd a = snd b \<and> first_less (fst a) (fst b)))"

definition rl_prop :: "rl_cmd \<Rightarrow> list_prop option" where
  "rl_prop d = prop_of_name (c_text (sdstolower (rl_argv d ! 2)))"

text \<open>The updates of property \<open>p\<close> that have seen the insert \<open>c\<close>, and the value that an update sets.\<close>

definition rl_writes :: "rl_cmd list \<Rightarrow> rl_cmd \<Rightarrow> list_prop \<Rightarrow> rl_cmd list" where
  "rl_writes h c p = filter (\<lambda>d. rl_type d = RLUPDATE \<and> rl_prop d = Some p \<and> vc_older (rl_ct c) (rl_ct d)) h"

definition rl_input :: "list_prop \<Rightarrow> rl_cmd \<Rightarrow> int" where
  "rl_input p d = (case prop_bit p of None \<Rightarrow> int32 (rl_number d 3) | Some _ \<Rightarrow> of_bool (rl_number d 3 \<noteq> 0))"

fun rl_start :: "rl_cmd \<Rightarrow> list_prop \<Rightarrow> int" where
  "rl_start c Font = int32 (rl_number c 4)"
| "rl_start c Size = int32 (rl_number c 5)"
| "rl_start c Color = int32 (rl_number c 6)"
| "rl_start c Bold = of_bool (bit (int32 (rl_number c 7)) 0)"
| "rl_start c Italic = of_bool (bit (int32 (rl_number c 7)) 1)"
| "rl_start c Underline = of_bool (bit (int32 (rl_number c 7)) 2)"

text \<open>
  A property has a clock and a value. An update takes effect if the clock of the property is before its own: it sets
  the value, and the clock becomes the join with the id of the update.
\<close>

definition rl_write :: "list_prop \<Rightarrow> rl_cmd \<Rightarrow> (int list \<times> int) \<times> int \<Rightarrow> (int list \<times> int) \<times> int" where
  "rl_write p d s =
     (if clock_before (fst s) (vector (rl_ct d), vc_id (rl_ct d))
      then ((vjoin (fst (fst s)) (vector (rl_ct d)), vc_id (rl_ct d)), rl_input p d) else s)"

definition rl_track :: "rl_cmd \<Rightarrow> rl_cmd list \<Rightarrow> list_prop \<Rightarrow> (int list \<times> int) \<times> int" where
  "rl_track c ds p = fold (rl_write p) ds ((vector (rl_ct c), vc_id (rl_ct c)), rl_start c p)"

definition rl_shown :: "rl_cmd list \<Rightarrow> rl_cmd \<Rightarrow> list_prop \<Rightarrow> int" where
  "rl_shown h c p = snd (rl_track c (rl_writes h c p) p)"

text \<open>The integer \<open>property\<close>: three bits are properties, the others are those of the insert.\<close>

definition put_bit :: "nat \<Rightarrow> int \<Rightarrow> int \<Rightarrow> int" where
  "put_bit i v x = (if v = 0 then unset_bit i x else set_bit i x)"

definition rl_bitmap :: "rl_cmd list \<Rightarrow> rl_cmd \<Rightarrow> int" where
  "rl_bitmap h c = put_bit 0 (rl_shown h c Bold) (put_bit 1 (rl_shown h c Italic) (put_bit 2 (rl_shown h c Underline)
     (int32 (rl_number c 7))))"

definition rl_reply :: "sds \<Rightarrow> sds \<Rightarrow> rl_cmd list \<Rightarrow> reply list" where
  "rl_reply x content h =
     (case rl_outcome h of
        None \<Rightarrow> []
      | Some c \<Rightarrow> [ReplyArrayLen 6, ReplyBulk x, ReplyBulk content, ReplyBulk (print_d (rl_shown h c Font)),
          ReplyBulk (print_d (rl_shown h c Size)), ReplyBulk (print_d (rl_shown h c Color)), ReplyBulk (print_d (rl_bitmap h c))])"

lemma vc_cmp_before:
  assumes "vc_size a = vc_size b"
  shows "vc_cmp a b < 0 \<longleftrightarrow> clock_before (vector a, vc_id a) (vector b, vc_id b)"
proof -
  have first: "first_less xs ys \<longleftrightarrow> (case dropWhile (\<lambda>(x, y). x = y) (zip xs ys) of [] \<Rightarrow> False | (x, y) # _ \<Rightarrow> x < y)"
    for xs ys by (induction xs ys rule: first_less.induct) auto
  have l: "length (vector a) = length (vector b)" using assms by (simp add: vc_size_def)
  show ?thesis
    using scan_first[OF l] l
    by (auto simp: vc_cmp_def vc_size_def clock_before_def vle_def first simp del: dropWhile_eq_Nil_conv split: list.splits)
qed

text \<open>The entry of the code and the specification of its properties.\<close>

definition rl_prop_agrees :: "rl_cmd \<Rightarrow> list_prop \<Rightarrow> (int list \<times> int) \<times> int \<Rightarrow> rl_ase \<Rightarrow> bool" where
  "rl_prop_agrees c p s a \<longleftrightarrow> fst s = (vector (ra_ts a p), vc_id (ra_ts a p)) \<and> vc_size (ra_ts a p) = vc_size (rl_ct c) \<and>
     snd s = (case prop_bit p of None \<Rightarrow> ra_normal a p | Some i \<Rightarrow> of_bool (bit (ra_property a) i))"

definition rl_agrees :: "rl_cmd \<Rightarrow> (list_prop \<Rightarrow> (int list \<times> int) \<times> int) \<Rightarrow> rl_ase \<Rightarrow> bool" where
  "rl_agrees c T a \<longleftrightarrow> (\<forall>p. rl_prop_agrees c p (T p) a) \<and> (\<forall>i \<ge> 3. bit (ra_property a) i \<longleftrightarrow> bit (int32 (rl_number c 7)) i)"

lemma rl_initial_agrees: "rl_agrees c (\<lambda>p. ((vector (rl_ct c), vc_id (rl_ct c)), rl_start c p)) (rl_initial c)"
proof -
  have "rl_prop_agrees c p ((vector (rl_ct c), vc_id (rl_ct c)), rl_start c p) (rl_initial c)" for p
    by (cases p) (simp_all add: rl_prop_agrees_def rl_initial_def rl_aseNew_def)
  then show ?thesis by (simp add: rl_agrees_def rl_initial_def rl_aseNew_def)
qed

lemma rl_update_agrees:
  assumes "rl_prop_agrees c q s a" "vc_size (rl_ct d) = vc_size (rl_ct c)"
  shows "rl_prop_agrees c q (rl_write q d s) (rl_update_entry q (rl_ct d) (rl_number d 3) a)"
proof -
  have sz: "vc_size (ra_ts a q) = vc_size (rl_ct d)" and s: "fst s = (vector (ra_ts a q), vc_id (ra_ts a q))"
    using assms by (simp_all add: rl_prop_agrees_def)
  note before = vc_cmp_before[OF sz]
  show ?thesis
  proof (cases "vc_cmp (ra_ts a q) (rl_ct d) < 0")
    case True
    have "vector (vc_update (ra_ts a q) (rl_ct d)) = vjoin (vector (ra_ts a q)) (vector (rl_ct d))" using sz by (rule vc_update_vjoin)
    then show ?thesis using True before s sz assms(2)
      by (cases "prop_bit q") (auto simp: rl_prop_agrees_def rl_write_def rl_update_entry_def Let_def rl_input_def vc_size_def
          bit_set_bit_iff bit_unset_bit_iff)
  next
    case False
    then show ?thesis using before s assms(1) by (simp add: rl_write_def rl_update_entry_def)
  qed
qed

lemma rl_update_others:
  assumes "p \<noteq> q"
  shows "rl_prop_agrees c p s (rl_update_entry q t v a) = rl_prop_agrees c p s a"
proof (cases "prop_bit q")
  case None
  then show ?thesis using assms by (simp add: rl_prop_agrees_def rl_update_entry_def Let_def split: option.split)
next
  case (Some i)
  then have "prop_bit p = Some j \<Longrightarrow> j \<noteq> i" for j using prop_bit_inj[of p j q] assms by auto
  then show ?thesis using assms Some
    by (cases "prop_bit p") (simp_all add: rl_prop_agrees_def rl_update_entry_def Let_def bit_set_bit_iff bit_unset_bit_iff)
qed

lemma rl_update_high_bits: "3 \<le> i \<Longrightarrow> bit (ra_property (rl_update_entry q t v a)) i \<longleftrightarrow> bit (ra_property a) i"
  using prop_bit_range[of q]
  by (cases "prop_bit q") (auto simp: rl_update_entry_def Let_def bit_set_bit_iff bit_unset_bit_iff)

lemma rl_changed_agrees:
  assumes a: "rl_agrees c T a" and d: "vc_size (rl_ct d) = vc_size (rl_ct c)"
  shows "rl_agrees c (\<lambda>p. if rl_prop d = Some p then rl_write p d (T p) else T p) (rl_changed d a)"
proof (cases "rl_prop d")
  case None
  then show ?thesis using a by (simp add: rl_changed_def rl_prop_def[symmetric])
next
  case (Some q)
  then have "rl_changed d a = rl_update_entry q (rl_ct d) (rl_number d 3) a" by (simp add: rl_changed_def rl_prop_def)
  then show ?thesis using a Some rl_update_agrees[OF _ d] rl_update_others[of _ q] rl_update_high_bits by (auto simp: rl_agrees_def)
qed

lemma rl_entry_agrees:
  assumes "\<forall>d \<in> set ds. vc_size (rl_ct d) = vc_size (rl_ct c)"
  shows "rl_agrees c (\<lambda>p. rl_track c (filter (\<lambda>d. rl_prop d = Some p) ds) p) (fold rl_changed ds (rl_initial c))"
  using assms
proof (induction ds rule: rev_induct)
  case Nil
  then show ?case using rl_initial_agrees by (simp add: rl_track_def)
next
  case (snoc d ds)
  have "rl_agrees c (\<lambda>p. rl_track c (filter (\<lambda>d. rl_prop d = Some p) ds) p) (fold rl_changed ds (rl_initial c))"
    by (rule snoc.IH) (use snoc.prems in simp)
  from rl_changed_agrees[OF this, of d] snoc.prems
  have "rl_agrees c (\<lambda>p. if rl_prop d = Some p then rl_write p d (rl_track c (filter (\<lambda>d. rl_prop d = Some p) ds) p)
      else rl_track c (filter (\<lambda>d. rl_prop d = Some p) ds) p) (rl_changed d (fold rl_changed ds (rl_initial c)))" by simp
  moreover have "(if rl_prop d = Some p then rl_write p d (rl_track c (filter (\<lambda>d. rl_prop d = Some p) ds) p)
      else rl_track c (filter (\<lambda>d. rl_prop d = Some p) ds) p) = rl_track c (filter (\<lambda>d. rl_prop d = Some p) (ds @ [d])) p" for p
    by (simp add: rl_track_def)
  ultimately show ?case by simp
qed

lemma rl_entry_shows:
  assumes "\<forall>d \<in> set h. vc_size (rl_ct d) = vc_size (rl_ct c)"
  shows "prop_bit p = None \<Longrightarrow> ra_normal (rl_entry h c) p = rl_shown h c p" "ra_property (rl_entry h c) = rl_bitmap h c"
proof -
  have w: "filter (\<lambda>d. rl_prop d = Some p) (rl_updates h c) = rl_writes h c p" for p
    unfolding rl_updates_def rl_writes_def filter_filter by (rule filter_cong) auto
  have "rl_agrees c (\<lambda>p. rl_track c (rl_writes h c p) p) (rl_entry h c)"
    using rl_entry_agrees[of "rl_updates h c" c, unfolded w] assms by (simp add: rl_entry_def rl_updates_def)
  then have T: "rl_shown h c p = (case prop_bit p of None \<Rightarrow> ra_normal (rl_entry h c) p | Some i \<Rightarrow> of_bool (bit (ra_property (rl_entry h c)) i))"
    and hi: "\<forall>i \<ge> 3. bit (ra_property (rl_entry h c)) i \<longleftrightarrow> bit (int32 (rl_number c 7)) i" for p
    unfolding rl_agrees_def rl_prop_agrees_def rl_shown_def by blast+
  show "prop_bit p = None \<Longrightarrow> ra_normal (rl_entry h c) p = rl_shown h c p" using T[of p] by simp
  have "bit (ra_property (rl_entry h c)) i = bit (rl_bitmap h c) i" for i
  proof (cases "i < 3")
    case True
    then have "i = 0 \<or> i = 1 \<or> i = 2" by auto
    then show ?thesis using T[of Bold] T[of Italic] T[of Underline]
      by (auto simp: rl_bitmap_def put_bit_def bit_set_bit_iff bit_unset_bit_iff)
  next
    case False
    then show ?thesis using hi by (auto simp: rl_bitmap_def put_bit_def bit_set_bit_iff bit_unset_bit_iff)
  qed
  then show "ra_property (rl_entry h c) = rl_bitmap h c" by (intro bit_eqI) simp
qed

lemma rl_item_shown:
  assumes rel: "rl_rel h e" and M: "vc_causal n (rl_ct ` set h)" and d: "distinct (map rl_ct h)"
    and p: "rl_oid e = Some x" "rl_content e = Some content"
  shows "rl_item e = Some (rl_reply x content h)" "rl_LOOKUP e \<longleftrightarrow> rl_outcome h \<noteq> None"
proof -
  note shown = rl_rel_shown[OF rel M d]
  then show "rl_LOOKUP e \<longleftrightarrow> rl_outcome h \<noteq> None" by (auto split: if_splits)
  show "rl_item e = Some (rl_reply x content h)"
  proof (cases "rl_LOOKUP e")
    case True
    then obtain q a c where a: "rl_value e = Some q" "rle_deref e q = Some a" "rl_outcome h = Some c" "rl_data a = rl_entry h c"
      using shown by auto
    have "c \<in> set h" using a(3) rl_live_mem(1)[of c h]
      by (auto simp: rl_outcome_def rl_winner_def find_Some_iff split: if_splits)
    then have "\<forall>d \<in> set h. vc_size (rl_ct d) = vc_size (rl_ct c)" using vc_causalD(5)[OF M] by (simp add: vc_size_def)
    note s = rl_entry_shows[OF this]
    have "ra_normal a = ra_normal (rl_entry h c)" "ra_property a = rl_bitmap h c" using a(4) s(2) by (auto simp: rl_data_def dest: arg_cong[of _ _ ra_normal] arg_cong[of _ _ ra_property])
    then show ?thesis using True a(1-3) p s(1) by (simp add: rl_item_def rl_reply_def)
  next
    case False
    then show ?thesis using shown by (simp add: rl_item_def rl_reply_def)
  qed
qed

section \<open>Tables\<close>

interpretation rll: linked_list rl_pos_id rl_next "\<lambda>q e. e\<lparr>rl_next := q\<rparr>"
  by unfold_locales simp_all

definition rl_of :: "sds \<Rightarrow> rl_cmd list \<Rightarrow> rl_cmd list" where
  "rl_of x h = filter (\<lambda>c. rl_name c = x) h"

definition rl_inserted :: "rl_cmd list \<Rightarrow> bool" where
  "rl_inserted h \<longleftrightarrow> (\<exists>c \<in> set h. rl_type c = RLADD)"

text \<open>
  \<open>pl\<close> is the position and the content that the origin chose for the element; the element has them
  as soon as an insert has been applied.
\<close>

definition rl_placed :: "(leid \<times> sds) option \<Rightarrow> sds \<Rightarrow> bool \<Rightarrow> rle \<Rightarrow> bool" where
  "rl_placed pl x ins e \<longleftrightarrow>
     (if ins then \<exists>pos d. pl = Some (pos, d) \<and> rl_oid e = Some x \<and> rl_pos_id e = Some pos \<and> rl_content e = Some d
      else rl_oid e = None \<and> rl_pos_id e = None \<and> rl_next e = None)"

definition rl_slot :: "(leid \<times> sds) option \<Rightarrow> sds \<Rightarrow> rl_cmd list \<Rightarrow> rle option \<Rightarrow> bool" where
  "rl_slot pl x h eo = (case eo of None \<Rightarrow> h = [] | Some e \<Rightarrow> rl_rel h e \<and> rl_placed pl x (rl_inserted h) e)"

definition rl_seen :: "rl_ht \<Rightarrow> sds set" where
  "rl_seen ht = {x. \<exists>e. le_deref ht x = Some e \<and> rl_LOOKUP e}"

definition rl_fields :: "rl_ht \<Rightarrow> bool" where
  "rl_fields ht \<longleftrightarrow> (\<forall>x \<in> list_reserved. le_deref ht x = None) \<and> (\<forall>x. x \<notin> list_reserved \<longrightarrow> le_find ht x \<noteq> None) \<and>
     (ht ''current'' = None \<or> (\<exists>c. ht ''current'' = Some (LCurrent c))) \<and>
     (ht ''ops'' = None \<or> (\<exists>ops. ht ''ops'' = Some (LOps ops)))"

text \<open>The table after the commands \<open>h\<close> of the list, with \<open>N\<close> in the field \<open>length\<close>.\<close>

definition rl_table_ok :: "places \<Rightarrow> rl_cmd list \<Rightarrow> int \<Rightarrow> rl_ht \<Rightarrow> bool" where
  "rl_table_ok P h N ht \<longleftrightarrow> (\<exists>ns. list_wf rl_pos_id rl_next ht ns) \<and> rl_fields ht \<and> getLen ht = Some N \<and>
     (\<forall>x. rl_slot (P x) x (rl_of x h) (le_deref ht x))"

abbreviation rl_pos :: "rl_ht \<Rightarrow> sds \<Rightarrow> leid option" where
  "rl_pos \<equiv> list_pos rl_pos_id"

lemma rl_slot_pos: "rl_slot pl x h (Some e) \<Longrightarrow> rl_pos_id e = (if rl_inserted h then map_option fst pl else None)"
  by (auto simp: rl_slot_def rl_placed_def)

lemma rl_table_pos:
  assumes "rl_table_ok P h N ht"
  shows "rl_pos ht x = (if rl_inserted (rl_of x h) then map_option fst (P x) else None)"
proof -
  have "rl_slot (P x) x (rl_of x h) (le_deref ht x)" using assms by (simp add: rl_table_ok_def)
  then show ?thesis using rl_slot_pos[of "P x" x "rl_of x h"]
    by (cases "le_deref ht x") (simp_all add: list_pos_def rl_slot_def rl_inserted_def)
qed

lemma rl_seen_names:
  assumes "rl_table_ok P h N ht"
  shows "rl_seen ht \<subseteq> rl_name ` set h"
proof
  fix x assume "x \<in> rl_seen ht"
  then obtain e where e: "le_deref ht x = Some e" "rl_LOOKUP e" by (auto simp: rl_seen_def)
  then have "rl_rel (rl_of x h) e" using assms by (auto simp: rl_table_ok_def rl_slot_def dest: spec[of _ x])
  then have "map rl_ct (rl_live_adds (rl_of x h)) \<noteq> []" using rl_rel_clocks[of "rl_of x h" e] e(2) by (auto simp: rl_LOOKUP_def)
  then have "rl_of x h \<noteq> []" by (auto simp: rl_live_adds_def)
  then obtain c where "c \<in> set (rl_of x h)" by (meson last_in_set)
  then show "x \<in> rl_name ` set h" by (auto simp: rl_of_def)
qed

lemma rl_seen_finite: "rl_table_ok P h N ht \<Longrightarrow> finite (rl_seen ht)"
  by (rule finite_subset[OF rl_seen_names]) simp_all

text \<open>The table except for the element \<open>x\<close> that a function works on.\<close>

definition rl_table_but :: "places \<Rightarrow> rl_cmd list \<Rightarrow> int \<Rightarrow> sds \<Rightarrow> rl_ht \<Rightarrow> bool" where
  "rl_table_but P h N x ht \<longleftrightarrow> (\<exists>ns. list_wf rl_pos_id rl_next ht ns) \<and> rl_fields ht \<and> getLen ht = Some N \<and>
     (\<forall>y. y \<noteq> x \<longrightarrow> rl_slot (P y) y (rl_of y h) (le_deref ht y))"

definition rl_env :: "rl_ht \<Rightarrow> rl_field option \<times> rl_field option" where
  "rl_env ht = (ht ''current'', ht ''ops'')"

lemma rl_table_butI: "rl_table_ok P h N ht \<Longrightarrow> rl_table_but P h N x ht"
  by (simp add: rl_table_ok_def rl_table_but_def)

lemma rl_fields_put: "rl_fields ht \<Longrightarrow> x \<notin> list_reserved \<Longrightarrow> rl_fields (le_put ht x e)"
proof -
  assume ok: "rl_fields ht" and x: "x \<notin> list_reserved"
  have "(le_put ht x e) f = ht f" if "f \<in> list_reserved" for f using x that by (auto simp: le_put_def)
  then have "(le_put ht x e) ''current'' = ht ''current''" "(le_put ht x e) ''ops'' = ht ''ops''"
    by (simp_all add: list_reserved_def)
  then show ?thesis using ok x unfolding rl_fields_def by auto
qed

lemma rl_env_put: "x \<notin> list_reserved \<Longrightarrow> rl_env (le_put ht x e) = rl_env ht"
  by (auto simp: rl_env_def list_reserved_def le_put_def)

lemma rl_table_put:
  assumes ok: "rl_table_but P h N x ht" and x: "x \<notin> list_reserved" "le_deref ht x = Some e"
    and same: "rl_place e' = rl_place e" and c: "rl_name c = x" and slot: "rl_slot (P x) x (rl_of x h @ [c]) (Some e')"
  shows "rl_table_ok P (h @ [c]) N (le_put ht x e')" "rl_env (le_put ht x e') = rl_env ht"
    "rl_seen (le_put ht x e') = (if rl_LOOKUP e' then insert x (rl_seen ht) else rl_seen ht - {x})"
proof -
  have "list_wf rl_pos_id rl_next ht ns \<Longrightarrow> list_wf rl_pos_id rl_next (le_put ht x e') ns" for ns
    by (erule list_wf_cong) (use x same in \<open>auto simp: list_pos_def rl_place_def\<close>)
  moreover have "rl_of y (h @ [c]) = (if y = x then rl_of x h @ [c] else rl_of y h)" for y using c by (auto simp: rl_of_def)
  ultimately show "rl_table_ok P (h @ [c]) N (le_put ht x e')"
    using ok x slot rl_fields_put unfolding rl_table_ok_def rl_table_but_def by auto
  show "rl_env (le_put ht x e') = rl_env ht" using rl_env_put x(1) .
  show "rl_seen (le_put ht x e') = (if rl_LOOKUP e' then insert x (rl_seen ht) else rl_seen ht - {x})"
    by (auto simp: rl_seen_def)
qed

text \<open>Setting one of the fields \<open>current\<close>, \<open>ops\<close> and \<open>length\<close>.\<close>

lemma rl_reserved_deref:
  assumes "rl_fields ht" "f \<in> list_reserved" "\<forall>e. v \<noteq> LElem e"
  shows "le_deref (ht(f \<mapsto> v)) = le_deref ht"
  using assms by (auto simp: rl_fields_def le_deref_def fun_eq_iff split: list_field.split)

lemma rl_table_field:
  assumes ok: "rl_table_ok P h N ht" and f: "f = ''current'' \<and> v = LCurrent u \<or> f = ''ops'' \<and> v = LOps ops"
  shows "rl_table_ok P h N (ht(f \<mapsto> v))" "rl_seen (ht(f \<mapsto> v)) = rl_seen ht"
proof -
  have fl: "rl_fields ht" using ok by (simp add: rl_table_ok_def)
  have d: "le_deref (ht(f \<mapsto> v)) = le_deref ht" by (rule rl_reserved_deref[OF fl]) (use f in \<open>auto simp: list_reserved_def\<close>)
  show "rl_seen (ht(f \<mapsto> v)) = rl_seen ht" by (simp add: rl_seen_def d)
  have "getHead (ht(f \<mapsto> v)) = getHead ht" "getLen (ht(f \<mapsto> v)) = getLen ht" using f by (auto simp: getHead_def getLen_def)
  moreover from this have "list_wf rl_pos_id rl_next ht ns \<Longrightarrow> list_wf rl_pos_id rl_next (ht(f \<mapsto> v)) ns" for ns
    by (erule_tac list_wf_cong) (simp_all add: list_pos_def d)
  moreover have "rl_fields (ht(f \<mapsto> v))" using fl f d by (auto simp: rl_fields_def list_reserved_def le_find_def)
  ultimately show "rl_table_ok P h N (ht(f \<mapsto> v))" using ok unfolding rl_table_ok_def by (auto simp: d)
qed

lemma rl_table_len:
  assumes ok: "rl_table_ok P h N ht" and d: "d \<noteq> 0"
  shows "\<exists>ht1. incrLen ht d = Some ht1 \<and> rl_table_ok P h (int32 (N + d)) ht1 \<and> rl_seen ht1 = rl_seen ht \<and> rl_env ht1 = rl_env ht"
proof -
  let ?ht = "ht(''length'' \<mapsto> LLength (int32 (N + d)))"
  have fl: "rl_fields ht" using ok by (simp add: rl_table_ok_def)
  have l: "le_deref ?ht = le_deref ht" by (rule rl_reserved_deref[OF fl]) (auto simp: list_reserved_def)
  have "list_wf rl_pos_id rl_next ht ns \<Longrightarrow> list_wf rl_pos_id rl_next ?ht ns" for ns
    by (erule list_wf_cong) (simp_all add: list_pos_def l getHead_def)
  moreover have "rl_fields ?ht" using fl l by (auto simp: rl_fields_def list_reserved_def le_find_def)
  moreover have "getLen ?ht = Some (int32 (N + d))" by (simp add: getLen_def)
  ultimately have "rl_table_ok P h (int32 (N + d)) ?ht" using ok unfolding rl_table_ok_def by (auto simp: l)
  moreover have "incrLen ht d = Some ?ht" using ok d by (simp add: incrLen_def rl_table_ok_def)
  ultimately show ?thesis by (simp add: rl_seen_def l rl_env_def)
qed

lemma rleNew_slot: "rl_slot pl x [] (Some rleNew)" "\<not> rl_LOOKUP rleNew"
  by (simp_all add: rl_slot_def rl_rel_def rl_ptr_def best_entry_def rl_live_adds_def rl_live_rems_def rl_placed_def
      rl_inserted_def rleNew_def rl_LOOKUP_def)

lemma rl_table_create:
  assumes ok: "rl_table_ok P h N ht" and x: "x \<notin> list_reserved"
  shows "\<exists>ht1 e. le_create rleNew ht x = Some (ht1, e) \<and> rl_table_ok P h N ht1 \<and> le_deref ht1 x = Some e \<and>
    rl_seen ht1 = rl_seen ht \<and> rl_env ht1 = rl_env ht"
proof (cases "le_deref ht x")
  case (Some e)
  then have "le_create rleNew ht x = Some (ht, e)"
    by (auto simp: le_create_def le_find_def le_deref_def split: option.splits list_field.splits)
  then show ?thesis using ok Some by blast
next
  case None
  have "le_find ht x \<noteq> None" using ok x by (simp add: rl_table_ok_def rl_fields_def)
  then have "ht x = None" using None by (auto simp: le_find_def le_deref_def split: option.splits list_field.splits)
  then have c: "le_create rleNew ht x = Some (le_put ht x rleNew, rleNew)"
    by (simp add: le_create_def le_find_def le_put_def)
  have "rl_slot (P x) x (rl_of x h) (le_deref ht x)" using ok by (simp add: rl_table_ok_def)
  then have "rl_slot (P x) x (rl_of x h) (Some rleNew)" using None rleNew_slot(1) by (simp add: rl_slot_def)
  moreover have "list_wf rl_pos_id rl_next ht ns \<Longrightarrow> list_wf rl_pos_id rl_next (le_put ht x rleNew) ns" for ns
    by (erule list_wf_cong) (use x None in \<open>auto simp: list_pos_def rleNew_def\<close>)
  ultimately have "rl_table_ok P h N (le_put ht x rleNew)" using ok x rl_fields_put unfolding rl_table_ok_def by auto
  moreover have "rl_seen (le_put ht x rleNew) = rl_seen ht" using None rleNew_slot(2) by (auto simp: rl_seen_def)
  ultimately show ?thesis using c rl_env_put[OF x] by simp
qed

text \<open>Linking changes nothing but fields \<open>next\<close> of elements of the list.\<close>

lemma links_deref:
  assumes "links_only setnx N ht ht1" "le_deref ht ''head'' = None" "le_deref ht1 ''head'' = None"
  shows "le_deref ht1 y = le_deref ht y \<or> y \<in> N \<and> (\<exists>e q. le_deref ht y = Some e \<and> le_deref ht1 y = Some (setnx q e))"
proof (cases "y = ''head''")
  case False
  then have "ht1 y = ht y \<or> y \<in> N \<and> (\<exists>e q. ht y = Some (LElem e) \<and> ht1 y = Some (LElem (setnx q e)))"
    using assms(1) unfolding links_only_def by blast
  then show ?thesis by (auto simp: le_deref_def)
qed (use assms in simp)

lemma rl_fields_links:
  assumes links: "links_only (\<lambda>q e. e\<lparr>rl_next := q\<rparr>) N ht ht1" and hd: "le_deref ht1 ''head'' = None" and ok: "rl_fields ht"
  shows "rl_fields ht1" "rl_env ht1 = rl_env ht" "getLen ht1 = getLen ht"
    "le_deref ht1 y = le_deref ht y \<or> y \<in> N \<and> (\<exists>e q. le_deref ht y = Some e \<and> le_deref ht1 y = Some (e\<lparr>rl_next := q\<rparr>))"
proof -
  have L: "ht1 y = ht y \<or> y \<in> N \<and> (\<exists>e q. ht y = Some (LElem e) \<and> ht1 y = Some (LElem (e\<lparr>rl_next := q\<rparr>)))"
    if "y \<noteq> ''head''" for y using links that unfolding links_only_def by blast
  have r: "ht1 y = ht y" if "y \<in> list_reserved" "y \<noteq> ''head''" for y
  proof -
    have "ht y \<noteq> Some (LElem e)" for e using ok that by (auto simp: rl_fields_def le_deref_def)
    then show ?thesis using L[OF that(2)] by blast
  qed
  have rs: "ht1 ''current'' = ht ''current''" "ht1 ''ops'' = ht ''ops''" "ht1 ''length'' = ht ''length''"
    using r by (simp_all add: list_reserved_def)
  then show "rl_env ht1 = rl_env ht" "getLen ht1 = getLen ht" by (simp_all add: rl_env_def getLen_def)
  have "le_deref ht1 y = None" if "y \<in> list_reserved" for y
    using hd ok r[OF that] that by (cases "y = ''head''") (simp_all add: rl_fields_def le_deref_def)
  moreover have "le_find ht1 y \<noteq> None" if "y \<notin> list_reserved" for y
  proof -
    have "y \<noteq> ''head''" "le_find ht y \<noteq> None" using ok that by (auto simp: rl_fields_def list_reserved_def)
    then show ?thesis using L[of y] by (auto simp: le_find_def)
  qed
  ultimately show "rl_fields ht1" using ok rs unfolding rl_fields_def by simp
  have "le_deref ht ''head'' = None" using ok by (simp add: rl_fields_def list_reserved_def)
  then show "le_deref ht1 y = le_deref ht y \<or> y \<in> N \<and> (\<exists>e q. le_deref ht y = Some e \<and> le_deref ht1 y = Some (e\<lparr>rl_next := q\<rparr>))"
    using links_deref[OF links _ hd] by blast
qed

text \<open>What an insert says about the place of its element.\<close>

definition rl_place_ok :: "places \<Rightarrow> sds list \<Rightarrow> bool" where
  "rl_place_ok P av \<longleftrightarrow> 8 < length av \<and> av ! 1 \<notin> list_reserved \<and> av ! 1 \<noteq> av ! 2 \<and>
     (case sdsToLeid (av ! 8) of
        None \<Rightarrow> False
      | Some pos \<Rightarrow> P (av ! 2) = Some (pos, av ! 3) \<and> (\<forall>pp d. P (av ! 1) = Some (pp, d) \<longrightarrow> leid_key pp < leid_key pos))"

text \<open>The table after the element \<open>x\<close> has been placed and linked: only \<open>x\<close> and fields \<open>next\<close> have changed.\<close>

lemma rl_table_linked:
  assumes ok: "rl_table_ok P h N ht" and x: "x \<notin> list_reserved" "le_deref ht x = Some e" and e1: "rl_LOOKUP e1 = rl_LOOKUP e"
    and wf: "list_wf rl_pos_id rl_next ht3 ns" and links: "links_only (\<lambda>q e. e\<lparr>rl_next := q\<rparr>) (set ns) (le_put ht x e1) ht3"
  shows "rl_table_but P h N x ht3" "rl_seen ht3 = rl_seen ht" "rl_env ht3 = rl_env ht" "\<exists>q. le_deref ht3 x = Some (e1\<lparr>rl_next := q\<rparr>)"
proof -
  let ?ht = "le_put ht x e1"
  have fl: "rl_fields ?ht" using ok x(1) rl_fields_put by (simp add: rl_table_ok_def)
  have slot: "rl_slot (P y) y (rl_of y h) (le_deref ht y)" for y using ok by (simp add: rl_table_ok_def)
  have "le_deref ht3 ''head'' = None" using wf by (auto simp: list_wf_def getHead_def le_deref_def split: option.splits list_field.splits)
  note f = rl_fields_links[OF links this fl]
  have d: "le_deref ht3 y = le_deref ?ht y \<or> y \<in> set ns \<and> (\<exists>e q. le_deref ?ht y = Some e \<and> le_deref ht3 y = Some (e\<lparr>rl_next := q\<rparr>))" for y
    by (rule f(4))
  have "rl_slot (P y) y (rl_of y h) (le_deref ht3 y)" if y: "y \<noteq> x" for y
  proof (cases "le_deref ht3 y = le_deref ht y")
    case False
    then obtain a q where a: "y \<in> set ns" "le_deref ht y = Some a" "le_deref ht3 y = Some (a\<lparr>rl_next := q\<rparr>)" using d[of y] y by auto
    have "rl_pos ht3 y \<noteq> None" using wf a(1) by (simp add: list_wf_def)
    then have "rl_pos_id a \<noteq> None" using a(3) by (simp add: list_pos_def)
    then show ?thesis using slot[of y] a(2,3) by (auto simp: rl_slot_def rl_placed_def rl_rel_place split: if_splits)
  qed (use slot[of y] in simp)
  then show "rl_table_but P h N x ht3" using wf f ok x(1) unfolding rl_table_but_def rl_table_ok_def by auto
  have "(\<exists>a. le_deref ht3 y = Some a \<and> rl_LOOKUP a) \<longleftrightarrow> (\<exists>a. le_deref ht y = Some a \<and> rl_LOOKUP a)" for y
    using d[of y]
  proof (elim disjE conjE exE)
    fix a q assume "le_deref ?ht y = Some a" "le_deref ht3 y = Some (a\<lparr>rl_next := q\<rparr>)"
    moreover have "rl_LOOKUP (a\<lparr>rl_next := q\<rparr>) = rl_LOOKUP a" by (simp add: rl_LOOKUP_def)
    ultimately show ?thesis using x(2) e1 by (cases "y = x") auto
  qed (use x(2) e1 in simp)
  then show "rl_seen ht3 = rl_seen ht" by (simp add: rl_seen_def)
  show "rl_env ht3 = rl_env ht" using f(2) rl_env_put[OF x(1)] by simp
  show "\<exists>q. le_deref ht3 x = Some (e1\<lparr>rl_next := q\<rparr>)"
  proof (cases "le_deref ht3 x = le_deref ?ht x")
    case True
    then show ?thesis by (intro exI[of _ "rl_next e1"]) simp
  qed (use d[of x] in auto)
qed

lemma rl_table_link:
  assumes ok: "rl_table_ok P h N ht" and x: "x \<notin> list_reserved" "le_deref ht x = Some e" "rl_oid e = None" "x = av ! 2"
    and P: "places_ok P" "rl_place_ok P av"
  shows "\<exists>ht3 pos q. rl_link ht x av e = Some ht3 \<and> rl_table_but P h N x ht3 \<and> P x = Some (pos, av ! 3) \<and>
    le_deref ht3 x = Some (e\<lparr>rl_oid := Some x, rl_content := Some (av ! 3), rl_pos_id := Some pos, rl_next := q\<rparr>) \<and>
    rl_seen ht3 = rl_seen ht \<and> rl_env ht3 = rl_env ht"
proof -
  obtain pos where pos: "sdsToLeid (av ! 8) = Some pos" "P x = Some (pos, av ! 3)" "8 < length av" "av ! 1 \<notin> list_reserved"
    "av ! 1 \<noteq> x" "\<forall>pp d. P (av ! 1) = Some (pp, d) \<longrightarrow> leid_key pp < leid_key pos"
    using P(2) x(4) by (auto simp: rl_place_ok_def split: option.splits)
  let ?e1 = "e\<lparr>rl_oid := Some x, rl_content := Some (av ! 3), rl_pos_id := Some pos\<rparr>"
  let ?ht = "le_put ht x ?e1"
  have slot: "rl_slot (P y) y (rl_of y h) (le_deref ht y)" for y using ok by (simp add: rl_table_ok_def)
  have ni: "\<not> rl_inserted (rl_of x h)" and ep: "rl_pos_id e = None" "rl_next e = None"
    using slot[of x] x(2,3) by (auto simp: rl_slot_def rl_placed_def split: if_splits)
  have places: "\<exists>d. P y = Some (pp, d)" if "rl_pos ht y = Some pp" for y pp
    using that by (auto simp: rl_table_pos[OF ok] split: if_splits)
  have "rl_pos ht y \<noteq> Some pos" for y
  proof
    assume y: "rl_pos ht y = Some pos"
    then have "y = x" using places[OF y] P(1) pos(2) unfolding places_ok_def by blast
    then show False using y ni by (simp add: rl_table_pos[OF ok])
  qed
  moreover have "leid_key pp < leid_key pos" if "rl_pos ht (av ! 1) = Some pp" for pp using places[OF that] pos(6) by blast
  moreover have "le_find ht (av ! 1) \<noteq> None" using ok pos(4) by (simp add: rl_table_ok_def rl_fields_def)
  moreover have "leid_ok pos" using P(1) pos(2) unfolding places_ok_def by blast
  moreover obtain ns where wf: "list_wf rl_pos_id rl_next ht ns" using ok unfolding rl_table_ok_def by blast
  ultimately obtain ht3 ns' where l: "list_link rl_pos_id rl_next (\<lambda>q e. e\<lparr>rl_next := q\<rparr>) ?ht x pos (av ! 1) = Some ht3"
    "list_wf rl_pos_id rl_next ht3 ns'" "links_only (\<lambda>q e. e\<lparr>rl_next := q\<rparr>) (set ns') ?ht ht3"
    using rll.link[OF wf refl x(2) ep(1), of ?e1 pos "av ! 1"] ep pos(5) by auto
  have "rl_LOOKUP ?e1 = rl_LOOKUP e" by (simp add: rl_LOOKUP_def)
  note linked = rl_table_linked[OF ok x(1,2) this l(2,3)]
  have "rl_link ht x av e = Some ht3" using l(1) pos by (simp add: rl_link_def Let_def arg_def)
  then show ?thesis using linked pos(2) by auto
qed

section \<open>Applying a command of the history\<close>

definition rl_cmd_ok :: "places \<Rightarrow> rl_cmd \<Rightarrow> bool" where
  "rl_cmd_ok P c \<longleftrightarrow> rl_name c \<notin> list_reserved \<and>
     (case rl_type c of
        RLADD \<Rightarrow> rl_place_ok P (rl_argv c) \<and> (\<forall>i \<in> {4, 5, 6, 7}. getLongLongFromObject (rl_argv c ! i) \<noteq> None)
      | RLUPDATE \<Rightarrow> 3 < length (rl_argv c) \<and> getLongLongFromObject (rl_argv c ! 3) \<noteq> None
      | RLREM \<Rightarrow> 1 < length (rl_argv c))"

definition rl_ops :: "rl_ht \<Rightarrow> rl_cmd list" where
  "rl_ops ht = (case ht ''ops'' of Some (LOps ops) \<Rightarrow> ops | _ \<Rightarrow> [])"

text \<open>The state after the commands \<open>h\<close>: the field \<open>length\<close>, an int, counts the visible elements.\<close>

definition rl_counted :: "places \<Rightarrow> rl_cmd list \<Rightarrow> rl_ht \<Rightarrow> bool" where
  "rl_counted P h ht \<longleftrightarrow> rl_table_ok P h (int32 (int (card (rl_seen ht)))) ht"

definition rl_hist :: "places \<Rightarrow> rl_field server \<Rightarrow> rl_cmd list \<Rightarrow> rl_cmd list \<Rightarrow> rl_field server \<times> rl_ht \<Rightarrow> bool" where
  "rl_hist P s0 ops h sh \<longleftrightarrow> (\<exists>d. fst sh = s0\<lparr>dirty := d\<rparr>) \<and> rl_counted P h (snd sh) \<and> rl_ops (snd sh) = ops"

lemma int32_add: "int32 (int32 a + b) = int32 (a + b)"
proof -
  have "((a + 2 ^ 31) mod 2 ^ 32 - 2 ^ 31 + b + 2 ^ 31) mod 2 ^ 32 = ((a + 2 ^ 31) mod 2 ^ 32 + b) mod (2 ^ 32 :: int)" by simp
  also have "\<dots> = (a + b + 2 ^ 31) mod 2 ^ 32" by (simp only: mod_add_left_eq) (simp add: algebra_simps)
  finally show ?thesis by (simp add: int32_def)
qed

lemma rl_count_step:
  assumes ok: "rl_table_ok P h (int32 (int (card S))) ht" and S: "finite S" and seen: "rl_seen ht = (if l' then insert x S else S - {x})"
  shows "\<exists>ht1. (if x \<notin> S \<and> l' then incrLen ht 1 else if x \<in> S \<and> \<not> l' then incrLen ht (- 1) else Some ht) = Some ht1 \<and>
    rl_counted P h ht1 \<and> rl_env ht1 = rl_env ht"
proof -
  consider "x \<notin> S" "l'" | "x \<in> S" "\<not> l'" | "x \<in> S \<longleftrightarrow> l'" by blast
  then show ?thesis
  proof cases
    case 1
    then have "int (card (rl_seen ht)) = int (card S) + 1" using S seen by simp
    then show ?thesis using 1 rl_table_len[OF ok, of 1] by (auto simp: rl_counted_def int32_add)
  next
    case 2
    then have "0 < card S" using S card_gt_0_iff by blast
    then have "int (card (rl_seen ht)) = int (card S) - 1" using 2 S seen by (simp add: card_Diff_singleton)
    then show ?thesis using 2 rl_table_len[OF ok, of "- 1"] by (auto simp: rl_counted_def int32_add[of _ "- 1", simplified])
  next
    case 3
    then have "rl_seen ht = S" using seen by (auto simp: insert_absorb)
    then show ?thesis using 3 ok by (auto simp: rl_counted_def)
  qed
qed

lemma rl_advance_spec:
  assumes "rl_hist P s0 ops h sh"
  shows "\<exists>s1 ht1. rl_advance t sh = Some (s1, ht1) \<and> (\<exists>d. s1 = s0\<lparr>dirty := d\<rparr>) \<and> rl_counted P h ht1 \<and>
    rl_env ht1 = (Some (LCurrent (vc_update (rl_current sh) t)), snd sh ''ops'')"
proof -
  obtain s ht where sh: "sh = (s, ht)" by (cases sh)
  let ?ht = "ht(''current'' \<mapsto> LCurrent (vc_update (rl_current sh) t))"
  have ok: "rl_counted P h ht" and d: "\<exists>d. s = s0\<lparr>dirty := d\<rparr>" using assms sh by (simp_all add: rl_hist_def)
  have "ht ''current'' = None \<or> (\<exists>c. ht ''current'' = Some (LCurrent c))"
    using ok by (simp add: rl_counted_def rl_table_ok_def rl_fields_def)
  then have "rl_advance t sh = Some (s\<lparr>dirty := dirty s + 1\<rparr>, ?ht)"
    by (auto simp: rl_advance_def sh getCurrent_def putCurrent_def rl_current_def)
  moreover have "rl_counted P h ?ht"
    using rl_table_field[of P h _ ht "''current''" "LCurrent (vc_update (rl_current sh) t)"] ok by (simp add: rl_counted_def)
  ultimately show ?thesis using d by (auto simp: sh rl_env_def)
qed

text \<open>The beginning of the three functions.\<close>

lemma rl_begin:
  assumes hist: "rl_hist P s0 ops h sh" and x: "x \<notin> list_reserved"
  obtains s1 ht1 ht2 e d where "rl_advance t sh = Some (s1, ht1)" "s1 = s0\<lparr>dirty := d\<rparr>" "le_create rleNew ht1 x = Some (ht2, e)"
    "rl_counted P h ht2" "le_deref ht2 x = Some e" "rl_env ht2 = (Some (LCurrent (vc_update (rl_current sh) t)), snd sh ''ops'')"
proof -
  obtain s1 ht1 d where a: "rl_advance t sh = Some (s1, ht1)" "s1 = s0\<lparr>dirty := d\<rparr>" "rl_counted P h ht1"
    "rl_env ht1 = (Some (LCurrent (vc_update (rl_current sh) t)), snd sh ''ops'')"
    using rl_advance_spec[OF hist] by blast
  obtain ht2 e where "le_create rleNew ht1 x = Some (ht2, e)" "rl_counted P h ht2" "le_deref ht2 x = Some e" "rl_env ht2 = rl_env ht1"
    using rl_table_create[OF a(3)[unfolded rl_counted_def] x] by (auto simp: rl_counted_def)
  then show ?thesis using that[OF a(1,2)] a(4) by simp
qed

text \<open>And their end.\<close>

definition rl_applied :: "places \<Rightarrow> rl_field server \<Rightarrow> rl_cmd list \<Rightarrow> rl_cmd list \<Rightarrow> rl_cmd \<Rightarrow> rl_field server \<times> rl_ht \<Rightarrow>
    (rl_field server \<times> rl_ht) option \<Rightarrow> bool" where
  "rl_applied P s0 ops h c sh r \<longleftrightarrow> (\<exists>sh'. r = Some sh' \<and> rl_hist P s0 ops (h @ [c]) sh' \<and>
     rl_current sh' = vc_update (rl_current sh) (rl_ct c))"

lemma rl_end:
  assumes hist: "rl_hist P s0 ops h sh" and s1: "s1 = s0\<lparr>dirty := d\<rparr>" and ok: "rl_counted P (h @ [c]) ht'"
    and env: "rl_env ht' = (Some (LCurrent (vc_update (rl_current sh) (rl_ct c))), snd sh ''ops'')"
  shows "rl_applied P s0 ops h c sh (Some (s1, ht'))"
  using assms by (auto simp: rl_applied_def rl_hist_def rl_current_def rl_env_def rl_ops_def)

lemma rl_inserted_snoc: "rl_inserted (h @ [c]) \<longleftrightarrow> rl_inserted h \<or> rl_type c = RLADD"
  by (auto simp: rl_inserted_def)

lemma rl_placed_same: "rl_place e' = rl_place e \<Longrightarrow> rl_placed pl x ins e' = rl_placed pl x ins e"
  by (simp add: rl_place_def rl_placed_def)

lemma rl_counted_slot: "rl_counted P h ht \<Longrightarrow> le_deref ht x = Some e \<Longrightarrow> rl_rel (rl_of x h) e \<and> rl_placed (P x) x (rl_inserted (rl_of x h)) e"
  by (auto simp: rl_counted_def rl_table_ok_def rl_slot_def dest: spec[of _ x])

text \<open>A command on an element that stays where it is in the list.\<close>

lemma rl_element_step:
  assumes hist: "rl_hist P s0 ops h sh" and s1: "s1 = s0\<lparr>dirty := d\<rparr>"
    and ht: "rl_table_but P h (int32 (int (card (rl_seen ht)))) x ht" "finite (rl_seen ht)" "le_deref ht x = Some e"
      "rl_env ht = (Some (LCurrent (vc_update (rl_current sh) (rl_ct c))), snd sh ''ops'')"
    and x: "x \<notin> list_reserved" "rl_name c = x"
    and e': "rl_place e' = rl_place e" "rl_rel (rl_of x h @ [c]) e'" "rl_placed (P x) x (rl_inserted (rl_of x h @ [c])) e"
  shows "rl_applied P s0 ops h c sh (map_option (Pair s1) (if \<not> rl_LOOKUP e \<and> rl_LOOKUP e' then incrLen (le_put ht x e') 1
     else if rl_LOOKUP e \<and> \<not> rl_LOOKUP e' then incrLen (le_put ht x e') (- 1) else Some (le_put ht x e')))"
proof -
  have "rl_slot (P x) x (rl_of x h @ [c]) (Some e')" using e' rl_placed_same[OF e'(1)] by (simp add: rl_slot_def)
  note put = rl_table_put[OF ht(1) x(1) ht(3) e'(1) x(2) this]
  have xs: "x \<in> rl_seen ht \<longleftrightarrow> rl_LOOKUP e" using ht(3) by (simp add: rl_seen_def)
  obtain ht1 where ht1: "(if \<not> rl_LOOKUP e \<and> rl_LOOKUP e' then incrLen (le_put ht x e') 1
     else if rl_LOOKUP e \<and> \<not> rl_LOOKUP e' then incrLen (le_put ht x e') (- 1) else Some (le_put ht x e')) = Some ht1"
    "rl_counted P (h @ [c]) ht1" "rl_env ht1 = rl_env ht"
    using rl_count_step[OF put(1) ht(2) put(3), unfolded xs put(2)] by blast
  show ?thesis unfolding ht1(1) using rl_end[OF hist s1 ht1(2)] ht(4) ht1(3) by simp
qed

lemma rl_of_follows: "rl_follows h c \<Longrightarrow> rl_follows (rl_of x h) c"
  by (simp add: rl_follows_def rl_of_def)

lemma rl_of_subset: "set (rl_of x h) \<subseteq> set h"
  by (auto simp: rl_of_def)

lemma rl_remove_law:
  assumes hist: "rl_hist P s0 ops h sh" and ok: "rl_cmd_ok P c" and ty: "rl_type c = RLREM"
    and nx: "rl_follows h c" and M: "vc_causal n (rl_ct ` set (h @ [c]))"
  shows "rl_applied P s0 ops h c sh (rl_removeFunc (rl_argv c) (rl_ct c) sh)"
proof -
  let ?t = "rl_ct c" and ?x = "rl_argv c ! 1"
  have x: "?x \<notin> list_reserved" "rl_name c = ?x" "1 < length (rl_argv c)" using ok ty by (simp_all add: rl_cmd_ok_def rl_name_def)
  obtain s1 ht1 ht2 e d where b: "rl_advance ?t sh = Some (s1, ht1)" "s1 = s0\<lparr>dirty := d\<rparr>" "le_create rleNew ht1 ?x = Some (ht2, e)"
    "rl_counted P h ht2" "le_deref ht2 ?x = Some e" "rl_env ht2 = (Some (LCurrent (vc_update (rl_current sh) ?t)), snd sh ''ops'')"
    using rl_begin[OF hist x(1)] .
  note slot = rl_counted_slot[OF b(4,5)]
  let ?e1 = "fst (rl_delete_below ?t (e\<lparr>rl_rset := rl_rset e @ [?t]\<rparr>))"
  obtain e2 where e2: "(if rl_value ?e1 = None then rl_pick (rl_aset ?e1) ?e1 else Some ?e1) = Some e2"
    "rl_rel (rl_of ?x h @ [c]) e2" "rl_place e2 = rl_place e"
    using rl_remove_elem[OF _ rl_of_follows[OF nx] ty rl_decides_causal[OF M _ rl_of_subset]] slot by blast
  have nl: "\<not> rl_LOOKUP e2" using e2(2) ty by (simp add: rl_rel_def rl_LOOKUP_def rl_live_rems_snoc[OF rl_of_follows[OF nx]])
  have "rl_removeFunc (rl_argv c) ?t sh =
      map_option (Pair s1) (if rl_LOOKUP e \<and> \<not> rl_LOOKUP e2 then incrLen (le_put ht2 ?x e2) (- 1) else Some (le_put ht2 ?x e2))"
    using b(1,3) x(3) e2(1) by (simp add: rl_removeFunc_def arg_def Let_def map_conv_bind_option comp_def)
  moreover note fin = rl_seen_finite[OF b(4)[unfolded rl_counted_def]]
  note rl_element_step[OF hist b(2) rl_table_butI[OF b(4)[unfolded rl_counted_def]] fin b(5,6) x(1,2) e2(3,2)]
  ultimately show ?thesis using slot ty nl by (simp add: rl_inserted_snoc)
qed

lemma rl_update_law:
  assumes hist: "rl_hist P s0 ops h sh" and ok: "rl_cmd_ok P c" and ty: "rl_type c = RLUPDATE"
    and nx: "rl_follows h c" and M: "vc_causal n (rl_ct ` set (h @ [c]))"
  shows "rl_applied P s0 ops h c sh (rl_updateFunc (rl_argv c) (rl_ct c) sh)"
proof -
  let ?t = "rl_ct c" and ?x = "rl_argv c ! 1"
  have x: "?x \<notin> list_reserved" "rl_name c = ?x" "3 < length (rl_argv c)" using ok ty by (simp_all add: rl_cmd_ok_def rl_name_def)
  obtain v where v: "getLongLongFromObject (rl_argv c ! 3) = Some v" using ok ty by (auto simp: rl_cmd_ok_def)
  obtain s1 ht1 ht2 e d where b: "rl_advance ?t sh = Some (s1, ht1)" "s1 = s0\<lparr>dirty := d\<rparr>" "le_create rleNew ht1 ?x = Some (ht2, e)"
    "rl_counted P h ht2" "le_deref ht2 ?x = Some e" "rl_env ht2 = (Some (LCurrent (vc_update (rl_current sh) ?t)), snd sh ''ops'')"
    using rl_begin[OF hist x(1)] .
  note slot = rl_counted_slot[OF b(4,5)]
  define upd where "upd = (case prop_of_name (c_text (sdstolower (rl_argv c ! 2))) of None \<Rightarrow> (\<lambda>a. a)
      | Some p \<Rightarrow> (\<lambda>a. if rl_below ?t a then rl_update_entry p ?t v a else a))"
  have upd: "\<forall>a. upd a = (if rl_below ?t a then rl_changed c a else a)"
    using v by (simp add: upd_def rl_changed_def rl_number_def split: option.split)
  let ?e = "e\<lparr>rl_aset := map upd (rl_aset e)\<rparr>"
  have rel: "rl_rel (rl_of ?x h @ [c]) ?e"
    using rl_update_elem[OF _ rl_of_follows[OF nx] ty rl_decides_causal[OF M _ rl_of_subset] upd] slot by blast
  have same: "rl_place ?e = rl_place e" "rl_LOOKUP ?e = rl_LOOKUP e" by (simp_all add: rl_place_def rl_LOOKUP_def)
  have "rl_updateFunc (rl_argv c) ?t sh = Some (s1, le_put ht2 ?x ?e)"
    using b(1,3) x(3) v by (simp add: rl_updateFunc_def arg_def Let_def upd_def[symmetric])
  moreover note fin = rl_seen_finite[OF b(4)[unfolded rl_counted_def]]
  note rl_element_step[OF hist b(2) rl_table_butI[OF b(4)[unfolded rl_counted_def]] fin b(5,6) x(1,2) same(1) rel]
  ultimately show ?thesis using slot ty same(2) by (simp add: rl_inserted_snoc)
qed

lemma rl_insert_linked:
  assumes ok: "rl_counted P h ht2" and x: "av ! 2 \<notin> list_reserved" "le_deref ht2 (av ! 2) = Some e"
    and P: "places_ok P" "rl_place_ok P av"
  shows "\<exists>ht3 e3. (if rl_oid e = None then rl_link ht2 (av ! 2) av e else Some ht2) = Some ht3 \<and>
    rl_table_but P h (int32 (int (card (rl_seen ht3)))) (av ! 2) ht3 \<and> finite (rl_seen ht3) \<and> le_deref ht3 (av ! 2) = Some e3 \<and>
    rl_rel (rl_of (av ! 2) h) e3 \<and> rl_placed (P (av ! 2)) (av ! 2) True e3 \<and> rl_LOOKUP e3 = rl_LOOKUP e \<and> rl_env ht3 = rl_env ht2"
proof -
  note tb = ok[unfolded rl_counted_def] and slot = rl_counted_slot[OF ok x(2)]
  show ?thesis
  proof (cases "rl_oid e")
    case None
    then obtain ht3 pos q where "rl_link ht2 (av ! 2) av e = Some ht3" "rl_table_but P h (int32 (int (card (rl_seen ht2)))) (av ! 2) ht3"
      "P (av ! 2) = Some (pos, av ! 3)"
      "le_deref ht3 (av ! 2) = Some (e\<lparr>rl_oid := Some (av ! 2), rl_content := Some (av ! 3), rl_pos_id := Some pos, rl_next := q\<rparr>)"
      "rl_seen ht3 = rl_seen ht2" "rl_env ht3 = rl_env ht2"
      using rl_table_link[OF tb x None refl P] by blast
    then show ?thesis using None slot rl_seen_finite[OF tb] by (simp add: rl_rel_place rl_placed_def rl_LOOKUP_def)
  next
    case (Some y)
    then have "rl_placed (P (av ! 2)) (av ! 2) True e" using slot by (auto simp: rl_placed_def split: if_splits)
    then show ?thesis using Some slot x(2) rl_seen_finite[OF tb] rl_table_butI[OF tb] by simp
  qed
qed

lemma rl_insert_law:
  assumes hist: "rl_hist P s0 ops h sh" and ok: "rl_cmd_ok P c" and ty: "rl_type c = RLADD" and P: "places_ok P"
    and nx: "rl_follows h c" and M: "vc_causal n (rl_ct ` set (h @ [c]))"
  shows "rl_applied P s0 ops h c sh (rl_insertFunc (rl_argv c) (rl_ct c) sh)"
proof -
  let ?t = "rl_ct c" and ?x = "rl_argv c ! 2"
  have x: "?x \<notin> list_reserved" "rl_name c = ?x" and pl: "rl_place_ok P (rl_argv c)" using ok ty by (simp_all add: rl_cmd_ok_def rl_name_def)
  have len: "8 < length (rl_argv c)" using pl by (simp add: rl_place_ok_def)
  obtain f z co pr where v: "getLongLongFromObject (rl_argv c ! 4) = Some f" "getLongLongFromObject (rl_argv c ! 5) = Some z"
    "getLongLongFromObject (rl_argv c ! 6) = Some co" "getLongLongFromObject (rl_argv c ! 7) = Some pr"
    using ok ty by (auto simp: rl_cmd_ok_def)
  let ?vs = "\<lambda>p. if p = Font then int32 f else if p = Size then int32 z else int32 co"
  have init: "rl_initial c = rl_aseNew 0 ?t ?vs (int32 pr)" using v by (simp add: rl_initial_def rl_number_def cong: if_cong)
  obtain s1 ht1 ht2 e d where b: "rl_advance ?t sh = Some (s1, ht1)" "s1 = s0\<lparr>dirty := d\<rparr>" "le_create rleNew ht1 ?x = Some (ht2, e)"
    "rl_counted P h ht2" "le_deref ht2 ?x = Some e" "rl_env ht2 = (Some (LCurrent (vc_update (rl_current sh) ?t)), snd sh ''ops'')"
    using rl_begin[OF hist x(1)] .
  obtain ht3 e3 where l: "(if rl_oid e = None then rl_link ht2 ?x (rl_argv c) e else Some ht2) = Some ht3"
    "rl_table_but P h (int32 (int (card (rl_seen ht3)))) ?x ht3" "finite (rl_seen ht3)" "le_deref ht3 ?x = Some e3"
    "rl_rel (rl_of ?x h) e3" "rl_placed (P ?x) ?x True e3" "rl_LOOKUP e3 = rl_LOOKUP e" "rl_env ht3 = rl_env ht2"
    using rl_insert_linked[OF b(4) x(1) b(5) P pl] by blast
  obtain e4 where e4: "rl_add_entry ?t ?vs (int32 pr) e3 = Some e4" "rl_rel (rl_of ?x h @ [c]) e4" "rl_place e4 = rl_place e3"
    using rl_add_elem[OF l(5) rl_of_follows[OF nx] ty rl_decides_causal[OF M l(5) rl_of_subset] init] .
  have keep: "rl_LOOKUP e3 \<longrightarrow> rl_LOOKUP e4"
    using e4(2) l(5) ty rl_rel_clocks[OF e4(2)]
    by (auto simp: rl_LOOKUP_def rl_rel_def rl_live_rems_snoc[OF rl_of_follows[OF nx]] rl_live_adds_snoc[OF rl_of_follows[OF nx]])
  have "rl_insertFunc (rl_argv c) ?t sh =
      map_option (Pair s1) (if \<not> rl_LOOKUP e \<and> rl_LOOKUP e4 then incrLen (le_put ht3 ?x e4) 1 else Some (le_put ht3 ?x e4))"
    using b(1,3) len l(1,4) v e4(1) by (simp add: rl_insertFunc_def arg_def Let_def map_conv_bind_option comp_def)
  moreover have env: "rl_env ht3 = (Some (LCurrent (vc_update (rl_current sh) ?t)), snd sh ''ops'')" using l(8) b(6) by simp
  note rl_element_step[OF hist b(2) l(2,3,4) env x(1,2) e4(3,2)]
  ultimately show ?thesis using l(6,7) ty keep by (cases "rl_LOOKUP e"; cases "rl_LOOKUP e4") (simp_all add: rl_inserted_snoc)
qed

lemma rl_apply_law:
  assumes "rl_hist P s0 ops h sh" "rl_cmd_ok P c" "places_ok P" "vc_causal n (rl_ct ` set (h @ [c]))"
    "causal_hist n [] (map rl_ct (h @ [c]))"
  shows "rl_applied P s0 ops h c sh (rl_apply c sh)"
proof -
  have nx: "rl_follows h c" using causal_hist_last[of n "map rl_ct h" "rl_ct c"] assms(4,5) by (auto simp: rl_follows_def)
  show ?thesis
    using rl_insert_law[OF assms(1,2) _ assms(3) nx assms(4)] rl_update_law[OF assms(1,2) _ nx assms(4)]
      rl_remove_law[OF assms(1,2) _ nx assms(4)] by (cases "rl_type c") (simp_all add: rl_apply_def)
qed

interpretation rl: causal_ops n rl_current rl_ct rl_apply "rl_cmd_ok P" "\<lambda>h sh. places_ok P \<and> rl_hist P s0 ops h sh" for n P s0 ops
proof unfold_locales
  fix h sh c
  assume a: "places_ok P \<and> rl_hist P s0 ops h sh" "\<forall>d \<in> set (h @ [c]). rl_cmd_ok P d" "vc_causal n (rl_ct ` set (h @ [c]))"
    "causal_hist n [] (map rl_ct (h @ [c]))" "vector (rl_current sh) = hist_vec n (map rl_ct h)"
  then obtain sh' where sh: "rl_apply c sh = Some sh'" "rl_hist P s0 ops (h @ [c]) sh'"
    "rl_current sh' = vc_update (rl_current sh) (rl_ct c)"
    using rl_apply_law[of P s0 ops h sh c n] by (auto simp: rl_applied_def)
  have l: "length (vector (rl_ct d)) = n" if "d \<in> set (h @ [c])" for d by (rule vc_causalD(5)[OF a(3) imageI[OF that]])
  then have "length (hist_vec n (map rl_ct h)) = n" by (intro hist_vec_length) auto
  then have "vc_size (rl_current sh) = vc_size (rl_ct c)" using a(5) l[of c] by (simp add: vc_size_def)
  then show "\<exists>s'. rl_apply c sh = Some s' \<and> (places_ok P \<and> rl_hist P s0 ops (h @ [c]) s') \<and>
    vector (rl_current s') = vjoin (vector (rl_current sh)) (vector (rl_ct c))"
    using a(1) sh by (simp add: vc_update_vjoin)
qed

end
