(* ===== verification/RListDelivery.thy ===== *)
theory RListDelivery
  imports RListCorrect
begin

text \<open>
  Messages of the remove-win list with causal delivery (t_rlist.c): whatever the order in which they
  arrive, the commands of a list are applied in causal order, the list is sorted and the field
  \<open>length\<close> is the number of elements that \<open>rllist\<close> shows; replicas that have received the same
  messages show the same list.
\<close>

section \<open>Servers\<close>

type_synonym rl_server = "rl_field server"

definition rl_table :: "rl_server \<Rightarrow> sds \<Rightarrow> rl_ht" where
  "rl_table s k = (case db s k of Some (ObjHash h) \<Rightarrow> h | _ \<Rightarrow> Map.empty)"

text \<open>
  \<open>cs\<close> is the list of the commands received for a list: some of them form its history \<open>h\<close>, the others
  wait and are not ready.
\<close>

definition rl_list :: "nat \<Rightarrow> places \<Rightarrow> rl_cmd list \<Rightarrow> rl_cmd list \<Rightarrow> rl_server \<Rightarrow> rl_ht \<Rightarrow> bool" where
  "rl_list n P cs h s ht \<longleftrightarrow> rl_counted P h ht \<and> causal_hist n [] (map rl_ct h) \<and>
     vector (rl_current (s, ht)) = hist_vec n (map rl_ct h) \<and> mset h + mset (rl_ops ht) = mset cs \<and>
     (\<forall>c \<in> set (rl_ops ht). \<not> ready_after (vector (rl_current (s, ht))) (rl_ct c))"

definition rlist_state :: "nat \<Rightarrow> sds set \<Rightarrow> (sds \<Rightarrow> places) \<Rightarrow> (sds \<Rightarrow> rl_cmd list) \<Rightarrow> rl_server \<Rightarrow> bool" where
  "rlist_state n K P R s \<longleftrightarrow> replica_ok n s \<and> (\<forall>k \<in> K. places_ok (P k) \<and> (\<forall>c \<in> set (R k). rl_cmd_ok (P k) c) \<and>
     (db s k = None \<or> (\<exists>h. db s k = Some (ObjHash h))) \<and> (\<exists>h. rl_list n (P k) (R k) h s (rl_table s k)))"

text \<open>The clocks of the commands of a list belong to one execution.\<close>

definition rl_exec :: "nat \<Rightarrow> rl_cmd list \<Rightarrow> bool" where
  "rl_exec n cs \<longleftrightarrow> distinct (map rl_ct cs) \<and> vc_causal n (rl_ct ` set cs)"

lemma rl_exec_perm: "mset cs = mset ds \<Longrightarrow> rl_exec n cs = rl_exec n ds"
  using mset_eq_imp_distinct_iff[of "map rl_ct cs" "map rl_ct ds"] mset_eq_setD[of cs ds] by (simp add: rl_exec_def)

lemma rl_current_env: "senv s = senv s' \<Longrightarrow> rl_current (s, ht) = rl_current (s', ht)"
  by (simp add: rl_current_def server_vc_def senv_def split: option.split list_field.split)

lemma rl_getListHT:
  assumes "rlist_state n K P R s" "k \<in> K"
  shows "\<exists>s1. getListHT s k True = Some (s1, Some (rl_table s k)) \<and> senv s1 = senv s \<and> (\<forall>k'. k' \<noteq> k \<longrightarrow> db s1 k' = db s k')"
proof -
  have "db s k = None \<or> (\<exists>h. db s k = Some (ObjHash h))" using assms by (simp add: rlist_state_def)
  then show ?thesis
    by (auto simp: getListHT_def getInnerHT_def lookupKey_def dbAdd_def rl_table_def senv_def)
qed

lemma rl_putListHT:
  assumes st: "rlist_state n K P R s" and k: "k \<in> K" and s1: "senv s1 = senv s" "\<forall>k'. k' \<noteq> k \<longrightarrow> db s1 k' = db s k'"
    and l: "rl_list n (P k) cs h s1 ht" and ok: "\<forall>c \<in> set cs. rl_cmd_ok (P k) c"
  shows "rlist_state n K P (R(k := cs)) (putListHT (s1\<lparr>dirty := d\<rparr>) k ht)" "senv (putListHT (s1\<lparr>dirty := d\<rparr>) k ht) = senv s"
proof -
  let ?s = "putListHT (s1\<lparr>dirty := d\<rparr>) k ht"
  have db: "db ?s k' = (if k' = k then Some (ObjHash ht) else db s k')" for k' using s1(2) by (simp add: putListHT_def dbSet_def)
  show env: "senv ?s = senv s" using s1(1) by (simp add: putListHT_def dbSet_def senv_def)
  have "rl_current (?s, a) = rl_current (s, a)" "rl_current (s1, a) = rl_current (s, a)" for a using rl_current_env env s1(1) by metis+
  then have "rl_list n Q cs h ?s a = rl_list n Q cs h s a" "rl_list n Q cs h s1 a = rl_list n Q cs h s a" for Q cs h a by (simp_all add: rl_list_def)
  moreover have "replica_ok n ?s = replica_ok n s" using env by (simp add: replica_ok_def senv_def)
  ultimately show "rlist_state n K P (R(k := cs)) ?s" using st k l ok unfolding rlist_state_def by (auto simp: rl_table_def db)
qed

section \<open>Receiving a command\<close>

text \<open>A command that is applied at once is applied with one argument more than it is kept with; it is not used.\<close>

lemma rl_apply_longer:
  assumes "rl_cmd_ok P c"
  shows "rl_apply (c\<lparr>rl_argv := rl_argv c @ [tx]\<rparr>) sh = rl_apply c sh"
proof -
  have a: "arg (av @ [tx]) i = arg av i" if "i < length av" for av i using that by (simp add: arg_def nth_append)
  have lk: "rl_link ht x (av @ [tx]) e = rl_link ht x av e" if "8 < length av" for ht x av e using that by (simp add: rl_link_def a)
  show ?thesis using assms
    by (cases "rl_type c") (simp_all add: rl_cmd_ok_def rl_place_ok_def rl_apply_def rl_insertFunc_def rl_updateFunc_def rl_removeFunc_def a lk cong: if_cong)
qed

lemma rl_getCurrent:
  assumes "rl_counted P h ht"
  shows "getCurrent (server_vc s) ht = Some (ht(''current'' \<mapsto> LCurrent (rl_current (s, ht))), rl_current (s, ht))"
proof -
  have "ht ''current'' = None \<or> (\<exists>c. ht ''current'' = Some (LCurrent c))"
    using assms by (simp add: rl_counted_def rl_table_ok_def rl_fields_def)
  then show ?thesis by (auto simp: getCurrent_def rl_current_def fun_upd_idem)
qed

lemma rl_getOps:
  assumes "rl_counted P h ht"
  shows "getOps ht = Some (putOps ht (rl_ops ht), rl_ops ht)"
proof -
  have "ht ''ops'' = None \<or> (\<exists>ops. ht ''ops'' = Some (LOps ops))"
    using assms by (simp add: rl_counted_def rl_table_ok_def rl_fields_def)
  then show ?thesis by (auto simp: getOps_def putOps_def rl_ops_def fun_upd_idem)
qed

lemma rl_putOps [simp]:
  "rl_counted P h ht \<Longrightarrow> rl_counted P h (putOps ht ops)" "rl_ops (putOps ht ops) = ops"
  "rl_current (s, putOps ht ops) = rl_current (s, ht)"
  using rl_table_field[of P h _ ht "''ops''" "LOps ops"] by (simp_all add: rl_counted_def putOps_def rl_ops_def rl_current_def split: option.split list_field.split)

lemma rl_setCurrent:
  assumes "rl_counted P h ht"
  shows "rl_counted P h (ht(''current'' \<mapsto> LCurrent u))" "rl_ops (ht(''current'' \<mapsto> LCurrent u)) = rl_ops ht"
    "rl_current (s, ht(''current'' \<mapsto> LCurrent u)) = u"
  using rl_table_field[of P h _ ht "''current''" "LCurrent u"] assms by (simp_all add: rl_counted_def rl_ops_def rl_current_def)

definition rl_type_of :: "sds list \<Rightarrow> rl_cmd_type" where
  "rl_type_of m = (if m ! 0 = ''rlinsert'' then RLADD else if m ! 0 = ''rlupdate'' then RLUPDATE else RLREM)"

definition rl_cmd_of :: "sds list \<Rightarrow> rl_cmd" where
  "rl_cmd_of m = rl_cmdNew (rl_type_of m) m (last_vc m)"

text \<open>The messages of the list, with the arguments that the handlers require.\<close>

definition rl_msg_ok :: "nat \<Rightarrow> sds set \<Rightarrow> (sds \<Rightarrow> places) \<Rightarrow> sds list \<Rightarrow> bool" where
  "rl_msg_ok n K P m \<longleftrightarrow> m ! 0 \<in> {''rlinsert'', ''rlupdate'', ''rlrem''} \<and> 2 < length m \<and> vc_text n (last m) \<and>
     m ! 1 \<in> K \<and> rl_cmd_ok (P (m ! 1)) (rl_cmd_of m)"

lemma rl_cmd_of_fields [simp]: "rl_ct (rl_cmd_of m) = last_vc m" "rl_type (rl_cmd_of m) = rl_type_of m" "rl_argv (rl_cmd_of m) = butlast (tl m)"
  by (simp_all add: rl_cmd_of_def rl_cmdNew_def)

lemma rl_apply_message:
  assumes "rl_msg_ok n K P m"
  shows "rl_apply \<lparr>rl_type = rl_type_of m, rl_argv = tl m, rl_ct = last_vc m\<rparr> sh = rl_apply (rl_cmd_of m) sh"
proof -
  have "tl m = butlast (tl m) @ [last m]" using assms by (cases m) (auto simp: rl_msg_ok_def)
  then have "\<lparr>rl_type = rl_type_of m, rl_argv = tl m, rl_ct = last_vc m\<rparr> = (rl_cmd_of m)\<lparr>rl_argv := rl_argv (rl_cmd_of m) @ [last m]\<rparr>"
    by (simp add: rl_cmd_of_def rl_cmdNew_def)
  then show ?thesis using rl_apply_longer[of "P (m ! 1)" "rl_cmd_of m"] assms by (simp only: rl_msg_ok_def)
qed

text \<open>The two branches of the effect phase.\<close>

lemma rl_receive_ready:
  assumes b: "rl.binv n P s1 (rl_ops ht) h (s1, ht) (c # rl_ops ht)" and r: "ready_after (vector (rl_current (s1, ht))) (rl_ct c)"
  shows "\<exists>sh ht3 d ht4 ops' h'. rl_apply c (s1, ht) = Some sh \<and> getOps (snd sh) = Some (ht3, rl_ops ht) \<and>
    rl_notifyLoop (fst sh, ht3) (rl_ops ht) = Some ((s1\<lparr>dirty := d\<rparr>, ht4), ops') \<and>
    rl_list n P (h @ c # rl_ops ht) h' s1 (putOps ht4 ops')"
proof -
  let ?o = "rl_ops ht"
  obtain sh where sh: "rl_apply c (s1, ht) = Some sh" "rl.binv n P s1 ?o (h @ [c]) sh ?o" using rl.binv_apply[OF b r] by blast
  have hs: "rl_hist P s1 ?o (h @ [c]) sh" using sh(2) by (simp add: rl.binv_def)
  then have ok: "rl_counted P (h @ [c]) (snd sh)" "rl_ops (snd sh) = ?o" by (simp_all add: rl_hist_def)
  have "rl_current (fst sh, putOps (snd sh) ?o) = rl_current sh" by (cases sh) simp
  then have "rl.binv n P s1 ?o (h @ [c]) (fst sh, putOps (snd sh) ?o) ?o"
    using sh(2) hs ok(1) unfolding rl.binv_def by (auto simp: rl_hist_def)
  from rl.drain[OF this] obtain h' sh' ops' where l: "rl_notifyLoop (fst sh, putOps (snd sh) ?o) ?o = Some (sh', ops')"
    "rl.binv n P s1 ?o h' sh' ops'" "mset h' + mset ops' = mset (h @ [c]) + mset ?o"
    "\<forall>c \<in> set ops'. \<not> ready_after (vector (rl_current sh')) (rl_ct c)"
    unfolding rl_notifyLoop_def by blast
  obtain d ht4 where sh': "sh' = (s1\<lparr>dirty := d\<rparr>, ht4)" "rl_counted P h' ht4"
    using l(2) unfolding rl.binv_def by (cases sh') (auto simp: rl_hist_def)
  have "rl_current (s1\<lparr>dirty := d\<rparr>, a) = rl_current (s1, a)" for a by (rule rl_current_env) (simp add: senv_def)
  then have "rl_list n P (h @ c # ?o) h' s1 (putOps ht4 ops')"
    using l sh' by (simp add: rl_list_def rl.binv_def)
  then show ?thesis using sh(1) rl_getOps[OF ok(1)] ok(2) l(1) sh'(1) by auto
qed

lemma rl_receive_law:
  assumes st: "rlist_state n K P R s" and m: "rl_msg_ok n K P m" and ex: "rl_exec n (R (m ! 1) @ [rl_cmd_of m])"
  shows "\<exists>s'. rl_receive (rl_type_of m) s m = Some s' \<and> rlist_state n K P (R(m ! 1 := R (m ! 1) @ [rl_cmd_of m])) s' \<and> senv s' = senv s"
proof -
  let ?k = "m ! 1" and ?c = "rl_cmd_of m" and ?t = "last_vc m"
  have k: "?k \<in> K" and cok: "rl_cmd_ok (P ?k) ?c" and tx: "vc_text n (last m)" "m \<noteq> []" "2 < length m" using m by (auto simp: rl_msg_ok_def)
  obtain s1 where s1: "getListHT s ?k True = Some (s1, Some (rl_table s ?k))" "senv s1 = senv s" "\<forall>k'. k' \<noteq> ?k \<longrightarrow> db s1 k' = db s k'"
    using rl_getListHT[OF st k] by blast
  define cur where "cur = rl_current (s1, rl_table s ?k)"
  define ht where "ht = (rl_table s ?k)(''current'' \<mapsto> LCurrent cur)"
  have P: "places_ok (P ?k)" and oks: "\<forall>c \<in> set (R ?k). rl_cmd_ok (P ?k) c" using st k by (simp_all add: rlist_state_def)
  obtain h where h0: "rl_list n (P ?k) (R ?k) h s (rl_table s ?k)" using st k unfolding rlist_state_def by blast
  then have c0: "rl_counted (P ?k) h (rl_table s ?k)" by (simp add: rl_list_def)
  note ht = rl_setCurrent[OF c0, where u = cur, folded ht_def]
  have gc: "getCurrent (server_vc s1) (rl_table s ?k) = Some (ht, cur)" using rl_getCurrent[OF c0, of s1] by (simp add: ht_def cur_def)
  have cs: "cur = rl_current (s, rl_table s ?k)" unfolding cur_def by (rule rl_current_env[OF s1(2)])
  have h: "rl_list n (P ?k) (R ?k) h s1 ht" using h0 ht unfolding rl_list_def cs by auto
  have mm: "mset (h @ ?c # rl_ops ht) = mset (R ?k @ [?c])" using h by (simp add: rl_list_def)
  have "rl_exec n (h @ ?c # rl_ops ht)" using ex rl_exec_perm[OF mm] by simp
  moreover have "\<forall>c \<in> set (h @ ?c # rl_ops ht). rl_cmd_ok (P ?k) c" using oks cok mset_eq_setD[OF mm] by simp
  moreover have "rl_hist (P ?k) s1 (rl_ops ht) h (s1, ht)" using ht(1) by (auto simp: rl_hist_def intro!: exI[of _ "dirty s1"])
  ultimately have b: "rl.binv n (P ?k) s1 (rl_ops ht) h (s1, ht) (?c # rl_ops ht)" using h P unfolding rl.binv_def rl_exec_def rl_list_def by blast
  have M: "vc_wf n ?t" "\<forall>v \<in> set (vector ?t). 0 \<le> v"
    using vc_causalD(1,2)[of n "rl_ct ` set (R ?k @ [?c])" ?t] ex by (simp_all add: rl_exec_def)
  have rd: "vc_causally_ready cur ?t = Some (ready_after (vector cur) ?t)"
    using rl.binv_ready[OF b, of ?c] M ht(3) by simp
  note start = vc_text_last(1)[OF tx(1,2)] s1(1) gc rd
  have ag: "arg m 1 = Some ?k" using tx(3) by (simp add: arg_def)
  have oks': "\<forall>c \<in> set (R ?k @ [?c]). rl_cmd_ok (P ?k) c" using oks cok by simp
  show ?thesis
  proof (cases "ready_after (vector cur) ?t")
    case True
    obtain sh ht3 d ht4 ops' h' where r: "rl_apply ?c (s1, ht) = Some sh" "getOps (snd sh) = Some (ht3, rl_ops ht)"
      "rl_notifyLoop (fst sh, ht3) (rl_ops ht) = Some ((s1\<lparr>dirty := d\<rparr>, ht4), ops')"
      "rl_list n (P ?k) (h @ ?c # rl_ops ht) h' s1 (putOps ht4 ops')"
      using rl_receive_ready[OF b] True ht(3) by auto
    have "rl_receive (rl_type_of m) s m = Some (putListHT (s1\<lparr>dirty := d\<rparr>) ?k (putOps ht4 ops'))"
      using start True ag rl_apply_message[OF m, of "(s1, ht)"] r(1-3) by (simp add: rl_receive_def)
    moreover have "rl_list n (P ?k) (R ?k @ [?c]) h' s1 (putOps ht4 ops')" using r(4) unfolding rl_list_def mm .
    note rl_putListHT[OF st k s1(2,3) this oks']
    ultimately show ?thesis by auto
  next
    case False
    have "rl_list n (P ?k) (R ?k @ [?c]) h s1 (putOps ht (rl_ops ht @ [?c]))" using h False ht(3) by (auto simp: rl_list_def)
    note rl_putListHT[OF st k s1(2,3) this oks', of "dirty s1"]
    moreover have "rl_receive (rl_type_of m) s m = Some (putListHT s1 ?k (putOps ht (rl_ops ht @ [?c])))"
      using start False ag rl_getOps[OF ht(1)] by (simp add: rl_receive_def rl_cmd_of_def putOps_def)
    ultimately show ?thesis by auto
  qed
qed

section \<open>Runs\<close>

definition rl_deliver :: "rl_server \<Rightarrow> sds list \<Rightarrow> rl_server option" where
  "rl_deliver s m =
     deliver (if m ! 0 = ''rlinsert'' then rlinsertCommand else if m ! 0 = ''rlupdate'' then rlupdateCommand else rlremCommand) s m"

definition rl_received :: "sds list list \<Rightarrow> sds \<Rightarrow> rl_cmd list" where
  "rl_received ms k = map rl_cmd_of (filter (\<lambda>m. m ! 1 = k) ms)"

definition rl_execution :: "nat \<Rightarrow> sds list list \<Rightarrow> bool" where
  "rl_execution n ms \<longleftrightarrow> (\<forall>m \<in> set ms. rl_exec n (rl_received ms (m ! 1)))"

text \<open>All causal predecessors of the messages are among them.\<close>

definition rl_complete :: "nat \<Rightarrow> sds list list \<Rightarrow> bool" where
  "rl_complete n ms \<longleftrightarrow> (\<forall>m \<in> set ms. vc_closed n (rl_ct ` set (rl_received ms (m ! 1))))"

definition rlist_start :: "nat \<Rightarrow> sds set \<Rightarrow> (sds \<Rightarrow> places) \<Rightarrow> rl_server \<Rightarrow> bool" where
  "rlist_start n K P s \<longleftrightarrow> replica_ok n s \<and> (\<forall>k \<in> K. db s k = None \<and> places_ok (P k))"

lemma rl_deliver_receive:
  assumes "REPLICATION_MODE s"
  shows "rl_deliver s m = rl_receive (rl_type_of m) s m"
  using crdt_command_replica[OF assms]
  by (simp add: rl_deliver_def rl_type_of_def deliver_def call_def rlinsertCommand_def rlupdateCommand_def rlremCommand_def replica_client_def)

lemma rl_received_none: "\<not> (\<exists>m \<in> set ms. m ! 1 = k) \<Longrightarrow> rl_received ms k = []"
  by (simp add: rl_received_def filter_empty_conv)

lemma rl_exec_received: "rl_execution n ms \<Longrightarrow> rl_exec n (rl_received ms k)"
  using rl_received_none[of ms k] by (cases "\<exists>m \<in> set ms. m ! 1 = k") (auto simp: rl_execution_def rl_exec_def vc_causal_def)

lemma rl_run_law:
  assumes "rlist_state n K P (rl_received ns) s" "\<forall>m \<in> set ms. rl_msg_ok n K P m" "rl_execution n (ns @ ms)"
  shows "\<exists>s'. run rl_deliver s ms = Some s' \<and> rlist_state n K P (rl_received (ns @ ms)) s'"
  using assms
proof (induction ms arbitrary: ns s)
  case (Cons m ms)
  have ok: "rl_msg_ok n K P m" using Cons.prems(2) by simp
  have mode: "REPLICATION_MODE s" using Cons.prems(1) replica_ok_mode by (auto simp: rlist_state_def)
  have R: "(rl_received ns)(m ! 1 := rl_received ns (m ! 1) @ [rl_cmd_of m]) = rl_received (ns @ [m])"
    by (rule ext) (simp add: rl_received_def)
  have "rl_exec n (rl_received (ns @ m # ms) (m ! 1))" using rl_exec_received[OF Cons.prems(3)] .
  then have "rl_exec n (rl_received ns (m ! 1) @ [rl_cmd_of m])"
    using vc_causal_mono[of n "rl_ct ` set (rl_received (ns @ m # ms) (m ! 1))" "rl_ct ` set (rl_received ns (m ! 1) @ [rl_cmd_of m])"]
    by (auto simp: rl_exec_def rl_received_def)
  then obtain s1 where s1: "rl_receive (rl_type_of m) s m = Some s1" "rlist_state n K P (rl_received (ns @ [m])) s1"
    using rl_receive_law[OF Cons.prems(1) ok, unfolded R] by blast
  then show ?case using rl_deliver_receive[OF mode, of m] Cons.IH[OF s1(2)] Cons.prems(2,3) by simp
qed simp

lemma rl_empty: "rl_list n P [] [] s Map.empty" if "replica_ok n s"
proof -
  have "list_wf rl_pos_id rl_next (Map.empty :: rl_ht) []" by (rule empty_list_wf)
  then show ?thesis using replica_ok_vc[OF that]
    by (auto simp: rl_list_def rl_counted_def rl_table_ok_def rl_fields_def getLen_def rl_seen_def le_deref_def le_find_def rl_slot_def
        rl_of_def rl_ops_def rl_current_def hist_vec_def)
qed

lemma rl_start_run:
  assumes "rlist_start n K P s" "\<forall>m \<in> set ms. rl_msg_ok n K P m" "rl_execution n ms"
  obtains s' where "run rl_deliver s ms = Some s'" "rlist_state n K P (rl_received ms) s'"
proof -
  have "rlist_state n K P (rl_received []) s"
    using assms(1) rl_empty[of n s] by (auto simp: rlist_start_def rlist_state_def rl_received_def rl_table_def)
  then show ?thesis using that rl_run_law[of n K P "[]" s ms] assms(2,3) by auto
qed

section \<open>The answer of \<open>rllist\<close>\<close>

text \<open>The elements of which an insert has been applied, in the order of their positions.\<close>

definition rl_order :: "places \<Rightarrow> rl_cmd list \<Rightarrow> sds list \<Rightarrow> bool" where
  "rl_order P h ns \<longleftrightarrow> sorted_wrt (\<lambda>a b. leid_key (fst (the (P a))) < leid_key (fst (the (P b)))) ns \<and>
     set ns = {x. rl_inserted (rl_of x h)}"

text \<open>The number of visible elements, and each of them with its name, content and properties.\<close>

definition rl_view :: "places \<Rightarrow> rl_cmd list \<Rightarrow> sds list \<Rightarrow> reply list" where
  "rl_view P h ns = ReplyArrayLen (length (filter (\<lambda>x. rl_outcome (rl_of x h) \<noteq> None) ns)) #
     concat (map (\<lambda>x. rl_reply x (snd (the (P x))) (rl_of x h)) ns)"

lemma rl_of_exec: "rl_exec n h \<Longrightarrow> rl_exec n (rl_of x h)"
  using vc_causal_mono[of n "rl_ct ` set h" "rl_ct ` set (rl_of x h)"] rl_of_subset[of x h]
  by (auto simp: rl_exec_def rl_of_def distinct_map intro: inj_on_subset)

lemma rl_items_map: "\<forall>x \<in> set ns. rl_item (g x) = Some (f x) \<Longrightarrow> rl_items (map g ns) = Some (concat (map f ns))"
  by (induction ns) simp_all

lemma rl_shown_element:
  assumes ok: "rl_counted P h ht" and ex: "rl_exec n h" and i: "rl_inserted (rl_of x h)"
  shows "rl_item (the (le_deref ht x)) = Some (rl_reply x (snd (the (P x))) (rl_of x h))"
    "rl_pos ht x = Some (fst (the (P x)))" "x \<in> rl_seen ht \<longleftrightarrow> rl_outcome (rl_of x h) \<noteq> None"
proof -
  have "rl_slot (P x) x (rl_of x h) (le_deref ht x)" using ok by (simp add: rl_counted_def rl_table_ok_def)
  then obtain e pos d where e: "le_deref ht x = Some e" and p: "P x = Some (pos, d)" "rl_oid e = Some x" "rl_pos_id e = Some pos"
      "rl_content e = Some d" "rl_rel (rl_of x h) e"
    using i by (cases "le_deref ht x") (auto simp: rl_slot_def rl_placed_def rl_inserted_def)
  have "vc_causal n (rl_ct ` set (rl_of x h))" "distinct (map rl_ct (rl_of x h))" using rl_of_exec[OF ex] by (simp_all add: rl_exec_def)
  note shown = rl_item_shown[OF p(5) this p(2,4)]
  show "rl_item (the (le_deref ht x)) = Some (rl_reply x (snd (the (P x))) (rl_of x h))"
    "rl_pos ht x = Some (fst (the (P x)))" "x \<in> rl_seen ht \<longleftrightarrow> rl_outcome (rl_of x h) \<noteq> None"
    using shown e p(1,3) by (simp_all add: list_pos_def rl_seen_def)
qed

lemma rl_seen_inserted:
  assumes ok: "rl_counted P h ht" and x: "x \<in> rl_seen ht"
  shows "rl_inserted (rl_of x h)"
proof -
  obtain e where e: "le_deref ht x = Some e" "rl_LOOKUP e" using x by (auto simp: rl_seen_def)
  then have "map rl_ct (rl_live_adds (rl_of x h)) \<noteq> []" using rl_rel_clocks[of "rl_of x h" e] rl_counted_slot[OF ok e(1)] by (auto simp: rl_LOOKUP_def)
  then show ?thesis by (auto simp: rl_inserted_def rl_live_adds_def filter_empty_conv)
qed

lemma rl_table_shows:
  assumes ok: "rl_counted P h ht" and ex: "rl_exec n h" and small: "length h < 2 ^ 31"
  shows "\<exists>ns hd. rl_order P h ns \<and> getHead ht = Some hd \<and> getLen ht = Some (int (length (filter (\<lambda>x. rl_outcome (rl_of x h) \<noteq> None) ns))) \<and>
    Option.bind (list_nodes rl_next ht hd) rl_items = Some (concat (map (\<lambda>x. rl_reply x (snd (the (P x))) (rl_of x h)) ns))"
proof -
  note tb = ok[unfolded rl_counted_def] and el = rl_shown_element[OF ok ex]
  obtain ns hd where ns: "list_wf rl_pos_id rl_next ht ns" "getHead ht = Some hd" "chain rl_next ht hd ns"
    using tb unfolding rl_table_ok_def list_wf_def by auto
  have "x \<in> set ns \<longleftrightarrow> rl_inserted (rl_of x h)" for x
    using ns(1) rl_table_pos[OF tb, of x] el(2)[of x] by (auto simp: list_wf_def split: if_splits)
  then have set: "set ns = {x. rl_inserted (rl_of x h)}" by auto
  have sorted: "sorted_wrt (\<lambda>a b. leid_key (the (rl_pos ht a)) < leid_key (the (rl_pos ht b))) ns" and dist: "distinct ns"
    using ns(1) by (simp_all add: list_wf_def)
  have "sorted_wrt (\<lambda>a b. leid_key (fst (the (P a))) < leid_key (fst (the (P b)))) ns"
    by (rule sorted_wrt_mono_rel[OF _ sorted]) (use set el(2) in simp)
  then have order: "rl_order P h ns" using set by (simp add: rl_order_def)
  have "rl_seen ht = set (filter (\<lambda>x. rl_outcome (rl_of x h) \<noteq> None) ns)" using set el(3) rl_seen_inserted[OF ok] by auto
  then have card: "card (rl_seen ht) = length (filter (\<lambda>x. rl_outcome (rl_of x h) \<noteq> None) ns)"
    using dist distinct_card[of "filter (\<lambda>x. rl_outcome (rl_of x h) \<noteq> None) ns"] by simp
  have "card (rl_seen ht) \<le> length h"
    using card_mono[OF _ rl_seen_names[OF tb]] card_image_le[of "set h" rl_name] card_length[of h] by simp
  then have "getLen ht = Some (int (length (filter (\<lambda>x. rl_outcome (rl_of x h) \<noteq> None) ns)))"
    using tb small card int32_nonneg[of "int (card (rl_seen ht))"] by (simp add: rl_table_ok_def)
  moreover have "rl_items (map (\<lambda>x. the (le_deref ht x)) ns) = Some (concat (map (\<lambda>x. rl_reply x (snd (the (P x))) (rl_of x h)) ns))"
    by (rule rl_items_map) (use el(1) set in simp)
  ultimately show ?thesis using order ns(2) chain_nodes[OF ns(3)] by auto
qed

lemma rl_list_exec:
  assumes "rl_list n P cs h s ht" "rl_exec n cs"
  shows "rl_exec n (h @ rl_ops ht)" "rl_exec n h" "length h \<le> length cs"
proof -
  have m: "mset (h @ rl_ops ht) = mset cs" using assms(1) by (simp add: rl_list_def)
  show ex: "rl_exec n (h @ rl_ops ht)" using rl_exec_perm[OF m] assms(2) by simp
  show "rl_exec n h" using ex vc_causal_mono[of n "rl_ct ` set (h @ rl_ops ht)" "rl_ct ` set h"] by (auto simp: rl_exec_def)
  show "length h \<le> length cs" using arg_cong[OF m, of size] by simp
qed

lemma rl_state_shows:
  assumes st: "rlist_state n K P (rl_received ms) s" and k: "k \<in> K" and ex: "rl_execution n ms" and small: "length ms < 2 ^ 31"
    and m: "\<exists>m \<in> set ms. m ! 1 = k" and c: "argv c = [cmd, k]"
  shows "\<exists>h ns. rl_list n (P k) (rl_received ms k) h s (rl_table s k) \<and> rl_order (P k) h ns \<and>
    rllistCommand s c = Some (s, addReplies c (rl_view (P k) h ns))"
proof -
  obtain h where h: "rl_list n (P k) (rl_received ms k) h s (rl_table s k)" using st k unfolding rlist_state_def by blast
  then have ok: "rl_counted (P k) h (rl_table s k)" by (simp add: rl_list_def)
  note e = rl_list_exec[OF h rl_exec_received[OF ex]]
  have "length (rl_received ms k) \<le> length ms" by (simp add: rl_received_def)
  then have "length h < 2 ^ 31" using e(3) small by linarith
  then obtain ns hd where ns: "rl_order (P k) h ns" "getHead (rl_table s k) = Some hd"
    "getLen (rl_table s k) = Some (int (length (filter (\<lambda>x. rl_outcome (rl_of x h) \<noteq> None) ns)))"
    "Option.bind (list_nodes rl_next (rl_table s k) hd) rl_items = Some (concat (map (\<lambda>x. rl_reply x (snd (the (P k x))) (rl_of x h)) ns))"
    using rl_table_shows[OF ok e(2)] by blast
  obtain ht where ht: "db s k = Some (ObjHash ht)"
  proof (cases "db s k")
    case None
    then have "rl_table s k = Map.empty" by (simp add: rl_table_def)
    then have "rl_ops (rl_table s k) = []" "\<forall>x. rl_of x h = []"
      using ok by (simp_all add: rl_ops_def rl_counted_def rl_table_ok_def rl_slot_def le_deref_def)
    moreover from this(2) have "d \<notin> set h" for d by (auto simp: rl_of_def filter_empty_conv)
    then have "h = []" by (cases h) auto
    ultimately have "rl_received ms k = []" using h by (simp add: rl_list_def)
    then show ?thesis using m by (auto simp: rl_received_def filter_empty_conv)
  next
    case (Some v)
    moreover have "db s k = None \<or> (\<exists>h. db s k = Some (ObjHash h))" using st k unfolding rlist_state_def by blast
    ultimately show ?thesis using that by auto
  qed
  then have "rl_table s k = ht" by (simp add: rl_table_def)
  then have "rllistCommand s c = Some (s, addReplies c (rl_view (P k) h ns))"
    using ht ns(2-4) c by (auto simp: rllistCommand_def arg_def lookupKey_def rl_view_def bind_eq_Some_conv)
  then show ?thesis using h ns(1) by blast
qed

section \<open>The outcome does not depend on the order\<close>

lemma causal_hist_sorted:
  assumes "causal_hist n [] (map rl_ct h)" "vc_causal n (rl_ct ` set h)"
  shows "sorted_wrt (\<lambda>a b. \<not> vc_older (rl_ct b) (rl_ct a)) h"
  using assms
proof (induction h rule: rev_induct)
  case (snoc c h)
  have "\<not> vc_older (rl_ct c) u" if "u \<in> set (map rl_ct h)" for u
    by (rule causal_hist_last[of n "map rl_ct h"]) (use snoc.prems that in simp_all)
  moreover have "vc_causal n (rl_ct ` set h)" by (rule vc_causal_mono[OF snoc.prems(2)]) auto
  ultimately show ?case using snoc.IH snoc.prems(1) by (auto simp: sorted_wrt_append causal_hist_append)
qed simp

lemma sorted_wrt_distinct: "sorted_wrt R xs \<Longrightarrow> distinct xs \<Longrightarrow> sorted_wrt (\<lambda>a b. R a b \<and> a \<noteq> b) xs"
  by (induction xs) auto

text \<open>
  An update that has seen all other updates of a property sets it: no other update is applied after it, and
  the clocks of the earlier ones do not have its component.
\<close>

lemma rl_track_below:
  assumes M: "vc_causal n M" and c: "rl_ct c \<in> M" "vc_older (rl_ct c) t" and t: "t \<in> M"
    and ds: "\<forall>e \<in> set ds. rl_ct e \<in> M \<and> vc_older (rl_ct e) t"
  shows "vle (fst (fst (rl_track c ds p))) (vector t) \<and> fst (fst (rl_track c ds p)) ! vc_rid t < vc_seq t"
proof -
  have older: "vle (vector u) (vector t) \<and> vector u ! vc_rid t < vc_seq t" if "u \<in> M" "vc_older u t" for u
  proof -
    have "\<not> vle (vector t) (vector u)" using that M t vle_antisym by (auto simp: vc_older_def vc_causal_def)
    then show ?thesis using vc_causal_le[OF M that(1) t] that(2) by (auto simp: vc_older_def)
  qed
  have len: "length (vector u) = n" if "u \<in> M" for u using vc_causalD(5)[OF M that] .
  show ?thesis using ds
  proof (induction ds rule: rev_induct)
    case Nil
    then show ?case using older[OF c] by (simp add: rl_track_def)
  next
    case (snoc e ds)
    let ?s = "rl_track c ds p"
    have s: "vle (fst (fst ?s)) (vector t)" "fst (fst ?s) ! vc_rid t < vc_seq t" using snoc by simp_all
    have e: "vle (vector (rl_ct e)) (vector t)" "vector (rl_ct e) ! vc_rid t < vc_seq t" using older snoc.prems by simp_all
    have l: "length (fst (fst ?s)) = n" "length (vector (rl_ct e)) = n" using s(1) len[OF t] len snoc.prems by (simp_all add: vle_def list_all2_lengthD)
    have "vjoin (fst (fst ?s)) (vector (rl_ct e)) ! vc_rid t < vc_seq t" using s(2) e(2) l vc_causalD(4)[OF M t] by (simp add: vjoin_def)
    moreover have "vle (vjoin (fst (fst ?s)) (vector (rl_ct e))) (vector t)" using s(1) e(1) l by (simp add: vjoin_least)
    ultimately show ?case using s by (simp add: rl_track_def rl_write_def)
  qed
qed

lemma rl_last_write:
  assumes M: "vc_causal n (rl_ct ` set h)" and srt: "sorted_wrt (\<lambda>a b. \<not> vc_older (rl_ct b) (rl_ct a)) h" and di: "distinct h"
    and c: "c \<in> set h" and d: "d \<in> set (rl_writes h c p)" "\<forall>e \<in> set (rl_writes h c p). e = d \<or> vc_older (rl_ct e) (rl_ct d)"
  shows "rl_shown h c p = rl_input p d"
proof -
  let ?w = "rl_writes h c p"
  obtain as bs where w: "?w = as @ d # bs" using d(1) split_list by fast
  have "sorted_wrt (\<lambda>a b. \<not> vc_older (rl_ct b) (rl_ct a)) ?w" "distinct ?w" using srt di by (simp_all add: rl_writes_def sorted_wrt_filter)
  then have "e \<notin> set bs" for e using d(2) unfolding w by (auto simp: sorted_wrt_append)
  then have bs: "bs = []" by (cases bs) auto
  have "e \<in> set h" if "e \<in> set ?w" for e using that by (simp add: rl_writes_def)
  moreover have "d \<notin> set as" using \<open>distinct ?w\<close> by (simp add: w)
  ultimately have "rl_ct e \<in> rl_ct ` set h \<and> vc_older (rl_ct e) (rl_ct d)" if "e \<in> set as" for e
    using that bspec[OF d(2), of e] by (cases "e = d") (simp_all add: w)
  then have as: "\<forall>e \<in> set as. rl_ct e \<in> rl_ct ` set h \<and> vc_older (rl_ct e) (rl_ct d)" by blast
  have dh: "rl_ct d \<in> rl_ct ` set h" and co: "vc_older (rl_ct c) (rl_ct d)" using d(1) by (simp_all add: rl_writes_def)
  note b = rl_track_below[OF M imageI[OF c] co dh as, of p]
  then have "fst (fst (rl_track c as p)) \<noteq> vector (rl_ct d)" by (auto simp: vc_seq_def)
  then have "clock_before (fst (rl_track c as p)) (vector (rl_ct d), vc_id (rl_ct d))" using b by (simp add: clock_before_def)
  then show ?thesis by (simp add: rl_shown_def w bs rl_track_def rl_write_def)
qed

text \<open>Ordered updates are applied in their order.\<close>

definition rl_ordered :: "rl_cmd list \<Rightarrow> bool" where
  "rl_ordered cs \<longleftrightarrow> (\<forall>c \<in> set cs. \<forall>d \<in> set cs. rl_type c = RLUPDATE \<longrightarrow> rl_type d = RLUPDATE \<longrightarrow> rl_name c = rl_name d \<longrightarrow> rl_prop c = rl_prop d \<longrightarrow>
     c = d \<or> vc_older (rl_ct c) (rl_ct d) \<or> vc_older (rl_ct d) (rl_ct c))"

lemma rl_writes_sorted:
  assumes ch: "causal_hist n [] (map rl_ct h)" and ex: "rl_exec n h" and ord: "rl_ordered h"
  shows "sorted_wrt (\<lambda>a b. sum_list (vector (rl_ct a)) < sum_list (vector (rl_ct b))) (rl_writes (rl_of x h) c p)"
proof -
  let ?us = "rl_writes (rl_of x h) c p"
  have M: "vc_causal n (rl_ct ` set h)" and d: "distinct h" using ex by (auto simp: rl_exec_def distinct_map)
  have mem: "u \<in> set h \<and> rl_type u = RLUPDATE \<and> rl_name u = x \<and> rl_prop u = Some p" if "u \<in> set ?us" for u
    using that by (simp add: rl_writes_def rl_of_def)
  have "sorted_wrt (\<lambda>a b. \<not> vc_older (rl_ct b) (rl_ct a)) h" using causal_hist_sorted[OF ch M] .
  then have "sorted_wrt (\<lambda>a b. \<not> vc_older (rl_ct b) (rl_ct a)) ?us" by (simp add: rl_writes_def rl_of_def sorted_wrt_filter)
  moreover have "distinct ?us" using d by (simp add: rl_writes_def rl_of_def)
  ultimately have "sorted_wrt (\<lambda>a b. \<not> vc_older (rl_ct b) (rl_ct a) \<and> a \<noteq> b) ?us" by (rule sorted_wrt_distinct)
  then show ?thesis
  proof (rule sorted_wrt_mono_rel[rotated])
    fix a b assume ab: "a \<in> set ?us" "b \<in> set ?us" "\<not> vc_older (rl_ct b) (rl_ct a) \<and> a \<noteq> b"
    then have "vc_older (rl_ct a) (rl_ct b)" using ord mem[OF ab(1)] mem[OF ab(2)] unfolding rl_ordered_def by metis
    moreover from this have "vector (rl_ct a) \<noteq> vector (rl_ct b)"
      using M mem[OF ab(1)] mem[OF ab(2)] by (auto simp: vc_older_def vc_causal_def)
    ultimately show "sum_list (vector (rl_ct a)) < sum_list (vector (rl_ct b))" using vle_sum_strict by (auto simp: vc_older_def)
  qed
qed

lemma rl_winner_perm:
  assumes p: "mset cs = mset ds" and uniq: "\<forall>c \<in> set cs. \<forall>d \<in> set cs. vc_id (rl_ct c) = vc_id (rl_ct d) \<longrightarrow> c = d"
  shows "rl_winner cs = rl_winner ds"
proof (cases "rl_winner ds")
  case None
  then have "rl_winner cs = None" using mset_eq_setD[OF p] by (simp add: rl_winner_def find_None_iff)
  then show ?thesis using None by simp
next
  case (Some c)
  then have "c \<in> set ds" "\<forall>d \<in> set ds. vc_id (rl_ct d) \<le> vc_id (rl_ct c)" by (auto simp: rl_winner_def find_Some_iff)
  then show ?thesis using rl_winner_eq[of c cs] uniq Some mset_eq_setD[OF p] by simp
qed

lemma rl_outcome_perm:
  assumes p: "mset h = mset g" and ch: "causal_hist n [] (map rl_ct h)" "causal_hist n [] (map rl_ct g)"
    and ex: "rl_exec n h" and ord: "rl_ordered h"
  shows "rl_outcome (rl_of x h) = rl_outcome (rl_of x g)" "rl_shown (rl_of x h) = rl_shown (rl_of x g)"
proof -
  note S = mset_eq_setD[OF p]
  have exg: "rl_exec n g" and og: "rl_ordered g" using rl_exec_perm[OF p] ex ord S by (simp_all add: rl_ordered_def)
  have po: "mset (rl_of x h) = mset (rl_of x g)" by (simp add: rl_of_def p mset_filter)
  note So = mset_eq_setD[OF po]
  have live: "mset (rl_live_adds (rl_of x h)) = mset (rl_live_adds (rl_of x g))" "mset (rl_live_rems (rl_of x h)) = mset (rl_live_rems (rl_of x g))"
    by (simp_all add: rl_live_adds_def rl_live_rems_def So po mset_filter)
  have win: "rl_winner (rl_live_adds (rl_of x h)) = rl_winner (rl_live_adds (rl_of x g))"
    by (rule rl_winner_perm[OF live(1) rl_live_unique[of n]]) (use rl_of_exec[OF ex] in \<open>simp_all add: rl_exec_def\<close>)
  have "rl_writes (rl_of x h) c p = rl_writes (rl_of x g) c p" for c p
    by (rule sorted_by_unique[OF rl_writes_sorted[OF ch(1) ex ord] rl_writes_sorted[OF ch(2) exg og]]) (use So in \<open>simp add: rl_writes_def\<close>)
  then show "rl_shown (rl_of x h) = rl_shown (rl_of x g)" by (simp add: rl_shown_def fun_eq_iff)
  have "rl_live_rems (rl_of x h) = [] \<longleftrightarrow> rl_live_rems (rl_of x g) = []" using live(2) by (metis mset_zero_iff)
  then show "rl_outcome (rl_of x h) = rl_outcome (rl_of x g)" using win by (simp add: rl_outcome_def)
qed

lemma rl_reply_cong:
  "rl_outcome h = rl_outcome g \<Longrightarrow> rl_shown h = rl_shown g \<Longrightarrow> rl_reply x content h = rl_reply x content g"
  by (simp add: rl_reply_def rl_bitmap_def split: option.split)

lemma rl_order_unique:
  assumes "rl_order P h ns" "rl_order P g ns'" "set h = set g"
  shows "ns = ns'"
proof -
  have "rl_inserted (rl_of x h) \<longleftrightarrow> rl_inserted (rl_of x g)" for x using assms(3) by (simp add: rl_inserted_def rl_of_def)
  then show ?thesis using assms(1,2) unfolding rl_order_def by (intro sorted_by_unique[where f = "\<lambda>x. leid_key (fst (the (P x)))"]) auto
qed

text \<open>If all predecessors have arrived, nothing waits.\<close>

lemma rl_list_complete:
  assumes l: "rl_list n P cs h s ht" and ex: "rl_exec n cs" and cl: "vc_closed n (rl_ct ` set cs)"
  shows "rl_ops ht = []" "mset h = mset cs"
proof -
  have m: "mset (h @ rl_ops ht) = mset cs" using l by (simp add: rl_list_def)
  have "rl_exec n (h @ rl_ops ht)" using rl_list_exec(1)[OF l ex] .
  moreover have "vc_closed n (rl_ct ` set (h @ rl_ops ht))" using cl mset_eq_setD[OF m] by simp
  ultimately show o: "rl_ops ht = []"
    using causal_waits[of n rl_ct h "vector (rl_current (s, ht))" "rl_ops ht"] l unfolding rl_list_def rl_exec_def by blast
  show "mset h = mset cs" using m o by simp
qed

text \<open>
  Concurrent updates of a property may leave different values. \<open>u\<^sub>2\<close> has seen \<open>u\<^sub>1\<close>, and \<open>u\<^sub>3\<close> is concurrent to both. In
  the order \<open>u\<^sub>1, u\<^sub>2, u\<^sub>3\<close> the last one wins over \<open>u\<^sub>2\<close> by its larger id; in the order \<open>u\<^sub>3, u\<^sub>1, u\<^sub>2\<close> the first
  one loses against \<open>u\<^sub>1\<close>, and then \<open>u\<^sub>2\<close> loses against the joined clock, which carries the id of \<open>u\<^sub>1\<close>.
\<close>

lemma rlist_updates_diverge:
  fixes vs :: "list_prop \<Rightarrow> int"
  defines "a \<equiv> rl_aseNew 0 \<lparr>vector = [1, 0, 0], vc_id = 0\<rparr> vs 0"
    and "u1 \<equiv> rl_update_entry Font \<lparr>vector = [1, 0, 1], vc_id = 2\<rparr> 1"
    and "u2 \<equiv> rl_update_entry Font \<lparr>vector = [2, 0, 1], vc_id = 0\<rparr> 2"
    and "u3 \<equiv> rl_update_entry Font \<lparr>vector = [1, 1, 0], vc_id = 1\<rparr> 3"
  shows "ra_normal (u3 (u2 (u1 a))) Font = 3" "ra_normal (u2 (u1 (u3 a))) Font = 1"
  by (simp_all add: a_def u1_def u2_def u3_def rl_aseNew_def rl_update_entry_def vc_cmp_def vc_update_def vc_size_def)

section \<open>Properties\<close>

text \<open>
  C12 (what the list with causal delivery shows): a fresh replica accepts the messages of an execution, fewer than
  \<open>2 ^ 31\<close>, in any order; the origins give every identifier one position of its own and one content, and an
  element stands behind the element it names as predecessor. The commands \<open>h\<close> it has applied form a causal history, the other commands \<open>w\<close> wait and
  are not ready. \<open>rllist\<close> then answers with the number of visible elements and, in the order of the positions,
  the name, content and properties of each of them: an element is visible if one of its inserts and none of its
  removes is live, and starts with the properties of the live insert with the largest replica id. Each property then
  is changed by the updates of it that have seen this insert: an update takes effect if the clock of the property is before
  its clock, in the order \<open>clock_before\<close>. If one update has seen all the others, the property
  has its value.
\<close>

theorem rlist_answer:
  assumes "rlist_start n K P s" "\<forall>m \<in> set ms. rl_msg_ok n K P m" "rl_execution n ms" "length ms < 2 ^ 31"
    and "k \<in> K" "\<exists>m \<in> set ms. m ! 1 = k" "argv c = [cmd, k]"
  shows "\<exists>s' h w ns. run rl_deliver s ms = Some s' \<and> mset h + mset w = mset (rl_received ms k) \<and>
    causal_hist n [] (map rl_ct h) \<and> (\<forall>d \<in> set w. \<not> ready_after (hist_vec n (map rl_ct h)) (rl_ct d)) \<and>
    rl_order (P k) h ns \<and> rllistCommand s' c = Some (s', addReplies c (rl_view (P k) h ns)) \<and>
    (\<forall>x i p u. i \<in> set (rl_of x h) \<longrightarrow> u \<in> set (rl_writes (rl_of x h) i p) \<longrightarrow>
       (\<forall>e \<in> set (rl_writes (rl_of x h) i p). e = u \<or> vc_older (rl_ct e) (rl_ct u)) \<longrightarrow> rl_shown (rl_of x h) i p = rl_input p u)"
proof -
  obtain s' where s': "run rl_deliver s ms = Some s'" "rlist_state n K P (rl_received ms) s'" using rl_start_run[OF assms(1-3)] .
  obtain h ns where h: "rl_list n (P k) (rl_received ms k) h s' (rl_table s' k)" "rl_order (P k) h ns"
    "rllistCommand s' c = Some (s', addReplies c (rl_view (P k) h ns))"
    using rl_state_shows[OF s'(2) assms(5,3,4,6,7)] by blast
  have ch: "causal_hist n [] (map rl_ct h)" and ex: "rl_exec n h"
    using h(1) rl_list_exec(2)[OF h(1) rl_exec_received[OF assms(3)]] by (simp_all add: rl_list_def)
  have "rl_shown (rl_of x h) i p = rl_input p u" if "i \<in> set (rl_of x h)" "u \<in> set (rl_writes (rl_of x h) i p)"
    "\<forall>e \<in> set (rl_writes (rl_of x h) i p). e = u \<or> vc_older (rl_ct e) (rl_ct u)" for x i p u
    by (rule rl_last_write[of n, OF _ _ _ that])
      (use rl_of_exec[OF ex, of x] causal_hist_sorted[OF ch] ex in \<open>simp_all add: rl_exec_def distinct_map rl_of_def sorted_wrt_filter\<close>)
  then have last: "\<forall>x i p u. i \<in> set (rl_of x h) \<longrightarrow> u \<in> set (rl_writes (rl_of x h) i p) \<longrightarrow>
       (\<forall>e \<in> set (rl_writes (rl_of x h) i p). e = u \<or> vc_older (rl_ct e) (rl_ct u)) \<longrightarrow> rl_shown (rl_of x h) i p = rl_input p u" by blast
  show ?thesis
  proof (intro exI conjI)
    show "mset h + mset (rl_ops (rl_table s' k)) = mset (rl_received ms k)" "causal_hist n [] (map rl_ct h)"
      "\<forall>d \<in> set (rl_ops (rl_table s' k)). \<not> ready_after (hist_vec n (map rl_ct h)) (rl_ct d)" using h(1) by (auto simp: rl_list_def)
  qed (fact s'(1) h(2,3) last)+
qed

text \<open>
  C4 (convergence of the list with causal delivery): two fresh replicas that receive the same complete set of
  messages, fewer than \<open>2 ^ 31\<close>, in any two orders have applied all of them, and answer \<open>rllist\<close> alike, provided that no
  two updates of the same property of the same element are concurrent. The origins give every identifier one
  position of its own and one content, and an element stands behind the element it names as predecessor.
\<close>

theorem rlist_convergence:
  assumes s: "rlist_start n K P s" and t: "rlist_start n K P t" and ok: "\<forall>m \<in> set ms. rl_msg_ok n K P m"
    and ex: "rl_execution n ms" and cl: "rl_complete n ms" and small: "length ms < 2 ^ 31" and perm: "mset ms = mset ns"
    and k: "k \<in> K" "\<exists>m \<in> set ms. m ! 1 = k" and ord: "rl_ordered (rl_received ms k)" and c: "argv c = [cmd, k]"
  shows "\<exists>s' t' rs. run rl_deliver s ms = Some s' \<and> run rl_deliver t ns = Some t' \<and>
    rl_ops (rl_table s' k) = [] \<and> rl_ops (rl_table t' k) = [] \<and>
    rllistCommand s' c = Some (s', addReplies c rs) \<and> rllistCommand t' c = Some (t', addReplies c rs)"
proof -
  have S: "set ns = set ms" using mset_eq_setD[OF perm] by simp
  have rp: "mset (rl_received ns q) = mset (rl_received ms q)" for q by (simp add: rl_received_def perm mset_filter)
  have ex': "rl_execution n ns" using ex rl_exec_perm[OF rp] by (simp add: rl_execution_def S)
  have small': "length ns < 2 ^ 31" using small arg_cong[OF perm, of size] by simp
  have k': "\<exists>m \<in> set ns. m ! 1 = k" using k(2) S by simp
  have clk: "vc_closed n (rl_ct ` set (rl_received ms k))" using cl k(2) by (auto simp: rl_complete_def)
  obtain s' where s': "run rl_deliver s ms = Some s'" "rlist_state n K P (rl_received ms) s'" using rl_start_run[OF s ok ex] .
  obtain t' where t': "run rl_deliver t ns = Some t'" "rlist_state n K P (rl_received ns) t'" using rl_start_run[OF t _ ex'] ok S by auto
  obtain h os where h: "rl_list n (P k) (rl_received ms k) h s' (rl_table s' k)" "rl_order (P k) h os"
    "rllistCommand s' c = Some (s', addReplies c (rl_view (P k) h os))" using rl_state_shows[OF s'(2) k(1) ex small k(2) c] by blast
  obtain g os' where g: "rl_list n (P k) (rl_received ns k) g t' (rl_table t' k)" "rl_order (P k) g os'"
    "rllistCommand t' c = Some (t', addReplies c (rl_view (P k) g os'))" using rl_state_shows[OF t'(2) k(1) ex' small' k' c] by blast
  have clk': "vc_closed n (rl_ct ` set (rl_received ns k))" using clk mset_eq_setD[OF rp, of k] by simp
  note hc = rl_list_complete[OF h(1) rl_exec_received[OF ex] clk] and gc = rl_list_complete[OF g(1) rl_exec_received[OF ex'] clk']
  have hg: "mset h = mset g" using hc(2) gc(2) rp by simp
  have "causal_hist n [] (map rl_ct h)" "causal_hist n [] (map rl_ct g)" using h(1) g(1) by (simp_all add: rl_list_def)
  moreover have "rl_ordered h" using ord mset_eq_setD[OF hc(2)] by (simp add: rl_ordered_def)
  ultimately have "rl_outcome (rl_of x h) = rl_outcome (rl_of x g)" "rl_shown (rl_of x h) = rl_shown (rl_of x g)" for x
    using rl_outcome_perm[OF hg _ _ rl_list_exec(2)[OF h(1) rl_exec_received[OF ex]]] by blast+
  note out = this rl_reply_cong[OF this]
  have "os = os'" using rl_order_unique[OF h(2) g(2) mset_eq_setD[OF hg]] .
  then have "rl_view (P k) h os = rl_view (P k) g os'" by (simp add: rl_view_def out)
  then show ?thesis using s'(1) t'(1) hc(1) gc(1) h(3) g(3) by auto
qed

section \<open>Witnesses\<close>

text \<open>Two inserts of replica 0 and an update of replica 1 that has seen the first of them.\<close>

abbreviation (input) sample_rl_a :: "sds list" where
  "sample_rl_a \<equiv> [''rlinsert'', ''k'', ''null'', ''a'', ''A'', ''5'', ''5'', ''5'', ''5'', ''1,0,0'', ''1,0|0'']"

abbreviation (input) sample_rl_b :: "sds list" where
  "sample_rl_b \<equiv> [''rlinsert'', ''k'', ''a'', ''b'', ''B'', ''5'', ''5'', ''5'', ''5'', ''2,0,0'', ''2,0|0'']"

abbreviation (input) sample_rl_c :: "sds list" where
  "sample_rl_c \<equiv> [''rlupdate'', ''k'', ''a'', ''font'', ''5'', ''1,1|1'']"

lemma sample_rl_start: "0 \<le> i \<Longrightarrow> i < 2 \<Longrightarrow> rlist_start 2 {''k''} sample_places (started_server 2 i)"
  using sample_replica[of i] by (simp add: rlist_start_def sample_places_ok) (simp add: started_server_def)

lemma sample_rl_ok: "\<forall>m \<in> set [sample_rl_a, sample_rl_b, sample_rl_c]. rl_msg_ok 2 {''k''} sample_places m"
proof -
  have "rl_cmd_ok (sample_places ''k'') (rl_cmd_of m)" if "m \<in> {sample_rl_a, sample_rl_b, sample_rl_c}" for m
    using that by (auto simp: rl_cmd_ok_def rl_name_def rl_type_of_def rl_place_ok_def sample_leid sample_value list_reserved_def
        sample_places_def leid_key_def pos_key_def)
  then show ?thesis by (simp add: rl_msg_ok_def vc_text_def sample_vc vc_wf_def vc_size_def is_int32_def)
qed

lemma sample_rl_received:
  "rl_received [sample_rl_a, sample_rl_b, sample_rl_c] ''k'' = map rl_cmd_of [sample_rl_a, sample_rl_b, sample_rl_c]"
  "rl_ct ` set (map rl_cmd_of [sample_rl_a, sample_rl_b, sample_rl_c]) =
     {\<lparr>vector = [1, 0], vc_id = 0\<rparr>, \<lparr>vector = [2, 0], vc_id = 0\<rparr>, \<lparr>vector = [1, 1], vc_id = 1\<rparr>}"
  by (simp_all add: rl_received_def last_vc_def sample_vc)

lemma sample_rl_exec:
  "rl_execution 2 [sample_rl_a, sample_rl_b, sample_rl_c]" "rl_complete 2 [sample_rl_a, sample_rl_b, sample_rl_c]"
proof -
  let ?M = "{\<lparr>vector = [1, 0], vc_id = 0\<rparr>, \<lparr>vector = [2, 0], vc_id = 0\<rparr>, \<lparr>vector = [1, 1], vc_id = 1\<rparr>}"
  have "vc_causal 2 ?M" by (simp add: vc_causal_def vc_wf_def vc_size_def is_int32_def vc_seq_def vc_rid_def vle_def)
  then have "rl_exec 2 (map rl_cmd_of [sample_rl_a, sample_rl_b, sample_rl_c])"
    unfolding rl_exec_def sample_rl_received(2) by (simp add: last_vc_def sample_vc)
  then show "rl_execution 2 [sample_rl_a, sample_rl_b, sample_rl_c]" by (simp add: rl_execution_def sample_rl_received(1)[simplified])
  have "j = 1 \<or> j = 2" if "1 \<le> j" "j \<le> 2" for j :: int using that by linarith
  then have "vc_closed 2 ?M" by (auto simp: vc_closed_def vc_seq_def vc_rid_def less_2_cases_iff)
  then have "vc_closed 2 (rl_ct ` set (rl_received [sample_rl_a, sample_rl_b, sample_rl_c] ''k''))"
    unfolding sample_rl_received .
  then show "rl_complete 2 [sample_rl_a, sample_rl_b, sample_rl_c]" by (simp add: rl_complete_def)
qed

theorem rlist_answer_witness:
  "\<exists>s' h w ns. run rl_deliver (started_server 2 1) [sample_rl_a, sample_rl_b, sample_rl_c] = Some s' \<and>
    mset h + mset w = mset (rl_received [sample_rl_a, sample_rl_b, sample_rl_c] ''k'') \<and> causal_hist 2 [] (map rl_ct h) \<and>
    (\<forall>d \<in> set w. \<not> ready_after (hist_vec 2 (map rl_ct h)) (rl_ct d)) \<and> rl_order (sample_places ''k'') h ns \<and>
    rllistCommand s' (user_client [''rllist'', ''k'']) =
      Some (s', addReplies (user_client [''rllist'', ''k'']) (rl_view (sample_places ''k'') h ns)) \<and>
    (\<forall>x i p u. i \<in> set (rl_of x h) \<longrightarrow> u \<in> set (rl_writes (rl_of x h) i p) \<longrightarrow>
       (\<forall>e \<in> set (rl_writes (rl_of x h) i p). e = u \<or> vc_older (rl_ct e) (rl_ct u)) \<longrightarrow> rl_shown (rl_of x h) i p = rl_input p u)"
  by (rule rlist_answer[OF sample_rl_start sample_rl_ok sample_rl_exec(1)]) (simp_all add: user_client_def)

theorem rlist_convergence_witness:
  "\<exists>s' t' rs. run rl_deliver (started_server 2 0) [sample_rl_a, sample_rl_b, sample_rl_c] = Some s' \<and>
    run rl_deliver (started_server 2 1) [sample_rl_c, sample_rl_b, sample_rl_a] = Some t' \<and>
    rl_ops (rl_table s' ''k'') = [] \<and> rl_ops (rl_table t' ''k'') = [] \<and>
    rllistCommand s' (user_client [''rllist'', ''k'']) = Some (s', addReplies (user_client [''rllist'', ''k'']) rs) \<and>
    rllistCommand t' (user_client [''rllist'', ''k'']) = Some (t', addReplies (user_client [''rllist'', ''k'']) rs)"
proof (rule rlist_convergence[OF sample_rl_start sample_rl_start sample_rl_ok sample_rl_exec])
  show "rl_ordered (rl_received [sample_rl_a, sample_rl_b, sample_rl_c] ''k'')"
    unfolding sample_rl_received by (simp add: rl_ordered_def rl_type_of_def)
qed (simp_all add: user_client_def add_mset_commute)

end
