(* ===== verification/OZsetCorrect.thy ===== *)
theory OZsetCorrect
  imports OZset OSet
begin

text \<open>
  Correctness of the observed-remove sorted set (t_ozset.c): the pointers to the winning entries always lead to the
  entry of greatest tag and to the entry with the greatest sum of absolute increments, the score of an
  element is described in terms of the messages received, and replicas converge when
  increments arrive behind the adds they refer to.
\<close>

section \<open>Element invariant\<close>

definition oz_tags :: "oze \<Rightarrow> lc set" where
  "oz_tags e = oz_t ` set (oze_aset e)"

definition oz_removed :: "oze \<Rightarrow> lc set" where
  "oz_removed e = set (oze_rset e)"

text \<open>
  The numbers of the entries are given by functions of the tag: \<open>V\<close> the innate values, \<open>I\<close> the sums of
  increments, \<open>C\<close> the sums of their absolute values.
\<close>

definition oz_numbers :: "(lc \<Rightarrow> int) \<Rightarrow> (lc \<Rightarrow> int) \<Rightarrow> (lc \<Rightarrow> int) \<Rightarrow> oz_ase \<Rightarrow> bool" where
  "oz_numbers V I C a \<longleftrightarrow> oz_x a = Some (Fin (of_int (V (oz_t a)))) \<and>
     oz_inc a = Fin (of_int (I (oz_t a))) \<and> oz_count a = Fin (of_int (C (oz_t a)))"

definition oz_wf :: "(lc \<Rightarrow> int) \<Rightarrow> (lc \<Rightarrow> int) \<Rightarrow> (lc \<Rightarrow> int) \<Rightarrow> oze \<Rightarrow> bool" where
  "oz_wf V I C e \<longleftrightarrow>
     distinct (map oz_addr (oze_aset e)) \<and> distinct (map oz_t (oze_aset e)) \<and>
     (\<forall>a \<in> set (oze_aset e). oz_addr a < oze_fresh e \<and> lc_nonneg (oz_t a) \<and> oz_numbers V I C a) \<and>
     (\<forall>t \<in> set (oze_rset e). lc_nonneg t) \<and> oz_tags e \<inter> oz_removed e = {}"

definition acq_key :: "(lc \<Rightarrow> int) \<Rightarrow> lc \<Rightarrow> int \<times> int \<times> int" where
  "acq_key C t = (C t, tag_key t)"

definition oz_ptrs :: "(lc \<Rightarrow> int) \<Rightarrow> oze \<Rightarrow> bool" where
  "oz_ptrs C e \<longleftrightarrow>
     (\<forall>p. oze_innate e = Some p \<longrightarrow> (\<exists>a \<in> set (oze_aset e). oz_addr a = p \<and>
        (\<forall>b \<in> set (oze_aset e). tag_key (oz_t b) \<le> tag_key (oz_t a)))) \<and>
     (\<forall>p. oze_acquired e = Some p \<longrightarrow> (\<exists>a \<in> set (oze_aset e). oz_addr a = p \<and>
        (\<forall>b \<in> set (oze_aset e). C (oz_t b) = 0 \<or> acq_key C (oz_t b) \<le> acq_key C (oz_t a))))"

text \<open>Between the removal of tags and \<open>resort\<close> a pointer may be NULL although entries are left.\<close>

definition oz_settled :: "(lc \<Rightarrow> int) \<Rightarrow> oze \<Rightarrow> bool" where
  "oz_settled C e \<longleftrightarrow> (oze_aset e \<noteq> [] \<longrightarrow> oze_innate e \<noteq> None) \<and>
     (oze_acquired e = None \<longrightarrow> (\<forall>a \<in> set (oze_aset e). C (oz_t a) = 0))"

definition oz_rep :: "(lc \<Rightarrow> int) \<Rightarrow> (lc \<Rightarrow> int) \<Rightarrow> (lc \<Rightarrow> int) \<Rightarrow> oze \<Rightarrow> bool" where
  "oz_rep V I C e \<longleftrightarrow> oz_wf V I C e \<and> oz_ptrs C e \<and> oz_settled C e"

lemma ozeNew_rep: "oz_rep V I C ozeNew" "oz_tags ozeNew = {}" "oz_removed ozeNew = {}" "oze_aset ozeNew = []"
  by (simp_all add: oz_rep_def oz_wf_def oz_ptrs_def oz_settled_def ozeNew_def oz_tags_def oz_removed_def)

lemma oz_ptr_update [simp]:
  "oz_tags (e\<lparr>oze_innate := p\<rparr>) = oz_tags e" "oz_tags (e\<lparr>oze_acquired := p\<rparr>) = oz_tags e"
  "oz_removed (e\<lparr>oze_innate := p\<rparr>) = oz_removed e" "oz_removed (e\<lparr>oze_acquired := p\<rparr>) = oz_removed e"
  "oz_wf V I C (e\<lparr>oze_innate := p\<rparr>) = oz_wf V I C e" "oz_wf V I C (e\<lparr>oze_acquired := p\<rparr>) = oz_wf V I C e"
  by (simp_all add: oz_wf_def oz_tags_def oz_removed_def)

lemma oz_tags_empty: "oz_tags e = {} \<longleftrightarrow> oze_aset e = []"
  by (simp add: oz_tags_def)

lemma oz_wf_distinct: "oz_wf V I C e \<Longrightarrow> distinct (map oz_addr (oze_aset e))"
  by (simp add: oz_wf_def)

lemma oz_wf_entry:
  assumes "oz_wf V I C e" "a \<in> set (oze_aset e)"
  shows "oze_deref e (oz_addr a) = Some a" "lc_nonneg (oz_t a)" "oz_numbers V I C a" "oz_addr a < oze_fresh e"
    "find (\<lambda>b. oz_t b = oz_t a) (oze_aset e) = Some a"
  using assms by (auto simp: oz_wf_def oze_deref_def intro!: find_unique)

lemma oz_rep_cong:
  assumes "oz_rep V I C e" "\<forall>t \<in> oz_tags e. V t = V' t \<and> I t = I' t \<and> C t = C' t"
  shows "oz_rep V' I' C' e"
proof -
  have eq: "V (oz_t a) = V' (oz_t a)" "I (oz_t a) = I' (oz_t a)" "C (oz_t a) = C' (oz_t a)" if "a \<in> set (oze_aset e)" for a
    using assms(2) that by (auto simp: oz_tags_def)
  have "oz_wf V' I' C' e" using assms(1) eq by (auto simp: oz_rep_def oz_wf_def oz_numbers_def)
  moreover have "oz_ptrs C' e" using assms(1) eq(3) by (fastforce simp: oz_rep_def oz_ptrs_def acq_key_def)
  moreover have "oz_settled C' e" using assms(1) eq(3) by (auto simp: oz_rep_def oz_settled_def)
  ultimately show ?thesis by (simp add: oz_rep_def)
qed

lemma rsetGet_spec:
  assumes "oz_wf V I C e" "lc_nonneg t"
  shows "snd (rsetGet e t False) = None \<longleftrightarrow> t \<notin> oz_removed e"
proof -
  have "find (\<lambda>a. lc_cmp_as_tag t a = 0) (oze_rset e) = find (\<lambda>a. t = a) (oze_rset e)"
    using assms by (intro find_cong_set) (auto simp: oz_wf_def lc_cmp_as_tag_eq)
  then show ?thesis
    by (auto simp: rsetGet_def oz_removed_def find_None_conv dest: find_Some_iff_first split: option.split)
qed

lemma aset_find:
  assumes "oz_wf V I C e" "lc_nonneg t"
  shows "find (\<lambda>a. lc_cmp_as_tag t (oz_t a) = 0) (oze_aset e) = find (\<lambda>a. oz_t a = t) (oze_aset e)"
  using assms by (intro find_cong_set) (auto simp: oz_wf_def lc_cmp_as_tag_eq)

lemma aset_find_None: "find (\<lambda>a. oz_t a = t) (oze_aset e) = None \<longleftrightarrow> t \<notin> oz_tags e"
  by (auto simp: find_None_conv oz_tags_def)

lemma oz_tags_entry:
  assumes "oz_wf V I C e" "t \<in> oz_tags e"
  obtains a where "a \<in> set (oze_aset e)" "oz_t a = t" "find (\<lambda>a. oz_t a = t) (oze_aset e) = Some a"
  using assms oz_wf_entry(5)[OF assms(1)] by (auto simp: oz_tags_def)

lemma oz_entry_eq: "oz_wf V I C e \<Longrightarrow> a \<in> set (oze_aset e) \<Longrightarrow> b \<in> set (oze_aset e) \<Longrightarrow>
    oz_addr a = oz_addr b \<or> oz_t a = oz_t b \<Longrightarrow> a = b"
  using oz_wf_entry(1,5) by (metis option.inject)

section \<open>The score\<close>

lemma innate_less_Some:
  assumes "oz_wf V I C e" "x \<in> set (oze_aset e)" "oze_innate e = Some (oz_addr x)" "lc_nonneg (oz_t a)"
  shows "innate_less e a = Some (tag_key (oz_t x) < tag_key (oz_t a))"
  using assms oz_wf_entry[OF assms(1,2)] by (simp add: innate_less_def lc_cmp_as_tag_less)

lemma acquired_less_Some:
  assumes "oz_wf V I C e" "x \<in> set (oze_aset e)" "oze_acquired e = Some (oz_addr x)" "lc_nonneg (oz_t a)"
    "oz_count a = Fin (of_int (C (oz_t a)))"
  shows "acquired_less e a = Some (acq_key C (oz_t x) < acq_key C (oz_t a))"
  using assms oz_wf_entry[OF assms(1,2)]
  by (auto simp: acquired_less_def lc_cmp_as_tag_less oz_numbers_def dlt_def deq_def acq_key_def)

lemma less_None:
  "oze_innate e = None \<Longrightarrow> innate_less e a = Some True" "oze_acquired e = None \<Longrightarrow> acquired_less e a = Some True"
  by (simp_all add: innate_less_def acquired_less_def)

text \<open>
  The acquired value among the tags \<open>T\<close>: the increments of the tag with the greatest sum of absolute values,
  0 if nothing was incremented. The score adds the innate value of the greatest tag.
\<close>

definition oz_acquired_is :: "(lc \<Rightarrow> int) \<Rightarrow> (lc \<Rightarrow> int) \<Rightarrow> lc set \<Rightarrow> int \<Rightarrow> bool" where
  "oz_acquired_is I C T i \<longleftrightarrow> (\<forall>u \<in> T. C u = 0) \<and> i = 0 \<or>
     (\<exists>u \<in> T. 0 < C u \<and> i = I u \<and> (\<forall>w \<in> T. acq_key C w \<le> acq_key C u))"

definition oz_innate_is :: "(lc \<Rightarrow> int) \<Rightarrow> lc set \<Rightarrow> int \<Rightarrow> bool" where
  "oz_innate_is V T v \<longleftrightarrow> (\<exists>t \<in> T. v = V t \<and> (\<forall>u \<in> T. tag_key u \<le> tag_key t))"

lemma oz_innate_unique: "oz_innate_is V T v \<Longrightarrow> oz_innate_is V T w \<Longrightarrow> v = w"
  unfolding oz_innate_is_def by (metis order_antisym tag_key_inj)

lemma acq_key_inj: "acq_key C t = acq_key C u \<longleftrightarrow> t = u"
  by (auto simp: acq_key_def tag_key_inj)

lemma oz_acquired_unique: "oz_acquired_is I C T i \<Longrightarrow> oz_acquired_is I C T j \<Longrightarrow> i = j"
  unfolding oz_acquired_is_def by (metis acq_key_inj less_irrefl order_antisym)

definition counts_ok :: "(lc \<Rightarrow> int) \<Rightarrow> (lc \<Rightarrow> int) \<Rightarrow> bool" where
  "counts_ok I C \<longleftrightarrow> (\<forall>t. \<bar>I t\<bar> \<le> C t)"

lemma counts_okD: "counts_ok I C \<Longrightarrow> \<bar>I t\<bar> \<le> C t" "counts_ok I C \<Longrightarrow> 0 \<le> C t" "counts_ok I C \<Longrightarrow> C t = 0 \<Longrightarrow> I t = 0"
  unfolding counts_ok_def by (metis abs_ge_zero order_trans abs_le_zero_iff)+

lemma oz_SCORE_spec:
  assumes r: "oz_rep V I C e" and ne: "oze_aset e \<noteq> []" and ok: "counts_ok I C"
  shows "\<exists>v i. oz_SCORE e = Some (dadd (Fin (of_int v)) (Fin (of_int i))) \<and> oz_innate_is V (oz_tags e) v \<and>
    oz_acquired_is I C (oz_tags e) i"
proof -
  have w: "oz_wf V I C e" using r by (simp add: oz_rep_def)
  obtain a where a: "a \<in> set (oze_aset e)" "oze_innate e = Some (oz_addr a)"
    "\<forall>b \<in> set (oze_aset e). tag_key (oz_t b) \<le> tag_key (oz_t a)"
    using r ne by (auto simp: oz_rep_def oz_settled_def oz_ptrs_def)
  have inn: "oz_innate_is V (oz_tags e) (V (oz_t a))" using a by (auto simp: oz_innate_is_def oz_tags_def)
  have x: "oze_deref e (oz_addr a) = Some a" "oz_x a = Some (Fin (of_int (V (oz_t a))))"
    using oz_wf_entry[OF w a(1)] by (simp_all add: oz_numbers_def)
  show ?thesis
  proof (cases "oze_acquired e")
    case None
    then have "oz_acquired_is I C (oz_tags e) 0"
      using r by (auto simp: oz_rep_def oz_settled_def oz_acquired_is_def oz_tags_def)
    moreover have "oz_SCORE e = Some (dadd (Fin (of_int (V (oz_t a)))) (Fin (of_int 0)))"
      using x a(2) None by (simp add: oz_SCORE_def)
    ultimately show ?thesis using inn by blast
  next
    case (Some p)
    obtain b where b: "b \<in> set (oze_aset e)" "p = oz_addr b"
      "\<forall>c \<in> set (oze_aset e). C (oz_t c) = 0 \<or> acq_key C (oz_t c) \<le> acq_key C (oz_t b)"
      using r Some by (auto simp: oz_rep_def oz_ptrs_def)
    have q: "oze_deref e p = Some b" "oz_inc b = Fin (of_int (I (oz_t b)))"
      using oz_wf_entry[OF w b(1)] b(2) by (simp_all add: oz_numbers_def)
    have le: "acq_key C u \<le> acq_key C (oz_t b)" if "u \<in> oz_tags e" "C (oz_t b) \<noteq> 0" for u
      using b(3) that counts_okD(2)[OF ok, of "oz_t b"] by (force simp: oz_tags_def acq_key_def)
    have z: "C u = 0" if "u \<in> oz_tags e" "C (oz_t b) = 0" for u
      using b(3) that counts_okD(2)[OF ok, of u] by (fastforce simp: oz_tags_def acq_key_def)
    have "oz_acquired_is I C (oz_tags e) (I (oz_t b))"
    proof (cases "C (oz_t b) = 0")
      case True
      then show ?thesis using z counts_okD(3)[OF ok] by (simp add: oz_acquired_is_def)
    next
      case False
      then have "0 < C (oz_t b)" using counts_okD(2)[OF ok, of "oz_t b"] by simp
      then show ?thesis using le False b(1) by (auto simp: oz_acquired_is_def oz_tags_def)
    qed
    moreover have "oz_SCORE e = Some (dadd (Fin (of_int (V (oz_t a)))) (Fin (of_int (I (oz_t b)))))"
      using x q a(2) Some by (simp add: oz_SCORE_def)
    ultimately show ?thesis using inn by blast
  qed
qed

section \<open>Adds\<close>

lemma update_innate_removed:
  assumes "oz_wf V I C e" "lc_nonneg t" "t \<in> oz_removed e"
  shows "update_innate_value e t v = Some (e, False)"
  using rsetGet_spec[OF assms(1,2)] assms(3) by (simp add: update_innate_value_def)

lemma oz_innate_entry:
  assumes "oz_rep V I C e" "oze_aset e \<noteq> []"
  obtains x where "x \<in> set (oze_aset e)" "oze_innate e = Some (oz_addr x)"
    "\<forall>b \<in> set (oze_aset e). tag_key (oz_t b) \<le> tag_key (oz_t x)"
  using assms by (auto simp: oz_rep_def oz_settled_def oz_ptrs_def)

lemma update_innate_same:
  assumes r: "oz_rep V I C e" and t: "lc_nonneg t" "t \<in> oz_tags e"
  shows "update_innate_value e t (Fin (of_int (V t))) = Some (e, False)"
proof -
  have w: "oz_wf V I C e" using r by (simp add: oz_rep_def)
  obtain a where a: "a \<in> set (oze_aset e)" "oz_t a = t" "find (\<lambda>a. oz_t a = t) (oze_aset e) = Some a"
    using oz_tags_entry[OF w t(2)] .
  obtain x where x: "x \<in> set (oze_aset e)" "oze_innate e = Some (oz_addr x)"
    "\<forall>b \<in> set (oze_aset e). tag_key (oz_t b) \<le> tag_key (oz_t x)"
    using oz_innate_entry[OF r] a(1) by (metis empty_iff list.set(1))
  have "map (\<lambda>b. if oz_addr b = oz_addr a then b\<lparr>oz_x := Some (Fin (of_int (V t)))\<rparr> else b) (oze_aset e) = oze_aset e"
  proof (rule map_idI)
    fix b assume b: "b \<in> set (oze_aset e)"
    then show "(if oz_addr b = oz_addr a then b\<lparr>oz_x := Some (Fin (of_int (V t)))\<rparr> else b) = b"
      using oz_entry_eq[OF w b a(1)] oz_wf_entry(3)[OF w a(1)] a(2) by (auto simp: oz_numbers_def)
  qed
  then have "oze_write e (oz_addr a) (\<lambda>b. b\<lparr>oz_x := Some (Fin (of_int (V t)))\<rparr>) = e" by (simp add: oze_write_def)
  moreover have "innate_less e a = Some False"
    using innate_less_Some[OF w x(1,2), of a] x(3) a t(1) by (auto simp: not_less)
  moreover have "t \<notin> oz_removed e" using w t(2) by (auto simp: oz_wf_def)
  ultimately show ?thesis
    using rsetGet_spec[OF w t(1)] aset_find[OF w t(1)] a(3) by (simp add: update_innate_value_def asetGet_def)
qed

text \<open>An element with an entry for a new tag.\<close>

definition oz_extend :: "oze \<Rightarrow> lc \<Rightarrow> int \<Rightarrow> oze" where
  "oz_extend e t v = e\<lparr>oze_aset := oze_aset e @
     [\<lparr>oz_addr = oze_fresh e, oz_t = t, oz_x = Some (Fin (of_int v)), oz_inc = dzero, oz_count = dzero\<rparr>],
     oze_fresh := Suc (oze_fresh e)\<rparr>"

lemma oz_extend_simps [simp]:
  "oze_innate (oz_extend e t v) = oze_innate e" "oze_acquired (oz_extend e t v) = oze_acquired e"
  "oze_current (oz_extend e t v) = oze_current e" "oz_removed (oz_extend e t v) = oz_removed e"
  "oz_tags (oz_extend e t v) = insert t (oz_tags e)" "oze_aset (oz_extend e t v) \<noteq> []"
  "set (oze_aset (oz_extend e t v)) = insert \<lparr>oz_addr = oze_fresh e, oz_t = t, oz_x = Some (Fin (of_int v)), oz_inc = dzero, oz_count = dzero\<rparr> (set (oze_aset e))"
  by (auto simp: oz_extend_def oz_removed_def oz_tags_def)

lemma oz_extend_wf:
  assumes w: "oz_wf V I C e" and t: "lc_nonneg t" "t \<notin> oz_tags e" "t \<notin> oz_removed e" "I t = 0" "C t = 0"
  shows "oz_wf (V(t := v)) I C (oz_extend e t v)"
proof -
  have ne: "oz_t a \<noteq> t" if "a \<in> set (oze_aset e)" for a using t(2) that by (auto simp: oz_tags_def)
  have "distinct (map oz_addr (oze_aset (oz_extend e t v)))" "distinct (map oz_t (oze_aset (oz_extend e t v)))"
    using w t(2) by (auto simp: oz_extend_def oz_wf_def oz_tags_def)
  moreover have "\<forall>t \<in> set (oze_rset (oz_extend e t v)). lc_nonneg t" using w by (simp add: oz_extend_def oz_wf_def)
  moreover have "oz_tags (oz_extend e t v) \<inter> oz_removed (oz_extend e t v) = {}" using w t(3) by (auto simp: oz_wf_def)
  moreover have "oz_addr a < oze_fresh (oz_extend e t v) \<and> lc_nonneg (oz_t a) \<and> oz_numbers (V(t := v)) I C a"
    if "a \<in> set (oze_aset (oz_extend e t v))" for a
  proof (cases "a \<in> set (oze_aset e)")
    case True
    then show ?thesis using oz_wf_entry[OF w True] ne[OF True] by (auto simp: oz_numbers_def oz_extend_def)
  next
    case False
    then show ?thesis using that t by (auto simp: oz_numbers_def oz_extend_def)
  qed
  ultimately show ?thesis by (simp add: oz_wf_def)
qed

lemma find_append_left: "find P xs = Some a \<Longrightarrow> find P (xs @ ys) = Some a"
  by (induction xs) auto

lemma oz_extend_deref:
  assumes "oz_wf V I C e" "a \<in> set (oze_aset e)"
  shows "oze_deref (oz_extend e t v) (oz_addr a) = Some a"
  using oz_wf_entry(1)[OF assms] by (simp add: oze_deref_def oz_extend_def find_append_left)

lemma oz_extend_score:
  assumes "oz_wf V I C e" "oz_ptrs C e"
  shows "oz_SCORE (oz_extend e t v) = oz_SCORE e"
proof -
  have "oze_deref (oz_extend e t v) p = oze_deref e p" if "oze_innate e = Some p \<or> oze_acquired e = Some p" for p
    using that assms oz_extend_deref[OF assms(1)] oz_wf_entry(1)[OF assms(1)] by (auto simp: oz_ptrs_def)
  then show ?thesis by (auto simp: oz_SCORE_def split: option.splits)
qed

lemma oz_add_write:
  assumes "oz_wf V I C e"
  shows "oze_write (fst (add_ase e t)) (oze_fresh e) (\<lambda>a. a\<lparr>oz_x := Some (Fin (of_int v))\<rparr>) = oz_extend e t v"
proof -
  have "map (\<lambda>a. if oz_addr a = oze_fresh e then a\<lparr>oz_x := Some (Fin (of_int v))\<rparr> else a) (oze_aset e) = oze_aset e"
    using oz_wf_entry(4)[OF assms] by (intro map_idI) fastforce
  then show ?thesis by (simp add: oze_write_def add_ase_def oz_extend_def Let_def)
qed

lemma update_innate_new:
  assumes r: "oz_rep V I C e" and t: "lc_nonneg t" "t \<notin> oz_tags e" "t \<notin> oz_removed e" "I t = 0" "C t = 0"
  shows "\<exists>e' b. update_innate_value e t (Fin (of_int v)) = Some (e', b) \<and> oz_rep (V(t := v)) I C e' \<and>
    oz_tags e' = insert t (oz_tags e) \<and> oz_removed e' = oz_removed e \<and> oze_current e' = oze_current e \<and>
    (\<not> b \<longrightarrow> oze_aset e \<noteq> [] \<and> oz_SCORE e' = oz_SCORE e)"
proof -
  have w: "oz_wf V I C e" and p: "oz_ptrs C e" and se: "oz_settled C e" using r by (auto simp: oz_rep_def)
  let ?e = "oz_extend e t v"
  note w' = oz_extend_wf[OF w t, of v]
  have u: "update_innate_value e t (Fin (of_int v)) = do {
      b \<leftarrow> innate_less ?e (snd (add_ase e t));
      if b then Some (?e\<lparr>oze_innate := Some (oze_fresh e)\<rparr>, True) else Some (?e, False) }"
    using rsetGet_spec[OF w t(1)] aset_find[OF w t(1)] t(2,3) aset_find_None[of t e] oz_add_write[OF w, of t v]
    by (simp add: update_innate_value_def asetGet_def add_ase_def Let_def cong del: if_weak_cong)
  have n: "oz_t (snd (add_ase e t)) = t" by (simp add: add_ase_def Let_def)
  have acq: "\<forall>q. oze_acquired e = Some q \<longrightarrow> (\<exists>a \<in> set (oze_aset ?e). oz_addr a = q \<and>
      (\<forall>b \<in> set (oze_aset ?e). C (oz_t b) = 0 \<or> acq_key C (oz_t b) \<le> acq_key C (oz_t a)))"
    using p t(5) by (auto simp: oz_ptrs_def)
  have set: "oz_settled C (?e\<lparr>oze_innate := Some q\<rparr>)" for q using se t(5) by (auto simp: oz_settled_def)
  have top: ?thesis if b: "innate_less ?e (snd (add_ase e t)) = Some True"
    and le: "\<forall>b \<in> set (oze_aset e). tag_key (oz_t b) \<le> tag_key t"
  proof -
    have "oz_ptrs C (?e\<lparr>oze_innate := Some (oze_fresh e)\<rparr>)" using acq le by (simp add: oz_ptrs_def)
    then show ?thesis using u b set w' by (auto simp: oz_rep_def)
  qed
  show ?thesis
  proof (cases "oze_aset e = []")
    case True
    then have "oze_innate e = None" using p by (auto simp: oz_ptrs_def)
    then show ?thesis using top True by (simp add: less_None)
  next
    case False
    obtain x where x: "x \<in> set (oze_aset e)" "oze_innate e = Some (oz_addr x)"
      "\<forall>b \<in> set (oze_aset e). tag_key (oz_t b) \<le> tag_key (oz_t x)" using oz_innate_entry[OF r False] .
    have l: "innate_less ?e (snd (add_ase e t)) = Some (tag_key (oz_t x) < tag_key t)"
      using innate_less_Some[OF w', where x = x and a = "snd (add_ase e t)"] x t(1) n by simp
    show ?thesis
    proof (cases "tag_key (oz_t x) < tag_key t")
      case True
      then have "\<forall>b \<in> set (oze_aset e). tag_key (oz_t b) \<le> tag_key t" using x(3) by force
      then show ?thesis using top l True by simp
    next
      case nless: False
      have "oz_ptrs C ?e" using acq x nless by (auto simp: oz_ptrs_def not_less)
      moreover have "oz_settled C ?e" using se t(5) x(2) by (auto simp: oz_settled_def)
      ultimately show ?thesis using u l nless w' False oz_extend_score[OF w p] by (auto simp: oz_rep_def)
    qed
  qed
qed

section \<open>Increments\<close>

lemma find_map_addr:
  "\<forall>a. oz_addr (f a) = oz_addr a \<Longrightarrow> find (\<lambda>a. oz_addr a = p) (map f xs) = map_option f (find (\<lambda>a. oz_addr a = p) xs)"
  by (induction xs) auto

text \<open>The entry of tag \<open>t\<close> incremented by \<open>v\<close>.\<close>

definition oz_bump :: "lc \<Rightarrow> int \<Rightarrow> oz_ase \<Rightarrow> oz_ase" where
  "oz_bump t v a =
     (if oz_t a = t then a\<lparr>oz_inc := dadd (oz_inc a) (Fin (of_int v)), oz_count := dadd (oz_count a) (Fin (of_int \<bar>v\<bar>))\<rparr>
      else a)"

lemma oz_bump_simps [simp]:
  "oz_addr (oz_bump t v a) = oz_addr a" "oz_t (oz_bump t v a) = oz_t a" "oz_x (oz_bump t v a) = oz_x a"
  "oz_t a \<noteq> t \<Longrightarrow> oz_bump t v a = a"
  by (simp_all add: oz_bump_def)

definition oz_bumped :: "lc \<Rightarrow> int \<Rightarrow> oze \<Rightarrow> oze" where
  "oz_bumped t v e = e\<lparr>oze_aset := map (oz_bump t v) (oze_aset e)\<rparr>"

lemma oz_bumped_simps [simp]:
  "oze_innate (oz_bumped t v e) = oze_innate e" "oze_acquired (oz_bumped t v e) = oze_acquired e"
  "oze_current (oz_bumped t v e) = oze_current e" "oz_removed (oz_bumped t v e) = oz_removed e"
  "oz_tags (oz_bumped t v e) = oz_tags e" "oze_aset (oz_bumped t v e) = [] \<longleftrightarrow> oze_aset e = []"
  "oze_deref (oz_bumped t v e) p = map_option (oz_bump t v) (oze_deref e p)"
  "set (oze_aset (oz_bumped t v e)) = oz_bump t v ` set (oze_aset e)"
  by (auto simp: oz_bumped_def oz_removed_def oz_tags_def oze_deref_def find_map_addr image_image)

definition small_sum :: "(lc \<Rightarrow> int) \<Rightarrow> (lc \<Rightarrow> int) \<Rightarrow> lc \<Rightarrow> int \<Rightarrow> bool" where
  "small_sum I C t v \<longleftrightarrow> \<bar>I t + v\<bar> < 2 ^ 53 \<and> \<bar>C t + \<bar>v\<bar>\<bar> < 2 ^ 53"

lemma oz_bump_numbers:
  assumes "oz_numbers V I C a" "small_sum I C t v"
  shows "oz_numbers V (I(t := I t + v)) (C(t := C t + \<bar>v\<bar>)) (oz_bump t v a)"
  using assms dadd_int_exact[of "I t" v] dadd_int_exact[of "C t" "\<bar>v\<bar>"]
  by (auto simp: oz_numbers_def oz_bump_def small_sum_def)

lemma oz_bumped_wf:
  assumes "oz_wf V I C e" "small_sum I C t v"
  shows "oz_wf V (I(t := I t + v)) (C(t := C t + \<bar>v\<bar>)) (oz_bumped t v e)"
proof -
  have "map oz_addr (oze_aset (oz_bumped t v e)) = map oz_addr (oze_aset e)"
    "map oz_t (oze_aset (oz_bumped t v e)) = map oz_t (oze_aset e)"
    "oze_fresh (oz_bumped t v e) = oze_fresh e" "oze_rset (oz_bumped t v e) = oze_rset e"
    by (simp_all add: oz_bumped_def)
  then show ?thesis using assms(1) oz_bump_numbers[OF _ assms(2)] by (simp add: oz_wf_def)
qed

lemma update_acquired_removed:
  assumes "oz_wf V I C e" "lc_nonneg t" "t \<in> oz_removed e"
  shows "update_acquired_value e t v = Some (e, False)"
  using rsetGet_spec[OF assms(1,2)] assms(3) by (simp add: update_acquired_value_def)

lemma dabs_int: "(if dlt dzero (Fin (of_int v)) then Fin (of_int v) else dneg (Fin (of_int v))) = Fin (of_int \<bar>v\<bar>)"
  by (simp add: dlt_def abs_if)

lemma update_acquired_unfold:
  assumes w: "oz_wf V I C e" and t: "lc_nonneg t" "a \<in> set (oze_aset e)" "oz_t a = t"
  shows "update_acquired_value e t (Fin (of_int v)) =
    (if oze_acquired e = Some (oz_addr a) then Some (oz_bumped t v e, True)
     else do {
       b \<leftarrow> acquired_less (oz_bumped t v e) (oz_bump t v a);
       if b then Some ((oz_bumped t v e)\<lparr>oze_acquired := Some (oz_addr a)\<rparr>, True) else Some (oz_bumped t v e, False)
     })"
proof -
  have "map (\<lambda>b. if oz_addr b = oz_addr a then oz_bump t v a else b) (oze_aset e) = map (oz_bump t v) (oze_aset e)"
  proof (rule map_cong[OF refl])
    fix b assume b: "b \<in> set (oze_aset e)"
    then show "(if oz_addr b = oz_addr a then oz_bump t v a else b) = oz_bump t v b"
      using oz_entry_eq[OF w b t(2)] t(3) by (cases "b = a") (auto simp: oz_bump_def)
  qed
  then have e: "oze_write e (oz_addr a) (\<lambda>_. oz_bump t v a) = oz_bumped t v e" by (simp add: oze_write_def oz_bumped_def)
  have bump: "a\<lparr>oz_inc := dadd (oz_inc a) (Fin (of_int v)),
      oz_count := dadd (oz_count a) (if dlt dzero (Fin (of_int v)) then Fin (of_int v) else dneg (Fin (of_int v)))\<rparr> = oz_bump t v a"
    using t(3) by (simp only: dabs_int oz_bump_def) simp
  have "t \<notin> oz_removed e" using w t(2,3) by (auto simp: oz_wf_def oz_tags_def)
  moreover have "find (\<lambda>a. oz_t a = t) (oze_aset e) = Some a" using oz_wf_entry(5)[OF w t(2)] t(3) by simp
  ultimately show ?thesis
    using rsetGet_spec[OF w t(1)] aset_find[OF w t(1)] e
    unfolding update_acquired_value_def asetGet_def
    by (simp only: bump option.case prod.case snd_conv Let_def if_False if_True not_None_eq simp_thms fst_conv) (simp cong: if_cong)
qed

lemma acq_key_bump:
  "acq_key (C(t := C t + \<bar>v\<bar>)) u = (if u = t then (C t + \<bar>v\<bar>, tag_key t) else acq_key C u)"
  by (simp add: acq_key_def)

lemma acq_key_grows: "acq_key C u \<le> acq_key (C(t := C t + \<bar>v\<bar>)) u"
  by (auto simp: acq_key_def)

lemma oz_bumped_score:
  assumes "oz_wf V I C e" "\<forall>p b. oze_acquired e = Some p \<longrightarrow> b \<in> set (oze_aset e) \<longrightarrow> oz_addr b = p \<longrightarrow> oz_t b \<noteq> t"
  shows "oz_SCORE (oz_bumped t v e) = oz_SCORE e"
proof -
  have "map_option oz_inc (map_option (oz_bump t v) (oze_deref e p)) = map_option oz_inc (oze_deref e p)"
    if p: "oze_acquired e = Some p" for p
  proof (cases "oze_deref e p")
    case (Some b)
    then have "b \<in> set (oze_aset e)" "oz_addr b = p" using find_Some_iff_first[of _ _ b] by (auto simp: oze_deref_def)
    then show ?thesis using assms(2) p Some by simp
  qed simp
  moreover have "Option.bind (map_option (oz_bump t v) (oze_deref e p)) oz_x = Option.bind (oze_deref e p) oz_x" for p
    by (cases "oze_deref e p") simp_all
  ultimately show ?thesis by (auto simp: oz_SCORE_def split: option.splits)
qed

text \<open>The tag whose increments grow stays above the tags it was above.\<close>

lemma acq_key_stays:
  assumes "C u = 0 \<or> acq_key C u \<le> acq_key C t"
  shows "(C(t := C t + \<bar>v\<bar>)) u = 0 \<or> acq_key (C(t := C t + \<bar>v\<bar>)) u \<le> acq_key (C(t := C t + \<bar>v\<bar>)) t"
proof (cases "u = t")
  case False
  then have eq: "(C(t := C t + \<bar>v\<bar>)) u = C u" "acq_key (C(t := C t + \<bar>v\<bar>)) u = acq_key C u" by (simp_all add: acq_key_def)
  have "acq_key C u \<le> acq_key C t \<Longrightarrow> acq_key C u \<le> acq_key (C(t := C t + \<bar>v\<bar>)) t" by (rule order_trans[OF _ acq_key_grows])
  then show ?thesis using assms unfolding eq by blast
qed simp

lemma oz_bumped_rep:
  assumes r: "oz_rep V I C e" and sm: "small_sum I C t v" and x: "x \<in> set (oze_aset e)"
    and m: "\<forall>b \<in> set (oze_aset e). (C(t := C t + \<bar>v\<bar>)) (oz_t b) = 0 \<or> acq_key (C(t := C t + \<bar>v\<bar>)) (oz_t b) \<le> acq_key (C(t := C t + \<bar>v\<bar>)) (oz_t x)"
  shows "oz_rep V (I(t := I t + v)) (C(t := C t + \<bar>v\<bar>)) ((oz_bumped t v e)\<lparr>oze_acquired := Some (oz_addr x)\<rparr>)"
proof -
  let ?C = "C(t := C t + \<bar>v\<bar>)" and ?e = "oz_bumped t v e"
  have w: "oz_wf V I C e" and p: "oz_ptrs C e" and se: "oz_settled C e" using r by (auto simp: oz_rep_def)
  have "\<forall>q. oze_innate e = Some q \<longrightarrow> (\<exists>a \<in> set (oze_aset ?e). oz_addr a = q \<and>
      (\<forall>b \<in> set (oze_aset ?e). tag_key (oz_t b) \<le> tag_key (oz_t a)))" using p by (auto simp: oz_ptrs_def)
  then have "oz_ptrs ?C (?e\<lparr>oze_acquired := Some (oz_addr x)\<rparr>)" using x m by (force simp: oz_ptrs_def)
  then show ?thesis using oz_bumped_wf[OF w sm] se by (simp add: oz_rep_def oz_settled_def)
qed

lemma update_acquired_present:
  assumes r: "oz_rep V I C e" and t: "lc_nonneg t" "t \<in> oz_tags e" and sm: "small_sum I C t v" and ok: "counts_ok I C"
  shows "\<exists>e' b. update_acquired_value e t (Fin (of_int v)) = Some (e', b) \<and>
    oz_rep V (I(t := I t + v)) (C(t := C t + \<bar>v\<bar>)) e' \<and>
    oz_tags e' = oz_tags e \<and> oz_removed e' = oz_removed e \<and> oze_current e' = oze_current e \<and>
    (\<not> b \<longrightarrow> oz_SCORE e' = oz_SCORE e)"
proof -
  let ?C = "C(t := C t + \<bar>v\<bar>)" and ?e = "oz_bumped t v e"
  have w: "oz_wf V I C e" and p: "oz_ptrs C e" and se: "oz_settled C e" using r by (auto simp: oz_rep_def)
  note w' = oz_bumped_wf[OF w sm]
  obtain a where a: "a \<in> set (oze_aset e)" "oz_t a = t" using oz_tags_entry[OF w t(2)] .
  note u = update_acquired_unfold[OF w t(1) a]
  note rep = oz_bumped_rep[OF r sm]
  show ?thesis
  proof (cases "oze_acquired e")
    case None
    then have "\<forall>b \<in> set (oze_aset e). C (oz_t b) = 0" using se by (simp add: oz_settled_def)
    then have "\<forall>b \<in> set (oze_aset e). ?C (oz_t b) = 0 \<or> acq_key ?C (oz_t b) \<le> acq_key ?C (oz_t a)" using a(2) by simp
    from rep[OF a(1) this] show ?thesis using u[of v] None by (auto simp: less_None)
  next
    case (Some q)
    obtain x where x: "x \<in> set (oze_aset e)" "oz_addr x = q"
      "\<forall>b \<in> set (oze_aset e). C (oz_t b) = 0 \<or> acq_key C (oz_t b) \<le> acq_key C (oz_t x)"
      using p Some by (auto simp: oz_ptrs_def)
    have keep: "?e\<lparr>oze_acquired := Some (oz_addr x)\<rparr> = ?e" using Some x(2) by (simp add: oz_bumped_def)
    show ?thesis
    proof (cases "x = a")
      case True
      have "\<forall>b \<in> set (oze_aset e). ?C (oz_t b) = 0 \<or> acq_key ?C (oz_t b) \<le> acq_key ?C (oz_t a)"
        using x(3) acq_key_stays[of C _ t v] unfolding True a(2) by blast
      then have "oz_rep V (I(t := I t + v)) ?C ?e" using rep[OF x(1), unfolded keep] unfolding True by blast
      moreover have "update_acquired_value e t (Fin (of_int v)) = Some (?e, True)" using u[of v] Some x(2) True by simp
      ultimately show ?thesis by (intro exI[of _ ?e] exI[of _ True]) simp
    next
      case ne: False
      then have ad: "oz_addr a \<noteq> q" "oz_t x \<noteq> t" using oz_entry_eq[OF w a(1) x(1)] x(2) a(2) by auto
      have cnt: "oz_count (oz_bump t v a) = Fin (of_int (?C (oz_t (oz_bump t v a))))" "lc_nonneg (oz_t (oz_bump t v a))"
        using oz_wf_entry[OF w', of "oz_bump t v a"] a(1) by (auto simp: oz_numbers_def)
      have xb: "x \<in> set (oze_aset ?e)" using x(1) ad(2) by (force simp: image_iff)
      have l: "acquired_less ?e (oz_bump t v a) = Some (acq_key ?C (oz_t x) < acq_key ?C t)"
        using acquired_less_Some[OF w' xb, of "oz_bump t v a"] cnt Some x(2) a(2) by simp
      show ?thesis
      proof (cases "acq_key ?C (oz_t x) < acq_key ?C t")
        case True
        have "\<forall>b \<in> set (oze_aset e). ?C (oz_t b) = 0 \<or> acq_key ?C (oz_t b) \<le> acq_key ?C (oz_t a)"
          using x(3) True a(2) ad(2) by (fastforce simp: acq_key_bump)
        note rep[OF a(1) this]
        moreover have "update_acquired_value e t (Fin (of_int v)) = Some (?e\<lparr>oze_acquired := Some (oz_addr a)\<rparr>, True)"
          using u[of v] Some ad(1) l True by simp
        ultimately show ?thesis by (intro exI[of _ "?e\<lparr>oze_acquired := Some (oz_addr a)\<rparr>"] exI[of _ True]) simp
      next
        case False
        have "\<forall>b \<in> set (oze_aset e). ?C (oz_t b) = 0 \<or> acq_key ?C (oz_t b) \<le> acq_key ?C (oz_t x)"
          using x(3) False ad(2) by (auto simp: acq_key_bump not_less)
        then have "oz_rep V (I(t := I t + v)) ?C ?e" using rep[OF x(1), unfolded keep] by blast
        moreover have "update_acquired_value e t (Fin (of_int v)) = Some (?e, False)" using u[of v] Some ad(1) l False by simp
        moreover have "oz_SCORE ?e = oz_SCORE e"
        proof (rule oz_bumped_score[OF w], intro allI impI)
          fix p b assume "oze_acquired e = Some p" "b \<in> set (oze_aset e)" "oz_addr b = p"
          then have "b = x" using oz_entry_eq[OF w _ x(1)] Some x(2) by auto
          then show "oz_t b \<noteq> t" using ad(2) by simp
        qed
        ultimately show ?thesis by (intro exI[of _ ?e] exI[of _ False]) simp
      qed
    qed
  qed
qed

lemma counts_ok_bump: "counts_ok I C \<Longrightarrow> counts_ok (I(t := I t + v)) (C(t := C t + \<bar>v\<bar>))"
  by (auto simp: counts_ok_def intro: order_trans[OF abs_triangle_ineq] add_mono)

lemma update_acquired_spec:
  assumes r: "oz_rep V I C e" and t: "lc_nonneg t" "t \<in> oz_tags e \<union> oz_removed e" and sm: "small_sum I C t v" and ok: "counts_ok I C"
  shows "\<exists>e' b. update_acquired_value e t (Fin (of_int v)) = Some (e', b) \<and>
    oz_rep V (I(t := I t + v)) (C(t := C t + \<bar>v\<bar>)) e' \<and>
    oz_tags e' = oz_tags e \<and> oz_removed e' = oz_removed e \<and> oze_current e' = oze_current e \<and>
    (\<not> b \<longrightarrow> oz_SCORE e' = oz_SCORE e) \<and> (b \<longrightarrow> oz_tags e \<noteq> {})"
proof (cases "t \<in> oz_removed e")
  case True
  have w: "oz_wf V I C e" using r by (simp add: oz_rep_def)
  then have "t \<notin> oz_tags e" using True by (auto simp: oz_wf_def)
  then have "oz_rep V (I(t := I t + v)) (C(t := C t + \<bar>v\<bar>)) e" by (intro oz_rep_cong[OF r]) auto
  then show ?thesis using update_acquired_removed[OF w t(1) True] by blast
next
  case False
  then show ?thesis using update_acquired_present[OF r t(1) _ sm ok] t(2) by blast
qed

lemma parsed_tags_Cons: "sdsToLc x = Some t \<Longrightarrow> parsed_tags (x # xs) = insert t (parsed_tags xs)"
  by (auto simp: parsed_tags_def)

lemma parsed_tags_distinct:
  "sdsToLc x = Some t \<Longrightarrow> distinct (map sdsToLc (x # xs)) \<Longrightarrow> t \<notin> parsed_tags xs"
  by (auto simp: parsed_tags_def)

text \<open>The sums after an increment by \<open>v\<close> of the tags \<open>T\<close>.\<close>

definition plus_on :: "lc set \<Rightarrow> int \<Rightarrow> (lc \<Rightarrow> int) \<Rightarrow> lc \<Rightarrow> int" where
  "plus_on T v I t = (if t \<in> T then I t + v else I t)"

lemma plus_on_insert: "t \<notin> T \<Longrightarrow> plus_on T v (I(t := I t + v)) = plus_on (insert t T) v I"
  by (auto simp: plus_on_def)

lemma plus_on_empty [simp]: "plus_on {} v I = I"
  by (auto simp: plus_on_def)

lemma oz_update_tags_spec:
  assumes "oz_rep V I C e" "counts_ok I C" "\<forall>y \<in> set xs. tag_text y" "distinct (map sdsToLc xs)"
    "parsed_tags xs \<subseteq> oz_tags e \<union> oz_removed e" "\<forall>t \<in> parsed_tags xs. small_sum I C t v"
  shows "\<exists>e' b. oz_update_tags xs (Fin (of_int v)) e = Some (e', b) \<and>
    oz_rep V (plus_on (parsed_tags xs) v I) (plus_on (parsed_tags xs) \<bar>v\<bar> C) e' \<and>
    oz_tags e' = oz_tags e \<and> oz_removed e' = oz_removed e \<and> oze_current e' = oze_current e \<and>
    (\<not> b \<longrightarrow> oz_SCORE e' = oz_SCORE e) \<and> (b \<longrightarrow> oz_tags e \<noteq> {})"
  using assms
proof (induction xs arbitrary: e I C)
  case (Cons x xs)
  obtain t where t: "sdsToLc x = Some t" "lc_nonneg t"
    using Cons.prems(3) by (auto simp: tag_text_def split: option.splits)
  note p = parsed_tags_Cons[OF t(1), of xs]
  note nt = parsed_tags_distinct[OF t(1) Cons.prems(4)]
  define I1 C1 where "I1 = I(t := I t + v)" and "C1 = C(t := C t + \<bar>v\<bar>)"
  obtain e1 b where e1: "update_acquired_value e t (Fin (of_int v)) = Some (e1, b)" "oz_rep V I1 C1 e1"
    "oz_tags e1 = oz_tags e" "oz_removed e1 = oz_removed e" "oze_current e1 = oze_current e" "\<not> b \<longrightarrow> oz_SCORE e1 = oz_SCORE e"
    "b \<longrightarrow> oz_tags e \<noteq> {}"
    using update_acquired_spec[OF Cons.prems(1) t(2) _ _ Cons.prems(2), of v] Cons.prems(5,6) unfolding p I1_def C1_def by blast
  have sm: "\<forall>u \<in> parsed_tags xs. small_sum I1 C1 u v"
    using Cons.prems(6) nt by (auto simp: p small_sum_def I1_def C1_def)
  have ok: "counts_ok I1 C1" using counts_ok_bump[OF Cons.prems(2)] by (simp only: I1_def C1_def)
  obtain e2 c where e2: "oz_update_tags xs (Fin (of_int v)) e1 = Some (e2, c)"
    "oz_rep V (plus_on (parsed_tags xs) v I1) (plus_on (parsed_tags xs) \<bar>v\<bar> C1) e2"
    "oz_tags e2 = oz_tags e1" "oz_removed e2 = oz_removed e1" "oze_current e2 = oze_current e1"
    "\<not> c \<longrightarrow> oz_SCORE e2 = oz_SCORE e1" "c \<longrightarrow> oz_tags e1 \<noteq> {}"
    using Cons.IH[OF e1(2) ok _ _ _ sm] Cons.prems(3-5) e1(3,4) by (auto simp: p)
  have "oz_update_tags (x # xs) (Fin (of_int v)) e = Some (e2, b \<or> c)" using t(1) e1(1) e2(1) by simp
  moreover have "plus_on (parsed_tags xs) v I1 = plus_on (parsed_tags (x # xs)) v I"
    "plus_on (parsed_tags xs) \<bar>v\<bar> C1 = plus_on (parsed_tags (x # xs)) \<bar>v\<bar> C"
    unfolding I1_def C1_def p by (rule plus_on_insert[OF nt])+
  ultimately show ?case using e1(3-7) e2(2-7) by auto
next
  case Nil
  then show ?case by (intro exI[of _ e] exI[of _ False]) (simp add: parsed_tags_def)
qed

section \<open>Removals\<close>

lemma remove_tag_removed:
  assumes "oz_wf V I C e" "lc_nonneg t" "t \<in> oz_removed e"
  shows "remove_tag e t = e" "t \<notin> oz_tags e"
  using rsetGet_spec[OF assms(1,2)] assms by (auto simp: remove_tag_def oz_wf_def)

lemma remove_tag_absent:
  assumes w: "oz_wf V I C e" and t: "lc_nonneg t" "t \<notin> oz_removed e" "t \<notin> oz_tags e"
  shows "remove_tag e t = e\<lparr>oze_rset := oze_rset e @ [t]\<rparr>"
proof -
  have "find (\<lambda>a. lc_cmp_as_tag t (oz_t a) = 0) (oze_aset e) = None"
    using aset_find[OF w t(1)] aset_find_None[of t e] t(3) by simp
  then show ?thesis using rsetGet_spec[OF w t(1)] t(2) by (simp add: remove_tag_def asetGet_def)
qed

text \<open>\<open>e'\<close> is \<open>e\<close> without the entry \<open>a\<close>, as \<open>remove_tag\<close> leaves it.\<close>

definition oz_without :: "oz_ase \<Rightarrow> oze \<Rightarrow> oze \<Rightarrow> bool" where
  "oz_without a e e' \<longleftrightarrow> oze_aset e' = remove1 a (oze_aset e) \<and> oze_rset e' = oze_rset e @ [oz_t a] \<and>
     oze_fresh e' = oze_fresh e \<and> oze_current e' = oze_current e \<and>
     oze_innate e' = (if oze_innate e = Some (oz_addr a) then None else oze_innate e) \<and>
     oze_acquired e' = (if oze_acquired e = Some (oz_addr a) then None else oze_acquired e)"

lemma remove_tag_present:
  assumes w: "oz_wf V I C e" and a: "a \<in> set (oze_aset e)"
  shows "oz_without a e (remove_tag e (oz_t a))"
proof -
  have t: "lc_nonneg (oz_t a)" "oz_t a \<notin> oz_removed e" using w a by (auto simp: oz_wf_def oz_tags_def)
  have "find (\<lambda>b. lc_cmp_as_tag (oz_t a) (oz_t b) = 0) (oze_aset e) = Some a"
    using aset_find[OF w t(1)] oz_wf_entry(5)[OF w a] by simp
  then show ?thesis using rsetGet_spec[OF w t(1)] t(2)
    by (auto simp: remove_tag_def asetGet_def Let_def oz_without_def)
qed

lemma oz_without_set:
  assumes "oz_wf V I C e" "oz_without a e e'"
  shows "set (oze_aset e') = set (oze_aset e) - {a}"
  using assms by (auto simp: oz_without_def oz_wf_def distinct_map)

lemma oz_without_wf:
  assumes w: "oz_wf V I C e" and a: "a \<in> set (oze_aset e)" and e': "oz_without a e e'"
  shows "oz_wf V I C e'" "oz_tags e' = oz_tags e - {oz_t a}" "oz_removed e' = insert (oz_t a) (oz_removed e)"
proof -
  note set' = oz_without_set[OF w e']
  show tags: "oz_tags e' = oz_tags e - {oz_t a}" unfolding oz_tags_def set' using a oz_entry_eq[OF w _ a] by auto
  show rm: "oz_removed e' = insert (oz_t a) (oz_removed e)" using e' by (simp add: oz_removed_def oz_without_def)
  have "distinct (map oz_addr (oze_aset e'))" "distinct (map oz_t (oze_aset e'))"
    using w e' by (simp_all add: oz_wf_def oz_without_def distinct_map_remove1)
  then show "oz_wf V I C e'" using w a set' tags rm e' by (auto simp: oz_wf_def oz_without_def)
qed

lemma oz_without_ptrs:
  assumes w: "oz_wf V I C e" and p: "oz_ptrs C e" and e': "oz_without a e e'"
  shows "oz_ptrs C e'"
proof -
  note set' = oz_without_set[OF w e']
  have x: "x \<in> set (oze_aset e')" if "x \<in> set (oze_aset e)" "oze_innate e' = Some (oz_addr x) \<or> oze_acquired e' = Some (oz_addr x)" for x
    using that set' e' by (auto simp: oz_without_def split: if_splits)
  show ?thesis unfolding oz_ptrs_def
  proof (intro conjI allI impI)
    fix q assume q: "oze_innate e' = Some q"
    then have "oze_innate e = Some q" using e' by (simp add: oz_without_def split: if_splits)
    then obtain x where "x \<in> set (oze_aset e)" "oz_addr x = q" "\<forall>b \<in> set (oze_aset e). tag_key (oz_t b) \<le> tag_key (oz_t x)"
      using p by (auto simp: oz_ptrs_def)
    then show "\<exists>a \<in> set (oze_aset e'). oz_addr a = q \<and> (\<forall>b \<in> set (oze_aset e'). tag_key (oz_t b) \<le> tag_key (oz_t a))"
      using x[of x] q set' by auto
  next
    fix q assume q: "oze_acquired e' = Some q"
    then have "oze_acquired e = Some q" using e' by (simp add: oz_without_def split: if_splits)
    then obtain x where "x \<in> set (oze_aset e)" "oz_addr x = q"
      "\<forall>b \<in> set (oze_aset e). C (oz_t b) = 0 \<or> acq_key C (oz_t b) \<le> acq_key C (oz_t x)"
      using p by (auto simp: oz_ptrs_def)
    then show "\<exists>a \<in> set (oze_aset e'). oz_addr a = q \<and>
        (\<forall>b \<in> set (oze_aset e'). C (oz_t b) = 0 \<or> acq_key C (oz_t b) \<le> acq_key C (oz_t a))"
      using x[of x] q set' by auto
  qed
qed

lemma oz_without_score:
  assumes w: "oz_wf V I C e" and p: "oz_ptrs C e" and a: "a \<in> set (oze_aset e)" and e': "oz_without a e e'"
    and s: "oze_innate e' \<noteq> None" "oze_acquired e' \<noteq> None"
  shows "oz_SCORE e' = oz_SCORE e"
proof -
  have "oze_deref e' q = oze_deref e q" if ptr: "oze_innate e' = Some q \<or> oze_acquired e' = Some q" for q
  proof -
    obtain y where "y \<in> set (oze_aset e')" "q = oz_addr y"
      using ptr oz_without_ptrs[OF w p e'] by (auto simp: oz_ptrs_def)
    then show ?thesis using oz_wf_entry(1)[OF oz_without_wf(1)[OF w a e'], of y] oz_wf_entry(1)[OF w, of y] oz_without_set[OF w e']
      by simp
  qed
  then show ?thesis using s e' by (auto simp: oz_SCORE_def oz_without_def split: if_splits)
qed

lemma remove_tag_spec:
  assumes w: "oz_wf V I C e" and p: "oz_ptrs C e" and t: "lc_nonneg t"
  shows "oz_wf V I C (remove_tag e t) \<and> oz_ptrs C (remove_tag e t) \<and> oz_tags (remove_tag e t) = oz_tags e - {t} \<and>
    oz_removed (remove_tag e t) = insert t (oz_removed e) \<and> oze_current (remove_tag e t) = oze_current e \<and>
    (oze_innate (remove_tag e t) \<noteq> None \<longrightarrow> oze_acquired (remove_tag e t) \<noteq> None \<longrightarrow>
      oze_innate e \<noteq> None \<and> oze_acquired e \<noteq> None \<and> oz_SCORE (remove_tag e t) = oz_SCORE e)"
proof -
  consider "t \<in> oz_removed e" | "t \<notin> oz_removed e" "t \<notin> oz_tags e" | "t \<in> oz_tags e" by blast
  then show ?thesis
  proof cases
    case 1
    with remove_tag_removed[OF w t] w p show ?thesis by auto
  next
    case 2
    with remove_tag_absent[OF w t] w p t show ?thesis
      by (auto simp: oz_wf_def oz_ptrs_def oz_tags_def oz_removed_def oz_SCORE_def oze_deref_def)
  next
    case 3
    then obtain a where a: "a \<in> set (oze_aset e)" "oz_t a = t" using oz_tags_entry[OF w] by metis
    note e' = remove_tag_present[OF w a(1), unfolded a(2)]
    have "oze_innate e \<noteq> None \<and> oze_acquired e \<noteq> None" if "oze_innate (remove_tag e t) \<noteq> None" "oze_acquired (remove_tag e t) \<noteq> None"
      using that e' by (auto simp: oz_without_def split: if_splits)
    moreover have "oze_current (remove_tag e t) = oze_current e" using e' by (simp add: oz_without_def)
    ultimately show ?thesis
      using oz_without_wf[OF w a(1) e'] oz_without_ptrs[OF w p e'] oz_without_score[OF w p a(1) e'] a(2) by blast
  qed
qed

lemma oz_remove_tags_spec:
  assumes "oz_wf V I C e" "oz_ptrs C e" "\<forall>x \<in> set xs. tag_text x"
  shows "\<exists>e'. oz_remove_tags xs e = Some e' \<and> oz_wf V I C e' \<and> oz_ptrs C e' \<and> oz_tags e' = oz_tags e - parsed_tags xs \<and>
    oz_removed e' = oz_removed e \<union> parsed_tags xs \<and> oze_current e' = oze_current e \<and>
    (oze_innate e' \<noteq> None \<longrightarrow> oze_acquired e' \<noteq> None \<longrightarrow>
      oze_innate e \<noteq> None \<and> oze_acquired e \<noteq> None \<and> oz_SCORE e' = oz_SCORE e)"
  using assms
proof (induction xs arbitrary: e)
  case (Cons x xs)
  obtain t where t: "sdsToLc x = Some t" "lc_nonneg t"
    using Cons.prems(3) by (auto simp: tag_text_def split: option.splits)
  note p = parsed_tags_Cons[OF t(1), of xs]
  note r = remove_tag_spec[OF Cons.prems(1,2) t(2)]
  obtain e' where e': "oz_remove_tags xs (remove_tag e t) = Some e'" "oz_wf V I C e'" "oz_ptrs C e'"
    "oz_tags e' = oz_tags (remove_tag e t) - parsed_tags xs" "oz_removed e' = oz_removed (remove_tag e t) \<union> parsed_tags xs"
    "oze_current e' = oze_current (remove_tag e t)"
    "oze_innate e' \<noteq> None \<longrightarrow> oze_acquired e' \<noteq> None \<longrightarrow>
      oze_innate (remove_tag e t) \<noteq> None \<and> oze_acquired (remove_tag e t) \<noteq> None \<and> oz_SCORE e' = oz_SCORE (remove_tag e t)"
    using Cons.IH[of "remove_tag e t"] r Cons.prems(3) by auto
  have "oz_remove_tags (x # xs) e = Some e'" using t(1) e'(1) by simp
  then show ?case using r e'(2-) unfolding p by (intro exI[of _ e']) auto
qed (simp add: parsed_tags_def)

text \<open>The pointers dominate the entries \<open>P\<close> that \<open>resort\<close> has visited.\<close>

definition ptrs_over :: "(lc \<Rightarrow> int) \<Rightarrow> oz_ase set \<Rightarrow> oze \<Rightarrow> bool" where
  "ptrs_over C P e \<longleftrightarrow>
     (oze_innate e = None \<and> P = {} \<or>
        (\<exists>x \<in> set (oze_aset e). oze_innate e = Some (oz_addr x) \<and> (\<forall>b \<in> P. tag_key (oz_t b) \<le> tag_key (oz_t x)))) \<and>
     (oze_acquired e = None \<and> P = {} \<or>
        (\<exists>x \<in> set (oze_aset e). oze_acquired e = Some (oz_addr x) \<and>
          (\<forall>b \<in> P. C (oz_t b) = 0 \<or> acq_key C (oz_t b) \<le> acq_key C (oz_t x))))"

lemma resort_innate_step:
  assumes w: "oz_wf V I C e" and a: "a \<in> set (oze_aset e)"
    and p: "oze_innate e = None \<and> P = {} \<or>
        (\<exists>x \<in> set (oze_aset e). oze_innate e = Some (oz_addr x) \<and> (\<forall>b \<in> P. tag_key (oz_t b) \<le> tag_key (oz_t x)))"
  shows "\<exists>b. innate_less e a = Some b \<and> (\<exists>x \<in> set (oze_aset e).
    (if b then Some (oz_addr a) else oze_innate e) = Some (oz_addr x) \<and> (\<forall>c \<in> insert a P. tag_key (oz_t c) \<le> tag_key (oz_t x)))"
proof (cases "oze_innate e")
  case None
  then show ?thesis using p a by (auto simp: less_None)
next
  case (Some q)
  then obtain x where x: "x \<in> set (oze_aset e)" "oze_innate e = Some (oz_addr x)" "\<forall>b \<in> P. tag_key (oz_t b) \<le> tag_key (oz_t x)"
    using p by auto
  note l = innate_less_Some[OF w x(1,2) oz_wf_entry(2)[OF w a]]
  show ?thesis
  proof (cases "tag_key (oz_t x) < tag_key (oz_t a)")
    case True
    then have "\<forall>c \<in> insert a P. tag_key (oz_t c) \<le> tag_key (oz_t a)" using x(3) by force
    then show ?thesis using l True a by (intro exI[of _ True] conjI bexI[of _ a]) simp_all
  next
    case False
    then have "\<forall>c \<in> insert a P. tag_key (oz_t c) \<le> tag_key (oz_t x)" using x(3) by (auto simp: not_less)
    then show ?thesis using l x False by (intro exI[of _ False] conjI bexI[of _ x]) simp_all
  qed
qed

lemma resort_acquired_step:
  assumes w: "oz_wf V I C e" and a: "a \<in> set (oze_aset e)"
    and p: "oze_acquired e = None \<and> P = {} \<or> (\<exists>x \<in> set (oze_aset e). oze_acquired e = Some (oz_addr x) \<and>
        (\<forall>b \<in> P. C (oz_t b) = 0 \<or> acq_key C (oz_t b) \<le> acq_key C (oz_t x)))"
  shows "\<exists>b. acquired_less e a = Some b \<and> (\<exists>x \<in> set (oze_aset e).
    (if b then Some (oz_addr a) else oze_acquired e) = Some (oz_addr x) \<and>
    (\<forall>c \<in> insert a P. C (oz_t c) = 0 \<or> acq_key C (oz_t c) \<le> acq_key C (oz_t x)))"
proof (cases "oze_acquired e")
  case None
  then show ?thesis using p a by (auto simp: less_None)
next
  case (Some q)
  then obtain x where x: "x \<in> set (oze_aset e)" "oze_acquired e = Some (oz_addr x)"
    "\<forall>b \<in> P. C (oz_t b) = 0 \<or> acq_key C (oz_t b) \<le> acq_key C (oz_t x)"
    using p by auto
  have l: "acquired_less e a = Some (acq_key C (oz_t x) < acq_key C (oz_t a))"
    using acquired_less_Some[OF w x(1,2)] oz_wf_entry[OF w a] by (simp add: oz_numbers_def)
  show ?thesis
  proof (cases "acq_key C (oz_t x) < acq_key C (oz_t a)")
    case True
    then have "\<forall>c \<in> insert a P. C (oz_t c) = 0 \<or> acq_key C (oz_t c) \<le> acq_key C (oz_t a)" using x(3) by force
    then show ?thesis using l True a by (intro exI[of _ True] conjI bexI[of _ a]) simp_all
  next
    case False
    then have "\<forall>c \<in> insert a P. C (oz_t c) = 0 \<or> acq_key C (oz_t c) \<le> acq_key C (oz_t x)" using x(3) by (auto simp: not_less)
    then show ?thesis using l x False by (intro exI[of _ False] conjI bexI[of _ x]) simp_all
  qed
qed

lemma resort_loop_spec:
  assumes "oz_wf V I C e" "set as \<subseteq> set (oze_aset e)" "ptrs_over C P e"
  shows "\<exists>i q. resort_loop as e = Some (e\<lparr>oze_innate := i, oze_acquired := q\<rparr>) \<and>
    ptrs_over C (P \<union> set as) (e\<lparr>oze_innate := i, oze_acquired := q\<rparr>)"
  using assms
proof (induction as arbitrary: e P)
  case (Cons a as)
  have a: "a \<in> set (oze_aset e)" using Cons.prems(2) by simp
  obtain b where b: "innate_less e a = Some b" "\<exists>x \<in> set (oze_aset e).
      (if b then Some (oz_addr a) else oze_innate e) = Some (oz_addr x) \<and> (\<forall>c \<in> insert a P. tag_key (oz_t c) \<le> tag_key (oz_t x))"
    using resort_innate_step[OF Cons.prems(1) a, of P] Cons.prems(3) unfolding ptrs_over_def by blast
  define e1 where "e1 = e\<lparr>oze_innate := (if b then Some (oz_addr a) else oze_innate e)\<rparr>"
  have e1: "oz_wf V I C e1" "a \<in> set (oze_aset e1)" "oze_aset e1 = oze_aset e" "oze_acquired e1 = oze_acquired e"
    using Cons.prems(1) a by (simp_all add: e1_def)
  obtain c where c: "acquired_less e1 a = Some c" "\<exists>x \<in> set (oze_aset e1).
      (if c then Some (oz_addr a) else oze_acquired e1) = Some (oz_addr x) \<and>
      (\<forall>c \<in> insert a P. C (oz_t c) = 0 \<or> acq_key C (oz_t c) \<le> acq_key C (oz_t x))"
    using resort_acquired_step[OF e1(1,2), of P] Cons.prems(3) unfolding ptrs_over_def e1(3,4) by blast
  define e2 where "e2 = e1\<lparr>oze_acquired := (if c then Some (oz_addr a) else oze_acquired e1)\<rparr>"
  have "ptrs_over C (insert a P) e2" using b(2) c(2) by (auto simp: ptrs_over_def e2_def e1_def)
  then obtain i q where iq: "resort_loop as e2 = Some (e2\<lparr>oze_innate := i, oze_acquired := q\<rparr>)"
    "ptrs_over C (insert a P \<union> set as) (e2\<lparr>oze_innate := i, oze_acquired := q\<rparr>)"
    using Cons.IH[of e2 "insert a P"] e1(1) Cons.prems(2) by (auto simp: e2_def e1(3))
  have eq: "e2\<lparr>oze_innate := i, oze_acquired := q\<rparr> = e\<lparr>oze_innate := i, oze_acquired := q\<rparr>" by (simp add: e2_def e1_def)
  have "e1 = (if b then e\<lparr>oze_innate := Some (oz_addr a)\<rparr> else e)" "e2 = (if c then e1\<lparr>oze_acquired := Some (oz_addr a)\<rparr> else e1)"
    by (simp_all add: e1_def e2_def)
  then have "resort_loop (a # as) e = resort_loop as e2" using b(1) c(1) by simp
  then show ?case using iq unfolding eq by (intro exI[of _ i] exI[of _ q]) simp
next
  case Nil
  then show ?case by (intro exI[of _ "oze_innate e"] exI[of _ "oze_acquired e"]) simp
qed

lemma resort_spec:
  assumes w: "oz_wf V I C e" and p: "oz_ptrs C e" and n: "oze_innate e = None \<or> oze_acquired e = None"
  shows "\<exists>e'. resort e = Some e' \<and> oz_rep V I C e' \<and> oz_tags e' = oz_tags e \<and> oz_removed e' = oz_removed e \<and>
    oze_current e' = oze_current e \<and> oze_aset e' = oze_aset e"
proof -
  have "ptrs_over C {} e" using p
    by (cases "oze_innate e"; cases "oze_acquired e") (auto simp: ptrs_over_def oz_ptrs_def)
  then obtain i q where r: "resort_loop (oze_aset e) e = Some (e\<lparr>oze_innate := i, oze_acquired := q\<rparr>)"
    "ptrs_over C (set (oze_aset e)) (e\<lparr>oze_innate := i, oze_acquired := q\<rparr>)"
    using resort_loop_spec[OF w, of "oze_aset e" "{}"] by auto
  then have "oz_rep V I C (e\<lparr>oze_innate := i, oze_acquired := q\<rparr>)"
    using w by (auto simp: oz_rep_def oz_ptrs_def oz_settled_def ptrs_over_def)
  then show ?thesis using r(1) n by (auto simp: resort_def)
qed

section \<open>Histories of an element\<close>

definition oz_is_add :: "sds list \<Rightarrow> bool" where
  "oz_is_add m \<longleftrightarrow> m ! 0 = ''ozadd''"

definition oz_is_incr :: "sds list \<Rightarrow> bool" where
  "oz_is_incr m \<longleftrightarrow> m ! 0 = ''ozincrby''"

text \<open>The whole number and the tags that a message carries.\<close>

definition oz_int :: "sds list \<Rightarrow> int" where
  "oz_int m = (case getDoubleFromObject (m ! 3) of Some (Fin r) \<Rightarrow> \<lfloor>r\<rfloor> | _ \<Rightarrow> 0)"

definition oz_msg_tags :: "sds list \<Rightarrow> lc set" where
  "oz_msg_tags m = parsed_tags (drop (if oz_is_add m \<or> oz_is_incr m then 4 else 3) m)"

definition oz_msg_ok :: "sds set \<Rightarrow> sds list \<Rightarrow> bool" where
  "oz_msg_ok K m \<longleftrightarrow> 3 \<le> length m \<and> m ! 1 \<in> K \<and>
     (if oz_is_add m \<or> oz_is_incr m
      then 4 \<le> length m \<and> getDoubleFromObject (m ! 3) = Some (Fin (of_int (oz_int m))) \<and>
        (\<forall>y \<in> set (drop 4 m). tag_text y) \<and> distinct (map sdsToLc (drop 4 m)) \<and> (oz_is_add m \<longrightarrow> length m = 5)
      else m ! 0 = ''ozrem'' \<and> (\<forall>y \<in> set (drop 3 m). tag_text y))"

definition oz_added :: "sds list list \<Rightarrow> lc set" where
  "oz_added H = (\<Union>m \<in> {m \<in> set H. oz_is_add m}. oz_msg_tags m)"

definition oz_deleted :: "sds list list \<Rightarrow> lc set" where
  "oz_deleted H = (\<Union>m \<in> {m \<in> set H. \<not> oz_is_add m \<and> \<not> oz_is_incr m}. oz_msg_tags m)"

definition oz_val :: "sds list list \<Rightarrow> lc \<Rightarrow> int" where
  "oz_val H t = (case find (\<lambda>m. oz_is_add m \<and> t \<in> oz_msg_tags m) H of None \<Rightarrow> 0 | Some m \<Rightarrow> oz_int m)"

definition oz_incs :: "sds list list \<Rightarrow> lc \<Rightarrow> int" where
  "oz_incs H t = sum_list (map (\<lambda>m. if oz_is_incr m \<and> t \<in> oz_msg_tags m then oz_int m else 0) H)"

definition oz_cnts :: "sds list list \<Rightarrow> lc \<Rightarrow> int" where
  "oz_cnts H t = sum_list (map (\<lambda>m. if oz_is_incr m \<and> t \<in> oz_msg_tags m then \<bar>oz_int m\<bar> else 0) H)"

definition oz_weight :: "sds list list \<Rightarrow> int" where
  "oz_weight H = sum_list (map (\<lambda>m. if oz_is_add m \<or> oz_is_incr m then \<bar>oz_int m\<bar> else 0) H)"

text \<open>An increment arrives behind the adds, or the removes, of the tags it names.\<close>

fun oz_causal :: "lc set \<Rightarrow> sds list list \<Rightarrow> bool" where
  "oz_causal S [] = True"
| "oz_causal S (m # ms) \<longleftrightarrow> (oz_is_incr m \<longrightarrow> oz_msg_tags m \<subseteq> S) \<and>
     oz_causal (if oz_is_incr m then S else S \<union> oz_msg_tags m) ms"

definition oz_unique :: "sds list list \<Rightarrow> bool" where
  "oz_unique H \<longleftrightarrow> (\<forall>m \<in> set H. \<forall>m' \<in> set H. oz_is_add m \<longrightarrow> oz_is_add m' \<longrightarrow>
     oz_msg_tags m \<inter> oz_msg_tags m' \<noteq> {} \<longrightarrow> oz_int m = oz_int m')"

definition oz_hist_ok :: "sds list list \<Rightarrow> bool" where
  "oz_hist_ok H \<longleftrightarrow> oz_causal {} H \<and> oz_unique H \<and> oz_weight H < 2 ^ 53"

lemma oz_add_incr: "oz_is_add m \<Longrightarrow> \<not> oz_is_incr m"
  by (simp add: oz_is_add_def oz_is_incr_def)

lemma oz_snoc:
  "oz_added (H @ [m]) = oz_added H \<union> (if oz_is_add m then oz_msg_tags m else {})"
  "oz_deleted (H @ [m]) = oz_deleted H \<union> (if oz_is_add m \<or> oz_is_incr m then {} else oz_msg_tags m)"
  "oz_incs (H @ [m]) t = oz_incs H t + (if oz_is_incr m \<and> t \<in> oz_msg_tags m then oz_int m else 0)"
  "oz_cnts (H @ [m]) t = oz_cnts H t + (if oz_is_incr m \<and> t \<in> oz_msg_tags m then \<bar>oz_int m\<bar> else 0)"
  "oz_weight (H @ [m]) = oz_weight H + (if oz_is_add m \<or> oz_is_incr m then \<bar>oz_int m\<bar> else 0)"
  by (auto simp: oz_added_def oz_deleted_def oz_incs_def oz_cnts_def oz_weight_def)

lemma oz_added_iff: "t \<in> oz_added H \<longleftrightarrow> find (\<lambda>m. oz_is_add m \<and> t \<in> oz_msg_tags m) H \<noteq> None"
  unfolding find_None_conv oz_added_def by auto

lemma oz_val_old: "t \<in> oz_added H \<Longrightarrow> oz_val (H @ [m]) t = oz_val H t"
  by (auto simp: oz_added_iff oz_val_def find_append_left split: option.splits)

lemma oz_val_other: "\<not> (oz_is_add m \<and> t \<in> oz_msg_tags m) \<Longrightarrow> oz_val (H @ [m]) t = oz_val H t"
  unfolding oz_val_def by (induction H) auto

lemma oz_val_new: "t \<notin> oz_added H \<Longrightarrow> oz_is_add m \<Longrightarrow> t \<in> oz_msg_tags m \<Longrightarrow> oz_val (H @ [m]) t = oz_int m"
  unfolding oz_val_def oz_added_def by (induction H) auto

lemma oz_val_again:
  assumes "oz_unique (H @ [m])" "oz_is_add m" "t \<in> oz_msg_tags m" "t \<in> oz_added H"
  shows "oz_val H t = oz_int m"
proof -
  obtain m' where f: "find (\<lambda>m. oz_is_add m \<and> t \<in> oz_msg_tags m) H = Some m'" using assms(4) by (auto simp: oz_added_iff)
  then show ?thesis using assms(1-3) find_Some_iff_first[OF f] by (auto simp: oz_val_def oz_unique_def)
qed

lemma oz_weight_nonneg: "0 \<le> oz_weight H"
  by (auto simp: oz_weight_def intro!: sum_list_nonneg)

lemma oz_causal_snoc:
  "oz_causal S (H @ [m]) \<longleftrightarrow> oz_causal S H \<and> (oz_is_incr m \<longrightarrow> oz_msg_tags m \<subseteq> S \<union> (oz_added H \<union> oz_deleted H))"
proof (induction H arbitrary: S)
  case (Cons a H)
  have "oz_added (a # H) \<union> oz_deleted (a # H) = (if oz_is_incr a then {} else oz_msg_tags a) \<union> (oz_added H \<union> oz_deleted H)"
    using oz_add_incr[of a] by (auto simp: oz_added_def oz_deleted_def)
  then show ?case by (simp add: Cons.IH Un_assoc)
qed (auto simp: oz_added_def oz_deleted_def)

lemma oz_hist_ok_snoc: "oz_hist_ok (H @ [m]) \<Longrightarrow> oz_hist_ok H"
  by (auto simp: oz_hist_ok_def oz_causal_snoc oz_unique_def oz_snoc split: if_splits)

lemma oz_causal_incs:
  assumes "oz_causal {} H" "t \<notin> oz_added H" "t \<notin> oz_deleted H"
  shows "oz_incs H t = 0 \<and> oz_cnts H t = 0"
  using assms
proof (induction H rule: rev_induct)
  case (snoc m H)
  then show ?case by (auto simp: oz_causal_snoc oz_snoc split: if_splits)
qed (simp add: oz_incs_def oz_cnts_def)

lemma oz_counts_ok: "counts_ok (oz_incs H) (oz_cnts H)"
proof -
  have "\<bar>oz_incs H t\<bar> \<le> oz_cnts H t" for t
    by (induction H) (auto simp: oz_incs_def oz_cnts_def)
  then show ?thesis by (simp add: counts_ok_def)
qed

lemma oz_val_cnts_weight: "\<bar>oz_val H t\<bar> + oz_cnts H u \<le> oz_weight H"
proof (induction H)
  case (Cons m H)
  have "0 \<le> oz_cnts H u" using counts_okD(2)[OF oz_counts_ok] .
  moreover have "oz_cnts H u \<le> oz_weight H" using Cons.IH by simp
  ultimately show ?case using Cons.IH oz_add_incr[of m]
    by (auto simp: oz_val_def oz_cnts_def oz_weight_def split: option.splits)
qed (simp add: oz_val_def oz_cnts_def oz_weight_def)

end
