(* ===== verification/OZsetDelivery.thy ===== *)
theory OZsetDelivery
  imports OZsetCorrect
begin

text \<open>
  Messages of the observed-remove sorted set (t_ozset.c): what a replica holds after any sequence of messages in which
  increments follow the adds they refer to, and that replicas which have received the same messages
  agree.
\<close>

section \<open>Steps of an element\<close>

definition oz_elem_ok :: "sds list list \<Rightarrow> oze \<Rightarrow> double option \<Rightarrow> bool" where
  "oz_elem_ok H e z \<longleftrightarrow> oz_rep (oz_val H) (oz_incs H) (oz_cnts H) e \<and> oz_tags e = oz_added H - oz_deleted H \<and>
     oz_removed e = oz_deleted H \<and> z = (if oze_aset e = [] then None else oz_SCORE e)"

lemma oz_elem_new: "oz_elem_ok [] ozeNew None"
  using ozeNew_rep by (simp add: oz_elem_ok_def oz_added_def oz_deleted_def)

lemma oz_elem_score:
  assumes "oz_elem_ok H e z" "oze_aset e \<noteq> []"
  shows "\<exists>sc. oz_SCORE e = Some sc \<and> sc \<noteq> NaN"
proof -
  obtain v i where "oz_SCORE e = Some (dadd (Fin (of_int v)) (Fin (of_int i)))"
    using oz_SCORE_spec[OF _ assms(2) oz_counts_ok, of "oz_val H" H] assms(1) unfolding oz_elem_ok_def by blast
  then show ?thesis by (simp add: round_double_def Let_def)
qed

text \<open>A step that changes no entry.\<close>

lemma oz_elem_keep:
  assumes ok: "oz_elem_ok H e z" and d: "oz_added (H @ [m]) - oz_deleted (H @ [m]) = oz_added H - oz_deleted H"
    "oz_deleted (H @ [m]) = oz_deleted H" and n: "\<not> oz_is_incr m"
  shows "oz_elem_ok (H @ [m]) e z"
proof -
  have "oz_rep (oz_val (H @ [m])) (oz_incs (H @ [m])) (oz_cnts (H @ [m])) e"
  proof (rule oz_rep_cong)
    show "oz_rep (oz_val H) (oz_incs H) (oz_cnts H) e" using ok by (simp add: oz_elem_ok_def)
    show "\<forall>t \<in> oz_tags e. oz_val H t = oz_val (H @ [m]) t \<and> oz_incs H t = oz_incs (H @ [m]) t \<and> oz_cnts H t = oz_cnts (H @ [m]) t"
      using ok n oz_val_old by (auto simp: oz_elem_ok_def oz_snoc)
  qed
  then show ?thesis using ok d by (simp add: oz_elem_ok_def)
qed

lemma oz_add_step:
  assumes ok: "oz_elem_ok H e z" and h: "oz_hist_ok (H @ [m])" and m: "oz_is_add m" "oz_msg_tags m = {t}" "lc_nonneg t"
  shows "\<exists>e' b. update_innate_value e t (Fin (of_int (oz_int m))) = Some (e', b) \<and>
    oz_elem_ok (H @ [m]) e' (if b then oz_SCORE e' else z) \<and> (b \<longrightarrow> oze_aset e' \<noteq> []) \<and> oze_current e' = oze_current e"
proof -
  have r: "oz_rep (oz_val H) (oz_incs H) (oz_cnts H) e" and tg: "oz_tags e = oz_added H - oz_deleted H" "oz_removed e = oz_deleted H"
    and z: "z = (if oze_aset e = [] then None else oz_SCORE e)" using ok by (simp_all add: oz_elem_ok_def)
  have w: "oz_wf (oz_val H) (oz_incs H) (oz_cnts H) e" using r by (simp add: oz_rep_def)
  have sn: "oz_added (H @ [m]) = insert t (oz_added H)" "oz_deleted (H @ [m]) = oz_deleted H" using m by (simp_all add: oz_snoc)
  consider (rem) "t \<in> oz_removed e" | (same) "t \<in> oz_tags e" | (new) "t \<notin> oz_tags e" "t \<notin> oz_removed e" by blast
  then show ?thesis
  proof cases
    case rem
    then have "oz_elem_ok (H @ [m]) e z" using sn tg oz_add_incr[OF m(1)] by (intro oz_elem_keep[OF ok]) auto
    then show ?thesis using update_innate_removed[OF w m(3) rem] by auto
  next
    case same
    then have "oz_elem_ok (H @ [m]) e z" using sn tg oz_add_incr[OF m(1)] by (intro oz_elem_keep[OF ok]) auto
    moreover have "oz_val H t = oz_int m" using h m same tg by (intro oz_val_again) (auto simp: oz_hist_ok_def)
    ultimately show ?thesis using update_innate_same[OF r m(3) same] by auto
  next
    case new
    then have na: "t \<notin> oz_added H" "t \<notin> oz_deleted H" using tg by auto
    then have zero: "oz_incs H t = 0" "oz_cnts H t = 0"
      using oz_causal_incs[of H t] h by (auto simp: oz_hist_ok_def oz_causal_snoc)
    obtain e' b where u: "update_innate_value e t (Fin (of_int (oz_int m))) = Some (e', b)"
      "oz_rep ((oz_val H)(t := oz_int m)) (oz_incs H) (oz_cnts H) e'" "oz_tags e' = insert t (oz_tags e)"
      "oz_removed e' = oz_removed e" "oze_current e' = oze_current e" "\<not> b \<longrightarrow> oze_aset e \<noteq> [] \<and> oz_SCORE e' = oz_SCORE e"
      using update_innate_new[OF r m(3) new zero, of "oz_int m"] by blast
    have ne: "oze_aset e' \<noteq> []" using u(3) oz_tags_empty[of e'] by auto
    have "oz_rep (oz_val (H @ [m])) (oz_incs (H @ [m])) (oz_cnts (H @ [m])) e'"
      using oz_val_new[OF na(1)] oz_val_other[of m] m oz_add_incr[OF m(1)]
      by (intro oz_rep_cong[OF u(2)]) (auto simp: oz_snoc)
    then have "oz_elem_ok (H @ [m]) e' (if b then oz_SCORE e' else z)"
      using u(3,4,6) tg sn na ne z by (auto simp: oz_elem_ok_def)
    then show ?thesis using u(1,5) ne by blast
  qed
qed

lemma oz_incr_step:
  assumes ok: "oz_elem_ok H e z" and h: "oz_hist_ok (H @ [m])" and m: "oz_is_incr m" "oz_msg_tags m = parsed_tags xs"
    "\<forall>y \<in> set xs. tag_text y" "distinct (map sdsToLc xs)"
  shows "\<exists>e' b. oz_update_tags xs (Fin (of_int (oz_int m))) e = Some (e', b) \<and>
    oz_elem_ok (H @ [m]) e' (if b then oz_SCORE e' else z) \<and> (b \<longrightarrow> oze_aset e' \<noteq> []) \<and> oze_current e' = oze_current e"
proof -
  have r: "oz_rep (oz_val H) (oz_incs H) (oz_cnts H) e" and tg: "oz_tags e = oz_added H - oz_deleted H" "oz_removed e = oz_deleted H"
    and z: "z = (if oze_aset e = [] then None else oz_SCORE e)" using ok by (simp_all add: oz_elem_ok_def)
  have na: "\<not> oz_is_add m" using m(1) oz_add_incr by blast
  have sub: "parsed_tags xs \<subseteq> oz_tags e \<union> oz_removed e"
    using h m(1,2) tg by (auto simp: oz_hist_ok_def oz_causal_snoc)
  have small: "small_sum (oz_incs H) (oz_cnts H) t (oz_int m)" if "t \<in> parsed_tags xs" for t
  proof -
    have "oz_cnts (H @ [m]) t \<le> oz_weight (H @ [m])" "\<bar>oz_incs (H @ [m]) t\<bar> \<le> oz_cnts (H @ [m]) t" "0 \<le> oz_cnts (H @ [m]) t"
      using oz_val_cnts_weight[of "H @ [m]" t t] counts_okD[OF oz_counts_ok] by simp_all
    then show ?thesis using h that m(1,2) unfolding oz_snoc(3,4) by (simp add: small_sum_def oz_hist_ok_def)
  qed
  obtain e' b where u: "oz_update_tags xs (Fin (of_int (oz_int m))) e = Some (e', b)"
    "oz_rep (oz_val H) (plus_on (parsed_tags xs) (oz_int m) (oz_incs H)) (plus_on (parsed_tags xs) \<bar>oz_int m\<bar> (oz_cnts H)) e'"
    "oz_tags e' = oz_tags e" "oz_removed e' = oz_removed e" "oze_current e' = oze_current e"
    "\<not> b \<longrightarrow> oz_SCORE e' = oz_SCORE e" "b \<longrightarrow> oz_tags e \<noteq> {}"
    using oz_update_tags_spec[OF r oz_counts_ok m(3,4) sub, of "oz_int m"] small by blast
  have "oz_rep (oz_val (H @ [m])) (oz_incs (H @ [m])) (oz_cnts (H @ [m])) e'"
    using na m(1,2) oz_val_other[of m] by (intro oz_rep_cong[OF u(2)]) (auto simp: oz_snoc plus_on_def)
  moreover have "oz_added (H @ [m]) = oz_added H" "oz_deleted (H @ [m]) = oz_deleted H" using na m(1) by (simp_all add: oz_snoc)
  moreover have "oze_aset e' = [] \<longleftrightarrow> oze_aset e = []" using u(3) oz_tags_empty by metis
  ultimately have "oz_elem_ok (H @ [m]) e' (if b then oz_SCORE e' else z)" "b \<longrightarrow> oze_aset e' \<noteq> []"
    using u(3,4,6,7) tg z oz_tags_empty[of e] by (auto simp: oz_elem_ok_def)
  then show ?thesis using u(1,5) by blast
qed

text \<open>The element operations of a remove: the tags are removed, and if a pointer was lost, both are found again.\<close>

lemma oz_rem_step:
  assumes ok: "oz_elem_ok H e z" and m: "\<not> oz_is_add m" "\<not> oz_is_incr m" "oz_msg_tags m = parsed_tags xs" "\<forall>y \<in> set xs. tag_text y"
  shows "\<exists>e1. oz_remove_tags xs e = Some e1 \<and> oze_current e1 = oze_current e \<and>
    (if oze_innate e1 = None \<or> oze_acquired e1 = None
     then \<exists>e2. resort e1 = Some e2 \<and> oz_elem_ok (H @ [m]) e2 (if oze_aset e2 = [] then None else oz_SCORE e2) \<and> oze_current e2 = oze_current e
     else oz_elem_ok (H @ [m]) e1 z)"
proof -
  have r: "oz_rep (oz_val H) (oz_incs H) (oz_cnts H) e" and tg: "oz_tags e = oz_added H - oz_deleted H" "oz_removed e = oz_deleted H"
    and z: "z = (if oze_aset e = [] then None else oz_SCORE e)" using ok by (simp_all add: oz_elem_ok_def)
  have fn: "oz_val (H @ [m]) = oz_val H" "oz_incs (H @ [m]) = oz_incs H" "oz_cnts (H @ [m]) = oz_cnts H"
    using m oz_val_other[of m] by (auto simp: oz_snoc)
  have sn: "oz_added (H @ [m]) = oz_added H" "oz_deleted (H @ [m]) = oz_deleted H \<union> parsed_tags xs" using m by (simp_all add: oz_snoc)
  obtain e1 where e1: "oz_remove_tags xs e = Some e1" "oz_wf (oz_val H) (oz_incs H) (oz_cnts H) e1" "oz_ptrs (oz_cnts H) e1"
    "oz_tags e1 = oz_tags e - parsed_tags xs" "oz_removed e1 = oz_removed e \<union> parsed_tags xs" "oze_current e1 = oze_current e"
    "oze_innate e1 \<noteq> None \<longrightarrow> oze_acquired e1 \<noteq> None \<longrightarrow>
      oze_innate e \<noteq> None \<and> oze_acquired e \<noteq> None \<and> oz_SCORE e1 = oz_SCORE e"
    using oz_remove_tags_spec[OF _ _ m(4), of "oz_val H" "oz_incs H" "oz_cnts H" e] r by (auto simp: oz_rep_def)
  have tags: "oz_tags e1 = oz_added (H @ [m]) - oz_deleted (H @ [m])" "oz_removed e1 = oz_deleted (H @ [m])"
    using e1(4,5) tg sn by auto
  show ?thesis
  proof (cases "oze_innate e1 = None \<or> oze_acquired e1 = None")
    case True
    obtain e2 where e2: "resort e1 = Some e2" "oz_rep (oz_val H) (oz_incs H) (oz_cnts H) e2" "oz_tags e2 = oz_tags e1"
      "oz_removed e2 = oz_removed e1" "oze_current e2 = oze_current e1"
      using resort_spec[OF e1(2,3) True] by blast
    then have "oz_elem_ok (H @ [m]) e2 (if oze_aset e2 = [] then None else oz_SCORE e2)"
      using tags by (simp add: oz_elem_ok_def fn)
    then show ?thesis using e1(1,6) e2(1,5) True by auto
  next
    case False
    then have ptr: "oze_innate e1 \<noteq> None" "oze_acquired e1 \<noteq> None" by auto
    then have ne: "oze_aset e1 \<noteq> []" "oze_aset e \<noteq> []"
      using e1(3) e1(7) r by (auto simp: oz_ptrs_def oz_rep_def)
    have "oz_rep (oz_val H) (oz_incs H) (oz_cnts H) e1" using e1(2,3) ptr by (auto simp: oz_rep_def oz_settled_def)
    then have "oz_elem_ok (H @ [m]) e1 z" using tags ne z e1(7) ptr by (simp add: oz_elem_ok_def fn)
    then show ?thesis using e1(1,6) False by auto
  qed
qed

section \<open>The server\<close>

definition ozset_state :: "sds set \<Rightarrow> sds list list \<Rightarrow> oze server \<Rightarrow> bool" where
  "ozset_state K ms s \<longleftrightarrow> store_inv ORI_RPQ_TABLE_SUFFIX K s \<and> REPLICATION_MODE s \<and>
     (\<forall>k \<in> K. \<forall>x. oz_elem_ok (filter (\<lambda>m. os_target m = (k, x)) ms)
        (case elem ORI_RPQ_TABLE_SUFFIX s k x of None \<Rightarrow> ozeNew | Some e \<Rightarrow> e) (zscore s k x))"

definition oz_deliver :: "oze server \<Rightarrow> sds list \<Rightarrow> oze server option" where
  "oz_deliver s m = deliver (if oz_is_add m then ozaddCommand else if oz_is_incr m then ozincrbyCommand else ozremCommand) s m"

lemma fresh_ozset_state: "fresh_server ORI_RPQ_TABLE_SUFFIX K s \<Longrightarrow> ozset_state K [] s"
  using oz_elem_new
  by (simp add: fresh_server_def ozset_state_def store_inv_def zset_slot_def hash_slot_def elem_def zscore_def)

lemma ozset_state_update:
  assumes st: "ozset_state K ms s" and m: "os_target m = (k, x)"
    and upd: "store_upd ORI_RPQ_TABLE_SUFFIX K s k x e z s'"
    and ok: "oz_elem_ok (filter (\<lambda>m. os_target m = (k, x)) ms @ [m]) e z"
  shows "ozset_state K (ms @ [m]) s'"
proof -
  have "REPLICATION_MODE s'"
    using st upd by (auto simp: ozset_state_def store_upd_def senv_def REPLICATION_MODE_def)
  then show ?thesis using st upd ok m by (simp add: ozset_state_def store_upd_def)
qed

text \<open>Writing back an element and, if its score may have changed, the score.\<close>

lemma oz_write:
  assumes "put_ok ORI_RPQ_TABLE_SUFFIX K s s1 k x z" "b \<longrightarrow> (\<exists>sc. oz_SCORE e = Some sc \<and> sc \<noteq> NaN)"
  shows "\<exists>s2 s3. PUT_OZE s1 k x e = Some s2 \<and>
    (if b then do { score \<leftarrow> oz_SCORE e; server_zsetAdd s2 k x score } else Some s2) = Some s3 \<and>
    store_upd ORI_RPQ_TABLE_SUFFIX K s k x e (if b then oz_SCORE e else z) s3"
proof -
  obtain s2 where s2: "rehHTPut s1 k ORI_RPQ_TABLE_SUFFIX x e = Some s2" "store_upd ORI_RPQ_TABLE_SUFFIX K s k x e z s2"
    "\<forall>sc. \<exists>s3. server_zsetAdd s2 k x sc = Some s3 \<and>
       store_upd ORI_RPQ_TABLE_SUFFIX K s k x e (if sc = NaN then z else Some sc) s3"
    using put_okE[OF assms(1)] .
  show ?thesis
  proof (cases b)
    case True
    then obtain sc where sc: "oz_SCORE e = Some sc" "sc \<noteq> NaN" using assms(2) by blast
    then show ?thesis using s2(1) s2(3)[rule_format, of sc] True by (auto simp: PUT_OZE_def)
  next
    case False
    then show ?thesis using s2(1,2) by (simp add: PUT_OZE_def)
  qed
qed

lemma oz_begin:
  assumes "ozset_state K ms s" "k \<in> K"
  obtains s1 e where "GET_OZE s k x True = Some (s1, Some e)" "put_ok ORI_RPQ_TABLE_SUFFIX K s s1 k x (zscore s k x)"
    "oz_elem_ok (filter (\<lambda>m. os_target m = (k, x)) ms) e (zscore s k x)"
proof -
  have st: "store_inv ORI_RPQ_TABLE_SUFFIX K s" using assms(1) by (simp add: ozset_state_def)
  show ?thesis
    using store_modify[OF st assms(2), of x ozeNew] that assms unfolding GET_OZE_def ozset_state_def by metis
qed

lemma ozadd_effect_spec:
  assumes st: "ozset_state K ms s" and k: "k \<in> K" and m: "m = [n, k, x, y, tag]" "oz_is_add m" "sdsToLc tag = Some t" "lc_nonneg t"
    "getDoubleFromObject y = Some (Fin (of_int (oz_int m)))"
    and h: "oz_hist_ok (filter (\<lambda>m. os_target m = (k, x)) (ms @ [m]))"
  shows "\<exists>s'. ozadd_effect s m = Some s' \<and> ozset_state K (ms @ [m]) s'"
proof -
  have tg: "os_target m = (k, x)" by (simp add: m(1) os_target_def)
  obtain s1 e where g: "GET_OZE s k x True = Some (s1, Some e)" "put_ok ORI_RPQ_TABLE_SUFFIX K s s1 k x (zscore s k x)"
    "oz_elem_ok (filter (\<lambda>m. os_target m = (k, x)) ms) e (zscore s k x)"
    using oz_begin[OF st k] .
  have tags: "oz_msg_tags m = {t}" using m(1,2,3) by (auto simp: oz_msg_tags_def parsed_tags_def)
  obtain e' b where u: "update_innate_value e t (Fin (of_int (oz_int m))) = Some (e', b)"
    "oz_elem_ok (filter (\<lambda>m. os_target m = (k, x)) ms @ [m]) e' (if b then oz_SCORE e' else zscore s k x)" "b \<longrightarrow> oze_aset e' \<noteq> []"
    using oz_add_step[OF g(3) _ m(2) tags m(4)] h tg by auto
  obtain s2 s3 where w: "PUT_OZE s1 k x e' = Some s2"
    "(if b then do { score \<leftarrow> oz_SCORE e'; server_zsetAdd s2 k x score } else Some s2) = Some s3"
    "store_upd ORI_RPQ_TABLE_SUFFIX K s k x e' (if b then oz_SCORE e' else zscore s k x) s3"
    using oz_write[OF g(2), of b e'] oz_elem_score[OF u(2)] u(3) by blast
  have "ozadd_effect s m = Some (s3\<lparr>dirty := dirty s3 + 1\<rparr>)"
    using m(1,3,5) g(1) u(1) w(1,2) by (simp add: ozadd_effect_def arg_def)
  then show ?thesis using ozset_state_update[OF st tg, of e' _ "s3\<lparr>dirty := dirty s3 + 1\<rparr>"] w(3) u(2) by auto
qed

lemma ozincrby_effect_spec:
  assumes st: "ozset_state K ms s" and k: "k \<in> K" and m: "m = n # k # x # y # tags" "oz_is_incr m" "\<forall>y \<in> set tags. tag_text y"
    "distinct (map sdsToLc tags)" "getDoubleFromObject y = Some (Fin (of_int (oz_int m)))"
    and h: "oz_hist_ok (filter (\<lambda>m. os_target m = (k, x)) (ms @ [m]))"
  shows "\<exists>s'. ozincrby_effect s m = Some s' \<and> ozset_state K (ms @ [m]) s'"
proof -
  have tg: "os_target m = (k, x)" by (simp add: m(1) os_target_def)
  obtain s1 e where g: "GET_OZE s k x True = Some (s1, Some e)" "put_ok ORI_RPQ_TABLE_SUFFIX K s s1 k x (zscore s k x)"
    "oz_elem_ok (filter (\<lambda>m. os_target m = (k, x)) ms) e (zscore s k x)"
    using oz_begin[OF st k] .
  have mt: "oz_msg_tags m = parsed_tags tags" using m(1,2) by (simp add: oz_msg_tags_def)
  obtain e' b where u: "oz_update_tags tags (Fin (of_int (oz_int m))) e = Some (e', b)"
    "oz_elem_ok (filter (\<lambda>m. os_target m = (k, x)) ms @ [m]) e' (if b then oz_SCORE e' else zscore s k x)" "b \<longrightarrow> oze_aset e' \<noteq> []"
    using oz_incr_step[OF g(3) _ m(2) mt m(3,4)] h tg by auto
  obtain s2 s3 where w: "PUT_OZE s1 k x e' = Some s2"
    "(if b then do { score \<leftarrow> oz_SCORE e'; server_zsetAdd s2 k x score } else Some s2) = Some s3"
    "store_upd ORI_RPQ_TABLE_SUFFIX K s k x e' (if b then oz_SCORE e' else zscore s k x) s3"
    using oz_write[OF g(2), of b e'] oz_elem_score[OF u(2)] u(3) by blast
  have "ozincrby_effect s m = Some (s3\<lparr>dirty := dirty s3 + 1\<rparr>)"
    using m(1,5) g(1) u(1) w(1,2) by (simp add: ozincrby_effect_def arg_def)
  then show ?thesis using ozset_state_update[OF st tg, of e' _ "s3\<lparr>dirty := dirty s3 + 1\<rparr>"] w(3) u(2) by auto
qed

lemma oz_finish:
  assumes "put_ok ORI_RPQ_TABLE_SUFFIX K s s1 k x z" "oz_elem_ok H e (if oze_aset e = [] then None else oz_SCORE e)"
  shows "\<exists>s2 s3. PUT_OZE s1 k x e = Some s2 \<and>
    (if oz_LOOKUP e then do { score \<leftarrow> oz_SCORE e; server_zsetAdd s2 k x score } else server_zsetDel s2 k x) = Some s3 \<and>
    store_upd ORI_RPQ_TABLE_SUFFIX K s k x e (if oze_aset e = [] then None else oz_SCORE e) s3"
proof -
  obtain s2 where s2: "rehHTPut s1 k ORI_RPQ_TABLE_SUFFIX x e = Some s2"
    "\<forall>sc. \<exists>s3. server_zsetAdd s2 k x sc = Some s3 \<and>
       store_upd ORI_RPQ_TABLE_SUFFIX K s k x e (if sc = NaN then z else Some sc) s3"
    "\<exists>s3. server_zsetDel s2 k x = Some s3 \<and> store_upd ORI_RPQ_TABLE_SUFFIX K s k x e None s3"
    using put_okE[OF assms(1)] .
  show ?thesis
  proof (cases "oze_aset e = []")
    case True
    then show ?thesis using s2(1,3) by (simp add: oz_LOOKUP_def PUT_OZE_def)
  next
    case False
    then obtain sc where "oz_SCORE e = Some sc" "sc \<noteq> NaN" using oz_elem_score[OF assms(2)] by blast
    then show ?thesis using s2(1) s2(2)[rule_format, of sc] False by (simp add: oz_LOOKUP_def PUT_OZE_def)
  qed
qed

lemma ozrem_effect_spec:
  assumes st: "ozset_state K ms s" and k: "k \<in> K" and m: "m = n # k # x # tags" "\<not> oz_is_add m" "\<not> oz_is_incr m"
    "\<forall>y \<in> set tags. tag_text y"
  shows "\<exists>s'. ozrem_effect s m = Some s' \<and> ozset_state K (ms @ [m]) s'"
proof -
  let ?H = "filter (\<lambda>m. os_target m = (k, x)) ms"
  have tg: "os_target m = (k, x)" by (simp add: m(1) os_target_def)
  obtain s1 e where g: "GET_OZE s k x True = Some (s1, Some e)" "put_ok ORI_RPQ_TABLE_SUFFIX K s s1 k x (zscore s k x)"
    "oz_elem_ok ?H e (zscore s k x)" using oz_begin[OF st k] .
  have mt: "oz_msg_tags m = parsed_tags tags" using m(1-3) by (simp add: oz_msg_tags_def)
  obtain e1 where e1: "oz_remove_tags tags e = Some e1"
    "if oze_innate e1 = None \<or> oze_acquired e1 = None
     then \<exists>e2. resort e1 = Some e2 \<and> oz_elem_ok (?H @ [m]) e2 (if oze_aset e2 = [] then None else oz_SCORE e2) \<and> oze_current e2 = oze_current e
     else oz_elem_ok (?H @ [m]) e1 (zscore s k x)"
    using oz_rem_step[OF g(3) m(2,3) mt m(4)] by blast
  show ?thesis
  proof (cases "oze_innate e1 = None \<or> oze_acquired e1 = None")
    case True
    then obtain e2 where e2: "resort e1 = Some e2" "oz_elem_ok (?H @ [m]) e2 (if oze_aset e2 = [] then None else oz_SCORE e2)"
      using e1(2) by auto
    obtain s2 s3 where s3: "PUT_OZE s1 k x e2 = Some s2"
      "(if oz_LOOKUP e2 then do { score \<leftarrow> oz_SCORE e2; server_zsetAdd s2 k x score } else server_zsetDel s2 k x) = Some s3"
      "store_upd ORI_RPQ_TABLE_SUFFIX K s k x e2 (if oze_aset e2 = [] then None else oz_SCORE e2) s3"
      using oz_finish[OF g(2) e2(2)] by blast
    have "ozrem_effect s m = Some (s3\<lparr>dirty := dirty s3 + 1\<rparr>)"
      using m(1) g(1) e1(1) True e2(1) s3(1,2) by (simp add: ozrem_effect_def arg_def)
    then show ?thesis using ozset_state_update[OF st tg, of e2 _ "s3\<lparr>dirty := dirty s3 + 1\<rparr>"] s3(3) e2(2) by auto
  next
    case False
    obtain s2 where s2: "rehHTPut s1 k ORI_RPQ_TABLE_SUFFIX x e1 = Some s2" "store_upd ORI_RPQ_TABLE_SUFFIX K s k x e1 (zscore s k x) s2"
      using put_okE[OF g(2)] .
    have "ozrem_effect s m = Some (s2\<lparr>dirty := dirty s2 + 1\<rparr>)"
      using m(1) g(1) e1(1) False s2(1) by (auto simp: ozrem_effect_def arg_def PUT_OZE_def)
    then show ?thesis using ozset_state_update[OF st tg, of e1 _ "s2\<lparr>dirty := dirty s2 + 1\<rparr>"] s2(2) e1(2) False by auto
  qed
qed

lemma ozset_deliver:
  assumes st: "ozset_state K ms s" and ok: "oz_msg_ok K m" and h: "oz_hist_ok (filter (\<lambda>m'. os_target m' = os_target m) (ms @ [m]))"
  shows "\<exists>s'. oz_deliver s m = Some s' \<and> ozset_state K (ms @ [m]) s'"
proof -
  have mode: "REPLICATION_MODE s" using st by (simp add: ozset_state_def)
  note rep = crdt_command_replica[OF mode]
  obtain n k x ys where m: "m = n # k # x # ys" "k \<in> K"
    using ok by (cases m rule: list.exhaust[case_product list.exhaust]) (auto simp: oz_msg_ok_def Suc_le_length_iff numeral_3_eq_3)
  have tg: "os_target m = (k, x)" by (simp add: m(1) os_target_def)
  consider (add) "oz_is_add m" | (incr) "\<not> oz_is_add m" "oz_is_incr m" | (rem) "\<not> oz_is_add m" "\<not> oz_is_incr m" by blast
  then show ?thesis
  proof cases
    case add
    then obtain y tag where y: "m = [n, k, x, y, tag]" using ok m(1) list5E[of m] by (auto simp: oz_msg_ok_def)
    then obtain t where "sdsToLc tag = Some t" "lc_nonneg t" using ok add by (auto simp: oz_msg_ok_def tag_text_def split: option.splits)
    moreover have "getDoubleFromObject y = Some (Fin (of_int (oz_int m)))" using ok add y by (simp add: oz_msg_ok_def)
    ultimately show ?thesis
      using ozadd_effect_spec[OF st m(2) y add] h tg rep add by (simp add: oz_deliver_def ozaddCommand_def)
  next
    case incr
    then obtain y tags where y: "m = n # k # x # y # tags" using ok m(1) by (cases ys) (auto simp: oz_msg_ok_def)
    then have "\<forall>y \<in> set tags. tag_text y" "distinct (map sdsToLc tags)" "getDoubleFromObject y = Some (Fin (of_int (oz_int m)))"
      using ok incr by (auto simp: oz_msg_ok_def)
    then show ?thesis
      using ozincrby_effect_spec[OF st m(2) y incr(2)] h tg rep incr by (simp add: oz_deliver_def ozincrbyCommand_def)
  next
    case rem
    then have "\<forall>y \<in> set ys. tag_text y" using ok m(1) by (simp add: oz_msg_ok_def)
    then show ?thesis using ozrem_effect_spec[OF st m(2,1) rem] rep rem by (simp add: oz_deliver_def ozremCommand_def)
  qed
qed

definition oz_run_ok :: "sds set \<Rightarrow> sds list list \<Rightarrow> bool" where
  "oz_run_ok K ms \<longleftrightarrow> (\<forall>m \<in> set ms. oz_msg_ok K m) \<and> (\<forall>q. oz_hist_ok (filter (\<lambda>m. os_target m = q) ms))"

lemma ozset_run:
  assumes "fresh_server ORI_RPQ_TABLE_SUFFIX K s" "oz_run_ok K ms"
  shows "\<exists>s'. run oz_deliver s ms = Some s' \<and> ozset_state K ms s'"
  using assms(2)
proof (induction ms rule: rev_induct)
  case Nil
  then show ?case using fresh_ozset_state[OF assms(1)] by simp
next
  case (snoc m ms)
  have h: "oz_hist_ok (filter (\<lambda>m. os_target m = q) (ms @ [m]))" for q using snoc.prems unfolding oz_run_ok_def by blast
  have "oz_hist_ok (filter (\<lambda>m. os_target m = q) ms)" for q
    using h[of q] oz_hist_ok_snoc[of "filter (\<lambda>m. os_target m = q) ms" m] by (simp split: if_splits)
  then have "oz_run_ok K ms" using snoc.prems by (simp add: oz_run_ok_def)
  then obtain s1 where "run oz_deliver s ms = Some s1" "ozset_state K ms s1" using snoc.IH by blast
  then show ?case using ozset_deliver[of K ms s1 m, OF _ _ h] snoc.prems by (auto simp: run_append oz_run_ok_def)
qed

section \<open>Outcome and convergence\<close>

text \<open>
  The score that the messages of an element give it: the innate value of the greatest tag that was added and not removed,
  plus the increments of the one with the greatest sum of absolute increments.
\<close>

definition oz_outcome :: "sds list list \<Rightarrow> double option \<Rightarrow> bool" where
  "oz_outcome H z \<longleftrightarrow>
     (let T = oz_added H - oz_deleted H
      in if T = {} then z = None
         else \<exists>v i. oz_innate_is (oz_val H) T v \<and> oz_acquired_is (oz_incs H) (oz_cnts H) T i \<and> z = Some (Fin (of_int (v + i))))"

lemma oz_elem_outcome:
  assumes ok: "oz_elem_ok H e z" and h: "oz_hist_ok H"
  shows "oz_outcome H z"
proof (cases "oze_aset e = []")
  case True
  then show ?thesis using ok oz_tags_empty[of e] by (auto simp: oz_elem_ok_def oz_outcome_def Let_def)
next
  case False
  have tg: "oz_tags e = oz_added H - oz_deleted H" using ok by (simp add: oz_elem_ok_def)
  obtain v i where s: "oz_SCORE e = Some (dadd (Fin (of_int v)) (Fin (of_int i)))" "oz_innate_is (oz_val H) (oz_tags e) v"
    "oz_acquired_is (oz_incs H) (oz_cnts H) (oz_tags e) i"
    using oz_SCORE_spec[OF _ False oz_counts_ok, of "oz_val H" H] ok unfolding oz_elem_ok_def by blast
  obtain t where t: "v = oz_val H t" using s(2) by (auto simp: oz_innate_is_def)
  obtain u where u: "\<bar>i\<bar> \<le> oz_cnts H u"
    using s(3) counts_okD[OF oz_counts_ok, of H] by (fastforce simp: oz_acquired_is_def)
  have "oz_weight H < 2 ^ 53" using h by (simp add: oz_hist_ok_def)
  then have "\<bar>v + i\<bar> < 2 ^ 53" using oz_val_cnts_weight[of H t u] abs_triangle_ineq[of v i] t u by linarith
  then have "oz_SCORE e = Some (Fin (of_int (v + i)))" using s(1) dadd_int_exact by simp
  moreover have "oz_added H - oz_deleted H \<noteq> {}" using False oz_tags_empty[of e] tg by simp
  ultimately show ?thesis using ok s(2,3) False unfolding tg by (auto simp: oz_elem_ok_def oz_outcome_def Let_def)
qed

lemma oz_perm:
  assumes "mset H = mset G"
  shows "oz_added H = oz_added G" "oz_deleted H = oz_deleted G" "oz_incs H = oz_incs G" "oz_cnts H = oz_cnts G"
proof -
  show "oz_added H = oz_added G" "oz_deleted H = oz_deleted G"
    using mset_eq_setD[OF assms] by (simp_all add: oz_added_def oz_deleted_def)
  have "sum_list (map f H) = sum_list (map f G)" for f :: "sds list \<Rightarrow> int"
    using assms by (metis mset_map sum_mset_sum_list)
  then show "oz_incs H = oz_incs G" "oz_cnts H = oz_cnts G" by (auto simp: oz_incs_def oz_cnts_def)
qed

lemma oz_val_perm:
  assumes "mset H = mset G" "oz_unique H" "t \<in> oz_added H"
  shows "oz_val H t = oz_val G t"
proof -
  let ?P = "\<lambda>m. oz_is_add m \<and> t \<in> oz_msg_tags m"
  obtain m where m: "find ?P H = Some m" using assms(3) by (auto simp: oz_added_iff)
  obtain m' where m': "find ?P G = Some m'" using assms(3) oz_perm(1)[OF assms(1)] by (auto simp: oz_added_iff)
  have "m \<in> set H" "m' \<in> set H" "?P m" "?P m'"
    using find_Some_iff_first[OF m] find_Some_iff_first[OF m'] mset_eq_setD[OF assms(1)] by auto
  then show ?thesis using assms(2) m m' by (auto simp: oz_val_def oz_unique_def)
qed

lemma oz_outcome_unique:
  assumes "mset H = mset G" "oz_unique H" "oz_outcome H z" "oz_outcome G y"
  shows "z = y"
proof (cases "oz_added H - oz_deleted H = {}")
  case True
  then show ?thesis using assms(3,4) oz_perm[OF assms(1)] by (simp add: oz_outcome_def Let_def)
next
  case False
  let ?T = "oz_added H - oz_deleted H"
  obtain v i where v: "oz_innate_is (oz_val H) ?T v" "oz_acquired_is (oz_incs H) (oz_cnts H) ?T i" "z = Some (Fin (of_int (v + i)))"
    using assms(3) False by (auto simp: oz_outcome_def Let_def)
  obtain w j where w: "oz_innate_is (oz_val G) ?T w" "oz_acquired_is (oz_incs H) (oz_cnts H) ?T j" "y = Some (Fin (of_int (w + j)))"
    using assms(4) False oz_perm[OF assms(1)] by (auto simp: oz_outcome_def Let_def)
  have "oz_innate_is (oz_val H) ?T w" using w(1) oz_val_perm[OF assms(1,2)] by (auto simp: oz_innate_is_def)
  then show ?thesis using v w oz_innate_unique oz_acquired_unique by metis
qed

lemma ozset_state_outcome:
  assumes "ozset_state K ms s" "oz_run_ok K ms" "k \<in> K"
  shows "oz_outcome (filter (\<lambda>m. os_target m = (k, x)) ms) (zscore s k x)"
proof (rule oz_elem_outcome)
  show "oz_elem_ok (filter (\<lambda>m. os_target m = (k, x)) ms)
      (case elem ORI_RPQ_TABLE_SUFFIX s k x of None \<Rightarrow> ozeNew | Some e \<Rightarrow> e) (zscore s k x)"
    using assms(1,3) unfolding ozset_state_def by blast
  show "oz_hist_ok (filter (\<lambda>m. os_target m = (k, x)) ms)" using assms(2) unfolding oz_run_ok_def by blast
qed

text \<open>
  C11 (score of an observed-remove priority queue): deliver any sequence of messages to a replica such that increments follow the adds
  they refer to, the values of an element are whole numbers whose absolute values sum up to less than \<open>2 ^ 53\<close>, and
  adds with the same tag have the same value. No message faults, and the score of an element is the innate value of its greatest tag
  that was not removed plus the increments of its most incremented one; without such a tag it is absent.
\<close>

theorem ozset_outcome:
  assumes "fresh_server ORI_RPQ_TABLE_SUFFIX K s" "oz_run_ok K ms"
  shows "\<exists>s'. run oz_deliver s ms = Some s' \<and>
    (\<forall>k \<in> K. \<forall>x. oz_outcome (filter (\<lambda>m. os_target m = (k, x)) ms) (zscore s' k x))"
proof -
  obtain s' where s': "run oz_deliver s ms = Some s'" "ozset_state K ms s'" using ozset_run[OF assms] by blast
  then show ?thesis using ozset_state_outcome assms(2) by blast
qed

text \<open>
  C9 (convergence of the observed-remove priority queue): two replicas that receive the same messages, each in an
  order in which increments follow the adds they refer to, end with the same scores, if the values of an element are
  whole numbers whose absolute values sum up to less than \<open>2 ^ 53\<close> and adds with the same tag have the same value.
\<close>

theorem ozset_convergence:
  assumes "fresh_server ORI_RPQ_TABLE_SUFFIX K s" "fresh_server ORI_RPQ_TABLE_SUFFIX K t" "oz_run_ok K ms" "oz_run_ok K ns"
    "mset ms = mset ns"
  shows "\<exists>s' t'. run oz_deliver s ms = Some s' \<and> run oz_deliver t ns = Some t' \<and>
    (\<forall>k \<in> K. \<forall>x. zscore s' k x = zscore t' k x)"
proof -
  obtain s' where s': "run oz_deliver s ms = Some s'" "ozset_state K ms s'" using ozset_run[OF assms(1,3)] by blast
  obtain t' where t': "run oz_deliver t ns = Some t'" "ozset_state K ns t'" using ozset_run[OF assms(2,4)] by blast
  have "zscore s' k x = zscore t' k x" if k: "k \<in> K" for k x
  proof (rule oz_outcome_unique)
    show "mset (filter (\<lambda>m. os_target m = (k, x)) ms) = mset (filter (\<lambda>m. os_target m = (k, x)) ns)" using assms(5) by simp
    show "oz_unique (filter (\<lambda>m. os_target m = (k, x)) ms)" using assms(3) by (simp add: oz_run_ok_def oz_hist_ok_def)
    show "oz_outcome (filter (\<lambda>m. os_target m = (k, x)) ms) (zscore s' k x)"
      using s'(2) assms(3) k by (rule ozset_state_outcome)
    show "oz_outcome (filter (\<lambda>m. os_target m = (k, x)) ns) (zscore t' k x)"
      using t'(2) assms(4) k by (rule ozset_state_outcome)
  qed
  then show ?thesis using s'(1) t'(1) by blast
qed

section \<open>Witnesses\<close>

lemma sample_oz_fresh: "fresh_server ORI_RPQ_TABLE_SUFFIX {''k''} (started_server 2 i)"
  by (rule started_fresh) (simp_all add: separated_def)

lemma sample_oz_double: "getDoubleFromObject ''5'' = Some (Fin 5)" "getDoubleFromObject ''3'' = Some (Fin 3)"
  using string2d_text[of 5] string2d_text[of 3] by (simp_all add: getDoubleFromObject_def text_eval)

lemma sample_oz_tags: "sdsToLc ''0,0'' = Some (lc_new 0 0)" "sdsToLc ''0,1'' = Some (lc_new 0 1)" "lc_nonneg (lc_new 0 0)" "lc_nonneg (lc_new 0 1)"
  by (simp_all add: sdsToLc_text[of "lc_new 0 0"] sdsToLc_text[of "lc_new 0 1"] text_eval lc_new_def)

abbreviation (input) sample_oz_add :: "sds list" where
  "sample_oz_add \<equiv> [''ozadd'', ''k'', ''x'', ''5'', ''0,0'']"

abbreviation (input) sample_oz_incr :: "sds list" where
  "sample_oz_incr \<equiv> [''ozincrby'', ''k'', ''x'', ''3'', ''0,0'']"

abbreviation (input) sample_oz_rem :: "sds list" where
  "sample_oz_rem \<equiv> [''ozrem'', ''k'', ''x'', ''0,1'']"

lemma sample_oz_msg:
  "oz_is_add sample_oz_add" "\<not> oz_is_add sample_oz_incr" "\<not> oz_is_add sample_oz_rem" "oz_is_incr sample_oz_incr"
  "\<not> oz_is_incr sample_oz_add" "\<not> oz_is_incr sample_oz_rem" "oz_int sample_oz_add = 5" "oz_int sample_oz_incr = 3"
  by (simp_all add: oz_is_add_def oz_is_incr_def oz_int_def sample_oz_double)

lemma sample_oz_msg_tags:
  "oz_msg_tags sample_oz_add = {lc_new 0 0}" "oz_msg_tags sample_oz_incr = {lc_new 0 0}" "oz_msg_tags sample_oz_rem = {lc_new 0 1}"
  by (simp_all add: oz_msg_tags_def sample_oz_msg parsed_tags_def sample_oz_tags)

lemma sample_oz_run:
  "oz_run_ok {''k''} [sample_oz_add, sample_oz_incr, sample_oz_rem]" "oz_run_ok {''k''} [sample_oz_rem, sample_oz_add, sample_oz_incr]"
proof -
  have t: "os_target sample_oz_add = (''k'', ''x'')" "os_target sample_oz_incr = (''k'', ''x'')" "os_target sample_oz_rem = (''k'', ''x'')"
    by (simp_all add: os_target_def)
  have ok: "oz_msg_ok {''k''} sample_oz_add" "oz_msg_ok {''k''} sample_oz_incr" "oz_msg_ok {''k''} sample_oz_rem"
    by (simp_all add: oz_msg_ok_def sample_oz_msg sample_oz_double tag_text_def sample_oz_tags)
  have w: "oz_weight [sample_oz_add, sample_oz_incr, sample_oz_rem] = 8" "oz_weight [sample_oz_rem, sample_oz_add, sample_oz_incr] = 8"
    by (simp_all add: oz_weight_def sample_oz_msg)
  have u: "oz_unique [sample_oz_add, sample_oz_incr, sample_oz_rem]" "oz_unique [sample_oz_rem, sample_oz_add, sample_oz_incr]"
    by (simp_all add: oz_unique_def sample_oz_msg)
  have c: "oz_causal {} [sample_oz_add, sample_oz_incr, sample_oz_rem]" "oz_causal {} [sample_oz_rem, sample_oz_add, sample_oz_incr]"
    by (simp_all add: sample_oz_msg sample_oz_msg_tags)
  have h: "oz_hist_ok [sample_oz_add, sample_oz_incr, sample_oz_rem]" "oz_hist_ok [sample_oz_rem, sample_oz_add, sample_oz_incr]" "oz_hist_ok []"
    using w u c by (simp_all only: oz_hist_ok_def) (simp_all add: oz_unique_def oz_weight_def)
  have "oz_hist_ok (filter (\<lambda>m. os_target m = q) [sample_oz_add, sample_oz_incr, sample_oz_rem])"
    "oz_hist_ok (filter (\<lambda>m. os_target m = q) [sample_oz_rem, sample_oz_add, sample_oz_incr])" for q
    using h by (cases "q = (''k'', ''x'')"; simp only: filter.simps t refl if_True; simp)+
  then show "oz_run_ok {''k''} [sample_oz_add, sample_oz_incr, sample_oz_rem]" "oz_run_ok {''k''} [sample_oz_rem, sample_oz_add, sample_oz_incr]"
    using ok unfolding oz_run_ok_def by (simp_all only: list.set ball_simps simp_thms)
qed

theorem ozset_outcome_witness:
  "\<exists>s'. run oz_deliver (started_server 2 0) [sample_oz_add, sample_oz_incr, sample_oz_rem] = Some s' \<and>
    (\<forall>k \<in> {''k''}. \<forall>x. oz_outcome (filter (\<lambda>m. os_target m = (k, x)) [sample_oz_add, sample_oz_incr, sample_oz_rem]) (zscore s' k x))"
  by (rule ozset_outcome[OF sample_oz_fresh sample_oz_run(1)])

theorem ozset_convergence_witness:
  "\<exists>s' t'. run oz_deliver (started_server 2 0) [sample_oz_add, sample_oz_incr, sample_oz_rem] = Some s' \<and>
    run oz_deliver (started_server 2 1) [sample_oz_rem, sample_oz_add, sample_oz_incr] = Some t' \<and>
    (\<forall>k \<in> {''k''}. \<forall>x. zscore s' k x = zscore t' k x)"
  by (rule ozset_convergence[OF sample_oz_fresh sample_oz_fresh sample_oz_run]) simp

text \<open>
  When an increment overtakes the add of its tag, \<open>add_ase\<close> leaves the innate value of the entry
  uninitialised, and a following remove reads it.
\<close>

abbreviation (input) overtaken_entry :: oze where
  "overtaken_entry \<equiv> \<lparr>oze_current = 0, oze_innate = None, oze_acquired = Some 0,
     oze_aset = [\<lparr>oz_addr = 0, oz_t = lc_new 0 0, oz_x = None, oz_inc = dadd dzero (Fin 3), oz_count = dadd dzero (Fin 3)\<rparr>],
     oze_rset = [], oze_fresh = 1\<rparr>"

lemma overtaken_incr:
  "oz_update_tags [''0,0''] (Fin 3) ozeNew = Some (overtaken_entry, True)"
  "\<exists>sc. oz_SCORE overtaken_entry = Some sc"
  by (simp_all add: sample_oz_tags update_acquired_value_def rsetGet_def asetGet_def add_ase_def ozeNew_def oze_write_def
      acquired_less_def oz_SCORE_def oze_deref_def dlt_def Let_def)

lemma overtaken_rem:
  "\<exists>e1 e2. oz_remove_tags [''0,1''] overtaken_entry = Some e1 \<and> oze_innate e1 = None \<and> resort e1 = Some e2 \<and> oz_LOOKUP e2 \<and> oz_SCORE e2 = None"
  by (simp add: sample_oz_tags remove_tag_def rsetGet_def asetGet_def lc_cmp_as_tag_def lc_new_def resort_def innate_less_def
      acquired_less_def oz_SCORE_def oze_deref_def dlt_def deq_def oz_LOOKUP_def Let_def)

lemma ozset_overtaken: "run oz_deliver (started_server 2 0) [sample_oz_incr, sample_oz_rem] = None"
proof -
  let ?s = "started_server 2 0 :: oze server"
  have st: "store_inv ORI_RPQ_TABLE_SUFFIX {''k''} ?s" "REPLICATION_MODE ?s" and el: "elem ORI_RPQ_TABLE_SUFFIX ?s ''k'' ''x'' = None"
    using fresh_ozset_state[OF sample_oz_fresh, of 0] by (simp_all add: ozset_state_def elem_def started_server_def)
  obtain s1 where s1: "rehHTGet ?s ''k'' ORI_RPQ_TABLE_SUFFIX ''x'' True ozeNew = Some (s1, Some ozeNew)"
    "put_ok ORI_RPQ_TABLE_SUFFIX {''k''} ?s s1 ''k'' ''x'' (zscore ?s ''k'' ''x'')"
    using store_modify[OF st(1), of "''k''" "''x''" ozeNew] el by auto
  obtain s2 where s2: "rehHTPut s1 ''k'' ORI_RPQ_TABLE_SUFFIX ''x'' overtaken_entry = Some s2"
    "\<forall>sc. \<exists>s3. server_zsetAdd s2 ''k'' ''x'' sc = Some s3 \<and>
       store_upd ORI_RPQ_TABLE_SUFFIX {''k''} ?s ''k'' ''x'' overtaken_entry (if sc = NaN then zscore ?s ''k'' ''x'' else Some sc) s3"
    using put_okE[OF s1(2)] .
  obtain sc where sc: "oz_SCORE overtaken_entry = Some sc" using overtaken_incr(2) by blast
  obtain s3 z where s3: "server_zsetAdd s2 ''k'' ''x'' sc = Some s3" "store_upd ORI_RPQ_TABLE_SUFFIX {''k''} ?s ''k'' ''x'' overtaken_entry z s3"
    using s2(2)[rule_format, of sc] by blast
  let ?t = "s3\<lparr>dirty := dirty s3 + 1\<rparr>"
  have t: "store_upd ORI_RPQ_TABLE_SUFFIX {''k''} ?s ''k'' ''x'' overtaken_entry z ?t" using s3(2) by (simp only: store_upd_dirty)
  have "ozincrby_effect ?s sample_oz_incr = Some ?t"
    using s1(1) s2(1) s3(1) sc overtaken_incr(1) by (simp add: ozincrby_effect_def arg_def GET_OZE_def PUT_OZE_def sample_oz_double del: oz_update_tags.simps)
  moreover have "ozrem_effect ?t sample_oz_rem = None"
  proof -
    have u: "store_inv ORI_RPQ_TABLE_SUFFIX {''k''} ?t" "elem ORI_RPQ_TABLE_SUFFIX ?t ''k'' ''x'' = Some overtaken_entry"
      using t unfolding store_upd_def by (simp_all del: store_upd_dirty)
    obtain t1 where t1: "rehHTGet ?t ''k'' ORI_RPQ_TABLE_SUFFIX ''x'' True ozeNew = Some (t1, Some overtaken_entry)"
      "put_ok ORI_RPQ_TABLE_SUFFIX {''k''} ?t t1 ''k'' ''x'' (zscore ?t ''k'' ''x'')"
      using store_modify[OF u(1), of "''k''" "''x''" ozeNew] unfolding u(2) by auto
    obtain e1 e2 where e: "oz_remove_tags [''0,1''] overtaken_entry = Some e1" "oze_innate e1 = None" "resort e1 = Some e2"
      "oz_LOOKUP e2" "oz_SCORE e2 = None" using overtaken_rem by blast
    obtain t2 where "rehHTPut t1 ''k'' ORI_RPQ_TABLE_SUFFIX ''x'' e2 = Some t2" using put_okE[OF t1(2)] .
    then show ?thesis using t1(1) e by (simp add: ozrem_effect_def arg_def GET_OZE_def PUT_OZE_def del: oz_remove_tags.simps)
  qed
  moreover have "REPLICATION_MODE ?t" using st(2) t by (simp add: store_upd_def senv_def REPLICATION_MODE_def)
  ultimately show ?thesis using st(2) crdt_command_replica[of ?s] crdt_command_replica[of ?t]
    by (simp add: oz_deliver_def sample_oz_msg ozincrbyCommand_def ozremCommand_def)
qed

end
