(* ===== verification/Spec2Isabelle.thy ===== *)
theory Spec2Isabelle
  imports RSet CommandTable OutputBuffer P2P RZsetDelivery ClusterTypes RListDelivery OZsetDelivery
begin

text \<open>
  A verification library for the replicated data types that CRDT-Redis adds to Redis 6.0.5. All
  file names are relative to src/redis-6.0.5/src.

  \<^bold>\<open>The program.\<close> Every server is a replica that accepts writes. A command of a replicated type has
  two phases (the macros of CRDT.h): the \<^emph>\<open>prepare\<close> phase runs on the server that the user talks
  to, checks the arguments and the preconditions, and extends the arguments by a clock; the \<^emph>\<open>effect\<close>
  phase runs there and, with the broadcast arguments, on every other replica, in whatever order the
  broadcasts of different replicas arrive. p2p.c connects the replicas and broadcasts, networking.c
  frames commands as bytes, server.c looks the handlers up. There are two sets (t_oset.c, t_rwfset.c, and
  t_rset.c, which the command table does not reach), three priority queues (t_ozset.c, t_rzset.c,
  t_rwfzset.c) and two lists (t_rlist.c, t_rwflist.c).

  \<^bold>\<open>Conventions of the model.\<close> \<open>None\<close> of an operation is a fault of the C code: a failed assertion, a
  null or dangling pointer, an index out of bounds, a read of an uninitialised variable, a loop that does not end. An
  error that the code reports to the client is a \<open>reply\<close>. A C \<open>int\<close> or \<open>long long\<close> is an \<open>int\<close>
  with the wrap-around written out (\<open>int32\<close>, \<open>int64\<close>), an \<open>unsigned long long\<close> a \<open>nat\<close> modulo \<open>2 ^ 64\<close>
  (\<open>uint64\<close>); where the code sizes a buffer with \<open>int\<close> arithmetic, an overflow is a fault (\<open>c_int\<close>). The
  table-driven conversions of util.c work on \<open>64 word\<close>. A \<open>double\<close> is a rational with rounding to 53 bits (\<open>DoubleArith\<close>). An \<open>sds\<close> is a \<open>string\<close>; a hash
  table is a map; a pointer to a list node of an element is an address (a \<open>nat\<close>), a pointer between elements of
  a list is the name of the element. A handler is a function on the server state and the client. The
  compiled configuration of CRDT_exp.h is modelled (\<open>CRDT_ELE_STATUS\<close> on, logging and counting off).

  \<^bold>\<open>Theories.\<close>
  \<^item> \<open>Prelude\<close>: C integers, shared lemmas and collections. \<open>CFormat\<close>: \<open>%d\<close>, \<open>atoi\<close>, \<open>strtol\<close>,
    \<open>string2ll\<close> (util.c). \<open>LLString\<close>: \<open>digits10\<close>, \<open>ll2string\<close> (util.c). \<open>DoubleArith\<close>, \<open>CDouble\<close>: doubles and
    \<open>string2d\<close>. \<open>SdsArgs\<close>: \<open>sdscatrepr\<close>, \<open>sdssplitargs\<close> (sds.c). Shown: the conversions are mutually inverse,
    never write out of bounds, and \<open>ll2string\<close> agrees with \<open>%d\<close>.
  \<^item> \<open>VectorClock\<close> (vector_clock.c), \<open>LamportClock\<close> (lamport_clock.h): comparison, join, readiness,
    text form. Shown: \<open>vc_cmp\<close> decides the pointwise order, \<open>lc_cmp\<close> is a total order for nonnegative
    values, the text forms are read back exactly.
  \<^item> \<open>SkipList\<close>, \<open>Zset\<close> (t_zset.c, ziplist.c): a skip list is the sequence of its nodes with their levels, a
    ziplist the sequence of its pairs. Shown: search, insertion, deletion and score update keep the order,
    both encodings and the conversion between them implement a finite map of scores, and the tail is
    the largest element (locale \<open>sorted_set\<close>).
  \<^item> \<open>Server\<close>: key space, clients, the macros of CRDT.h, element tables (RWFramework.c), the broadcast
    arguments, \<open>call\<close>. The locale \<open>crdt_store\<close> is what the types rely on: writing the metadata of an
    element and its score leaves all other elements alone.
  \<^item> \<open>Delivery\<close>: the contract of a replicated type whose effects commute (locales \<open>keyed_effects\<close>,
    \<open>commutative_effects\<close>), and what follows for sequences of messages. \<open>RWFramework\<close>: the header and the
    checks of RWFramework.h, the lattice of remove histories, and the contract of the framework types
    (\<open>stamped_effects\<close>, \<open>commuting_stamped_effects\<close>): only the messages with the newest remove history
    count. \<open>CausalBuffer\<close>: waiting lists and \<open>notifyLoop\<close> (locale \<open>causal_ops\<close>): commands are applied
    in causal order, and none waits once its predecessors have arrived. \<open>EntryPointer\<close>: the pointer to the winning
    entry that t_rzset.c and t_rlist.c maintain in the same way (locale \<open>entry_pointer\<close>).
  \<^item> \<open>OSet\<close> (t_oset.c), \<open>RWFSet\<close> (t_rwfset.c), \<open>RWFZset\<close> (t_rwfzset.c), \<open>RZset\<close> with \<open>RZsetCorrect\<close> and
    \<open>RZsetDelivery\<close> (t_rzset.c): all commands; the effects keep the invariants and do not fault, the outcome of
    any sequence of messages is described in terms of the messages, and replicas converge.
    For the two sets also what a user sees: acknowledgement, broadcast, rejection.
  \<^item> \<open>ListBasics\<close> (list_basics.h, list_basics.c, and the linking code that t_rlist.c and t_rwflist.c share),
    \<open>ListOrder\<close>: the order of positions, when \<open>constructLeid\<close> returns a position between its neighbours,
    and the locale \<open>linked_list\<close>: linking ends, keeps the list sorted and loses nothing. \<open>RWFList\<close>,
    \<open>RWFListCorrect\<close> (t_rwflist.c): replicas converge to the same list.
  \<^item> \<open>OZset\<close>, \<open>OZsetCorrect\<close>, \<open>OZsetDelivery\<close> (t_ozset.c): all commands; the pointers to the innate and the acquired
    entry lead to the greatest entries, the score is described in terms of the messages, and replicas
    converge when increments follow the adds they refer to.
  \<^item> \<open>RList\<close>, \<open>RListCorrect\<close>, \<open>RListDelivery\<close> (t_rlist.c): all commands; the list stays sorted, the field \<open>length\<close> counts the
    visible elements, the answer of \<open>rllist\<close> is described in terms of the commands applied, with an order of the updates
    of a property that is stated without the code, and replicas converge when the updates of a property are ordered. \<open>RSet\<close> (t_rset.c): all commands.
  \<^item> \<open>Protocol\<close>, \<open>ProtocolStream\<close> (networking.c): reading and parsing of commands, replies; whatever pieces a
    stream of broadcasts is cut into, exactly the commands sent are executed. \<open>OutputBuffer\<close>
    (networking.c): flags, limits, the static buffer and the reply list of a client and the write events; for a client that
    receives replies the buffers are a queue of bytes (locale \<open>byte_queue\<close>). \<open>P2P\<close> (p2p.c): \<open>replicate\<close>,
    the list of replicas, and the handshake from the bytes that are sent to the commands that are executed.
  \<^item> \<open>CommandTable\<close> (server.c): the entries of the fork and the dispatch. \<open>Cluster\<close>: the step relation of
    \<open>n\<close> servers, their output and the bytes under way, and the locales \<open>replicated_type\<close> and \<open>total_type\<close> whose lemmas lift
    a type to clusters; \<open>ClusterTypes\<close> interprets them for the two sets. This theory states the results for clusters.

  \<^bold>\<open>Bounds, fuel and termination.\<close> No definition uses fuel. Loops that always end are total functions with a
    termination proof: the walks of the skip list, \<open>ll2string\<close>, the protocol loops, \<open>write_loop\<close>, the notify
    loops, \<open>leid_index\<close>. Walks along \<open>next\<close> pointers may not end on a cyclic list; they are partial functions
    into \<open>option\<close>, and that they end on well-formed lists is proved. Hypotheses on values are those the code needs:
    clock values and identifiers in the range of \<open>int\<close> (a tag counter below \<open>2 ^ 31 - 1\<close>), at most 100 replicas
    (the buffer of \<open>sdsToVC\<close>), at most 1024 entries per position (the buffer of \<open>sdsToLeid\<close>),
    nonnegative values where clocks are compared by subtraction, at most \<open>2 ^ 30\<close> arguments in a broadcast (the \<open>int\<close>
    \<open>__capacity__\<close> of CRDT.h), scores that are whole numbers below \<open>2 ^ 53\<close>
    where sums are formed in different orders, elements of a list under unreserved names and one position and one content
    per identifier, above the position of the predecessor it names. The level of a new skip list node, the usable size of an allocated block and the results of
    connecting and writing are parameters or arbitrary arguments of the theorems.

  \<^bold>\<open>Not modelled.\<close> The rest of Redis (other data types, persistence, master-slave replication, cluster,
  sentinel, scripting, modules, eviction, expiry, transactions, authentication), which the replicated types do not call; the event
  loop and sockets, which the cluster replaces by writes and reads of arbitrary pieces; spans and ranks of
  skip lists and the byte layout of ziplists, which the fork does not observe; memory limits and deallocation; the
  switched-off measurement code; the experiment drivers; deps/.

  \<^bold>\<open>Simplifications.\<close> \<open>zslInsert\<close> and \<open>zslDeleteNode\<close> find the place on the levels as the code does, and then change the
  sequence of nodes instead of the \<open>forward\<close> pointers. A ziplist holds the score itself, not the text that \<open>zzlInsertAt\<close> prints and
  \<open>zzlGetScore\<close> reads back with 17 digits. The sizes of output buffers are unbounded numbers, so the assertion of networking.c that
  \<open>reply_bytes\<close> stays below \<open>SIZE_MAX\<close> is not represented, and a \<open>NULL\<close> node of the reply list is a case of the code but is put there
  by no modelled operation (\<open>addReplyDeferredLen\<close>). A replica client stays in the list of replicas, as in the code, where freeing it
  does not take it out.
\<close>

section \<open>Clusters\<close>

lemma oset_start_hist:
  "\<forall>i < n. fresh_server ORI_SET_TABLE_SUFFIX K (cl_node c i) \<and> replica_ok n (cl_node c i) \<Longrightarrow>
   \<forall>i < n. os_hist K [] (cl_node c i)"
  using fresh_os_hist by blast

lemma rwfset_start_hist:
  "\<forall>i < n. fresh_server RWF_SET_TABLE_SUFFIX K (cl_node c i) \<and> replica_ok n (cl_node c i) \<Longrightarrow>
   \<forall>i < n. rwfs_hist n K [] (cl_node c i)"
  using fresh_rwfs_hist by blast

text \<open>
  C1 (a cluster of observed-remove sets converges): start \<open>n\<close> connected replicas with empty sets, let
  users send any commands to any of them, and let output be written and read in any
  pieces and any interleaving. Whenever nothing is in an output buffer or on a connection, all replicas
  answer with the same sets.
\<close>

theorem oset_cluster_converges:
  assumes "cluster_start n c"
    "\<forall>i < n. fresh_server ORI_SET_TABLE_SUFFIX K (cl_node c i) \<and> replica_ok n (cl_node c i)" "cfg_ok cfg"
    "cluster_run n cfg oset_handlers (os_user_ok K) c c'" "cluster_quiet n c'" "i < n" "j < n" "k \<in> K"
  shows "zscore (cl_node c' i) k x = zscore (cl_node c' j) k x"
  using osc.reachable_agree[OF assms(1) oset_start_hist[OF assms(2)] assms(3-7)] assms(8) by (simp add: same_scores_def)

text \<open>
  C2 (a cluster of remove-win sets converges): the same for the remove-win set.
\<close>

theorem rwfset_cluster_converges:
  assumes "cluster_start n c"
    "\<forall>i < n. fresh_server RWF_SET_TABLE_SUFFIX K (cl_node c i) \<and> replica_ok n (cl_node c i)" "cfg_ok cfg"
    "cluster_run n cfg rwfset_handlers (rwfs_user_ok n K) c c'" "cluster_quiet n c'" "i < n" "j < n" "k \<in> K"
  shows "zscore (cl_node c' i) k x = zscore (cl_node c' j) k x"
  using rwfsc.reachable_agree[OF assms(1) rwfset_start_hist[OF assms(2)] assms(3-7)] assms(8) by (simp add: same_scores_def)

text \<open>
  C16 (the cluster becomes quiet): from every reachable state of a cluster of observed-remove
  sets the writes and reads that are still possible lead to a state in which nothing is under way,
  and all replicas agree there.
\<close>

theorem oset_cluster_drains:
  assumes "cluster_start n c"
    "\<forall>i < n. fresh_server ORI_SET_TABLE_SUFFIX K (cl_node c i) \<and> replica_ok n (cl_node c i)" "cfg_ok cfg"
    "cluster_run n cfg oset_handlers (os_user_ok K) c c'"
  shows "\<exists>c''. cluster_run n cfg oset_handlers (os_user_ok K) c' c'' \<and> cluster_quiet n c'' \<and>
    (\<forall>i < n. \<forall>j < n. same_scores K (cl_node c'' i) (cl_node c'' j))"
  by (rule osc.reachable_drain[OF assms(1) oset_start_hist[OF assms(2)] assms(3,4)])

text \<open>
  C17 (no fault in a cluster): in every reachable state of a cluster of remove-win sets a user
  command is executed without a fault, and so is the read of whatever piece of the bytes on a
  connection; the connection stays open and reports no protocol error.
\<close>

theorem rwfset_cluster_safe:
  assumes "cluster_start n c"
    "\<forall>i < n. fresh_server RWF_SET_TABLE_SUFFIX K (cl_node c i) \<and> replica_ok n (cl_node c i)" "cfg_ok cfg"
    "cluster_run n cfg rwfset_handlers (rwfs_user_ok n K) c c'" "i < n" "j < n" "i \<noteq> j"
    "cl_link c' i j = bs @ u" "length bs \<le> PROTO_IOBUF_LEN"
  shows "(\<forall>args. rwfs_user_ok n K (cl_node c' i) args \<longrightarrow> processCommand rwfset_handlers (cl_node c' i) (user_client args) \<noteq> None) \<and>
    (\<exists>s' q'. readQueryFromClient cfg (executing (replica_exec rwfset_handlers)) (cl_node c' j, cl_conn c' i j) bs = Some (s', q') \<and>
       \<not> closing q' \<and> errors q' = [])"
  using rwfsc.reachable_safe[OF assms(1) rwfset_start_hist[OF assms(2)] assms(3-6)] assms(7-9) by blast

text \<open>
  C20 (typed keyspace): in every reachable state of a cluster of observed-remove sets, on every replica,
  a key of a set holds nothing or a well-formed sorted set, the key of its metadata holds nothing or
  a hash table, and an element is in the sorted set, with its own value as score, exactly when its
  metadata has a current tag, none of which is among the removed ones.
\<close>

theorem oset_cluster_typed:
  assumes "cluster_start n c"
    "\<forall>i < n. fresh_server ORI_SET_TABLE_SUFFIX K (cl_node c i) \<and> replica_ok n (cl_node c i)" "cfg_ok cfg"
    "cluster_run n cfg oset_handlers (os_user_ok K) c c'" "i < n" "k \<in> K"
  shows "zset_slot (db (cl_node c' i) k) \<and> hash_slot (db (cl_node c' i) (k @ ORI_SET_TABLE_SUFFIX)) \<and>
    os_entry x (elem ORI_SET_TABLE_SUFFIX (cl_node c' i) k x) (zscore (cl_node c' i) k x)"
proof -
  obtain H where "os_hist K H (cl_node c' i)" using osc.reachable_hist[OF assms(1) oset_start_hist[OF assms(2)] assms(3-5)] .
  then show ?thesis using assms(6) by (simp add: os_hist_def oset_inv_def store_inv_def)
qed

section \<open>Witnesses\<close>

lemma small_cluster_ok:
  assumes "separated suf K"
  shows "\<forall>i < 2. fresh_server suf K (cl_node small_cluster i) \<and> replica_ok 2 (cl_node small_cluster i)"
  using small_cluster_fresh[OF assms] by (auto simp: replica_ok_def small_cluster_def started_server_def)

lemma default_proto_ok: "cfg_ok default_proto"
  by (simp add: cfg_ok_def default_proto_def)

text \<open>A user adds an element to the first replica.\<close>

lemma small_os_step:
  obtains c1 where "cluster_step 2 default_proto oset_handlers (os_user_ok {''k''}) small_cluster c1"
    "zscore (cl_node c1 0) ''k'' ''5'' \<noteq> None" "cluster_run 2 default_proto oset_handlers (os_user_ok {''k''}) small_cluster c1"
proof -
  let ?s = "cl_node small_cluster 0 :: ose server" and ?args = "[''osadd'', ''k'', ''5'']"
  have f: "fresh_server ORI_SET_TABLE_SUFFIX {''k''} ?s" by (rule small_cluster_fresh) (simp add: separated_def)
  note inv = fresh_oset_inv[OF f]
  have clk: "os_clock q ?s = 0" "p2p_id ?s = 0" "oset_view q ?s = ({}, {})" for q
    by (simp_all add: os_clock_def oset_view_def elem_def small_cluster_def started_server_def)
  have u: "os_user_ok {''k''} ?s ?args" using sample_value by (simp add: os_user_ok_def clk)
  let ?t = "lc_new 0 0"
  have nn: "lc_nonneg ?t" by (simp add: lc_nonneg_def lc_wf_def lc_new_def is_int32_def)
  have tx: "lcToSds ?t = ''0,0''" by (simp add: lcToSds_def lc_new_def text_eval)
  have rt: "sdsToLc (lcToSds ?t) = Some ?t" using nn by (simp add: lc_roundtrip)
  obtain s1 where s1: "osadd_prepare ?s ?args = Some (s1, Inr [lcToSds ?t])" "oset_inv {''k''} s1" "\<forall>q. oset_view q s1 = oset_view q ?s"
    using osadd_prepare_new[OF inv(1), of "''k''" "''5''" "''osadd''"] clk by auto
  obtain s2 where s2: "osadd_effect s1 [''osadd'', ''k'', ''5'', lcToSds ?t] = Some s2" "oset_inv {''k''} s2"
    "\<forall>q. oset_view q s2 = (if q = (''k'', ''5'') then (fst (oset_view q s1) \<union> ({?t} - snd (oset_view q s1)), snd (oset_view q s1)) else oset_view q s1)"
    using osadd_effect_spec[OF s1(2) _ rt nn sample_value, of "''k''" "''osadd''"] by auto
  let ?m = "[''osadd'', ''k'', ''5'', ''0,0'']"
  let ?s' = "s2\<lparr>replicas := replicationBroadcast (replicas s2) ?m\<rparr>"
  have call: "processCommand oset_handlers ?s (user_client ?args) =
      Some (?s', (user_client ?args)\<lparr>rargv := Some ?m, replies := [ReplyOk]\<rparr>)"
    using process_user[of ?args OsaddCommand oset_handlers osaddCommand ?s] s2(1)
      crdt_command_user[where prep = osadd_prepare and eff = osadd_effect, OF oset_inv_mode[OF inv(1)] s1(1)]
    by (simp add: dispatch_sets oset_handlers_def osaddCommand_def tx)
  have "sendable default_proto ?m"
    by (simp add: sendable_def wire_ok_def default_proto_def encode_command_def encode_bulk_def text_eval)
  then have "cluster_step 2 default_proto oset_handlers (os_user_ok {''k''}) small_cluster (set_node 0 ?s' small_cluster)"
    by (intro cluster_step.user[where user_ok = "os_user_ok {''k''}" and c = small_cluster and i = 0, OF _ u call]) simp_all
  moreover have "zscore ?s' ''k'' ''5'' \<noteq> None" using oset_present[OF s2(2), of "''k''" "''5''"] s2(3) s1(3) clk by simp
  ultimately show ?thesis using that by fastforce
qed

theorem oset_cluster_converges_witness:
  "\<exists>c1 c'. cluster_step 2 default_proto oset_handlers (os_user_ok {''k''}) small_cluster c1 \<and>
    zscore (cl_node c1 0) ''k'' ''5'' \<noteq> None \<and>
    cluster_run 2 default_proto oset_handlers (os_user_ok {''k''}) c1 c' \<and> cluster_quiet 2 c' \<and>
    zscore (cl_node c' 0) ''k'' ''5'' = zscore (cl_node c' 1) ''k'' ''5''"
proof -
  obtain c1 where c1: "cluster_step 2 default_proto oset_handlers (os_user_ok {''k''}) small_cluster c1"
    "zscore (cl_node c1 0) ''k'' ''5'' \<noteq> None" "cluster_run 2 default_proto oset_handlers (os_user_ok {''k''}) small_cluster c1"
    using small_os_step .
  have ok: "\<forall>i < 2. fresh_server ORI_SET_TABLE_SUFFIX {''k''} (cl_node small_cluster i) \<and> replica_ok 2 (cl_node small_cluster i)"
    by (rule small_cluster_ok) (simp add: separated_def)
  obtain c' where c': "cluster_run 2 default_proto oset_handlers (os_user_ok {''k''}) c1 c'" "cluster_quiet 2 c'"
    using osc.reachable_drain[OF small_cluster_start oset_start_hist[OF ok] default_proto_ok c1(3)] by blast
  have run: "cluster_run 2 default_proto oset_handlers (os_user_ok {''k''}) small_cluster c'"
    using c1(3) c'(1) by (rule rtranclp_trans)
  have "zscore (cl_node c' 0) ''k'' ''5'' = zscore (cl_node c' 1) ''k'' ''5''"
    by (rule oset_cluster_converges[OF small_cluster_start ok default_proto_ok run c'(2)]) simp_all
  then show ?thesis using c1 c' by blast
qed

lemma small_rwfs_prepare:
  "\<exists>s1. rwfsadd_prepare (cl_node small_cluster 0) [''rwfsadd'', ''k'', ''5''] = Some (s1, Inr [''0,0|0''])"
  by (simp add: rwfsadd_prepare_def CHECK_ARGC_def arg_def CHECK_CONTAINER_TYPE_def lookupKey_def small_cluster_def started_server_def
      CHECK_ARG_TYPE_INT_def sample_value GET_RWFSE_def rehHTGet_def getInnerHT_def dbAdd_def dbSet_def PREPARE_PRECOND_ADD_def EXISTS_def
      rwfseNew_def ADD_CR_NON_RMV_def server_vc_def vc_new_def vcToSds_def text_eval numeral_2_eq_2)

lemma small_rwfs_step:
  obtains c1 where "cluster_step 2 default_proto rwfset_handlers (rwfs_user_ok 2 {''k''}) small_cluster c1"
    "zscore (cl_node c1 0) ''k'' ''5'' \<noteq> None" "cluster_run 2 default_proto rwfset_handlers (rwfs_user_ok 2 {''k''}) small_cluster c1"
proof -
  let ?s = "cl_node small_cluster 0 :: rwfse server" and ?args = "[''rwfsadd'', ''k'', ''5'']"
  let ?m = "[''rwfsadd'', ''k'', ''5'', ''0,0|0'']"
  have f: "fresh_server RWF_SET_TABLE_SUFFIX {''k''} ?s" by (rule small_cluster_fresh) (simp add: separated_def)
  have r: "replica_ok 2 ?s" by (simp add: replica_ok_def small_cluster_def started_server_def)
  note inv = fresh_rwfset_inv[OF f r]
  have u: "rwfs_user_ok 2 {''k''} ?s ?args" by (simp add: rwfs_user_ok_def)
  have v: "getLongLongFromObject ''5'' \<noteq> None" using sample_value by simp
  have view: "rwfset_view 2 (''k'', ''5'') ?s = (replicate 2 0, PID_NEXIST)" by (rule inv(2)) simp
  obtain s1 where s1: "rwfsadd_prepare ?s ?args = Some (s1, Inr [''0,0|0''])" "rwfset_inv 2 {''k''} s1"
    "senv s1 = senv ?s" "\<forall>q. rwfset_view 2 q s1 = rwfset_view 2 q ?s" "vc_text 2 ''0,0|0''"
    using rwfsadd_prepare_new[OF inv(1) _ v, of "''k''" "''rwfsadd''"] small_rwfs_prepare view by auto
  obtain s2 where s2: "rwfsadd_effect s1 ?m = Some s2" "rwfset_inv 2 {''k''} s2"
    "\<forall>q. rwfset_view 2 q s2 = (if q = (''k'', ''5'') then rwfs_astep ?m (rwfset_view 2 q s1) else rwfset_view 2 q s1)"
    using rwfsadd_effect_spec[OF s1(2) _ s1(5) v refl, of "''k''"] by auto
  let ?s' = "s2\<lparr>replicas := replicationBroadcast (replicas s2) ?m\<rparr>"
  have call: "processCommand rwfset_handlers ?s (user_client ?args) =
      Some (?s', (user_client ?args)\<lparr>rargv := Some ?m, replies := [ReplyOk]\<rparr>)"
    using process_user[of ?args RwfsaddCommand rwfset_handlers rwfsaddCommand ?s] s2(1) r
      crdt_command_user[where prep = rwfsadd_prepare and eff = rwfsadd_effect, OF replica_ok_mode[OF r] s1(1)]
    by (simp add: dispatch_sets rwfset_handlers_def rwfsaddCommand_def)
  have "sendable default_proto ?m"
    by (simp add: sendable_def wire_ok_def default_proto_def encode_command_def encode_bulk_def text_eval)
  then have "cluster_step 2 default_proto rwfset_handlers (rwfs_user_ok 2 {''k''}) small_cluster (set_node 0 ?s' small_cluster)"
    by (intro cluster_step.user[where user_ok = "rwfs_user_ok 2 {''k''}" and c = small_cluster and i = 0, OF _ u call]) simp_all
  moreover have "snd (rwfset_view 2 (''k'', ''5'') s2) \<noteq> PID_NEXIST"
    using s2(3) s1(4) view by (simp add: rwfs_astep_def stamped_step_def msg_stamp_def last_vc_def sample_vc rwfs_act_def numeral_2_eq_2)
  then have "zscore ?s' ''k'' ''5'' \<noteq> None" using rwfset_member(2)[OF s2(2), of "''k''" "''5''"] by simp
  ultimately show ?thesis using that by fastforce
qed

theorem rwfset_cluster_converges_witness:
  "\<exists>c1 c'. cluster_step 2 default_proto rwfset_handlers (rwfs_user_ok 2 {''k''}) small_cluster c1 \<and>
    zscore (cl_node c1 0) ''k'' ''5'' \<noteq> None \<and>
    cluster_run 2 default_proto rwfset_handlers (rwfs_user_ok 2 {''k''}) c1 c' \<and> cluster_quiet 2 c' \<and>
    zscore (cl_node c' 0) ''k'' ''5'' = zscore (cl_node c' 1) ''k'' ''5''"
proof -
  obtain c1 where c1: "cluster_step 2 default_proto rwfset_handlers (rwfs_user_ok 2 {''k''}) small_cluster c1"
    "zscore (cl_node c1 0) ''k'' ''5'' \<noteq> None" "cluster_run 2 default_proto rwfset_handlers (rwfs_user_ok 2 {''k''}) small_cluster c1"
    using small_rwfs_step .
  have ok: "\<forall>i < 2. fresh_server RWF_SET_TABLE_SUFFIX {''k''} (cl_node small_cluster i) \<and> replica_ok 2 (cl_node small_cluster i)"
    by (rule small_cluster_ok) (simp add: separated_def)
  obtain c' where c': "cluster_run 2 default_proto rwfset_handlers (rwfs_user_ok 2 {''k''}) c1 c'" "cluster_quiet 2 c'"
    using rwfsc.reachable_drain[OF small_cluster_start rwfset_start_hist[OF ok] default_proto_ok c1(3)] by blast
  have run: "cluster_run 2 default_proto rwfset_handlers (rwfs_user_ok 2 {''k''}) small_cluster c'"
    using c1(3) c'(1) by (rule rtranclp_trans)
  have "zscore (cl_node c' 0) ''k'' ''5'' = zscore (cl_node c' 1) ''k'' ''5''"
    by (rule rwfset_cluster_converges[OF small_cluster_start ok default_proto_ok run c'(2)]) simp_all
  then show ?thesis using c1 c' by blast
qed

theorem oset_cluster_drains_witness:
  "\<exists>c1 c'. cluster_step 2 default_proto oset_handlers (os_user_ok {''k''}) small_cluster c1 \<and>
    zscore (cl_node c1 0) ''k'' ''5'' \<noteq> None \<and>
    cluster_run 2 default_proto oset_handlers (os_user_ok {''k''}) c1 c' \<and> cluster_quiet 2 c' \<and>
    (\<forall>i < 2. \<forall>j < 2. same_scores {''k''} (cl_node c' i) (cl_node c' j))"
proof -
  obtain c1 where c1: "cluster_step 2 default_proto oset_handlers (os_user_ok {''k''}) small_cluster c1"
    "zscore (cl_node c1 0) ''k'' ''5'' \<noteq> None" "cluster_run 2 default_proto oset_handlers (os_user_ok {''k''}) small_cluster c1"
    using small_os_step .
  have "\<forall>i < 2. fresh_server ORI_SET_TABLE_SUFFIX {''k''} (cl_node small_cluster i) \<and> replica_ok 2 (cl_node small_cluster i)"
    by (rule small_cluster_ok) (simp add: separated_def)
  then show ?thesis
    using oset_cluster_drains[OF small_cluster_start _ default_proto_ok c1(3)] c1 by blast
qed

theorem rwfset_cluster_safe_witness:
  "\<exists>c1. cluster_step 2 default_proto rwfset_handlers (rwfs_user_ok 2 {''k''}) small_cluster c1 \<and>
    processCommand rwfset_handlers (cl_node c1 0) (user_client [''rwfsadd'', ''k'', ''7'']) \<noteq> None \<and>
    (\<exists>s' q'. readQueryFromClient default_proto (executing (replica_exec rwfset_handlers)) (cl_node c1 1, cl_conn c1 0 1)
       (take 5 (cl_link c1 0 1)) = Some (s', q') \<and> \<not> closing q' \<and> errors q' = [])"
proof -
  obtain c1 where c1: "cluster_step 2 default_proto rwfset_handlers (rwfs_user_ok 2 {''k''}) small_cluster c1"
    "zscore (cl_node c1 0) ''k'' ''5'' \<noteq> None" "cluster_run 2 default_proto rwfset_handlers (rwfs_user_ok 2 {''k''}) small_cluster c1"
    using small_rwfs_step .
  have ok: "\<forall>i < 2. fresh_server RWF_SET_TABLE_SUFFIX {''k''} (cl_node small_cluster i) \<and> replica_ok 2 (cl_node small_cluster i)"
    by (rule small_cluster_ok) (simp add: separated_def)
  have "rwfs_user_ok 2 {''k''} (cl_node c1 0) [''rwfsadd'', ''k'', ''7'']" by (simp add: rwfs_user_ok_def)
  then show ?thesis
    using rwfset_cluster_safe[OF small_cluster_start ok default_proto_ok c1(3), of 0 1 "take 5 (cl_link c1 0 1)" "drop 5 (cl_link c1 0 1)"] c1(1)
    by auto
qed

theorem oset_cluster_typed_witness:
  "\<exists>c1. cluster_step 2 default_proto oset_handlers (os_user_ok {''k''}) small_cluster c1 \<and>
    zscore (cl_node c1 0) ''k'' ''5'' \<noteq> None \<and> zset_slot (db (cl_node c1 0) ''k'') \<and>
    os_entry ''5'' (elem ORI_SET_TABLE_SUFFIX (cl_node c1 0) ''k'' ''5'') (zscore (cl_node c1 0) ''k'' ''5'')"
proof -
  obtain c1 where c1: "cluster_step 2 default_proto oset_handlers (os_user_ok {''k''}) small_cluster c1"
    "zscore (cl_node c1 0) ''k'' ''5'' \<noteq> None" "cluster_run 2 default_proto oset_handlers (os_user_ok {''k''}) small_cluster c1"
    using small_os_step .
  have "\<forall>i < 2. fresh_server ORI_SET_TABLE_SUFFIX {''k''} (cl_node small_cluster i) \<and> replica_ok 2 (cl_node small_cluster i)"
    by (rule small_cluster_ok) (simp add: separated_def)
  then show ?thesis
    using oset_cluster_typed[OF small_cluster_start _ default_proto_ok c1(3), of 0 "''k''" "''5''"] c1 by auto
qed

end
